(* ===== verification/Prelude.thy ===== *)
theory Prelude
  imports Main "HOL-Library.AList" "HOL-Library.Char_ord" "HOL-Library.List_Lexorder"
begin

text \<open>
  Shared layer of the development: the Python exceptions that the modelled code raises,
  results and state-passing commands that carry them, dictionaries as association lists,
  sets as duplicate-free lists, and the string methods the code calls.

  A dictionary is an association list whose keys are distinct; its order is the iteration
  order.  A set that the code iterates over is a list without duplicates; its order is the
  iteration order.  Python leaves the iteration order of a set unspecified, so theorems
  quantify over the lists and never assume a particular order.

  A string is a list of characters with code points 0 to 255.
\<close>

section \<open>Exceptions, results and commands\<close>

text \<open>
  The exceptions that leave a modelled function.  \<open>Fatal\<close> is \<open>bb.fatal\<close> and
  \<open>bb.msg.fatal\<close>, which raise to the top of the program.  \<open>OutOfFuel\<close> is not a Python
  exception: it marks a run of a fuelled definition that was given too little fuel, and the
  theories that use fuel prove how much is enough.
\<close>

datatype exc =
    TypeError
  | ValueError
  | KeyError
  | IndexError
  | AttributeError
  | RuntimeError
  | VersionStringException
  | NotFoundError
  | NoProvider string
  | NoRProvider string
  | MultipleRProvider string
  | ParameterError
  | MalformedUrl
  | ExpansionError
  | TaskFailure "string list"
  | SkipRecipe
  | Fatal
  | OSError
  | OutOfFuel

type_synonym 'a res = "exc + 'a"

named_theorems res_simps

definition rbind :: "'a res \<Rightarrow> ('a \<Rightarrow> 'b res) \<Rightarrow> 'b res" where
  "rbind m f = (case m of Inl e \<Rightarrow> Inl e | Inr x \<Rightarrow> f x)"

lemma rbind_simps [simp]:
  "rbind (Inl e) f = Inl e"
  "rbind (Inr x) f = f x"
  by (simp_all add: rbind_def)

lemma rbind_Inr_iff [res_simps]: "rbind m f = Inr y \<longleftrightarrow> (\<exists>x. m = Inr x \<and> f x = Inr y)"
  by (cases m) auto

lemma rbind_InrE:
  assumes "rbind m f = Inr y"
  obtains x where "m = Inr x" "f x = Inr y"
  using assms by (auto simp: rbind_Inr_iff)

lemma rbind_Inl_iff [res_simps]:
  "rbind m f = Inl e \<longleftrightarrow> m = Inl e \<or> (\<exists>x. m = Inr x \<and> f x = Inl e)"
  by (cases m) auto

lemma rbind_cong [fundef_cong]:
  "m = m' \<Longrightarrow> (\<And>x. m' = Inr x \<Longrightarrow> f x = f' x) \<Longrightarrow> rbind m f = rbind m' f'"
  by (cases m') auto

text \<open>\<open>[f(x) for x in xs]\<close>, where \<open>f\<close> may raise.\<close>

fun rmap :: "('a \<Rightarrow> 'b res) \<Rightarrow> 'a list \<Rightarrow> 'b list res" where
  "rmap f [] = Inr []"
| "rmap f (x # xs) = rbind (f x) (\<lambda>y. rbind (rmap f xs) (\<lambda>ys. Inr (y # ys)))"

lemma rmap_cong [fundef_cong]:
  "xs = ys \<Longrightarrow> (\<And>x. x \<in> set ys \<Longrightarrow> f x = g x) \<Longrightarrow> rmap f xs = rmap g ys"
  by (induction xs arbitrary: ys) auto

lemma rmap_Inr: "(\<And>x. x \<in> set xs \<Longrightarrow> f x = Inr (g x)) \<Longrightarrow> rmap f xs = Inr (map g xs)"
  by (induction xs) auto

text \<open>A loop \<open>for x in xs: s = f(x, s)\<close> whose body may raise.\<close>

fun rfold :: "('a \<Rightarrow> 's \<Rightarrow> 's res) \<Rightarrow> 'a list \<Rightarrow> 's \<Rightarrow> 's res" where
  "rfold f [] s = Inr s"
| "rfold f (x # xs) s = rbind (f x s) (rfold f xs)"

lemma rfold_cong [fundef_cong]:
  "xs = ys \<Longrightarrow> s = t \<Longrightarrow> (\<And>x u. x \<in> set ys \<Longrightarrow> f x u = g x u) \<Longrightarrow> rfold f xs s = rfold g ys t"
  by (induction xs arbitrary: ys s t) (auto intro!: rbind_cong)

lemma rfold_append: "rfold f (xs @ ys) s = rbind (rfold f xs s) (rfold f ys)"
  by (induction xs arbitrary: s) (simp_all add: rbind_def split: sum.split)

lemma rfold_inv:
  assumes "rfold f xs s = Inr t" and "P s"
    and "\<And>x u v. x \<in> set xs \<Longrightarrow> P u \<Longrightarrow> f x u = Inr v \<Longrightarrow> P v"
  shows "P t"
  using assms
proof (induction xs arbitrary: s)
  case Nil
  then show ?case by simp
next
  case (Cons x xs)
  from Cons.prems(1) obtain u where u: "f x s = Inr u" "rfold f xs u = Inr t"
    by (auto simp: res_simps)
  have "P u" using Cons.prems(2,3) u(1) by (metis list.set_intros(1))
  then show ?case using Cons.IH [OF u(2)] Cons.prems(3) by (meson list.set_intros(2))
qed

text \<open>
  A command works on a state that keeps its changes when an exception is raised: it returns
  the state reached and the exception, if any.
\<close>

type_synonym 's cmd = "'s \<times> exc option"

definition cseq :: "'s cmd \<Rightarrow> ('s \<Rightarrow> 's cmd) \<Rightarrow> 's cmd" where
  "cseq m f = (case snd m of None \<Rightarrow> f (fst m) | Some e \<Rightarrow> m)"

lemma cseq_simps [simp]:
  "cseq (s, None) f = f s"
  "cseq (s, Some e) f = (s, Some e)"
  by (simp_all add: cseq_def)

lemma cseq_cong [fundef_cong]:
  "m = m' \<Longrightarrow> (\<And>s. m' = (s, None) \<Longrightarrow> f s = f' s) \<Longrightarrow> cseq m f = cseq m' f'"
  by (cases m') (auto simp: cseq_def split: option.split)

fun cfold :: "('a \<Rightarrow> 's \<Rightarrow> 's cmd) \<Rightarrow> 'a list \<Rightarrow> 's \<Rightarrow> 's cmd" where
  "cfold f [] s = (s, None)"
| "cfold f (x # xs) s = cseq (f x s) (cfold f xs)"

lemma cfold_cong [fundef_cong]:
  "xs = ys \<Longrightarrow> s = t \<Longrightarrow> (\<And>x u. x \<in> set ys \<Longrightarrow> f x u = g x u) \<Longrightarrow> cfold f xs s = cfold g ys t"
  by (induction xs arbitrary: ys s t) (auto intro!: cseq_cong)

lemma cseq_inv:
  "P (fst m) \<Longrightarrow> (\<And>s. m = (s, None) \<Longrightarrow> P s \<Longrightarrow> P (fst (f s))) \<Longrightarrow> P (fst (cseq m f))"
  by (cases m) (auto simp: cseq_def split: option.split)

lemma cfold_inv:
  "P s \<Longrightarrow> (\<And>x u. x \<in> set xs \<Longrightarrow> P u \<Longrightarrow> P (fst (f x u))) \<Longrightarrow> P (fst (cfold f xs s))"
proof (induction xs arbitrary: s)
  case Nil
  then show ?case by simp
next
  case (Cons x xs)
  have "P (fst (f x s))" using Cons.prems by simp
  moreover have "P (fst (cfold f xs t))" if "P t" for t
    using Cons.IH [OF that] Cons.prems(2) by simp
  ultimately show ?case by (simp add: cseq_inv)
qed

lemma cseq_NoneE:
  assumes "cseq m f = (t, None)"
  obtains s where "m = (s, None)" "f s = (t, None)"
  using assms by (cases m) (auto simp: cseq_def split: option.splits)

lemma cfold_None_inv:
  "cfold f xs s = (t, None) \<Longrightarrow> P s \<Longrightarrow>
    (\<And>x u v. x \<in> set xs \<Longrightarrow> P u \<Longrightarrow> f x u = (v, None) \<Longrightarrow> P v) \<Longrightarrow> P t"
proof (induction xs arbitrary: s)
  case Nil
  then show ?case by simp
next
  case (Cons x xs)
  from Cons.prems(1) obtain u where u: "f x s = (u, None)" "cfold f xs u = (t, None)"
    by (auto elim: cseq_NoneE)
  have "P u" using Cons.prems(2,3) u(1) by (metis list.set_intros(1))
  then show ?case using Cons.IH [OF u(2)] Cons.prems(3) by (meson list.set_intros(2))
qed

lemma cseq_no_exc: "snd m \<noteq> Some e \<Longrightarrow> snd (f (fst m)) \<noteq> Some e \<Longrightarrow> snd (cseq m f) \<noteq> Some e"
  by (auto simp: cseq_def split: option.split)

text \<open>A loop whose steps never raise \<open>e\<close> does not raise \<open>e\<close>.\<close>

lemma cfold_no_exc:
  "P s \<Longrightarrow> (\<And>x u. x \<in> set xs \<Longrightarrow> P u \<Longrightarrow> P (fst (f x u)) \<and> snd (f x u) \<noteq> Some e) \<Longrightarrow> snd (cfold f xs s) \<noteq> Some e"
proof (induction xs arbitrary: s)
  case Nil
  then show ?case by simp
next
  case (Cons x xs)
  obtain u o1 where u: "f x s = (u, o1)" by (cases "f x s")
  have "P u" "o1 \<noteq> Some e" using Cons.prems(2) [of x s] Cons.prems(1) u by auto
  moreover have "snd (cfold f xs u) \<noteq> Some e"
    using Cons.IH [OF \<open>P u\<close>] Cons.prems(2) by simp
  ultimately show ?case using u by (cases o1) simp_all
qed

section \<open>Dictionaries\<close>

type_synonym ('k, 'v) dict = "('k \<times> 'v) list"

abbreviation dget :: "('k, 'v) dict \<Rightarrow> 'k \<Rightarrow> 'v option" where
  "dget \<equiv> map_of"

abbreviation dset :: "'k \<Rightarrow> 'v \<Rightarrow> ('k, 'v) dict \<Rightarrow> ('k, 'v) dict" where
  "dset \<equiv> AList.update"

abbreviation ddel :: "'k \<Rightarrow> ('k, 'v) dict \<Rightarrow> ('k, 'v) dict" where
  "ddel \<equiv> AList.delete"

definition dkeys :: "('k, 'v) dict \<Rightarrow> 'k list" where
  "dkeys d = map fst d"

definition dwf :: "('k, 'v) dict \<Rightarrow> bool" where
  "dwf d = distinct (dkeys d)"

text \<open>\<open>d[k]\<close>, which raises \<open>KeyError\<close>, and \<open>d.get(k, v)\<close>.\<close>

definition dlookup :: "('k, 'v) dict \<Rightarrow> 'k \<Rightarrow> 'v res" where
  "dlookup d k = (case dget d k of None \<Rightarrow> Inl KeyError | Some v \<Rightarrow> Inr v)"

definition dgetd :: "('k, 'v) dict \<Rightarrow> 'k \<Rightarrow> 'v \<Rightarrow> 'v" where
  "dgetd d k v = (case dget d k of None \<Rightarrow> v | Some w \<Rightarrow> w)"

lemma dlookup_Inr [simp]: "dlookup d k = Inr v \<longleftrightarrow> dget d k = Some v"
  by (simp add: dlookup_def split: option.split)

lemma dlookup_Inl [simp]: "dlookup d k = Inl e \<longleftrightarrow> dget d k = None \<and> e = KeyError"
  by (auto simp: dlookup_def split: option.split)

lemma dget_dset [simp]: "dget (dset k v d) k' = (if k' = k then Some v else dget d k')"
  by (simp add: update_conv')

lemma dget_ddel [simp]: "dget (ddel k d) k' = (if k' = k then None else dget d k')"
  by (simp add: delete_conv')

lemma dgetd_dset [simp]: "dgetd (dset k v d) k' w = (if k' = k then v else dgetd d k' w)"
  by (simp add: dgetd_def)

lemma dkeys_simps [simp]:
  "dkeys [] = []"
  "dkeys ((k, v) # d) = k # dkeys d"
  "dkeys (d @ d') = dkeys d @ dkeys d'"
  "dkeys (map (\<lambda>(k, v). (k, f k v)) d) = dkeys d"
  by (simp_all add: dkeys_def comp_def case_prod_unfold)

lemma dget_None_iff: "dget d k = None \<longleftrightarrow> k \<notin> set (dkeys d)"
  by (metis dkeys_def map_of_eq_None_iff set_map)

lemma dget_SomeD: "dget d k = Some v \<Longrightarrow> k \<in> set (dkeys d)"
  by (metis dget_None_iff option.distinct(1))

lemma dget_keyE:
  assumes "k \<in> set (dkeys d)"
  obtains v where "dget d k = Some v"
  using assms dget_None_iff [of d k] by (cases "dget d k") auto

lemma dwf_dset [simp, intro]: "dwf d \<Longrightarrow> dwf (dset k v d)"
  unfolding dwf_def dkeys_def by (rule distinct_update)

lemma dwf_ddel [simp, intro]: "dwf d \<Longrightarrow> dwf (ddel k d)"
  unfolding dwf_def dkeys_def by (rule distinct_delete)

lemma dkeys_dset [simp]: "set (dkeys (dset k v d)) = insert k (set (dkeys d))"
  unfolding dkeys_def by (induction d) auto

lemma dkeys_ddel [simp]: "set (dkeys (ddel k d)) = set (dkeys d) - {k}"
  unfolding dkeys_def by (induction d) auto

lemma dkeys_dset_present: "k \<in> set (dkeys d) \<Longrightarrow> dkeys (dset k v d) = dkeys d"
  unfolding dkeys_def by (induction d) auto

lemma dset_absent: "k \<notin> set (dkeys d) \<Longrightarrow> dset k v d = d @ [(k, v)]"
  unfolding dkeys_def by (induction d) auto

lemma dget_map [simp]: "dget (map (\<lambda>(k, v). (k, f k v)) d) k = map_option (f k) (dget d k)"
  by (induction d) auto

lemma dwf_dget: "dwf d \<Longrightarrow> (k, v) \<in> set d \<longleftrightarrow> dget d k = Some v"
  by (auto simp: dwf_def dkeys_def)

text \<open>These rules ask for distinct keys whenever a key is looked up, which makes the simplifier loop on some goals.\<close>

declare map_of_eq_Some_iff [simp del] Some_eq_map_of_iff [simp del]

section \<open>Sets that are iterated over\<close>

definition sadd :: "'a \<Rightarrow> 'a list \<Rightarrow> 'a list" where
  "sadd x xs = (if x \<in> set xs then xs else xs @ [x])"

definition sunion :: "'a list \<Rightarrow> 'a list \<Rightarrow> 'a list" where
  "sunion xs ys = fold sadd ys xs"

lemma set_sadd [simp]: "set (sadd x xs) = insert x (set xs)"
  by (auto simp: sadd_def)

lemma distinct_sadd [simp, intro]: "distinct xs \<Longrightarrow> distinct (sadd x xs)"
  by (simp add: sadd_def)

lemma set_fold_sadd [simp]: "set (fold sadd ys xs) = set xs \<union> set ys"
  by (induction ys arbitrary: xs) auto

lemma distinct_fold_sadd [simp, intro]: "distinct xs \<Longrightarrow> distinct (fold sadd ys xs)"
  by (induction ys arbitrary: xs) auto

lemma set_sunion [simp]: "set (sunion xs ys) = set xs \<union> set ys"
  by (simp add: sunion_def)

lemma distinct_sunion [simp, intro]: "distinct xs \<Longrightarrow> distinct (sunion xs ys)"
  by (simp add: sunion_def)

text \<open>\<open>xs.remove(x)\<close> for a list that holds \<open>x\<close>: the first occurrence goes.\<close>

lemma set_remove1_distinct: "distinct xs \<Longrightarrow> set (remove1 x xs) = set xs - {x}"
  by simp

section \<open>Strings\<close>

text \<open>White space of \<open>str.split()\<close>, \<open>string.digits\<close> and \<open>string.ascii_letters\<close>.\<close>

definition char_ws :: "char \<Rightarrow> bool" where
  "char_ws c = (c \<in> set [CHR 0x09, CHR 0x0A, CHR 0x0B, CHR 0x0C, CHR 0x0D, CHR 0x1C, CHR 0x1D,
     CHR 0x1E, CHR 0x1F, CHR 0x20, CHR 0x85, CHR 0xA0])"

definition char_digit :: "char \<Rightarrow> bool" where
  "char_digit c = (c \<in> set ''0123456789'')"

definition char_alpha :: "char \<Rightarrow> bool" where
  "char_alpha c = (c \<in> set ''abcdefghijklmnopqrstuvwxyzABCDEFGHIJKLMNOPQRSTUVWXYZ'')"

text \<open>The value of a digit: its position in \<open>string.digits\<close>.\<close>

definition digit_val :: "char \<Rightarrow> nat" where
  "digit_val c = length (takeWhile (\<lambda>d. d \<noteq> c) ''0123456789'')"

fun digits_val :: "nat \<Rightarrow> string \<Rightarrow> nat" where
  "digits_val n [] = n"
| "digits_val n (c # cs) = digits_val (10 * n + digit_val c) cs"

definition startswith :: "string \<Rightarrow> string \<Rightarrow> bool" where
  "startswith s p = (take (length p) s = p)"

definition endswith :: "string \<Rightarrow> string \<Rightarrow> bool" where
  "endswith s p = (length p \<le> length s \<and> drop (length s - length p) s = p)"

text \<open>\<open>s.strip(chars)\<close> and \<open>s.strip()\<close>.\<close>

definition rstrip_by :: "(char \<Rightarrow> bool) \<Rightarrow> string \<Rightarrow> string" where
  "rstrip_by p s = rev (dropWhile p (rev s))"

definition strip_by :: "(char \<Rightarrow> bool) \<Rightarrow> string \<Rightarrow> string" where
  "strip_by p s = rstrip_by p (dropWhile p s)"

text \<open>\<open>s.split()\<close>: the maximal runs of characters that are not white space.\<close>

fun split_ws_acc :: "string \<Rightarrow> string \<Rightarrow> string list" where
  "split_ws_acc acc [] = (if acc = [] then [] else [rev acc])"
| "split_ws_acc acc (c # cs) =
     (if char_ws c then (if acc = [] then split_ws_acc [] cs else rev acc # split_ws_acc [] cs)
      else split_ws_acc (c # acc) cs)"

definition split_ws :: "string \<Rightarrow> string list" where
  "split_ws s = split_ws_acc [] s"

text \<open>\<open>s.split(c)\<close> for a one-character separator; never the empty list.\<close>

fun split_on :: "char \<Rightarrow> string \<Rightarrow> string list" where
  "split_on x [] = [[]]"
| "split_on x (c # cs) =
     (if c = x then [] # split_on x cs
      else (case split_on x cs of [] \<Rightarrow> [[c]] | w # ws \<Rightarrow> (c # w) # ws))"

text \<open>\<open>s.rsplit(c, 1)\<close> as the pair of the part before and after the last \<open>c\<close>; \<open>None\<close> when \<open>c\<close> does not occur.\<close>

definition rsplit1 :: "char \<Rightarrow> string \<Rightarrow> (string \<times> string) option" where
  "rsplit1 x s =
     (if x \<in> set s
      then Some (rev (tl (dropWhile (\<lambda>c. c \<noteq> x) (rev s))), rev (takeWhile (\<lambda>c. c \<noteq> x) (rev s)))
      else None)"

text \<open>\<open>sep.join(ws)\<close>.\<close>

fun join_with :: "string \<Rightarrow> string list \<Rightarrow> string" where
  "join_with sep [] = []"
| "join_with sep [w] = w"
| "join_with sep (w # v # ws) = w @ sep @ join_with sep (v # ws)"

text \<open>\<open>int(s)\<close> for a string (the language versions the program supports reject underscores).\<close>

definition py_int :: "string \<Rightarrow> int res" where
  "py_int s =
     (case strip_by char_ws s of
        [] \<Rightarrow> Inl ValueError
      | c # cs \<Rightarrow>
          (if c = CHR ''-'' then
             (if cs \<noteq> [] \<and> list_all char_digit cs then Inr (- int (digits_val 0 cs)) else Inl ValueError)
           else if c = CHR ''+'' then
             (if cs \<noteq> [] \<and> list_all char_digit cs then Inr (int (digits_val 0 cs)) else Inl ValueError)
           else if list_all char_digit (c # cs) then Inr (int (digits_val 0 (c # cs)))
           else Inl ValueError))"

lemma split_on_not_Nil [simp]: "split_on x s \<noteq> []"
  by (cases s) (auto split: list.split)

lemma split_on_no_sep: "x \<notin> set s \<Longrightarrow> split_on x s = [s]"
  by (induction s) auto

lemma split_on_append:
  "x \<notin> set u \<Longrightarrow> split_on x (u @ x # v) = u # split_on x v"
  by (induction u) (auto split: list.split)

lemma rsplit1_append: "x \<notin> set v \<Longrightarrow> rsplit1 x (u @ x # v) = Some (u, v)"
proof -
  assume "x \<notin> set v"
  then have nv: "\<And>c. c \<in> set (rev v) \<Longrightarrow> c \<noteq> x" by auto
  have "takeWhile (\<lambda>c. c \<noteq> x) (rev v @ x # rev u) = rev v @ takeWhile (\<lambda>c. c \<noteq> x) (x # rev u)"
    using nv by (rule takeWhile_append2)
  moreover have "dropWhile (\<lambda>c. c \<noteq> x) (rev v @ x # rev u) = dropWhile (\<lambda>c. c \<noteq> x) (x # rev u)"
    using nv by (rule dropWhile_append2)
  ultimately show ?thesis by (simp add: rsplit1_def)
qed

lemma rsplit1_SomeD:
  assumes "rsplit1 x s = Some (u, v)"
  shows "s = u @ x # v \<and> x \<notin> set v"
proof -
  from assms have "x \<in> set s" by (auto simp: rsplit1_def split: if_splits)
  then obtain a b where s: "s = a @ x # b" and b: "x \<notin> set b"
    by (meson split_list_last)
  with assms have "(u, v) = (a, b)" by (simp add: rsplit1_append)
  with s b show ?thesis by simp
qed

lemma rsplit1_None: "rsplit1 x s = None \<longleftrightarrow> x \<notin> set s"
  by (simp add: rsplit1_def)

lemma startswith_append [simp]: "startswith (p @ s) p"
  by (simp add: startswith_def)

lemma startswith_iff: "startswith s p \<longleftrightarrow> (\<exists>t. s = p @ t)"
  unfolding startswith_def by (metis append_take_drop_id append_eq_conv_conj)

lemma endswith_append [simp]: "endswith (s @ p) p"
  by (simp add: endswith_def)

lemma endswith_iff: "endswith s p \<longleftrightarrow> (\<exists>t. s = t @ p)"
  unfolding endswith_def
  by (metis append_take_drop_id diff_add_inverse2 append_eq_conv_conj le_add2 length_append)

end
