(* ===== verification/TaskIds.thy ===== *)
theory TaskIds
  imports Prelude
begin

text \<open>
  Task identifiers and the task statistics of \<open>bitbake/lib/bb/runqueue.py\<close>:
  \<open>fn_from_tid\<close>, \<open>taskname_from_tid\<close>, \<open>split_tid\<close>, \<open>split_tid_mcfn\<close>, \<open>build_tid\<close> and
  \<open>RunQueueStats\<close>; and the virtual file names of \<open>bitbake/lib/bb/cache.py\<close>:
  \<open>virtualfn2realfn\<close>, \<open>realfn2virtual\<close> and \<open>variant2virtual\<close>.
\<close>

section \<open>Joining and splitting at one character\<close>

lemma join_split_on: "join_with [x] (split_on x s) = s"
proof (induction s)
  case Nil
  then show ?case by simp
next
  case (Cons c s)
  obtain w ws where ws: "split_on x s = w # ws" by (cases "split_on x s") simp_all
  show ?case
  proof (cases "c = x")
    case True
    with ws Cons show ?thesis by (simp add: ws)
  next
    case False
    with ws Cons show ?thesis by (cases ws) auto
  qed
qed

lemma split_on_last:
  "x \<notin> set v \<Longrightarrow> split_on x (u @ x # v) = split_on x u @ [v]"
proof (induction u)
  case Nil
  then show ?case by (simp add: split_on_no_sep)
next
  case (Cons c u)
  obtain w ws where ws: "split_on x u = w # ws" by (cases "split_on x u") simp_all
  show ?case using Cons ws by auto
qed

section \<open>Task identifiers\<close>

definition colon :: char where
  "colon = CHR '':''"

definition mc_prefix :: string where
  "mc_prefix = ''multiconfig:''"

lemma mc_prefix_split: "mc_prefix = ''multiconfig'' @ [colon]"
  by (simp add: mc_prefix_def colon_def)

definition fn_from_tid :: "string \<Rightarrow> string" where
  "fn_from_tid tid = (case rsplit1 colon tid of None \<Rightarrow> tid | Some (fn, t) \<Rightarrow> fn)"

definition taskname_from_tid :: "string \<Rightarrow> string res" where
  "taskname_from_tid tid = (case rsplit1 colon tid of None \<Rightarrow> Inl IndexError | Some (fn, t) \<Rightarrow> Inr t)"

definition split_tid_mcfn :: "string \<Rightarrow> (string \<times> string \<times> string \<times> string) res" where
  "split_tid_mcfn tid =
     (if startswith tid mc_prefix then
        let elems = split_on colon tid;
            mc = elems ! 1;
            fn = join_with [colon] (butlast (drop 2 elems));
            taskname = last elems
        in Inr (mc, fn, taskname, mc_prefix @ mc @ [colon] @ fn)
      else (case rsplit1 colon tid of
              None \<Rightarrow> Inl IndexError
            | Some (fn, taskname) \<Rightarrow> Inr ([], fn, taskname, fn)))"

definition split_tid :: "string \<Rightarrow> (string \<times> string \<times> string) res" where
  "split_tid tid = rbind (split_tid_mcfn tid) (\<lambda>(mc, fn, taskname, _). Inr (mc, fn, taskname))"

definition build_tid :: "string \<Rightarrow> string \<Rightarrow> string \<Rightarrow> string" where
  "build_tid mc fn taskname =
     (if mc \<noteq> [] then mc_prefix @ mc @ [colon] @ fn @ [colon] @ taskname
      else fn @ [colon] @ taskname)"

lemma fn_from_tid_build [simp]: "colon \<notin> set t \<Longrightarrow> fn_from_tid (fn @ colon # t) = fn"
  by (simp add: fn_from_tid_def rsplit1_append)

lemma taskname_from_tid_build [simp]: "colon \<notin> set t \<Longrightarrow> taskname_from_tid (fn @ colon # t) = Inr t"
  by (simp add: taskname_from_tid_def rsplit1_append)

lemma split_tid_mcfn_plain:
  "\<not> startswith (fn @ colon # t) mc_prefix \<Longrightarrow> colon \<notin> set t \<Longrightarrow>
   split_tid_mcfn (fn @ colon # t) = Inr ([], fn, t, fn)"
  by (simp add: split_tid_mcfn_def rsplit1_append)

lemma split_mc: "colon \<notin> set mc \<Longrightarrow> split_on colon (mc_prefix @ mc @ colon # s) = ''multiconfig'' # mc # split_on colon s"
  unfolding mc_prefix_split
  using split_on_append [of colon "''multiconfig''" "mc @ colon # s"] split_on_append [of colon mc s]
  by (simp add: colon_def)

lemma split_tid_mcfn_mc:
  assumes "colon \<notin> set mc" "colon \<notin> set t"
  shows "split_tid_mcfn (mc_prefix @ mc @ colon # fn @ colon # t) =
    Inr (mc, fn, t, mc_prefix @ mc @ colon # fn)"
proof -
  have "split_on colon (mc_prefix @ mc @ colon # fn @ colon # t) =
      ''multiconfig'' # mc # split_on colon fn @ [t]"
    using split_mc [OF assms(1), of "fn @ colon # t"] split_on_last [OF assms(2), of fn] by simp
  then show ?thesis by (simp add: split_tid_mcfn_def join_split_on)
qed

text \<open>A file name that \<open>build_tid\<close> and \<open>split_tid\<close> treat as belonging to the default configuration.\<close>

definition plain_fn :: "string \<Rightarrow> bool" where
  "plain_fn fn \<longleftrightarrow> \<not> startswith (fn @ [colon]) mc_prefix"

lemma startswith_colon: "startswith (fn @ colon # t) mc_prefix \<longleftrightarrow> startswith (fn @ [colon]) mc_prefix"
proof
  assume "startswith (fn @ [colon]) mc_prefix"
  then obtain r where "fn @ [colon] = mc_prefix @ r" by (auto simp: startswith_iff)
  then have "fn @ colon # t = mc_prefix @ (r @ t)"
    by (metis append.assoc append_Cons append_Nil)
  then show "startswith (fn @ colon # t) mc_prefix" unfolding startswith_iff by (rule exI)
next
  assume "startswith (fn @ colon # t) mc_prefix"
  then obtain r where r: "fn @ colon # t = ''multiconfig'' @ colon # r"
    by (auto simp: startswith_iff mc_prefix_split)
  have nc: "colon \<notin> set ''multiconfig''" by (simp add: colon_def)
  from r consider us where "fn = ''multiconfig'' @ us" "us @ colon # t = colon # r"
    | us where "fn @ us = ''multiconfig''" "colon # t = us @ colon # r"
    unfolding append_eq_append_conv2 by blast
  then show "startswith (fn @ [colon]) mc_prefix"
  proof cases
    case 1
    then show ?thesis by (cases us) (auto simp: startswith_iff mc_prefix_split)
  next
    case 2
    have "us = []"
    proof (rule ccontr)
      assume "us \<noteq> []"
      with 2(2) have "colon \<in> set us" by (cases us) auto
      with 2(1) nc show False by (metis Un_iff set_append)
    qed
    with 2 show ?thesis by (simp add: mc_prefix_split startswith_def)
  qed
qed

section \<open>Virtual file names\<close>

definition virtual_prefix :: string where
  "virtual_prefix = ''virtual:''"

definition virtualfn2realfn :: "string \<Rightarrow> string \<times> string \<times> string" where
  "virtualfn2realfn virtualfn =
     (let is_mc = startswith virtualfn mc_prefix;
          elems = split_on colon virtualfn;
          mc = (if is_mc then elems ! 1 else []);
          v = (if is_mc then join_with [colon] (drop 2 elems) else virtualfn);
          velems = split_on colon v
      in if startswith v virtual_prefix
         then (last velems, join_with [colon] (butlast (tl velems)), mc)
         else (v, [], mc))"

definition realfn2virtual :: "string \<Rightarrow> string \<Rightarrow> string \<Rightarrow> string" where
  "realfn2virtual realfn cls mc =
     (let r = (if cls \<noteq> [] then virtual_prefix @ cls @ [colon] @ realfn else realfn)
      in if mc \<noteq> [] then mc_prefix @ mc @ [colon] @ r else r)"

definition variant2virtual :: "string \<Rightarrow> string \<Rightarrow> string res" where
  "variant2virtual realfn variant =
     (if variant = [] then Inr realfn
      else if startswith variant mc_prefix then
        let elems = split_on colon variant
        in if length elems \<le> 2 then Inl IndexError
           else if elems ! 2 \<noteq> [] then
             Inr (mc_prefix @ (elems ! 1) @ [colon] @ virtual_prefix @ join_with [colon] (drop 2 elems) @ [colon] @ realfn)
           else Inr (mc_prefix @ (elems ! 1) @ [colon] @ realfn)
      else Inr (virtual_prefix @ variant @ [colon] @ realfn))"

lemma split_virtual: "split_on colon (virtual_prefix @ s) = ''virtual'' # split_on colon s"
  using split_on_append [of colon "''virtual''" s] by (simp add: virtual_prefix_def colon_def)

section \<open>RunQueueStats\<close>

record stats =
  st_completed :: int
  st_skipped :: int
  st_failed :: int
  st_active :: int
  st_total :: int

definition stats_init :: "int \<Rightarrow> stats" where
  "stats_init n = \<lparr>st_completed = 0, st_skipped = 0, st_failed = 0, st_active = 0, st_total = n\<rparr>"

definition taskFailed :: "stats \<Rightarrow> stats" where
  "taskFailed s = s\<lparr>st_active := st_active s - 1, st_failed := st_failed s + 1\<rparr>"

definition taskCompleted :: "int \<Rightarrow> stats \<Rightarrow> stats" where
  "taskCompleted number s = s\<lparr>st_active := st_active s - number, st_completed := st_completed s + number\<rparr>"

definition taskSkipped :: "int \<Rightarrow> stats \<Rightarrow> stats" where
  "taskSkipped number s = s\<lparr>st_active := st_active s + number, st_skipped := st_skipped s + number\<rparr>"

definition taskActive :: "stats \<Rightarrow> stats" where
  "taskActive s = s\<lparr>st_active := st_active s + 1\<rparr>"

section \<open>Properties\<close>

text \<open>
  Building a task identifier and splitting it again gives the configuration, the file and
  the task back, with the file name that keeps the configuration prefix, for every file name
  that does not itself look like a multiconfig one.
\<close>

theorem split_build_tid:
  assumes "colon \<notin> set mc" "colon \<notin> set taskname" "plain_fn fn"
  shows "split_tid_mcfn (build_tid mc fn taskname) =
     Inr (mc, fn, taskname, if mc = [] then fn else mc_prefix @ mc @ [colon] @ fn)"
proof (cases "mc = []")
  case True
  have "\<not> startswith (fn @ colon # taskname) mc_prefix"
    using assms(3) startswith_colon [of fn taskname] by (simp add: plain_fn_def)
  with True assms(2) split_tid_mcfn_plain [of fn taskname] show ?thesis by (simp add: build_tid_def)
next
  case False
  with split_tid_mcfn_mc [OF assms(1,2), of fn] show ?thesis by (simp add: build_tid_def)
qed

theorem split_build_tid_witness:
  "split_tid_mcfn (build_tid ''musl'' ''virtual:native:/a.bb'' ''do_build'') =
     Inr (''musl'', ''virtual:native:/a.bb'', ''do_build'',
       if ''musl'' = [] then ''virtual:native:/a.bb'' else mc_prefix @ ''musl'' @ [colon] @ ''virtual:native:/a.bb'')"
  by (rule split_build_tid) (simp_all add: colon_def plain_fn_def startswith_def mc_prefix_def)

text \<open>
  A virtual file name made from a real file name, an extension class and a configuration is
  taken apart into the same three again.
\<close>

theorem virtualfn_roundtrip:
  assumes "colon \<notin> set mc" "colon \<notin> set realfn" "cls = [] \<longrightarrow> \<not> startswith realfn virtual_prefix"
    and "cls = [] \<and> mc = [] \<longrightarrow> \<not> startswith realfn mc_prefix"
  shows "virtualfn2realfn (realfn2virtual realfn cls mc) = (realfn, cls, mc)"
proof -
  define r where "r = (if cls \<noteq> [] then virtual_prefix @ cls @ [colon] @ realfn else realfn)"
  have rest: "(if startswith r virtual_prefix
         then (last (split_on colon r), join_with [colon] (butlast (tl (split_on colon r))), m)
         else (r, [], m)) = (realfn, cls, m)" for m
    using assms(2,3) split_virtual [of "cls @ colon # realfn"] split_on_last [of colon realfn cls]
    by (auto simp: join_split_on r_def)
  have r: "realfn2virtual realfn cls mc = (if mc \<noteq> [] then mc_prefix @ mc @ colon # r else r)"
    by (simp add: realfn2virtual_def r_def)
  show ?thesis
  proof (cases "mc = []")
    case True
    have "\<not> startswith r mc_prefix"
      using assms(4) True by (auto simp: startswith_def virtual_prefix_def mc_prefix_def r_def)
    with True r rest [of "[]"] show ?thesis
      by (simp add: virtualfn2realfn_def Let_def split: if_splits)
  next
    case False
    have "split_on colon (mc_prefix @ mc @ colon # r) = ''multiconfig'' # mc # split_on colon r"
      by (rule split_mc [OF assms(1)])
    with False r rest [of mc] show ?thesis
      by (simp add: virtualfn2realfn_def join_split_on Let_def del: split_on.simps split: if_splits)
  qed
qed

theorem virtualfn_roundtrip_witness:
  "virtualfn2realfn (realfn2virtual ''/a.bb'' ''native'' ''musl'') = (''/a.bb'', ''native'', ''musl'')"
  by (rule virtualfn_roundtrip) (simp_all add: colon_def)

end
