(* ===== verification/TaskGraph.thy ===== *)
theory TaskGraph
  imports Prelude
begin

text \<open>
  The task graph of \<open>bitbake/lib/bb/runqueue.py\<close>: \<open>RunTaskEntry\<close> and
  \<open>RunQueueData.calculate_task_weights\<close>, which walks the graph from its end points, adds up
  weights and finds the tasks that cannot be built.

  The main lemmas: on a graph whose reverse dependencies are the inverse of its dependencies the
  walk never raises, a task's weight is its own plus the weights of the tasks that depend on it,
  and no task is left over exactly when the dependencies have no cycle.
\<close>

section \<open>The graph\<close>

record 't rte =
  rt_depends :: "'t list"
  rt_revdeps :: "'t list"
  rt_hash :: "string option"
  rt_weight :: int

type_synonym 't graph = "('t, 't rte) dict"

definition new_rte :: "'t rte" where
  "new_rte = \<lparr>rt_depends = [], rt_revdeps = [], rt_hash = None, rt_weight = 1\<rparr>"

definition deps :: "'t graph \<Rightarrow> 't \<Rightarrow> 't list" where
  "deps g t = (case dget g t of None \<Rightarrow> [] | Some e \<Rightarrow> rt_depends e)"

definition revs :: "'t graph \<Rightarrow> 't \<Rightarrow> 't list" where
  "revs g t = (case dget g t of None \<Rightarrow> [] | Some e \<Rightarrow> rt_revdeps e)"

section \<open>calculate_task_weights\<close>

record 't wstate =
  w_weight :: "('t, int) dict"
  w_left :: "('t, int) dict"
  w_done :: "('t, bool) dict"
  w_next :: "'t list"

definition weights_init :: "'t graph \<Rightarrow> 't list \<Rightarrow> 't wstate" where
  "weights_init g endpoints =
     fold (\<lambda>tid s. s\<lparr>w_weight := dset tid 10 (w_weight s), w_done := dset tid True (w_done s)\<rparr>) endpoints
       \<lparr>w_weight = map (\<lambda>(tid, e). (tid, 1)) g,
        w_left = map (\<lambda>(tid, e). (tid, int (length (rt_revdeps e)))) g,
        w_done = map (\<lambda>(tid, e). (tid, False)) g,
        w_next = []\<rparr>"

definition weight_edge :: "'t \<Rightarrow> 't \<Rightarrow> 't wstate \<Rightarrow> 't wstate res" where
  "weight_edge tid revdep s =
     rbind (dlookup (w_weight s) revdep) (\<lambda>wr.
     rbind (dlookup (w_weight s) tid) (\<lambda>wt.
     rbind (dlookup (w_left s) revdep) (\<lambda>l.
       let s1 = s\<lparr>w_weight := dset revdep (wr + wt) (w_weight s),
                   w_left := dset revdep (l - 1) (w_left s)\<rparr>
       in Inr (if l - 1 = 0
               then s1\<lparr>w_next := w_next s1 @ [revdep], w_done := dset revdep True (w_done s1)\<rparr>
               else s1))))"

definition weight_task :: "'t graph \<Rightarrow> 't \<Rightarrow> 't wstate \<Rightarrow> 't wstate res" where
  "weight_task g tid s = rbind (dlookup g tid) (\<lambda>e. rfold (weight_edge tid) (rt_depends e) s)"

definition weight_round :: "'t graph \<Rightarrow> 't list \<Rightarrow> 't wstate \<Rightarrow> 't wstate res" where
  "weight_round g endpoints s = rfold (weight_task g) endpoints (s\<lparr>w_next := []\<rparr>)"

text \<open>
  Every round that finds a next point lowers the number of tasks with dependencies left, so
  the loop ends on every graph, cyclic or not.
\<close>

definition positive_left :: "'t wstate \<Rightarrow> nat" where
  "positive_left s = length (filter (\<lambda>(k, v). 0 < v) (w_left s))"

lemma positive_left_dset:
  "dget L d = Some l \<Longrightarrow>
   length (filter (\<lambda>(k, v). (0::int) < v) (dset d (l - 1) L)) + (if l - 1 = 0 then 1 else 0)
     \<le> length (filter (\<lambda>(k, v). 0 < v) L)"
  by (induction L) (auto split: if_splits)

lemma weight_edge_positive_left:
  "weight_edge tid d s = Inr s' \<Longrightarrow>
   positive_left s' + length (w_next s') \<le> positive_left s + length (w_next s)"
  using positive_left_dset [of "w_left s" d]
  by (fastforce simp: weight_edge_def res_simps positive_left_def Let_def split: if_splits)

lemma weight_round_positive_left:
  assumes "weight_round g ends s = Inr s'"
  shows "positive_left s' + length (w_next s') \<le> positive_left s"
proof -
  let ?P = "\<lambda>u. positive_left u + length (w_next u) \<le> positive_left s"
  have "?P (s\<lparr>w_next := []\<rparr>)" by (simp add: positive_left_def)
  moreover have "?P v" if "?P u" "weight_task g t u = Inr v" for t u v
  proof -
    from that(2) obtain ds where e: "rfold (weight_edge t) ds u = Inr v"
      by (auto simp: weight_task_def res_simps)
    show ?thesis
      using weight_edge_positive_left by (rule_tac rfold_inv [of _ _ _ _ ?P, OF e that(1)]) fastforce
  qed
  ultimately show ?thesis
    using assms unfolding weight_round_def by (rule_tac rfold_inv) auto
qed

function weight_loop :: "'t graph \<Rightarrow> 't list \<Rightarrow> 't wstate \<Rightarrow> 't wstate res" where
  "weight_loop g endpoints s =
     rbind (weight_round g endpoints s) (\<lambda>s'.
       if w_next s' = [] then Inr s' else weight_loop g (w_next s') s')"
  by pat_completeness auto
termination
proof (relation "measure (\<lambda>(g, ends, s). positive_left s)", goal_cases)
  case 1
  then show ?case by simp
next
  case (2 g ends s s')
  from weight_round_positive_left [OF 2(1)] 2(2) show ?case by (cases "w_next s'") auto
qed

declare weight_loop.simps [simp del]

definition problem_tasks :: "'t graph \<Rightarrow> 't wstate \<Rightarrow> 't list" where
  "problem_tasks g s = filter (\<lambda>tid. dgetd (w_done s) tid False = False \<or> dgetd (w_left s) tid 0 \<noteq> 0) (dkeys g)"

text \<open>The result: the graph with its weights stored, and the tasks that are not buildable.\<close>

definition weigh_tasks :: "'t graph \<Rightarrow> 't list \<Rightarrow> ('t graph \<times> 't list) res" where
  "weigh_tasks g endpoints =
     rbind (weight_loop g endpoints (weights_init g endpoints)) (\<lambda>s.
       Inr (map (\<lambda>(tid, e). (tid, e\<lparr>rt_weight := dgetd (w_weight s) tid 0\<rparr>)) g, problem_tasks g s))"

section \<open>Well-formed graphs\<close>

definition graph_wf :: "'t graph \<Rightarrow> bool" where
  "graph_wf g \<longleftrightarrow> dwf g \<and>
     (\<forall>t \<in> set (dkeys g). distinct (deps g t) \<and> distinct (revs g t) \<and> set (deps g t) \<subseteq> set (dkeys g) \<and>
        (\<forall>r. r \<in> set (revs g t) \<longleftrightarrow> r \<in> set (dkeys g) \<and> t \<in> set (deps g r)))"

definition endpoints_of :: "'t graph \<Rightarrow> 't list" where
  "endpoints_of g = filter (\<lambda>t. revs g t = []) (dkeys g)"

definition dep_edges :: "'t graph \<Rightarrow> ('t \<times> 't) set" where
  "dep_edges g = {(t, d). t \<in> set (dkeys g) \<and> d \<in> set (deps g t)}"

abbreviation done_set :: "'t wstate \<Rightarrow> 't set" where
  "done_set s \<equiv> {d. dget (w_done s) d = Some True}"

abbreviation wt :: "'t wstate \<Rightarrow> 't \<Rightarrow> int" where
  "wt s t \<equiv> dgetd (w_weight s) t 0"

text \<open>The state of the walk once the edges in \<open>F\<close> have been processed.\<close>

definition winv :: "'t graph \<Rightarrow> ('t \<times> 't) set \<Rightarrow> 't wstate \<Rightarrow> bool" where
  "winv g F s \<longleftrightarrow>
     F \<subseteq> dep_edges g \<and>
     set (dkeys (w_weight s)) = set (dkeys g) \<and> set (dkeys (w_left s)) = set (dkeys g) \<and>
     set (dkeys (w_done s)) = set (dkeys g) \<and>
     (\<forall>(t, d) \<in> F. t \<in> done_set s) \<and>
     (\<forall>d \<in> set (dkeys g).
        dget (w_left s) d = Some (int (length (revs g d)) - int (card {t. (t, d) \<in> F})) \<and>
        (d \<in> done_set s \<longleftrightarrow> card {t. (t, d) \<in> F} = length (revs g d)) \<and>
        0 < wt s d \<and> wt s d = (if revs g d = [] then 10 else 1) + (\<Sum>t | (t, d) \<in> F. wt s t))"

lemma dep_edges_revs:
  "graph_wf g \<Longrightarrow> d \<in> set (dkeys g) \<Longrightarrow> (t, d) \<in> dep_edges g \<longleftrightarrow> t \<in> set (revs g d)"
  by (auto simp: graph_wf_def dep_edges_def)

lemma dep_edges_keys: "graph_wf g \<Longrightarrow> (t, d) \<in> dep_edges g \<Longrightarrow> t \<in> set (dkeys g) \<and> d \<in> set (dkeys g)"
  by (auto simp: graph_wf_def dep_edges_def)

lemma finite_dep_edges: "finite (dep_edges g)"
proof -
  have "dep_edges g \<subseteq> (\<Union>t \<in> set (dkeys g). Pair t ` set (deps g t))"
    by (auto simp: dep_edges_def)
  then show ?thesis by (rule finite_subset) auto
qed

lemma winv_sources:
  assumes "graph_wf g" "winv g F s" "d \<in> set (dkeys g)"
  shows "{t. (t, d) \<in> F} \<subseteq> set (revs g d)"
  using assms dep_edges_revs [OF assms(1,3)] by (auto simp: winv_def)

text \<open>An edge that is still to be processed leads to a task that is not done.\<close>

lemma winv_pending:
  assumes "graph_wf g" "winv g F s" "(t, d) \<in> dep_edges g" "(t, d) \<notin> F"
  shows "card {t. (t, d) \<in> F} < length (revs g d)" "d \<notin> done_set s"
proof -
  have k: "d \<in> set (dkeys g)" using dep_edges_keys assms(1,3) by fast
  have "{t. (t, d) \<in> F} \<subset> set (revs g d)"
    using winv_sources [OF assms(1,2) k] dep_edges_revs [OF assms(1) k] assms(3,4) by blast
  then have "card {t. (t, d) \<in> F} < card (set (revs g d))" by (simp add: psubset_card_mono)
  also have "\<dots> = length (revs g d)" using assms(1) k by (auto simp: graph_wf_def intro: distinct_card)
  finally show lt: "card {t. (t, d) \<in> F} < length (revs g d)" .
  then show "d \<notin> done_set s" using assms(2) k by (auto simp: winv_def)
qed

lemma weight_edge_winv:
  assumes wf: "graph_wf g" and inv: "winv g F s" and t: "t \<in> done_set s"
    and e: "(t, d) \<in> dep_edges g" "(t, d) \<notin> F"
  shows "\<exists>s' new. weight_edge t d s = Inr s' \<and> winv g (insert (t, d) F) s' \<and> w_next s' = w_next s @ new \<and>
     distinct new \<and> set new \<inter> done_set s = {} \<and> done_set s' = done_set s \<union> set new"
proof -
  have k: "t \<in> set (dkeys g)" "d \<in> set (dkeys g)" using dep_edges_keys [OF wf e(1)] by auto
  note pend = winv_pending [OF wf inv e]
  have td: "t \<noteq> d" using t pend(2) by auto
  have keys: "set (dkeys (w_weight s)) = set (dkeys g)" "set (dkeys (w_left s)) = set (dkeys g)"
    using inv by (auto simp: winv_def)
  obtain wr where wr: "dget (w_weight s) d = Some wr" using k keys by (metis dget_keyE)
  obtain w where w: "dget (w_weight s) t = Some w" using k keys by (metis dget_keyE)
  let ?n = "card {t. (t, d) \<in> F}"
  have l: "dget (w_left s) d = Some (int (length (revs g d)) - int ?n)"
    using inv k by (auto simp: winv_def)
  define s1 where "s1 = s\<lparr>w_weight := dset d (wr + w) (w_weight s),
      w_left := dset d (int (length (revs g d)) - int ?n - 1) (w_left s)\<rparr>"
  define last where "last \<longleftrightarrow> int (length (revs g d)) - int ?n - 1 = 0"
  define s' where "s' = (if last then s1\<lparr>w_next := w_next s1 @ [d], w_done := dset d True (w_done s1)\<rparr> else s1)"
  have step: "weight_edge t d s = Inr s'"
    using wr w l by (simp add: weight_edge_def dlookup_def s'_def s1_def last_def Let_def)
  have done': "done_set s' = done_set s \<union> (if last then {d} else {})"
    by (auto simp: s'_def s1_def)
  have fin: "finite {t. (t, x) \<in> F}" for x
  proof (cases "x \<in> set (dkeys g)")
    case True
    then show ?thesis using winv_sources [OF wf inv True] by (rule_tac finite_subset) auto
  next
    case False
    then have "{t. (t, x) \<in> F} = {}" using inv dep_edges_keys [OF wf] by (auto simp: winv_def)
    then show ?thesis by simp
  qed
  have ins: "{u. (u, x) \<in> insert (t, d) F} = (if x = d then insert t {u. (u, d) \<in> F} else {u. (u, x) \<in> F})" for x
    by auto
  have card': "card {u. (u, x) \<in> insert (t, d) F} = card {u. (u, x) \<in> F} + (if x = d then 1 else 0)" for x
    using fin e(2) by (cases "x = d") (simp_all only: ins, simp_all)
  have wt': "wt s' x = (if x = d then wr + w else wt s x)" for x
    by (simp add: s'_def s1_def)
  have src: "d \<noteq> u" if "(u, x) \<in> F" for u x
    using inv that pend(2) by (auto simp: winv_def)
  have sum': "(\<Sum>u | (u, x) \<in> F. wt s' u) = (\<Sum>u | (u, x) \<in> F. wt s u)" for x
    by (rule sum.cong) (auto simp: wt' dest: src)
  have "winv g (insert (t, d) F) s'"
    unfolding winv_def
  proof (intro conjI ballI)
    show "insert (t, d) F \<subseteq> dep_edges g" using inv e by (simp add: winv_def)
    show "set (dkeys (w_weight s')) = set (dkeys g)" "set (dkeys (w_left s')) = set (dkeys g)"
      "set (dkeys (w_done s')) = set (dkeys g)"
      using inv k by (auto simp: winv_def s'_def s1_def)
    show "case p of (u, x) \<Rightarrow> u \<in> done_set s'" if "p \<in> insert (t, d) F" for p
      using inv that t done' by (auto simp: winv_def)
  next
    fix x assume x: "x \<in> set (dkeys g)"
    show "dget (w_left s') x = Some (int (length (revs g x)) - int (card {u. (u, x) \<in> insert (t, d) F}))"
      unfolding card' using inv x by (auto simp: winv_def s'_def s1_def)
    show "x \<in> done_set s' \<longleftrightarrow> card {u. (u, x) \<in> insert (t, d) F} = length (revs g x)"
      unfolding card' done' last_def using inv x pend by (auto simp: winv_def)
    have "0 < wr" "0 < w" using inv k wr w by (auto simp: winv_def dgetd_def)
    then show "0 < wt s' x" using inv x by (auto simp: wt' winv_def)
    show "wt s' x = (if revs g x = [] then 10 else 1) + (\<Sum>u | (u, x) \<in> insert (t, d) F. wt s' u)"
    proof (cases "x = d")
      case True
      have "(\<Sum>u | (u, d) \<in> insert (t, d) F. wt s' u) = wt s' t + (\<Sum>u | (u, d) \<in> F. wt s' u)"
        using fin [of d] e(2) sum.insert [of "{u. (u, d) \<in> F}" t "wt s'"] ins [of d] by simp
      moreover have "wr = (if revs g d = [] then 10 else 1) + (\<Sum>u | (u, d) \<in> F. wt s u)"
        using inv k(2) wr by (auto simp: winv_def dgetd_def)
      moreover have "wt s' t = w" using td w wt' [of t] by (simp add: dgetd_def)
      moreover have "wt s' d = wr + w" using wt' [of d] by simp
      ultimately show ?thesis using sum' [of d] unfolding True by linarith
    next
      case False
      have "wt s x = (if revs g x = [] then 10 else 1) + (\<Sum>u | (u, x) \<in> F. wt s u)"
        using inv x unfolding winv_def by blast
      moreover have "wt s' x = wt s x" using wt' [of x] False by simp
      ultimately show ?thesis using sum' [of x] ins [of x] False by simp
    qed
  qed
  moreover have "w_next s' = w_next s @ (if last then [d] else [])" by (simp add: s'_def s1_def)
  ultimately show ?thesis
    using step done' pend(2) by (intro exI [of _ s'] exI [of _ "if last then [d] else []"]) auto
qed

lemma weight_edges_winv:
  assumes "graph_wf g"
  shows "winv g F s \<Longrightarrow> t \<in> done_set s \<Longrightarrow> distinct ds \<Longrightarrow> Pair t ` set ds \<subseteq> dep_edges g - F \<Longrightarrow>
    \<exists>s' new. rfold (weight_edge t) ds s = Inr s' \<and> winv g (F \<union> Pair t ` set ds) s' \<and>
      w_next s' = w_next s @ new \<and> distinct new \<and> set new \<inter> done_set s = {} \<and>
      done_set s' = done_set s \<union> set new"
proof (induction ds arbitrary: s F)
  case Nil
  then show ?case by (intro exI [of _ s] exI [of _ "[]"]) simp
next
  case (Cons d ds)
  then have e: "(t, d) \<in> dep_edges g" "(t, d) \<notin> F" by auto
  obtain s1 n1 where s1: "weight_edge t d s = Inr s1" "winv g (insert (t, d) F) s1"
    "w_next s1 = w_next s @ n1" "distinct n1" "set n1 \<inter> done_set s = {}" "done_set s1 = done_set s \<union> set n1"
    using weight_edge_winv [OF assms Cons.prems(1,2) e] by blast
  have "t \<in> done_set s1" using s1(6) Cons.prems(2) by blast
  moreover have "Pair t ` set ds \<subseteq> dep_edges g - insert (t, d) F" using Cons.prems(3,4) by auto
  ultimately obtain s2 n2 where s2: "rfold (weight_edge t) ds s1 = Inr s2"
    "winv g (insert (t, d) F \<union> Pair t ` set ds) s2" "w_next s2 = w_next s1 @ n2" "distinct n2"
    "set n2 \<inter> done_set s1 = {}" "done_set s2 = done_set s1 \<union> set n2"
    using Cons.IH [OF s1(2)] Cons.prems(3) by fastforce
  have "insert (t, d) F \<union> Pair t ` set ds = F \<union> Pair t ` set (d # ds)" by auto
  then have "winv g (F \<union> Pair t ` set (d # ds)) s2" using s2(2) by simp
  moreover have "rfold (weight_edge t) (d # ds) s = Inr s2" using s1(1) s2(1) by simp
  moreover have "w_next s2 = w_next s @ (n1 @ n2)" using s1(3) s2(3) by simp
  moreover have "distinct (n1 @ n2)" "set (n1 @ n2) \<inter> done_set s = {}"
    using s1(4-6) s2(4,5) by auto
  moreover have "done_set s2 = done_set s \<union> set (n1 @ n2)" using s1(6) s2(6) by auto
  ultimately show ?case by blast
qed

abbreviation out_edges :: "'t graph \<Rightarrow> 't set \<Rightarrow> ('t \<times> 't) set" where
  "out_edges g P \<equiv> {(t, d) \<in> dep_edges g. t \<in> P}"

lemma weight_tasks_winv:
  assumes "graph_wf g"
  shows "winv g F s \<Longrightarrow> distinct ts \<Longrightarrow> set ts \<subseteq> done_set s \<Longrightarrow> out_edges g (set ts) \<inter> F = {} \<Longrightarrow>
    \<exists>s' new. rfold (weight_task g) ts s = Inr s' \<and> winv g (F \<union> out_edges g (set ts)) s' \<and>
      w_next s' = w_next s @ new \<and> distinct new \<and> set new \<inter> done_set s = {} \<and>
      done_set s' = done_set s \<union> set new"
proof (induction ts arbitrary: s F)
  case Nil
  then show ?case by (intro exI [of _ s] exI [of _ "[]"]) simp
next
  case (Cons t ts)
  have t: "t \<in> done_set s" using Cons.prems(3) by simp
  then have "t \<in> set (dkeys (w_done s))" by (auto dest: dget_SomeD)
  then have k: "t \<in> set (dkeys g)" using Cons.prems(1) by (simp add: winv_def)
  then obtain e where e: "dget g t = Some e" by (rule dget_keyE)
  then have de: "deps g t = rt_depends e" by (simp add: deps_def)
  have edges: "Pair t ` set (deps g t) = out_edges g {t}" using k by (auto simp: dep_edges_def)
  have dist: "distinct (rt_depends e)" using assms k de by (auto simp: graph_wf_def)
  have edges': "Pair t ` set (rt_depends e) = out_edges g {t}" using edges de by simp
  have "Pair t ` set (rt_depends e) \<subseteq> dep_edges g - F"
    unfolding edges' using Cons.prems(4) by auto
  from weight_edges_winv [OF assms Cons.prems(1) t dist this, unfolded edges'] obtain s1 n1 where s1: "rfold (weight_edge t) (rt_depends e) s = Inr s1"
    "winv g (F \<union> out_edges g {t}) s1"
    "w_next s1 = w_next s @ n1" "distinct n1" "set n1 \<inter> done_set s = {}" "done_set s1 = done_set s \<union> set n1"
    by blast
  have "set ts \<subseteq> done_set s1" using s1(6) Cons.prems(3) by auto
  moreover have "out_edges g (set ts) \<inter> (F \<union> out_edges g {t}) = {}" using Cons.prems(2,4) by auto
  ultimately obtain s2 n2 where s2: "rfold (weight_task g) ts s1 = Inr s2"
    "winv g (F \<union> out_edges g {t} \<union> out_edges g (set ts)) s2" "w_next s2 = w_next s1 @ n2" "distinct n2"
    "set n2 \<inter> done_set s1 = {}" "done_set s2 = done_set s1 \<union> set n2"
    using Cons.IH [OF s1(2)] Cons.prems(2) by fastforce
  have "F \<union> out_edges g {t} \<union> out_edges g (set ts) = F \<union> out_edges g (set (t # ts))" by auto
  then have "winv g (F \<union> out_edges g (set (t # ts))) s2" using s2(2) by simp
  moreover have "rfold (weight_task g) (t # ts) s = Inr s2"
    using s1(1) s2(1) e by (simp add: weight_task_def dlookup_def)
  moreover have "w_next s2 = w_next s @ (n1 @ n2)" using s1(3) s2(3) by simp
  moreover have "distinct (n1 @ n2)" "set (n1 @ n2) \<inter> done_set s = {}"
    using s1(4-6) s2(4,5) by auto
  moreover have "done_set s2 = done_set s \<union> set (n1 @ n2)" using s1(6) s2(6) by auto
  ultimately show ?case by blast
qed

lemma winv_next: "winv g F (s\<lparr>w_next := xs\<rparr>) = winv g F s"
  by (simp add: winv_def)

lemma weight_loop_winv:
  "graph_wf g \<Longrightarrow> winv g (out_edges g (done_set s - set ends)) s \<Longrightarrow> distinct ends \<Longrightarrow>
    set ends \<subseteq> done_set s \<Longrightarrow>
    \<exists>s'. weight_loop g ends s = Inr s' \<and> winv g (out_edges g (done_set s')) s'"
proof (induction g ends s rule: weight_loop.induct)
  case (1 g ends s)
  let ?s0 = "s\<lparr>w_next := []\<rparr>"
  have "winv g (out_edges g (done_set s - set ends)) ?s0" using 1(3) by (simp add: winv_next)
  moreover have "set ends \<subseteq> done_set ?s0" using 1(5) by simp
  moreover have "out_edges g (set ends) \<inter> out_edges g (done_set s - set ends) = {}" by auto
  ultimately obtain s1 new where s1: "rfold (weight_task g) ends ?s0 = Inr s1"
    "winv g (out_edges g (done_set s - set ends) \<union> out_edges g (set ends)) s1"
    "w_next s1 = w_next ?s0 @ new" "distinct new" "set new \<inter> done_set ?s0 = {}"
    "done_set s1 = done_set ?s0 \<union> set new"
    using weight_tasks_winv [OF 1(2) _ 1(4)] by blast
  have round: "weight_round g ends s = Inr s1" using s1(1) by (simp add: weight_round_def)
  have next': "w_next s1 = new" using s1(3) by simp
  have old: "done_set s = done_set s1 - set new" using s1(5,6) by auto
  have "out_edges g (done_set s - set ends) \<union> out_edges g (set ends) = out_edges g (done_set s)"
    using 1(5) by auto
  then have inv: "winv g (out_edges g (done_set s1 - set new)) s1" using s1(2) old by simp
  show ?case
  proof (cases "new = []")
    case True
    then show ?thesis using inv round next' by (auto simp: weight_loop.simps [of g ends s])
  next
    case False
    have "set new \<subseteq> done_set s1" using s1(6) by auto
    then have "\<exists>s'. weight_loop g new s1 = Inr s' \<and> winv g (out_edges g (done_set s')) s'"
      using 1(1) [OF round] False next' 1(2) inv s1(4) by simp
    then show ?thesis using False round next' by (simp add: weight_loop.simps [of g ends s])
  qed
qed

lemma dget_map_const: "dget (map (\<lambda>(k, v). (k, f v)) d) k = map_option f (dget d k)"
  using dget_map [of "\<lambda>k. f"] by simp

lemma dkeys_map_const [simp]: "dkeys (map (\<lambda>(k, v). (k, f v)) d) = dkeys d"
  using dkeys_simps(4) [of "\<lambda>k. f"] by simp

lemma weights_init_fold:
  "fold (\<lambda>tid s. s\<lparr>w_weight := dset tid 10 (w_weight s), w_done := dset tid True (w_done s)\<rparr>) ends s =
   s\<lparr>w_weight := fold (\<lambda>tid. dset tid 10) ends (w_weight s), w_done := fold (\<lambda>tid. dset tid True) ends (w_done s)\<rparr>"
  by (induction ends arbitrary: s) simp_all

lemma dget_fold_dset: "dget (fold (\<lambda>k. dset k v) ks d) k = (if k \<in> set ks then Some v else dget d k)"
  by (induction ks arbitrary: d) auto

lemma weights_init_winv:
  assumes "graph_wf g"
  shows "done_set (weights_init g (endpoints_of g)) = set (endpoints_of g)"
    and "winv g {} (weights_init g (endpoints_of g))"
proof -
  have [simp]: "dget g k = Some e \<Longrightarrow> revs g k = rt_revdeps e" for k e by (simp add: revs_def)
  have keys: "set (dkeys (fold (\<lambda>k. dset k v) ks d)) = set ks \<union> set (dkeys d)" for ks v and d :: "('a, 'b) dict"
    by (induction ks arbitrary: d) auto
  show done0: "done_set (weights_init g (endpoints_of g)) = set (endpoints_of g)"
    by (auto simp: weights_init_def weights_init_fold dget_fold_dset dget_map_const)
  show "winv g {} (weights_init g (endpoints_of g))"
    unfolding winv_def
  proof (intro conjI ballI)
    fix d assume d: "d \<in> set (dkeys g)"
    then obtain e where e: "dget g d = Some e" by (rule dget_keyE)
    have end_iff: "d \<in> set (endpoints_of g) \<longleftrightarrow> revs g d = []" using d by (simp add: endpoints_of_def)
    show "dget (w_left (weights_init g (endpoints_of g))) d =
        Some (int (length (revs g d)) - int (card {t. (t, d) \<in> ({} :: ('a \<times> 'a) set)}))"
      using e by (simp add: weights_init_def weights_init_fold dget_map_const)
    show "d \<in> done_set (weights_init g (endpoints_of g)) \<longleftrightarrow>
        card {t. (t, d) \<in> ({} :: ('a \<times> 'a) set)} = length (revs g d)"
      using end_iff by (simp add: done0)
    show "wt (weights_init g (endpoints_of g)) d = (if revs g d = [] then 10 else 1) +
        (\<Sum>t | (t, d) \<in> {}. wt (weights_init g (endpoints_of g)) t)"
      "0 < wt (weights_init g (endpoints_of g)) d"
      using end_iff e by (simp_all add: weights_init_def weights_init_fold dget_fold_dset dget_map_const dgetd_def)
  qed (auto simp: weights_init_def weights_init_fold keys dkeys_map_const endpoints_of_def)
qed

text \<open>Every task is done in the end exactly when the dependencies have no cycle.\<close>

lemma winv_final:
  assumes "graph_wf g" "winv g (out_edges g (done_set s)) s"
  shows "problem_tasks g s = [] \<longleftrightarrow> acyclic (dep_edges g)"
    and "problem_tasks g s = [] \<Longrightarrow> d \<in> set (dkeys g) \<Longrightarrow>
      wt s d = (if revs g d = [] then 10 else 1) + (\<Sum>t \<in> set (revs g d). wt s t)"
    and "problem_tasks g s = [] \<Longrightarrow> (t, d) \<in> dep_edges g \<Longrightarrow> wt s t < wt s d"
    and "d \<in> set (dkeys g) \<Longrightarrow> 0 < wt s d"
proof -
  let ?F = "out_edges g (done_set s)"
  have src: "{t. (t, d) \<in> ?F} = set (revs g d) \<inter> done_set s" if "d \<in> set (dkeys g)" for d
    using dep_edges_revs [OF assms(1) that] by auto
  have card: "card (set (revs g d)) = length (revs g d)" if "d \<in> set (dkeys g)" for d
    using assms(1) that by (auto simp: graph_wf_def intro: distinct_card)
  have done_iff: "d \<in> done_set s \<longleftrightarrow> set (revs g d) \<subseteq> done_set s" if d: "d \<in> set (dkeys g)" for d
  proof -
    have "d \<in> done_set s \<longleftrightarrow> card (set (revs g d) \<inter> done_set s) = card (set (revs g d))"
      using assms(2) d src [OF d] card [OF d] by (simp add: winv_def)
    also have "\<dots> \<longleftrightarrow> set (revs g d) \<inter> done_set s = set (revs g d)"
      using card_subset_eq [of "set (revs g d)" "set (revs g d) \<inter> done_set s"] by auto
    finally show ?thesis by auto
  qed
  have left: "dgetd (w_left s) d 0 = 0 \<longleftrightarrow> d \<in> done_set s" if "d \<in> set (dkeys g)" for d
    using assms(2) that by (auto simp: winv_def dgetd_def)
  have prob: "problem_tasks g s = [] \<longleftrightarrow> set (dkeys g) \<subseteq> done_set s"
    using left by (auto simp: problem_tasks_def filter_empty_conv dgetd_def split: option.splits)
  have pos: "0 < wt s d" if "d \<in> set (dkeys g)" for d
    using assms(2) that unfolding winv_def by blast
  then show "d \<in> set (dkeys g) \<Longrightarrow> 0 < wt s d" .
  have sum: "wt s d = (if revs g d = [] then 10 else 1) + (\<Sum>t \<in> set (revs g d). wt s t)"
    if "set (dkeys g) \<subseteq> done_set s" and d: "d \<in> set (dkeys g)" for d
  proof -
    have "set (revs g d) \<subseteq> done_set s" using done_iff [OF d] d that(1) by blast
    then have "{t. (t, d) \<in> ?F} = set (revs g d)" using src [OF d] by blast
    then show ?thesis using assms(2) d by (simp add: winv_def)
  qed
  then show "problem_tasks g s = [] \<Longrightarrow> d \<in> set (dkeys g) \<Longrightarrow>
      wt s d = (if revs g d = [] then 10 else 1) + (\<Sum>t \<in> set (revs g d). wt s t)"
    using prob by blast
  have less: "wt s t < wt s d" if all: "set (dkeys g) \<subseteq> done_set s" and e: "(t, d) \<in> dep_edges g" for t d
  proof -
    have k: "t \<in> set (dkeys g)" "d \<in> set (dkeys g)" using dep_edges_keys [OF assms(1) e] by auto
    have "t \<in> set (revs g d)" using dep_edges_revs [OF assms(1) k(2)] e by simp
    moreover have "0 \<le> wt s u" if "u \<in> set (revs g d)" for u
      using pos [of u] that dep_edges_revs [OF assms(1) k(2)] dep_edges_keys [OF assms(1)] by fastforce
    ultimately have "wt s t \<le> (\<Sum>u \<in> set (revs g d). wt s u)" by (intro member_le_sum) auto
    then show ?thesis using sum [OF all k(2)] by (simp split: if_splits)
  qed
  then show "problem_tasks g s = [] \<Longrightarrow> (t, d) \<in> dep_edges g \<Longrightarrow> wt s t < wt s d"
    using prob by blast
  show "problem_tasks g s = [] \<longleftrightarrow> acyclic (dep_edges g)"
  proof
    assume "problem_tasks g s = []"
    then have "dep_edges g \<subseteq> {(t, d). wt s t < wt s d}" using less prob by auto
    moreover have "acyclic {(t, d). wt s t < wt s d}" by (rule acyclicI_order [of _ "\<lambda>x. - wt s x"]) auto
    ultimately show "acyclic (dep_edges g)" by (rule acyclic_subset [rotated])
  next
    assume ac: "acyclic (dep_edges g)"
    have "wf (dep_edges g)" using finite_acyclic_wf [OF finite_dep_edges ac] .
    then have "d \<in> set (dkeys g) \<longrightarrow> d \<in> done_set s" for d
    proof (induction d rule: wf_induct_rule)
      case (less d)
      then show ?case using done_iff dep_edges_revs [OF assms(1)] dep_edges_keys [OF assms(1)] by blast
    qed
    then show "problem_tasks g s = []" using prob by blast
  qed
qed

definition rweight :: "'t graph \<Rightarrow> 't \<Rightarrow> int" where
  "rweight g t = (case dget g t of None \<Rightarrow> 0 | Some e \<Rightarrow> rt_weight e)"

lemma rweight_stored:
  assumes "t \<in> set (dkeys g)"
  shows "rweight (map (\<lambda>(tid, e). (tid, e\<lparr>rt_weight := f tid\<rparr>)) g) t = f t"
  using assms by (auto simp: rweight_def elim: dget_keyE)

lemma weigh_tasks_ok:
  assumes "graph_wf g"
  obtains s where "weigh_tasks g (endpoints_of g) =
      Inr (map (\<lambda>(tid, e). (tid, e\<lparr>rt_weight := wt s tid\<rparr>)) g, problem_tasks g s)"
    and "winv g (out_edges g (done_set s)) s"
proof -
  let ?s = "weights_init g (endpoints_of g)"
  have none: "out_edges g (done_set ?s - set (endpoints_of g)) = {}"
    using weights_init_winv(1) [OF assms] by blast
  have "winv g (out_edges g (done_set ?s - set (endpoints_of g))) ?s"
    unfolding none by (rule weights_init_winv(2) [OF assms])
  moreover have "distinct (endpoints_of g)" "set (endpoints_of g) \<subseteq> done_set ?s"
    using assms weights_init_winv(1) [OF assms] by (auto simp: graph_wf_def dwf_def endpoints_of_def)
  ultimately obtain s' where "weight_loop g (endpoints_of g) ?s = Inr s'"
    "winv g (out_edges g (done_set s')) s'"
    using weight_loop_winv [OF assms] by blast
  then show ?thesis by (intro that [of s']) (simp_all add: weigh_tasks_def)
qed

section \<open>Properties\<close>


definition diamond :: "nat graph" where
  "diamond =
     [(1, \<lparr>rt_depends = [2, 3], rt_revdeps = [], rt_hash = None, rt_weight = 1\<rparr>),
      (2, \<lparr>rt_depends = [4], rt_revdeps = [1], rt_hash = None, rt_weight = 1\<rparr>),
      (3, \<lparr>rt_depends = [4], rt_revdeps = [1], rt_hash = None, rt_weight = 1\<rparr>),
      (4, \<lparr>rt_depends = [], rt_revdeps = [2, 3], rt_hash = None, rt_weight = 1\<rparr>)]"

lemma diamond_wf: "graph_wf diamond"
  by (auto simp: graph_wf_def diamond_def dwf_def deps_def revs_def)


text \<open>
  When no task is reported, the weight stored for a task is its own weight (10 for a task
  nothing depends on, else 1) plus the weights of all tasks that depend on it; so every task is
  lighter than each of its dependencies.
\<close>

theorem weigh_tasks_weights:
  assumes "graph_wf g" "weigh_tasks g (endpoints_of g) = Inr (g', [])" "d \<in> set (dkeys g)"
  shows "rweight g' d = (if revs g d = [] then 10 else 1) + (\<Sum>t \<in> set (revs g d). rweight g' t) \<and>
    (\<forall>t. d \<in> set (deps g t) \<longrightarrow> 0 < rweight g' t \<and> rweight g' t < rweight g' d)"
proof -
  from weigh_tasks_ok [OF assms(1)] obtain s where
    s: "weigh_tasks g (endpoints_of g) =
      Inr (map (\<lambda>(tid, e). (tid, e\<lparr>rt_weight := wt s tid\<rparr>)) g, problem_tasks g s)"
    "winv g (out_edges g (done_set s)) s" .
  have none: "problem_tasks g s = []" using s(1) assms(2) by simp
  have w: "rweight g' t = wt s t" if "t \<in> set (dkeys g)" for t
    using rweight_stored [OF that, of "wt s"] s(1) assms(2) by simp
  have rk: "set (revs g d) \<subseteq> set (dkeys g)" using assms(1,3) by (auto simp: graph_wf_def)
  have "rweight g' d = (if revs g d = [] then 10 else 1) + (\<Sum>t \<in> set (revs g d). rweight g' t)"
    using winv_final(2) [OF assms(1) s(2) none assms(3)] w rk assms(3)
    by (simp add: sum.cong [of "set (revs g d)" "set (revs g d)" "rweight g'" "wt s"] subset_iff)
  moreover have "0 < rweight g' t \<and> rweight g' t < rweight g' d" if t: "d \<in> set (deps g t)" for t
  proof -
    have "t \<in> set (dkeys g)" using t dget_None_iff [of g t] by (auto simp: deps_def split: option.splits)
    then have "(t, d) \<in> dep_edges g" using t by (simp add: dep_edges_def)
    then show ?thesis
      using winv_final(3) [OF assms(1) s(2) none] winv_final(4) [OF assms(1) s(2)] w \<open>t \<in> set (dkeys g)\<close> assms(3)
      by simp
  qed
  ultimately show ?thesis by blast
qed

lemma weigh_tasks_weights_witness:
  "\<exists>g'. weigh_tasks diamond (endpoints_of diamond) = Inr (g', []) \<and> rweight g' 4 = 1 + (rweight g' 2 + rweight g' 3) \<and>
    rweight g' 1 < rweight g' 2"
proof -
  let ?g = "map (\<lambda>(tid, e). (tid, e\<lparr>rt_weight := (if tid = 1 then 10 else if tid = 4 then 23 else 11)\<rparr>)) diamond"
  have g': "weigh_tasks diamond (endpoints_of diamond) = Inr (?g, [])" by code_simp
  have k: "4 \<in> set (dkeys diamond)" "2 \<in> set (dkeys diamond)" by (simp_all add: diamond_def)
  show ?thesis
    using g' weigh_tasks_weights [OF diamond_wf g' k(1)] weigh_tasks_weights [OF diamond_wf g' k(2)]
    by (intro exI [of _ ?g]) (simp add: diamond_def deps_def revs_def)
qed

section \<open>Going down the graph\<close>

text \<open>Each step down an acyclic graph leaves fewer tasks below.\<close>

definition below :: "'t graph \<Rightarrow> 't \<Rightarrow> nat" where
  "below g t = card ((dep_edges g)\<^sup>+ `` {t})"

lemma finite_below: "finite ((dep_edges g)\<^sup>+ `` {t})"
  by (rule finite_Image) (simp add: finite_dep_edges)

lemma below_less:
  assumes "acyclic (dep_edges g)" "(t, d) \<in> dep_edges g"
  shows "below g d < below g t"
proof -
  have "(dep_edges g)\<^sup>+ `` {d} \<subset> (dep_edges g)\<^sup>+ `` {t}"
  proof
    show "(dep_edges g)\<^sup>+ `` {d} \<subseteq> (dep_edges g)\<^sup>+ `` {t}"
      using assms(2) by (auto intro: trancl_into_trancl2)
    show "(dep_edges g)\<^sup>+ `` {d} \<noteq> (dep_edges g)\<^sup>+ `` {t}"
      using assms by (auto simp: acyclic_def)
  qed
  then show ?thesis unfolding below_def by (rule psubset_card_mono [OF finite_below])
qed

lemma below_length:
  assumes "graph_wf g"
  shows "below g t \<le> length g"
proof -
  have "(dep_edges g)\<^sup>+ `` {t} \<subseteq> set (dkeys g)"
    using dep_edges_keys [OF assms] by (auto elim: tranclE)
  then have "below g t \<le> card (set (dkeys g))" unfolding below_def by (simp add: card_mono)
  also have "\<dots> \<le> length g" using card_length [of "dkeys g"] by (simp add: dkeys_def)
  finally show ?thesis .
qed

lemma deps_edge: "d \<in> set (deps g t) \<Longrightarrow> (t, d) \<in> dep_edges g"
  using dget_SomeD [of g t] by (cases "dget g t") (auto simp: dep_edges_def deps_def)

lemma deps_Some: "dget g t = Some e \<Longrightarrow> deps g t = rt_depends e"
  by (simp add: deps_def)

lemma revs_Some: "dget g t = Some e \<Longrightarrow> revs g t = rt_revdeps e"
  by (simp add: revs_def)

end
