(* ===== verification/DepStrings.thy ===== *)
theory DepStrings
  imports Prelude
begin

text \<open>
  Dependency strings of \<open>DEPENDS\<close> and \<open>RDEPENDS\<close>, \<open>bitbake/lib/bb/utils.py\<close>:
  \<open>explode_deps\<close>, \<open>explode_dep_versions2\<close>, \<open>explode_dep_versions\<close> and \<open>join_deps\<close>.
  The lemmas lead to the round trip of joining and exploding.
\<close>

section \<open>explode_deps\<close>

text \<open>The loop over the tokens; the boolean is \<open>flag\<close>, set inside a parenthesised version.\<close>

fun explode_deps_loop :: "bool \<Rightarrow> string list \<Rightarrow> string list" where
  "explode_deps_loop flag [] = []"
| "explode_deps_loop flag (i # l) =
     (let flag1 = (flag \<or> startswith i ''('');
          flag2 = (flag1 \<and> \<not> endswith i '')'')
      in if flag1 then explode_deps_loop flag2 l else i # explode_deps_loop flag2 l)"

definition explode_deps :: "string \<Rightarrow> string list" where
  "explode_deps s = explode_deps_loop False (split_ws s)"

section \<open>explode_dep_versions2\<close>

text \<open>
  The local variables of the loop.  A key of \<open>r\<close> is \<open>None\<close> when a version comes before any
  name.
\<close>

type_synonym depmap = "(string option, string list) dict"

record dep_state =
  ds_r :: depmap
  ds_lastdep :: "string option"
  ds_lastcmp :: string
  ds_lastver :: string
  ds_incmp :: bool
  ds_inversion :: bool

definition dep_init :: dep_state where
  "dep_init = \<lparr>ds_r = [], ds_lastdep = None, ds_lastcmp = [], ds_lastver = [],
     ds_incmp = False, ds_inversion = False\<rparr>"

text \<open>The comparison operator at the start of a token, and the rest of the token.\<close>

definition dep_operator :: "string \<Rightarrow> (string \<times> string) option" where
  "dep_operator i =
     (if list_ex (startswith i) [''<='', ''=<'', ''<<'', ''=='', ''!='', ''>='', ''=>'', ''>>'']
      then Some (take 2 i, drop 2 i)
      else if list_ex (startswith i) [''<'', ''>'', ''=''] then Some (take 1 i, drop 1 i)
      else None)"

text \<open>The branch \<open>if inversion:\<close>, for a token that is part of a version.\<close>

definition dep_version :: "string \<Rightarrow> dep_state \<Rightarrow> dep_state" where
  "dep_version i s =
     (let close = endswith i '')'';
          i' = (if close then butlast i else i);
          s1 = (if close then s\<lparr>ds_inversion := False,
                   ds_lastver := ds_lastver s @ (if ds_lastver s \<noteq> [] \<and> i' \<noteq> [] then '' '' else [])\<rparr>
                else s)
      in if i' = [] then s1
         else let s2 = s1\<lparr>ds_lastver := ds_lastver s1 @ i'\<rparr>;
                  cur = dgetd (ds_r s2) (ds_lastdep s2) []
              in s2\<lparr>ds_r := dset (ds_lastdep s2) (cur @ [ds_lastcmp s2 @ '' '' @ ds_lastver s2]) (ds_r s2)\<rparr>)"

text \<open>The last part of the loop body, for a token that is a name.\<close>

definition dep_name :: "string \<Rightarrow> dep_state \<Rightarrow> dep_state" where
  "dep_name i s =
     s\<lparr>ds_lastdep := Some i, ds_lastver := [], ds_lastcmp := [],
       ds_r := (if dgetd (ds_r s) (Some i) [] \<noteq> [] then ds_r s else dset (Some i) [] (ds_r s))\<rparr>"

definition dep_step :: "string \<Rightarrow> dep_state \<Rightarrow> dep_state res" where
  "dep_step i s =
     (let paren = startswith i ''('';
          s1 = (if paren then s\<lparr>ds_incmp := True\<rparr> else s);
          i1 = (if paren then strip_by char_ws (tl i) else i)
      in if paren \<and> i1 = [] then Inr s1
         else if ds_incmp s1 then
           (case dep_operator i1 of
              None \<Rightarrow> Inl VersionStringException
            | Some (c, i2) \<Rightarrow>
                let s2 = s1\<lparr>ds_incmp := False, ds_inversion := True, ds_lastcmp := c\<rparr>
                in Inr (if i2 = [] then s2 else dep_version i2 s2))
         else if ds_inversion s1 then Inr (dep_version i1 s1)
         else Inr (dep_name i1 s1))"

text \<open>Sorting by key: comparing \<open>None\<close> with a string raises.\<close>

definition dep_sort :: "depmap \<Rightarrow> depmap res" where
  "dep_sort r =
     (if None \<in> set (dkeys r) then (if length r = 1 then Inr r else Inl TypeError)
      else Inr (sort_key (\<lambda>x. the (fst x)) r))"

definition explode_dep_versions2 :: "string \<Rightarrow> depmap res" where
  "explode_dep_versions2 s =
     rbind (rfold dep_step (split_ws (filter (\<lambda>c. c \<noteq> CHR '','') s)) dep_init)
       (\<lambda>st. dep_sort (ds_r st))"

definition explode_dep_versions :: "string \<Rightarrow> (string option, string option) dict res" where
  "explode_dep_versions s =
     rbind (explode_dep_versions2 s) (\<lambda>r.
       Inr (map (\<lambda>(d, vs). (d, case vs of [] \<Rightarrow> None | v # _ \<Rightarrow> Some v)) r))"

section \<open>join_deps\<close>

text \<open>The value of a dependency: \<open>None\<close>, a list of versions or one version.\<close>

datatype depval = DNone | DList "string list" | DStr string

fun join_dep_items :: "string \<times> depval \<Rightarrow> string list" where
  "join_dep_items (dep, DNone) = [dep]"
| "join_dep_items (dep, DList vs) = (if vs = [] then [dep] else map (\<lambda>v. dep @ '' ('' @ v @ '')'') vs)"
| "join_dep_items (dep, DStr v) = (if v = [] then [dep] else [dep @ '' ('' @ v @ '')''])"

definition join_deps :: "(string, depval) dict \<Rightarrow> bool \<Rightarrow> string" where
  "join_deps deps commasep =
     join_with (if commasep then '', '' else '' '') (concat (map join_dep_items deps))"

section \<open>Splitting at white space\<close>

lemma split_ws_acc_word:
  "list_all (\<lambda>c. \<not> char_ws c) w \<Longrightarrow> split_ws_acc acc (w @ s) = split_ws_acc (rev w @ acc) s"
  by (induction w arbitrary: acc) auto

lemma split_ws_acc_ws:
  "char_ws c \<Longrightarrow> split_ws_acc acc (c # s) = (if acc = [] then [] else [rev acc]) @ split_ws s"
  by (simp add: split_ws_def)

lemma split_ws_acc_append_ws:
  "char_ws c \<Longrightarrow> split_ws_acc acc (u @ c # v) = split_ws_acc acc u @ split_ws v"
  by (induction u arbitrary: acc) (auto simp: split_ws_def)

lemma split_ws_append_ws: "char_ws c \<Longrightarrow> split_ws (u @ c # v) = split_ws u @ split_ws v"
  using split_ws_acc_append_ws [of c "[]" u v] by (simp add: split_ws_def)

lemma split_ws_word: "w \<noteq> [] \<Longrightarrow> list_all (\<lambda>c. \<not> char_ws c) w \<Longrightarrow> split_ws w = [w]"
  using split_ws_acc_word [of w "[]" "[]"] by (simp add: split_ws_def)

lemma split_ws_Nil [simp]: "split_ws [] = []"
  by (simp add: split_ws_def)

lemma char_ws_space [simp]: "char_ws CHR '' ''"
  by (simp add: char_ws_def)

lemma not_char_ws_parens [simp]: "\<not> char_ws CHR ''(''" "\<not> char_ws CHR '')''"
  by (simp_all add: char_ws_def)

lemma split_ws_not_Nil: "w \<in> set (split_ws_acc acc s) \<Longrightarrow> w \<noteq> []"
  by (induction acc s rule: split_ws_acc.induct) (auto split: if_splits)

lemma join_with_Cons: "ws \<noteq> [] \<Longrightarrow> join_with sep (w # ws) = w @ sep @ join_with sep ws"
  by (cases ws) auto

text \<open>Joining with a comma and a space, or a space, and splitting again gives the tokens of the items.\<close>

lemma split_ws_join:
  assumes "sep = '', '' \<or> sep = '' ''" and "\<forall>w \<in> set ws. CHR '','' \<notin> set w"
  shows "split_ws (filter (\<lambda>c. c \<noteq> CHR '','') (join_with sep ws)) = concat (map split_ws ws)"
  using assms(2)
proof (induction ws)
  case Nil
  then show ?case by simp
next
  case (Cons w ws)
  have w: "filter (\<lambda>c. c \<noteq> CHR '','') w = w" using Cons.prems by (auto simp: filter_id_conv)
  show ?case
  proof (cases "ws = []")
    case True
    with w show ?thesis by simp
  next
    case False
    have "filter (\<lambda>c. c \<noteq> CHR '','') (join_with sep (w # ws)) =
        w @ CHR '' '' # filter (\<lambda>c. c \<noteq> CHR '','') (join_with sep ws)"
      using assms(1) w False by (auto simp: join_with_Cons)
    then show ?thesis using Cons by (simp add: split_ws_append_ws)
  qed
qed

section \<open>The round trip\<close>

text \<open>A name or version number that survives the trip: not empty, no white space, no comma, no opening parenthesis in front.\<close>

definition dep_word :: "string \<Rightarrow> bool" where
  "dep_word w \<longleftrightarrow> w \<noteq> [] \<and> list_all (\<lambda>c. \<not> char_ws c \<and> c \<noteq> CHR '','') w \<and> \<not> startswith w ''(''"

definition dep_ops :: "string list" where
  "dep_ops = [''<='', ''=<'', ''<<'', ''=='', ''!='', ''>='', ''=>'', ''>>'', ''<'', ''>'', ''='']"

definition dep_constraint :: "string \<Rightarrow> bool" where
  "dep_constraint v \<longleftrightarrow> list_ex (\<lambda>op. startswith v (op @ '' '') \<and> dep_word (drop (length op + 1) v)) dep_ops"

definition dep_entry :: "string \<times> string list \<Rightarrow> bool" where
  "dep_entry kv \<longleftrightarrow> dep_word (fst kv) \<and> list_all dep_constraint (snd kv)"

lemma dep_constraintE:
  assumes "dep_constraint v"
  obtains op w where "op \<in> set dep_ops" "v = op @ '' '' @ w" "dep_word w"
proof -
  from assms obtain op where op: "op \<in> set dep_ops" "startswith v (op @ '' '')"
    "dep_word (drop (length op + 1) v)"
    by (auto simp: dep_constraint_def list_ex_iff)
  then obtain t where t: "v = (op @ '' '') @ t" by (auto simp: startswith_iff)
  with op(3) have "dep_word t" by simp
  with op(1) t show thesis by (intro that) auto
qed

lemma dep_operator_op: "op \<in> set dep_ops \<Longrightarrow> dep_operator op = Some (op, [])"
  by (auto simp: dep_ops_def dep_operator_def startswith_def)

lemma dep_op_word: "op \<in> set dep_ops \<Longrightarrow>
    op \<noteq> [] \<and> list_all (\<lambda>c. \<not> char_ws c \<and> c \<noteq> CHR '','') op \<and> strip_by char_ws op = op"
proof -
  have "list_all (\<lambda>op. op \<noteq> [] \<and> list_all (\<lambda>c. \<not> char_ws c \<and> c \<noteq> CHR '','') op \<and> strip_by char_ws op = op) dep_ops"
    by (simp add: dep_ops_def char_ws_def strip_by_def rstrip_by_def)
  then show "op \<in> set dep_ops \<Longrightarrow> ?thesis" by (simp add: list_all_iff)
qed

lemma split_ws_item:
  assumes "dep_word d" "op \<in> set dep_ops" "dep_word w"
  shows "split_ws (d @ '' ('' @ (op @ '' '' @ w) @ '')'') = [d, CHR ''('' # op, w @ '')'']"
proof -
  have d: "split_ws d = [d]" using assms(1) by (intro split_ws_word) (simp_all add: dep_word_def list_all_iff)
  have o: "split_ws (CHR ''('' # op) = [CHR ''('' # op]"
    using dep_op_word [OF assms(2)] by (intro split_ws_word) (simp_all add: list_all_iff)
  have w: "split_ws (w @ '')'') = [w @ '')'']"
    using assms(3) by (intro split_ws_word) (simp_all add: dep_word_def list_all_iff)
  have "split_ws (d @ CHR '' '' # (CHR ''('' # op) @ CHR '' '' # w @ '')'') =
      split_ws d @ split_ws (CHR ''('' # op) @ split_ws (w @ '')'')"
    using split_ws_append_ws [OF char_ws_space, of d] split_ws_append_ws [OF char_ws_space, of "CHR ''('' # op"]
    by simp
  then show ?thesis using d o w by simp
qed

text \<open>The state between two dependencies.\<close>

definition dep_idle :: "dep_state \<Rightarrow> bool" where
  "dep_idle s \<longleftrightarrow> \<not> ds_incmp s \<and> \<not> ds_inversion s"

lemma dep_step_name:
  "dep_word d \<Longrightarrow> dep_idle s \<Longrightarrow> dep_step d s = Inr (dep_name d s)"
  by (simp add: dep_step_def dep_word_def dep_idle_def)

lemma dep_step_op:
  "op \<in> set dep_ops \<Longrightarrow> dep_step (CHR ''('' # op) s =
     Inr (s\<lparr>ds_incmp := False, ds_inversion := True, ds_lastcmp := op\<rparr>)"
  using dep_op_word [of op] by (simp add: dep_step_def startswith_def dep_operator_op)

lemma dep_step_version:
  assumes "dep_word w" "ds_inversion s" "\<not> ds_incmp s" "ds_lastver s = []"
  shows "dep_step (w @ '')'') s =
     Inr (s\<lparr>ds_inversion := False, ds_lastver := w,
        ds_r := dset (ds_lastdep s) (dgetd (ds_r s) (ds_lastdep s) [] @ [ds_lastcmp s @ '' '' @ w]) (ds_r s)\<rparr>)"
proof -
  have "\<not> startswith (w @ '')'') ''(''" using assms(1) by (cases w) (auto simp: dep_word_def startswith_def)
  then show ?thesis using assms by (simp add: dep_step_def dep_version_def dep_word_def Let_def)
qed

lemma rfold_item:
  assumes "dep_word d" "dep_constraint v" "dep_idle s"
  shows "\<exists>s'. rfold dep_step (split_ws (d @ '' ('' @ v @ '')'')) s = Inr s' \<and> dep_idle s' \<and>
     ds_r s' = dset (Some d) (dgetd (ds_r s) (Some d) [] @ [v]) (ds_r s)"
proof -
  obtain op w where v: "op \<in> set dep_ops" "v = op @ '' '' @ w" "dep_word w"
    using assms(2) by (rule dep_constraintE)
  have r: "dset k x (if b then m else dset k y m) = dset k x m" for k :: "string option" and x y :: "string list" and m b
    by simp
  have g: "dgetd (ds_r (dep_name d s)) (Some d) [] = dgetd (ds_r s) (Some d) []"
    by (simp add: dep_name_def)
  show ?thesis
    using assms(3) unfolding v(2) split_ws_item [OF assms(1) v(1,3)]
    by (auto simp: dep_step_name assms(1) dep_step_op v dep_step_version dep_idle_def dep_name_def r dgetd_dset)
qed

abbreviation dep_item :: "string \<Rightarrow> string \<Rightarrow> string" where
  "dep_item d v \<equiv> d @ '' ('' @ v @ '')''"

lemma rfold_items:
  assumes "dep_word d" "list_all dep_constraint vs" "dep_idle s"
  shows "\<exists>s'. rfold dep_step (concat (map (\<lambda>v. split_ws (dep_item d v)) vs)) s = Inr s' \<and> dep_idle s' \<and>
     ds_r s' = (if vs = [] then ds_r s else dset (Some d) (dgetd (ds_r s) (Some d) [] @ vs) (ds_r s))"
  using assms(2,3)
proof (induction vs arbitrary: s)
  case Nil
  then show ?case by simp
next
  case (Cons v vs)
  obtain s1 where s1: "rfold dep_step (split_ws (dep_item d v)) s = Inr s1" "dep_idle s1"
    "ds_r s1 = dset (Some d) (dgetd (ds_r s) (Some d) [] @ [v]) (ds_r s)"
    using rfold_item [OF assms(1) _ Cons.prems(2), of v] Cons.prems(1) by auto
  obtain s2 where "rfold dep_step (concat (map (\<lambda>v. split_ws (dep_item d v)) vs)) s1 = Inr s2" "dep_idle s2"
    "ds_r s2 = (if vs = [] then ds_r s1 else dset (Some d) (dgetd (ds_r s1) (Some d) [] @ vs) (ds_r s1))"
    using Cons.IH [OF _ s1(2)] Cons.prems(1) by auto
  with s1 show ?case by (auto simp: rfold_append)
qed

lemma rfold_entry:
  assumes "dep_entry (d, vs)" "dep_idle s" "Some d \<notin> set (dkeys (ds_r s))"
  shows "\<exists>s'. rfold dep_step (concat (map split_ws (join_dep_items (d, DList vs)))) s = Inr s' \<and>
     dep_idle s' \<and> ds_r s' = ds_r s @ [(Some d, vs)]"
proof (cases "vs = []")
  case True
  have "split_ws d = [d]"
    using assms(1) by (intro split_ws_word) (simp_all add: dep_entry_def dep_word_def list_all_iff)
  moreover have "dgetd (ds_r s) (Some d) [] = []"
    using assms(3) by (simp add: dgetd_def dget_None_iff [THEN iffD2])
  ultimately show ?thesis
    using assms True
    by (simp add: dep_step_name dep_entry_def dep_name_def dep_idle_def dset_absent)
next
  case False
  have "dgetd (ds_r s) (Some d) [] = []"
    using assms(3) by (simp add: dgetd_def dget_None_iff [THEN iffD2])
  with rfold_items [of d vs s] assms False show ?thesis
    by (auto simp: dep_entry_def comp_def dset_absent)
qed

lemma rfold_entries:
  assumes "\<forall>kv \<in> set deps. dep_entry kv" "dep_idle s"
    and "distinct (map fst deps)" "Some ` fst ` set deps \<inter> set (dkeys (ds_r s)) = {}"
  shows "\<exists>s'. rfold dep_step (concat (map split_ws (concat (map (\<lambda>(k, vs). join_dep_items (k, DList vs)) deps)))) s
     = Inr s' \<and> dep_idle s' \<and> ds_r s' = ds_r s @ map (\<lambda>(k, vs). (Some k, vs)) deps"
  using assms
proof (induction deps arbitrary: s)
  case Nil
  then show ?case by simp
next
  case (Cons kv deps)
  obtain d vs where kv: "kv = (d, vs)" by (cases kv)
  obtain s1 where s1: "rfold dep_step (concat (map split_ws (join_dep_items (d, DList vs)))) s = Inr s1"
    "dep_idle s1" "ds_r s1 = ds_r s @ [(Some d, vs)]"
    using rfold_entry [of d vs s] Cons.prems kv by auto
  obtain s2 where
    "rfold dep_step (concat (map split_ws (concat (map (\<lambda>(k, vs). join_dep_items (k, DList vs)) deps)))) s1 = Inr s2"
    "dep_idle s2" "ds_r s2 = ds_r s1 @ map (\<lambda>(k, vs). (Some k, vs)) deps"
    using Cons.IH [OF _ s1(2)] Cons.prems s1(3) kv by force
  with s1 kv show ?case by (auto simp: rfold_append)
qed

lemma join_dep_items_no_comma:
  assumes "dep_entry (d, vs)" "w \<in> set (join_dep_items (d, DList vs))"
  shows "CHR '','' \<notin> set w"
proof -
  have "CHR '','' \<notin> set d" using assms(1) by (auto simp: dep_entry_def dep_word_def list_all_iff)
  moreover have "CHR '','' \<notin> set v" if "v \<in> set vs" for v
  proof -
    from that assms(1) have "dep_constraint v" by (auto simp: dep_entry_def list_all_iff)
    then obtain op x where "op \<in> set dep_ops" "v = op @ '' '' @ x" "dep_word x"
      by (rule dep_constraintE)
    then show ?thesis using dep_op_word [of op] by (auto simp: dep_word_def list_all_iff)
  qed
  ultimately show ?thesis using assms(2) by (auto split: if_splits)
qed

lemma explode_join:
  assumes "\<forall>kv \<in> set deps. dep_entry kv" "sorted (map fst deps)" "distinct (map fst deps)"
  shows "explode_dep_versions2 (join_deps (map (\<lambda>(k, vs). (k, DList vs)) deps) commasep) =
     Inr (map (\<lambda>(k, vs). (Some k, vs)) deps)"
proof -
  let ?items = "concat (map (\<lambda>(k, vs). join_dep_items (k, DList vs)) deps)"
  have items: "concat (map join_dep_items (map (\<lambda>(k, vs). (k, DList vs)) deps)) = ?items"
    by (simp add: comp_def case_prod_unfold)
  have nocomma: "\<forall>w \<in> set ?items. CHR '','' \<notin> set w"
    using assms(1) join_dep_items_no_comma by fastforce
  obtain s where s: "rfold dep_step (concat (map split_ws ?items)) dep_init = Inr s"
    "ds_r s = map (\<lambda>(k, vs). (Some k, vs)) deps"
    using rfold_entries [OF assms(1) _ assms(3), of dep_init] by (auto simp: dep_init_def dep_idle_def)
  have "split_ws (filter (\<lambda>c. c \<noteq> CHR '','') (join_deps (map (\<lambda>(k, vs). (k, DList vs)) deps) commasep)) =
      concat (map split_ws ?items)"
    unfolding join_deps_def items by (rule split_ws_join) (use nocomma in auto)
  moreover have "dep_sort (map (\<lambda>(k, vs). (Some k, vs)) deps) = Inr (map (\<lambda>(k, vs). (Some k, vs)) deps)"
  proof -
    have "sorted (map (\<lambda>x. the (fst x)) (map (\<lambda>(k, vs). (Some k, vs)) deps))"
      using assms(2) by (simp add: comp_def case_prod_beta)
    moreover have "None \<notin> set (dkeys (map (\<lambda>(k, vs). (Some k, vs)) deps))"
      by (auto simp: dkeys_def)
    ultimately show ?thesis by (simp add: dep_sort_def sort_key_id_if_sorted)
  qed
  ultimately show ?thesis using s by (simp add: explode_dep_versions2_def)
qed

section \<open>Property\<close>

text \<open>
  C40. Round trip of dependency strings: joining a dictionary of dependencies whose keys are in
  order, with commas or with spaces, and exploding the string gives the dictionary back, every
  version constraint included.
\<close>

theorem join_deps_roundtrip:
  assumes "\<forall>kv \<in> set deps. dep_entry kv" "sorted (map fst deps)" "distinct (map fst deps)"
  shows "explode_dep_versions2 (join_deps (map (\<lambda>(k, vs). (k, DList vs)) deps) commasep) =
     Inr (map (\<lambda>(k, vs). (Some k, vs)) deps)"
  by (rule explode_join [OF assms])

theorem join_deps_roundtrip_witness:
  "explode_dep_versions2 (join_deps (map (\<lambda>(k, vs). (k, DList vs))
     [(''bash'', []), (''glibc'', [''>= 2.24'', ''< 3''])]) True) =
   Inr (map (\<lambda>(k, vs). (Some k, vs)) [(''bash'', []), (''glibc'', [''>= 2.24'', ''< 3''])])"
proof (rule join_deps_roundtrip)
  show "\<forall>kv \<in> set [(''bash'', []), (''glibc'', [''>= 2.24'', ''< 3''])]. dep_entry kv"
    by (simp add: dep_entry_def dep_constraint_def dep_word_def dep_ops_def char_ws_def startswith_def)
qed (simp_all add: less_char_def less_eq_char_def)

end
