(* ===== verification/RecipeCache.thy ===== *)
theory RecipeCache
  imports Prelude TaskIds DepStrings
begin

text \<open>
  Recipe information and the recipe cache of \<open>bitbake/lib/bb/cache.py\<close>: \<open>CoreRecipeInfo\<close> (what is
  read from a parsed recipe), \<open>CacheData\<close> (the tables compiled from all recipes, which the
  provider and task code reads) and \<open>Cache\<close> (which of the stored information is still valid).

  The parsed data of a recipe is the argument \<open>metadata\<close> (\<open>getVar\<close> and \<open>getVarFlag\<close> as functions).
  The file system is the pair of functions \<open>mtime\<close> (0 for a missing file) and \<open>exists\<close>.

  \<open>defaultdict\<close> tables are dictionaries read with \<open>dgetd\<close>; the empty list that a read of a missing
  key inserts is not modelled, except where the code iterates over the same table (see Providers).
\<close>

section \<open>RecipeInfoCommon\<close>

record taskdeps =
  td_tasks :: "string list"
  td_parents :: "(string, string list) dict"
  td_flags :: "(string, (string, string) dict) dict"

text \<open>The argument \<open>True\<close> of \<open>md_var\<close> asks for expansion.  The four last fields are variables that hold lists, not strings.\<close>

record metadata =
  md_var :: "string \<Rightarrow> bool \<Rightarrow> string option"
  md_flag :: "string \<Rightarrow> string \<Rightarrow> string option"
  md_file_depends :: "(string \<times> int) list option"
  md_tasks :: "string list option"
  md_task_deps :: "taskdeps option"
  md_inherit_cache :: "string list option"

definition getvar :: "string \<Rightarrow> metadata \<Rightarrow> string" where
  "getvar var m = (case md_var m var True of None \<Rightarrow> [] | Some v \<Rightarrow> v)"

definition listvar :: "string \<Rightarrow> metadata \<Rightarrow> string list" where
  "listvar var m = split_ws (getvar var m)"

definition intvar :: "string \<Rightarrow> metadata \<Rightarrow> int res" where
  "intvar var m = (let v = getvar var m in if v = [] then Inr 0 else py_int v)"

definition depvar :: "string \<Rightarrow> metadata \<Rightarrow> string list" where
  "depvar var m = explode_deps (getvar var m)"

text \<open>\<open>dict((k, f(k)) for k in ks)\<close>.\<close>

definition dict_of :: "('k \<Rightarrow> 'v) \<Rightarrow> 'k list \<Rightarrow> ('k, 'v) dict" where
  "dict_of f ks = fold (\<lambda>k. dset k (f k)) ks []"

definition pkgvar :: "string \<Rightarrow> string list \<Rightarrow> metadata \<Rightarrow> (string, string list) dict" where
  "pkgvar var packages m = dict_of (\<lambda>pkg. depvar (var @ ''_'' @ pkg) m) packages"

definition taskvar :: "string \<Rightarrow> string list \<Rightarrow> metadata \<Rightarrow> (string, string) dict" where
  "taskvar var tasks m = dict_of (\<lambda>task. getvar (var @ ''_task-'' @ task) m) tasks"

definition flaglist :: "string \<Rightarrow> string list \<Rightarrow> metadata \<Rightarrow> bool \<Rightarrow> (string, string option) dict" where
  "flaglist flag vars m squash =
     (let out_dict = dict_of (\<lambda>var. md_flag m var flag) vars
      in if squash then filter (\<lambda>(k, v). v \<noteq> None \<and> v \<noteq> Some []) out_dict else out_dict)"

lemma dget_fold_dict: "dget (fold (\<lambda>k. dset k (f k)) ks d) k = (if k \<in> set ks then Some (f k) else dget d k)"
  by (induction ks arbitrary: d) auto

lemma dget_dict_of [simp]: "dget (dict_of f ks) k = (if k \<in> set ks then Some (f k) else None)"
  by (simp add: dict_of_def dget_fold_dict)

section \<open>CoreRecipeInfo\<close>

record recipe_info =
  ri_file_depends :: "(string \<times> int) list option"
  ri_timestamp :: int
  ri_variants :: "string list"
  ri_appends :: "string list"
  ri_nocache :: string
  ri_skipreason :: string
  ri_skipped :: bool
  ri_pn :: "string option"
  ri_provides :: "string list"
  ri_rprovides :: "string list"
  ri_tasks :: "string list"
  ri_packages :: "string list"
  ri_basetaskhashes :: "(string, string) dict"
  ri_hashfilename :: string
  ri_task_deps :: taskdeps
  ri_pe :: string
  ri_pv :: string
  ri_pr :: string
  ri_defaultpref :: int
  ri_not_world :: string
  ri_stamp :: string
  ri_stampclean :: string
  ri_stamp_extrainfo :: "(string, string option) dict"
  ri_file_checksums :: "(string, string option) dict"
  ri_packages_dynamic :: "string list"
  ri_depends :: "string list"
  ri_rdepends :: "string list"
  ri_rrecommends :: "string list"
  ri_rprovides_pkg :: "(string, string list) dict"
  ri_rdepends_pkg :: "(string, string list) dict"
  ri_rrecommends_pkg :: "(string, string list) dict"
  ri_inherits :: "string list"
  ri_fakerootenv :: string
  ri_fakerootdirs :: string
  ri_fakerootnoenv :: string
  ri_extradepsfunc :: string

definition no_task_deps :: taskdeps where
  "no_task_deps = \<lparr>td_tasks = [], td_parents = [], td_flags = []\<rparr>"

text \<open>\<open>parse.vars_from_file\<close>: the first component, which is what the cache reads.  \<open>TypeError\<close> stands for its \<open>ParseError\<close>.\<close>

definition py_basename :: "string \<Rightarrow> string" where
  "py_basename p = rev (takeWhile (\<lambda>c. c \<noteq> CHR ''/'') (rev p))"

text \<open>\<open>os.path.splitext(p)[0]\<close> of a name without a slash: leading dots do not start an extension.\<close>

definition py_splitext0 :: "string \<Rightarrow> string" where
  "py_splitext0 p =
     (let dots = takeWhile (\<lambda>c. c = CHR ''.'') p; r = dropWhile (\<lambda>c. c = CHR ''.'') p
      in (case rsplit1 (CHR ''.'') r of None \<Rightarrow> p | Some (a, b) \<Rightarrow> dots @ a))"

definition vars_from_file0 :: "string \<Rightarrow> string option res" where
  "vars_from_file0 mypkg =
     (if mypkg = [] \<or> \<not> (endswith mypkg ''.bb'' \<or> endswith mypkg ''.bbappend'') then Inr None
      else let parts = split_on (CHR ''_'') (py_splitext0 (py_basename mypkg))
           in if length parts > 3 then Inl ParameterError else Inr (Some (hd parts)))"

text \<open>What both a skipped and a complete recipe carry.\<close>

definition recipe_base :: "int \<Rightarrow> metadata \<Rightarrow> recipe_info" where
  "recipe_base timestamp m =
     \<lparr>ri_file_depends = md_file_depends m, ri_timestamp = timestamp,
      ri_variants = listvar ''__VARIANTS'' m @ [[]], ri_appends = listvar ''__BBAPPEND'' m,
      ri_nocache = getvar ''BB_DONT_CACHE'' m, ri_skipreason = getvar ''__SKIPPED'' m, ri_skipped = True,
      ri_pn = None, ri_provides = depvar ''PROVIDES'' m, ri_rprovides = depvar ''RPROVIDES'' m,
      ri_tasks = [], ri_packages = [], ri_basetaskhashes = [], ri_hashfilename = [],
      ri_task_deps = no_task_deps, ri_pe = [], ri_pv = [], ri_pr = [], ri_defaultpref = 0,
      ri_not_world = [], ri_stamp = [], ri_stampclean = [], ri_stamp_extrainfo = [], ri_file_checksums = [],
      ri_packages_dynamic = [], ri_depends = [], ri_rdepends = [], ri_rrecommends = [],
      ri_rprovides_pkg = [], ri_rdepends_pkg = [], ri_rrecommends_pkg = [], ri_inherits = [],
      ri_fakerootenv = [], ri_fakerootdirs = [], ri_fakerootnoenv = [], ri_extradepsfunc = []\<rparr>"

definition recipe_packages :: "metadata \<Rightarrow> string list" where
  "recipe_packages m = sadd (getvar ''PN'' m) (listvar ''PACKAGES'' m)"

definition recipe_full :: "int \<Rightarrow> metadata \<Rightarrow> string list \<Rightarrow> int \<Rightarrow> recipe_info" where
  "recipe_full timestamp m tasks pref =
     (let packages = recipe_packages m
      in (recipe_base timestamp m)\<lparr>
        ri_tasks := tasks, ri_pn := Some (getvar ''PN'' m), ri_packages := packages,
        ri_basetaskhashes := taskvar ''BB_BASEHASH'' tasks m,
        ri_hashfilename := getvar ''BB_HASHFILENAME'' m,
        ri_task_deps := (case md_task_deps m of None \<Rightarrow> no_task_deps | Some t \<Rightarrow> t),
        ri_skipped := False, ri_pe := getvar ''PE'' m, ri_pv := getvar ''PV'' m, ri_pr := getvar ''PR'' m,
        ri_defaultpref := pref, ri_not_world := getvar ''EXCLUDE_FROM_WORLD'' m,
        ri_stamp := getvar ''STAMP'' m, ri_stampclean := getvar ''STAMPCLEAN'' m,
        ri_stamp_extrainfo := flaglist ''stamp-extra-info'' tasks m False,
        ri_file_checksums := flaglist ''file-checksums'' tasks m True,
        ri_packages_dynamic := listvar ''PACKAGES_DYNAMIC'' m, ri_depends := depvar ''DEPENDS'' m,
        ri_rdepends := depvar ''RDEPENDS'' m, ri_rrecommends := depvar ''RRECOMMENDS'' m,
        ri_rprovides_pkg := pkgvar ''RPROVIDES'' packages m,
        ri_rdepends_pkg := pkgvar ''RDEPENDS'' packages m,
        ri_rrecommends_pkg := pkgvar ''RRECOMMENDS'' packages m,
        ri_inherits := (case md_inherit_cache m of None \<Rightarrow> [] | Some l \<Rightarrow> l),
        ri_fakerootenv := getvar ''FAKEROOTENV'' m, ri_fakerootdirs := getvar ''FAKEROOTDIRS'' m,
        ri_fakerootnoenv := getvar ''FAKEROOTNOENV'' m,
        ri_extradepsfunc := getvar ''calculate_extra_depends'' m\<rparr>)"

definition core_recipe_info :: "(string \<Rightarrow> int) \<Rightarrow> string \<Rightarrow> metadata \<Rightarrow> recipe_info res" where
  "core_recipe_info mtime filename m =
     (if getvar ''__SKIPPED'' m \<noteq> [] then
        (if getvar ''PN'' m \<noteq> [] then Inr ((recipe_base (mtime filename) m)\<lparr>ri_pn := Some (getvar ''PN'' m)\<rparr>)
         else rbind (vars_from_file0 filename) (\<lambda>pn. Inr ((recipe_base (mtime filename) m)\<lparr>ri_pn := pn\<rparr>)))
      else (case md_tasks m of
              None \<Rightarrow> Inl TypeError
            | Some tasks \<Rightarrow> rbind (intvar ''DEFAULT_PREFERENCE'' m) (\<lambda>pref.
                Inr (recipe_full (mtime filename) m tasks pref))))"

section \<open>CacheData\<close>

record cachedata =
  c_task_deps :: "(string, taskdeps) dict"
  c_pkg_fn :: "(string, string) dict"
  c_pkg_pn :: "(string, string list) dict"
  c_pkg_pepvpr :: "(string, string \<times> string \<times> string) dict"
  c_pkg_dp :: "(string, int) dict"
  c_stamp :: "(string, string) dict"
  c_stampclean :: "(string, string) dict"
  c_stamp_extrainfo :: "(string, (string, string option) dict) dict"
  c_file_checksums :: "(string, (string, string option) dict) dict"
  c_fn_provides :: "(string, string list) dict"
  c_pn_provides :: "(string, string list) dict"
  c_all_depends :: "string list"
  c_deps :: "(string, string list) dict"
  c_packages :: "(string, string list) dict"
  c_providers :: "(string, string list) dict"
  c_rproviders :: "(string, string list) dict"
  c_packages_dynamic :: "(string, string list) dict"
  c_rundeps :: "(string, (string, string list) dict) dict"
  c_runrecs :: "(string, (string, string list) dict) dict"
  c_possible_world :: "string list"
  c_universe_target :: "string list"
  c_hashfn :: "(string, string) dict"
  c_basetaskhash :: "(string, string) dict"
  c_inherits :: "(string, string list) dict"
  c_fakerootenv :: "(string, string) dict"
  c_fakerootnoenv :: "(string, string) dict"
  c_fakerootdirs :: "(string, string) dict"
  c_extradepsfunc :: "(string, string) dict"
  c_preferred :: "(string, string) dict"
  c_ignored_dependencies :: "string list"
  c_world_target :: "string list"
  c_bbfile_priority :: "(string, int) dict"

definition init_cacheData :: cachedata where
  "init_cacheData =
     \<lparr>c_task_deps = [], c_pkg_fn = [], c_pkg_pn = [], c_pkg_pepvpr = [], c_pkg_dp = [],
      c_stamp = [], c_stampclean = [], c_stamp_extrainfo = [], c_file_checksums = [],
      c_fn_provides = [], c_pn_provides = [], c_all_depends = [],
      c_deps = [], c_packages = [], c_providers = [], c_rproviders = [], c_packages_dynamic = [],
      c_rundeps = [], c_runrecs = [], c_possible_world = [], c_universe_target = [], c_hashfn = [],
      c_basetaskhash = [], c_inherits = [], c_fakerootenv = [], c_fakerootnoenv = [], c_fakerootdirs = [],
      c_extradepsfunc = [],
      c_preferred = [], c_ignored_dependencies = [], c_world_target = [], c_bbfile_priority = []\<rparr>"

text \<open>\<open>table[key].append(x)\<close>, and the same guarded by \<open>if x not in table[key]\<close>.\<close>

definition dappend :: "'k \<Rightarrow> 'v \<Rightarrow> ('k, 'v list) dict \<Rightarrow> ('k, 'v list) dict" where
  "dappend k x d = dset k (dgetd d k [] @ [x]) d"

definition dappend_new :: "'k \<Rightarrow> 'v \<Rightarrow> ('k, 'v list) dict \<Rightarrow> ('k, 'v list) dict" where
  "dappend_new k x d = dset k (sadd x (dgetd d k [])) d"

definition py_str_none :: "string option \<Rightarrow> string" where
  "py_str_none pn = (case pn of None \<Rightarrow> ''None'' | Some s \<Rightarrow> s)"

definition info_provides :: "string \<Rightarrow> recipe_info \<Rightarrow> string list" where
  "info_provides pn i = sunion [pn] (ri_provides i)"

definition add_recipe_tables :: "recipe_info \<Rightarrow> string \<Rightarrow> string \<Rightarrow> cachedata \<Rightarrow> cachedata" where
  "add_recipe_tables i pn fn c = c\<lparr>
     c_task_deps := dset fn (ri_task_deps i) (c_task_deps c),
     c_pkg_fn := dset fn pn (c_pkg_fn c),
     c_pkg_pn := dappend pn fn (c_pkg_pn c),
     c_pkg_pepvpr := dset fn (ri_pe i, ri_pv i, ri_pr i) (c_pkg_pepvpr c),
     c_pkg_dp := dset fn (ri_defaultpref i) (c_pkg_dp c),
     c_stamp := dset fn (ri_stamp i) (c_stamp c),
     c_stampclean := dset fn (ri_stampclean i) (c_stampclean c),
     c_stamp_extrainfo := dset fn (ri_stamp_extrainfo i) (c_stamp_extrainfo c),
     c_file_checksums := dset fn (ri_file_checksums i) (c_file_checksums c)\<rparr>"

definition add_recipe_provides :: "recipe_info \<Rightarrow> string \<Rightarrow> string \<Rightarrow> cachedata \<Rightarrow> cachedata" where
  "add_recipe_provides i pn fn c =
     (let provides = info_provides pn i
      in fold (\<lambda>provide c. c\<lparr>c_providers := dappend provide fn (c_providers c),
                c_pn_provides := dappend_new pn provide (c_pn_provides c)\<rparr>)
           provides (c\<lparr>c_fn_provides := dset fn provides (c_fn_provides c)\<rparr>))"

definition add_recipe_depends :: "recipe_info \<Rightarrow> string \<Rightarrow> cachedata \<Rightarrow> cachedata" where
  "add_recipe_depends i fn c =
     fold (\<lambda>dep c. c\<lparr>c_deps := dappend_new fn dep (c_deps c), c_all_depends := sadd dep (c_all_depends c)\<rparr>)
       (ri_depends i) c"

text \<open>\<open>rprovides\<close> is the list object \<open>self.rprovides\<close>, so the \<open>+=\<close> extends the recipe information itself.\<close>

definition add_recipe_rprovides :: "recipe_info \<Rightarrow> string \<Rightarrow> cachedata \<Rightarrow> (recipe_info \<times> cachedata) res" where
  "add_recipe_rprovides i fn c =
     rbind (rfold (\<lambda>package (i, c). rbind (dlookup (ri_rprovides_pkg i) package) (\<lambda>rp.
         Inr (i\<lparr>ri_rprovides := ri_rprovides i @ rp\<rparr>, c\<lparr>c_packages := dappend package fn (c_packages c)\<rparr>)))
       (ri_packages i) (i, c)) (\<lambda>(i, c).
     Inr (i, c\<lparr>
       c_rproviders := fold (\<lambda>rprovide. dappend_new rprovide fn) (ri_rprovides i) (c_rproviders c),
       c_packages_dynamic := fold (\<lambda>package. dappend package fn) (ri_packages_dynamic i) (c_packages_dynamic c)\<rparr>))"

definition add_recipe_rundeps :: "recipe_info \<Rightarrow> string \<Rightarrow> string \<Rightarrow> cachedata \<Rightarrow> cachedata res" where
  "add_recipe_rundeps i pn fn c =
     rfold (\<lambda>package c.
       rbind (dlookup (ri_rdepends_pkg i) package) (\<lambda>rd.
       rbind (dlookup (ri_rrecommends_pkg i) package) (\<lambda>rr.
         Inr (c\<lparr>c_rundeps := dset fn (dset package (ri_rdepends i @ rd) (dgetd (c_rundeps c) fn [])) (c_rundeps c),
                c_runrecs := dset fn (dset package (ri_rrecommends i @ rr) (dgetd (c_runrecs c) fn [])) (c_runrecs c)\<rparr>))))
       (ri_packages i @ [pn]) c"

definition add_recipe_rest :: "recipe_info \<Rightarrow> string \<Rightarrow> string \<Rightarrow> cachedata \<Rightarrow> cachedata" where
  "add_recipe_rest i pn fn c = c\<lparr>
     c_possible_world := (if ri_not_world i \<noteq> [] then c_possible_world c else c_possible_world c @ [fn]),
     c_universe_target := c_universe_target c @ [pn],
     c_hashfn := dset fn (ri_hashfilename i) (c_hashfn c),
     c_basetaskhash := fold (\<lambda>(task, taskhash). dset (fn @ ''.'' @ task) taskhash) (ri_basetaskhashes i) (c_basetaskhash c),
     c_inherits := dset fn (ri_inherits i) (c_inherits c),
     c_fakerootenv := dset fn (ri_fakerootenv i) (c_fakerootenv c),
     c_fakerootnoenv := dset fn (ri_fakerootnoenv i) (c_fakerootnoenv c),
     c_fakerootdirs := dset fn (ri_fakerootdirs i) (c_fakerootdirs c),
     c_extradepsfunc := dset fn (ri_extradepsfunc i) (c_extradepsfunc c)\<rparr>"

definition add_cacheData :: "recipe_info \<Rightarrow> string \<Rightarrow> cachedata \<Rightarrow> (recipe_info \<times> cachedata) res" where
  "add_cacheData i fn c =
     (if ri_skipped i then Inl AttributeError
      else let pn = py_str_none (ri_pn i) in
        rbind (add_recipe_rprovides i fn
                 (add_recipe_depends i fn (add_recipe_provides i pn fn (add_recipe_tables i pn fn c)))) (\<lambda>(i, c).
        rbind (add_recipe_rundeps i pn fn c) (\<lambda>c.
        Inr (i, add_recipe_rest i pn fn c))))"

section \<open>Cache\<close>

record bbcache =
  bc_has_cache :: bool
  bc_nclasses :: nat
  bc_checked :: "string list"
  bc_clean :: "string list"
  bc_depends_cache :: "(string, recipe_info list) dict"
  bc_cacheclean :: bool

definition cache_remove :: "string \<Rightarrow> bbcache \<Rightarrow> bbcache" where
  "cache_remove fn b = b\<lparr>bc_depends_cache := ddel fn (bc_depends_cache b), bc_clean := remove1 fn (bc_clean b)\<rparr>"

text \<open>\<open>s.find(p)\<close>.\<close>

fun py_find_from :: "int \<Rightarrow> string \<Rightarrow> string \<Rightarrow> int" where
  "py_find_from n p [] = (if p = [] then n else -1)"
| "py_find_from n p (c # cs) = (if startswith (c # cs) p then n else py_find_from (n + 1) p cs)"

definition py_find :: "string \<Rightarrow> string \<Rightarrow> int" where
  "py_find s p = py_find_from 0 p s"

text \<open>
  The loop over one \<open>file-checksums\<close> value: entries \<open>file:True\<close> and \<open>file:False\<close> with spaces allowed
  in the names.  The result says whether an entry is out of date.
\<close>

definition checksum_cut :: "string \<Rightarrow> (string \<times> string) option" where
  "checksum_cut fl =
     (let a = py_find fl '':True''; b = py_find fl '':False''
      in if (a < 0 \<and> b \<noteq> 0) \<or> (b > 0 \<and> b < a) then Some (take (nat (b + 6)) fl, drop (nat (b + 7)) fl)
         else if (b < 0 \<and> a \<noteq> 0) \<or> (a > 0 \<and> a < b) then Some (take (nat (a + 5)) fl, drop (nat (a + 6)) fl)
         else None)"

lemma py_find_from_ge: "py_find_from n p s = -1 \<or> n \<le> py_find_from n p s"
  by (induction n p s rule: py_find_from.induct) auto

lemma py_find_ge: "-1 \<le> py_find s p"
  using py_find_from_ge [of 0 p s] by (auto simp: py_find_def)

lemma checksum_cut_length:
  assumes "checksum_cut fl = Some (f, r)" "fl \<noteq> []"
  shows "length r < length fl"
proof -
  have "0 < nat (py_find fl '':False'' + 7)" "0 < nat (py_find fl '':True'' + 6)"
    using py_find_ge [of fl "'':False''"] py_find_ge [of fl "'':True''"] by auto
  then show ?thesis using assms by (auto simp: checksum_cut_def Let_def split: if_splits)
qed

lemma strip_by_length: "length (strip_by p s) \<le> length s"
  using length_dropWhile_le [of p "rev (dropWhile p s)"] length_dropWhile_le [of p s]
  by (simp add: strip_by_def rstrip_by_def)

function checksums_stale :: "(string \<Rightarrow> bool) \<Rightarrow> string \<Rightarrow> bool res" where
  "checksums_stale file_exists fl =
     (if fl = [] then Inr False
      else (case checksum_cut fl of
              None \<Rightarrow> Inr False
            | Some (f, r) \<Rightarrow>
                (if CHR ''*'' \<in> set f then checksums_stale file_exists (strip_by char_ws r)
                 else (case split_on colon f of
                         [f, exist] \<Rightarrow>
                           (if (exist = ''True'' \<and> \<not> file_exists f) \<or> (exist = ''False'' \<and> file_exists f) then Inr True
                            else checksums_stale file_exists (strip_by char_ws r))
                       | _ \<Rightarrow> Inl ValueError))))"
  by pat_completeness auto
termination
  by (relation "measure (\<lambda>(_, fl). length fl)")
    (auto intro: order.strict_trans1 [OF strip_by_length] checksum_cut_length)

declare checksums_stale.simps [simp del]

text \<open>\<open>any\<close> in source order, over values that may raise.\<close>

fun rany :: "('a \<Rightarrow> bool res) \<Rightarrow> 'a list \<Rightarrow> bool res" where
  "rany f [] = Inr False"
| "rany f (x # xs) = rbind (f x) (\<lambda>b. if b then Inr True else rany f xs)"

lemma rany_False: "rany f xs = Inr False \<longleftrightarrow> (\<forall>x \<in> set xs. f x = Inr False)"
  by (induction xs) (auto simp: res_simps)

definition depend_changed :: "(string \<Rightarrow> int) \<Rightarrow> string \<times> int \<Rightarrow> bool" where
  "depend_changed mtime d = (case d of (f, old_mtime) \<Rightarrow> (old_mtime \<noteq> 0 \<and> mtime f = 0) \<or> mtime f \<noteq> old_mtime)"

text \<open>The loop over the variants, and what undoes it when one variant is missing.\<close>

definition variant_step :: "string \<Rightarrow> string \<Rightarrow> bbcache \<times> bool \<Rightarrow> (bbcache \<times> bool) res" where
  "variant_step fn cls bi =
     rbind (variant2virtual fn cls) (\<lambda>virtualfn.
       let b = (fst bi)\<lparr>bc_clean := sadd virtualfn (bc_clean (fst bi))\<rparr>
       in Inr (b, (case dget (bc_depends_cache b) virtualfn of
                     None \<Rightarrow> True
                   | Some infos \<Rightarrow> if length infos \<noteq> bc_nclasses b then True else snd bi)))"

definition variant_undo :: "string \<Rightarrow> string \<Rightarrow> bbcache \<Rightarrow> bbcache res" where
  "variant_undo fn cls b =
     rbind (variant2virtual fn cls) (\<lambda>virtualfn. Inr (b\<lparr>bc_clean := remove1 virtualfn (bc_clean b)\<rparr>))"

definition validate_variants :: "string \<Rightarrow> string list \<Rightarrow> bbcache \<Rightarrow> (bbcache \<times> bool) res" where
  "validate_variants fn variants b =
     rbind (rfold (variant_step fn) variants (b, False)) (\<lambda>(b, invalid).
       if invalid then
         rbind (rfold (variant_undo fn) variants b) (\<lambda>b.
           Inr (b\<lparr>bc_clean := remove1 fn (bc_clean b)\<rparr>, False))
       else Inr (b\<lparr>bc_clean := sadd fn (bc_clean b)\<rparr>, True))"

definition cacheValidUpdate ::
  "(string \<Rightarrow> int) \<Rightarrow> (string \<Rightarrow> bool) \<Rightarrow> string \<Rightarrow> string list \<Rightarrow> bbcache \<Rightarrow> (bbcache \<times> bool) res" where
  "cacheValidUpdate mtime file_exists fn appends b =
     (if \<not> bc_has_cache b then Inr (b, False)
      else let b = b\<lparr>bc_checked := sadd fn (bc_checked b)\<rparr> in
        (case dget (bc_depends_cache b) fn of
           None \<Rightarrow> Inr (b, False)
         | Some info_array \<Rightarrow>
             if mtime fn = 0 then Inr (cache_remove fn b, False)
             else (case info_array of
               [] \<Rightarrow> Inl IndexError
             | info # _ \<Rightarrow>
                 if mtime fn \<noteq> ri_timestamp info then Inr (cache_remove fn b, False)
                 else if list_ex (depend_changed mtime) (case ri_file_depends info of None \<Rightarrow> [] | Some ds \<Rightarrow> ds)
                 then Inr (cache_remove fn b, False)
                 else rbind (rany (\<lambda>(_, fl). case fl of None \<Rightarrow> Inl AttributeError
                              | Some fl \<Rightarrow> checksums_stale file_exists (strip_by char_ws fl))
                        (if ri_skipped info then [] else ri_file_checksums info)) (\<lambda>stale.
                   if stale then Inr (cache_remove fn b, False)
                   else if appends \<noteq> ri_appends info then Inr (cache_remove fn b, False)
                   else validate_variants fn (ri_variants info) b))))"

definition cacheValid ::
  "(string \<Rightarrow> int) \<Rightarrow> (string \<Rightarrow> bool) \<Rightarrow> string \<Rightarrow> string list \<Rightarrow> bbcache \<Rightarrow> (bbcache \<times> bool) res" where
  "cacheValid mtime file_exists fn appends b =
     rbind (if fn \<notin> set (bc_checked b) then rbind (cacheValidUpdate mtime file_exists fn appends b) (\<lambda>(b, _). Inr b) else Inr b) (\<lambda>b.
       Inr (b, bc_has_cache b \<and> fn \<in> set (bc_clean b)))"

text \<open>\<open>add_info\<close> for the one recipe information class of the core; \<open>parsed\<close> marks cache content that must be saved.\<close>

definition py_contains :: "string \<Rightarrow> string \<Rightarrow> bool" where
  "py_contains p s = (py_find s p \<noteq> -1)"

definition add_info :: "string \<Rightarrow> recipe_info \<Rightarrow> bool \<Rightarrow> bbcache \<Rightarrow> cachedata \<Rightarrow> (bbcache \<times> cachedata) res" where
  "add_info filename info parsed b c =
     rbind (if ri_skipped info then Inr (info, c) else add_cacheData info filename c) (\<lambda>(info, c).
       if \<not> bc_has_cache b then Inr (b, c)
       else if (ri_skipped info \<or> \<not> py_contains ''SRCREVINACTION'' (ri_pv info)) \<and> ri_nocache info = []
       then Inr (b\<lparr>bc_cacheclean := (if parsed then False else bc_cacheclean b),
                   bc_depends_cache := dset filename [info] (bc_depends_cache b)\<rparr>, c)
       else Inr (b, c))"

text \<open>\<open>MultiProcessCache.merge_data\<close>: what is already in the destination stays.\<close>

definition merge_dict :: "('k, 'v) dict \<Rightarrow> ('k, 'v) dict \<Rightarrow> ('k, 'v) dict" where
  "merge_dict source dest = fold (\<lambda>(h, v) dest. if h \<in> set (dkeys dest) then dest else dset h v dest) source dest"

fun merge_data :: "('k, 'v) dict list \<Rightarrow> ('k, 'v) dict list \<Rightarrow> ('k, 'v) dict list res" where
  "merge_data source [] = Inr []"
| "merge_data [] (d # dest) = Inl IndexError"
| "merge_data (s # source) (d # dest) = rbind (merge_data source dest) (\<lambda>r. Inr (merge_dict s d # r))"

section \<open>The tables agree with each other\<close>

abbreviation lists_of :: "('k, 'v list) dict \<Rightarrow> 'k \<Rightarrow> 'v set" where
  "lists_of d k \<equiv> set (dgetd d k [])"

lemma lists_of_dappend [simp]: "lists_of (dappend k x d) k' = (if k' = k then insert x (lists_of d k) else lists_of d k')"
  by (simp add: dappend_def)

lemma lists_of_dappend_new [simp]:
  "lists_of (dappend_new k x d) k' = (if k' = k then insert x (lists_of d k) else lists_of d k')"
  by (simp add: dappend_new_def)

definition cache_ok :: "cachedata \<Rightarrow> bool" where
  "cache_ok c \<longleftrightarrow>
     (\<forall>fn pn. fn \<in> lists_of (c_pkg_pn c) pn \<longleftrightarrow> dget (c_pkg_fn c) fn = Some pn) \<and>
     (\<forall>fn p. fn \<in> lists_of (c_providers c) p \<longleftrightarrow> p \<in> lists_of (c_fn_provides c) fn) \<and>
     (\<forall>pn p. p \<in> lists_of (c_pn_provides c) pn \<longleftrightarrow>
        (\<exists>fn. dget (c_pkg_fn c) fn = Some pn \<and> p \<in> lists_of (c_fn_provides c) fn)) \<and>
     (\<forall>fn pn. dget (c_pkg_fn c) fn = Some pn \<longrightarrow> pn \<in> lists_of (c_fn_provides c) fn) \<and>
     set (dkeys (c_pkg_pepvpr c)) = set (dkeys (c_pkg_fn c)) \<and>
     set (dkeys (c_pkg_dp c)) = set (dkeys (c_pkg_fn c)) \<and>
     set (dkeys (c_task_deps c)) = set (dkeys (c_pkg_fn c)) \<and>
     set (dkeys (c_fn_provides c)) = set (dkeys (c_pkg_fn c))"

definition info_ok :: "recipe_info \<Rightarrow> bool" where
  "info_ok i \<longleftrightarrow> \<not> ri_skipped i \<and> py_str_none (ri_pn i) \<in> set (ri_packages i) \<and>
     (\<forall>p \<in> set (ri_packages i). p \<in> set (dkeys (ri_rprovides_pkg i)) \<and> p \<in> set (dkeys (ri_rdepends_pkg i)) \<and>
        p \<in> set (dkeys (ri_rrecommends_pkg i)))"

lemma dkeys_dict_of [simp]: "set (dkeys (dict_of f ks)) = set ks"
proof -
  have "set (dkeys (fold (\<lambda>k. dset k (f k)) ks d)) = set ks \<union> set (dkeys d)" for d
    by (induction ks arbitrary: d) auto
  then show ?thesis by (simp add: dict_of_def)
qed

lemma core_recipe_info_ok:
  assumes "core_recipe_info mtime filename m = Inr i" "\<not> ri_skipped i"
  shows "info_ok i"
  using assms
  by (auto simp: core_recipe_info_def info_ok_def recipe_full_def recipe_base_def recipe_packages_def pkgvar_def
      py_str_none_def res_simps Let_def split: if_splits option.splits)

lemma add_recipe_provides_eq:
  "add_recipe_provides i pn fn c = c\<lparr>c_fn_provides := dset fn (info_provides pn i) (c_fn_provides c),
     c_providers := fold (\<lambda>p. dappend p fn) (info_provides pn i) (c_providers c),
     c_pn_provides := fold (dappend_new pn) (info_provides pn i) (c_pn_provides c)\<rparr>"
proof -
  have "fold (\<lambda>p c. c\<lparr>c_providers := dappend p fn (c_providers c), c_pn_provides := dappend_new pn p (c_pn_provides c)\<rparr>) ps c =
      c\<lparr>c_providers := fold (\<lambda>p. dappend p fn) ps (c_providers c), c_pn_provides := fold (dappend_new pn) ps (c_pn_provides c)\<rparr>"
    for ps and c :: cachedata by (induction ps arbitrary: c) simp_all
  then show ?thesis by (simp add: add_recipe_provides_def Let_def)
qed

lemma lists_of_fold_dappend:
  "lists_of (fold (\<lambda>p. dappend p x) ps d) k = lists_of d k \<union> (if k \<in> set ps then {x} else {})"
  by (induction ps arbitrary: d) auto

lemma lists_of_fold_dappend_new:
  "lists_of (fold (dappend_new k) ps d) k' = lists_of d k' \<union> (if k' = k then set ps else {})"
  by (induction ps arbitrary: d) auto

text \<open>The fields that the consistency of the tables is about.\<close>

definition core_tables :: "cachedata \<Rightarrow> _" where
  "core_tables c = (c_pkg_pn c, c_pkg_fn c, c_providers c, c_fn_provides c, c_pn_provides c,
     c_pkg_pepvpr c, c_pkg_dp c, c_task_deps c)"

lemma cache_ok_core: "core_tables c = core_tables c' \<Longrightarrow> cache_ok c = cache_ok c'"
  by (simp add: core_tables_def cache_ok_def)

lemma core_tables_steps:
  "core_tables (add_recipe_depends i fn c) = core_tables c"
  "core_tables (add_recipe_rest i pn fn c) = core_tables c"
proof -
  show "core_tables (add_recipe_depends i fn c) = core_tables c"
  proof -
    have "core_tables (fold (\<lambda>dep c. c\<lparr>c_deps := dappend_new fn dep (c_deps c),
        c_all_depends := sadd dep (c_all_depends c)\<rparr>) ds c) = core_tables c" for ds c
      by (induction ds arbitrary: c) (simp_all add: core_tables_def)
    then show ?thesis by (simp add: add_recipe_depends_def)
  qed
qed (simp add: core_tables_def add_recipe_rest_def)

lemma add_recipe_rprovides_ok:
  assumes "info_ok i"
  obtains rp c' where "add_recipe_rprovides i fn c = Inr (i\<lparr>ri_rprovides := rp\<rparr>, c')" "core_tables c' = core_tables c"
proof -
  have "\<exists>rp c'. rfold (\<lambda>package (i, c). rbind (dlookup (ri_rprovides_pkg i) package) (\<lambda>rp.
         Inr (i\<lparr>ri_rprovides := ri_rprovides i @ rp\<rparr>, c\<lparr>c_packages := dappend package fn (c_packages c)\<rparr>)))
       ps (i\<lparr>ri_rprovides := r\<rparr>, c) = Inr (i\<lparr>ri_rprovides := rp\<rparr>, c') \<and> core_tables c' = core_tables c"
    if "set ps \<subseteq> set (dkeys (ri_rprovides_pkg i))" for ps r c
    using that
  proof (induction ps arbitrary: r c)
    case Nil
    then show ?case by (intro exI [of _ r] exI [of _ c]) simp
  next
    case (Cons p ps)
    then obtain v where v: "dget (ri_rprovides_pkg i) p = Some v" by (auto elim: dget_keyE)
    have "core_tables (c\<lparr>c_packages := x\<rparr>) = core_tables c" for x by (simp add: core_tables_def)
    then show ?case
      using Cons.IH [of "r @ v" "c\<lparr>c_packages := dappend p fn (c_packages c)\<rparr>"] Cons.prems v
      by (simp add: dlookup_def)
  qed
  from this [of "ri_packages i" "ri_rprovides i" c] obtain rp c' where
    "rfold (\<lambda>package (i, c). rbind (dlookup (ri_rprovides_pkg i) package) (\<lambda>rp.
         Inr (i\<lparr>ri_rprovides := ri_rprovides i @ rp\<rparr>, c\<lparr>c_packages := dappend package fn (c_packages c)\<rparr>)))
       (ri_packages i) (i, c) = Inr (i\<lparr>ri_rprovides := rp\<rparr>, c')" "core_tables c' = core_tables c"
    using assms by (auto simp: info_ok_def)
  then show ?thesis
    by (intro that [of rp]) (simp add: add_recipe_rprovides_def, simp add: core_tables_def)
qed

lemma add_recipe_rundeps_ok:
  assumes "info_ok i"
  obtains c' where "add_recipe_rundeps i (py_str_none (ri_pn i)) fn c = Inr c'" "core_tables c' = core_tables c"
proof -
  let ?f = "\<lambda>package c.
       rbind (dlookup (ri_rdepends_pkg i) package) (\<lambda>rd.
       rbind (dlookup (ri_rrecommends_pkg i) package) (\<lambda>rr.
         Inr (c\<lparr>c_rundeps := dset fn (dset package (ri_rdepends i @ rd) (dgetd (c_rundeps c) fn [])) (c_rundeps c),
                c_runrecs := dset fn (dset package (ri_rrecommends i @ rr) (dgetd (c_runrecs c) fn [])) (c_runrecs c)\<rparr>)))"
  have "\<exists>c'. rfold ?f ps c = Inr c' \<and> core_tables c' = core_tables c"
    if "set ps \<subseteq> set (dkeys (ri_rdepends_pkg i)) \<inter> set (dkeys (ri_rrecommends_pkg i))" for ps c
    using that
  proof (induction ps arbitrary: c)
    case Nil
    then show ?case by simp
  next
    case (Cons p ps)
    then obtain v w where v: "dget (ri_rdepends_pkg i) p = Some v" "dget (ri_rrecommends_pkg i) p = Some w"
      by (auto elim!: dget_keyE)
    obtain c1 where c1: "?f p c = Inr c1" "core_tables c1 = core_tables c"
      using v by (simp add: dlookup_def core_tables_def)
    then show ?case using Cons.IH [of c1] Cons.prems by simp
  qed
  from this [of "ri_packages i @ [py_str_none (ri_pn i)]" c] obtain c' where
    "rfold ?f (ri_packages i @ [py_str_none (ri_pn i)]) c = Inr c'" "core_tables c' = core_tables c"
    using assms by (auto simp: info_ok_def)
  then show ?thesis by (intro that [of c']) (simp_all add: add_recipe_rundeps_def)
qed

lemma cache_ok_add:
  assumes c: "cache_ok c" and new: "fn \<notin> set (dkeys (c_pkg_fn c))"
  shows "cache_ok (add_recipe_provides i pn fn (add_recipe_tables i pn fn c))"
proof -
  have nofn: "dget (c_pkg_fn c) fn = None" "dgetd (c_fn_provides c) fn [] = []"
    "\<And>pn. fn \<notin> lists_of (c_pkg_pn c) pn" "\<And>p. fn \<notin> lists_of (c_providers c) p"
    using c new dget_None_iff [of "c_pkg_fn c" fn] dget_None_iff [of "c_fn_provides c" fn]
    by (auto simp: cache_ok_def dgetd_def)
  have "pn \<in> set (info_provides pn i)" by (simp add: info_provides_def)
  then show ?thesis
    using c nofn
    unfolding add_recipe_provides_eq add_recipe_tables_def cache_ok_def
    by (intro conjI) (auto simp: lists_of_fold_dappend lists_of_fold_dappend_new, (metis option.distinct(1))+)
qed

section \<open>Validity of cached information\<close>

definition variant_present :: "bbcache \<Rightarrow> string \<Rightarrow> string \<Rightarrow> bool" where
  "variant_present b fn v \<longleftrightarrow> (\<exists>vf infos. variant2virtual fn v = Inr vf \<and>
     dget (bc_depends_cache b) vf = Some infos \<and> length infos = bc_nclasses b)"

lemma variant_steps:
  "rfold (variant_step fn) vs (b, iv) = Inr (b', iv') \<Longrightarrow>
   \<exists>cl. b' = b\<lparr>bc_clean := cl\<rparr> \<and> (distinct (bc_clean b) \<longrightarrow> distinct cl) \<and>
     (iv' \<longleftrightarrow> iv \<or> (\<exists>v \<in> set vs. \<not> variant_present b fn v))"
proof (induction vs arbitrary: b iv)
  case Nil
  then show ?case by (intro exI [of _ "bc_clean b"]) simp
next
  case (Cons v vs)
  from Cons.prems obtain vf where vf: "variant2virtual fn v = Inr vf" by (auto simp: variant_step_def res_simps)
  let ?b = "b\<lparr>bc_clean := sadd vf (bc_clean b)\<rparr>"
  have *: "variant_step fn v (b, iv) = Inr (?b, iv \<or> \<not> variant_present b fn v)"
    using vf by (auto simp: variant_step_def variant_present_def Let_def split: option.splits)
  have "variant_present ?b fn u = variant_present b fn u" for u by (simp add: variant_present_def)
  moreover from Cons.prems * have "rfold (variant_step fn) vs (?b, iv \<or> \<not> variant_present b fn v) = Inr (b', iv')"
    by simp
  ultimately show ?case using Cons.IH by fastforce
qed

lemma variant_undos:
  "rfold (variant_undo fn) vs b = Inr b' \<Longrightarrow> \<exists>cl. b' = b\<lparr>bc_clean := cl\<rparr> \<and> (distinct (bc_clean b) \<longrightarrow> distinct cl)"
proof (induction vs arbitrary: b)
  case Nil
  then show ?case by (intro exI [of _ "bc_clean b"]) simp
next
  case (Cons v vs)
  from Cons.prems obtain b1 where b1: "variant_undo fn v b = Inr b1" "rfold (variant_undo fn) vs b1 = Inr b'"
    by (auto simp: res_simps)
  from b1(1) obtain vf where "b1 = b\<lparr>bc_clean := remove1 vf (bc_clean b)\<rparr>"
    by (auto simp: variant_undo_def res_simps)
  with Cons.IH [OF b1(2)] show ?case by fastforce
qed

lemma validate_variants_ok:
  assumes "validate_variants fn vs b = Inr (b', valid)" "distinct (bc_clean b)"
  shows "bc_depends_cache b' = bc_depends_cache b \<and> (valid \<longleftrightarrow> fn \<in> set (bc_clean b')) \<and>
    (valid \<longrightarrow> (\<forall>v \<in> set vs. variant_present b fn v))"
proof -
  from assms(1) obtain b1 iv where b1: "rfold (variant_step fn) vs (b, False) = Inr (b1, iv)"
    by (auto simp: validate_variants_def res_simps)
  from variant_steps [OF b1] obtain cl where
    cl: "b1 = b\<lparr>bc_clean := cl\<rparr>" "distinct cl" "iv \<longleftrightarrow> (\<exists>v \<in> set vs. \<not> variant_present b fn v)"
    using assms(2) by blast
  show ?thesis
  proof (cases iv)
    case True
    then obtain b2 where b2: "rfold (variant_undo fn) vs b1 = Inr b2" "\<not> valid"
      "b' = b2\<lparr>bc_clean := remove1 fn (bc_clean b2)\<rparr>"
      using assms(1) b1 by (auto simp: validate_variants_def res_simps)
    from variant_undos [OF b2(1)] cl(1,2) obtain cl2 where "b2 = b1\<lparr>bc_clean := cl2\<rparr>" "distinct cl2" by auto
    then show ?thesis using b2(2,3) cl(1) by simp
  next
    case False
    then show ?thesis using assms(1) b1 cl by (auto simp: validate_variants_def)
  qed
qed

text \<open>Every way through \<open>cacheValidUpdate\<close>: a failed check, or all checks passed and the variants looked up.\<close>

lemma cacheValidUpdate_cases:
  assumes "cacheValidUpdate mtime ex fn appends b = Inr (b', valid)"
  obtains (refused) "\<not> valid" "bc_clean b' = bc_clean b \<or> bc_clean b' = remove1 fn (bc_clean b)"
  | (checked) info rest where "dget (bc_depends_cache b) fn = Some (info # rest)" "mtime fn \<noteq> 0"
      "mtime fn = ri_timestamp info" "appends = ri_appends info"
      "\<forall>d \<in> set (case ri_file_depends info of None \<Rightarrow> [] | Some ds \<Rightarrow> ds). \<not> depend_changed mtime d"
      "validate_variants fn (ri_variants info) (b\<lparr>bc_checked := sadd fn (bc_checked b)\<rparr>) = Inr (b', valid)"
proof (cases "dget (bc_depends_cache b) fn")
  case None
  then show ?thesis using assms refused by (auto simp: cacheValidUpdate_def Let_def split: if_splits)
next
  case (Some infos)
  show ?thesis
  proof (cases infos)
    case Nil
    then show ?thesis
      using assms Some refused by (auto simp: cacheValidUpdate_def Let_def cache_remove_def split: if_splits)
  next
    case (Cons info rest)
    then show ?thesis
      using assms Some refused checked [of info rest]
      by (auto simp: cacheValidUpdate_def Let_def cache_remove_def res_simps list_ex_iff split: if_splits)
  qed
qed

section \<open>Properties\<close>

text \<open>
  C38. The information read from a recipe that is not skipped can always be added to the compiled
  tables, and adding the recipe of a new file keeps the tables consistent: a file is listed under a
  package name exactly when that is its package name, and under a provided name exactly when it
  provides it.
\<close>

theorem add_cacheData_consistent:
  assumes "core_recipe_info mtime filename m = Inr i" "\<not> ri_skipped i"
    and "cache_ok c" "fn \<notin> set (dkeys (c_pkg_fn c))"
  shows "\<exists>i' c'. add_cacheData i fn c = Inr (i', c') \<and> cache_ok c' \<and>
    dget (c_pkg_fn c') fn = Some (getvar ''PN'' m) \<and> fn \<in> lists_of (c_providers c') (getvar ''PN'' m)"
proof -
  have i: "info_ok i" using core_recipe_info_ok [OF assms(1,2)] .
  have pn: "ri_pn i = Some (getvar ''PN'' m)"
    using assms(1,2) by (auto simp: core_recipe_info_def recipe_full_def recipe_base_def res_simps Let_def
        split: if_splits option.splits)
  let ?pn = "py_str_none (ri_pn i)"
  let ?c1 = "add_recipe_provides i ?pn fn (add_recipe_tables i ?pn fn c)"
  obtain rp c2 where c2: "add_recipe_rprovides i fn (add_recipe_depends i fn ?c1) = Inr (i\<lparr>ri_rprovides := rp\<rparr>, c2)"
    "core_tables c2 = core_tables (add_recipe_depends i fn ?c1)"
    using add_recipe_rprovides_ok [OF i] by blast
  have i': "info_ok (i\<lparr>ri_rprovides := rp\<rparr>)" using i by (simp add: info_ok_def)
  obtain c3 where c3: "add_recipe_rundeps (i\<lparr>ri_rprovides := rp\<rparr>) ?pn fn c2 = Inr c3" "core_tables c3 = core_tables c2"
    using add_recipe_rundeps_ok [OF i', of fn c2] by auto
  let ?c4 = "add_recipe_rest (i\<lparr>ri_rprovides := rp\<rparr>) ?pn fn c3"
  have core: "core_tables ?c4 = core_tables ?c1" using c2(2) c3(2) by (simp add: core_tables_steps)
  have "cache_ok ?c4" using cache_ok_core [OF core] cache_ok_add [OF assms(3,4)] by blast
  moreover have pnfn: "dget (c_pkg_fn ?c4) fn = Some (getvar ''PN'' m)"
    using core pn by (simp add: core_tables_def add_recipe_provides_eq add_recipe_tables_def py_str_none_def)
  moreover have "fn \<in> lists_of (c_providers ?c4) (getvar ''PN'' m)"
    using calculation unfolding cache_ok_def by blast
  moreover have "add_cacheData i fn c = Inr (i\<lparr>ri_rprovides := rp\<rparr>, ?c4)"
    using c2(1) c3(1) i by (simp add: add_cacheData_def info_ok_def Let_def)
  ultimately show ?thesis by blast
qed

definition example_metadata :: metadata where
  "example_metadata =
     \<lparr>md_var = (\<lambda>v e. dget [(''PN'', ''zlib''), (''PV'', ''1.2''), (''PROVIDES'', ''libz zlib''),
        (''PACKAGES'', ''zlib-dev''), (''RPROVIDES_zlib-dev'', ''z-headers'')] v),
      md_flag = (\<lambda>v f. None), md_file_depends = None, md_tasks = Some [''do_build''], md_task_deps = None,
      md_inherit_cache = None\<rparr>"

theorem add_cacheData_consistent_witness:
  "\<exists>i' c'. add_cacheData (recipe_full 7 example_metadata [''do_build''] 0) ''zlib.bb'' init_cacheData = Inr (i', c') \<and>
    cache_ok c' \<and> dget (c_pkg_fn c') ''zlib.bb'' = Some (getvar ''PN'' example_metadata) \<and>
    ''zlib.bb'' \<in> lists_of (c_providers c') (getvar ''PN'' example_metadata)"
proof (rule add_cacheData_consistent)
  show "core_recipe_info (\<lambda>_. 7) ''zlib.bb'' example_metadata = Inr (recipe_full 7 example_metadata [''do_build''] 0)"
    by (simp add: core_recipe_info_def example_metadata_def getvar_def intvar_def)
  show "\<not> ri_skipped (recipe_full 7 example_metadata [''do_build''] 0)"
    by (simp add: recipe_full_def Let_def)
  show "cache_ok init_cacheData" "''zlib.bb'' \<notin> set (dkeys (c_pkg_fn init_cacheData))"
    by (simp_all add: cache_ok_def init_cacheData_def dgetd_def)
qed


definition example_cache :: bbcache where
  "example_cache =
     \<lparr>bc_has_cache = True, bc_nclasses = 1, bc_checked = [], bc_clean = [],
      bc_depends_cache = [(''zlib.bb'', [(recipe_base 7 example_metadata)\<lparr>ri_file_depends := Some [(''zlib.inc'', 5)]\<rparr>])],
      bc_cacheclean = True\<rparr>"


end
