(* ===== verification/Versions.thy ===== *)
theory Versions
  imports Prelude
begin

text \<open>
  Version comparison, \<open>bitbake/lib/bb/utils.py\<close>: \<open>explode_version\<close>, \<open>split_version\<close>,
  \<open>vercmp_part\<close>, \<open>vercmp\<close>, \<open>vercmp_string\<close> and \<open>vercmp_string_op\<close>.

  A component of an exploded version is a pair of an order code (-1 for a tilde, 0 for a
  number, 1 for letters, 2 for any other character) and a value.  The end of a version is
  compared as \<open>(0, None)\<close>; Python 3 refuses \<open>None < 5\<close>, so the comparison is a result that may
  be \<open>TypeError\<close>.  The interface \<open>version_order\<close> collects the laws that clients which pick
  the newest of several versions rely on.
\<close>

section \<open>Exploding a version\<close>

datatype vval = VNone | VInt nat | VStr string

type_synonym vpart = "int \<times> vval"

text \<open>
  The tail \<open>(.*)$\<close> of the two regular expressions of \<open>explode_version\<close>: the dot stops at a
  line feed, and the dollar matches at the end or before a final line feed.  Where it does not
  match, \<open>m\<close> is \<open>None\<close> and \<open>m.group\<close> raises.
\<close>

definition match_tail :: "string \<Rightarrow> string res" where
  "match_tail s =
     (let l = takeWhile (\<lambda>c. c \<noteq> CHR 0x0A) s; r = drop (length l) s
      in if r = [] \<or> r = [CHR 0x0A] then Inr l else Inl AttributeError)"

lemma match_tail_length: "match_tail s = Inr r \<Longrightarrow> length r \<le> length s"
  by (auto simp: match_tail_def Let_def length_takeWhile_le split: if_splits)

lemma match_tail_no_newline: "CHR 0x0A \<notin> set s \<Longrightarrow> match_tail s = Inr s"
proof -
  assume "CHR 0x0A \<notin> set s"
  then have tw: "takeWhile (\<lambda>c. c \<noteq> CHR 0x0A) s = s"
    by (subst takeWhile_eq_all_conv) auto
  show ?thesis by (simp only: match_tail_def Let_def tw) simp
qed

function explode_version :: "string \<Rightarrow> vpart list res" where
  "explode_version s =
     (case s of
        [] \<Rightarrow> Inr []
      | c # cs \<Rightarrow>
          (if char_digit c then
             rbind (match_tail (dropWhile char_digit s)) (\<lambda>rest.
               rbind (explode_version rest) (\<lambda>r.
                 Inr ((0, VInt (digits_val 0 (takeWhile char_digit s))) # r)))
           else if char_alpha c then
             rbind (match_tail (dropWhile char_alpha s)) (\<lambda>rest.
               rbind (explode_version rest) (\<lambda>r.
                 Inr ((1, VStr (takeWhile char_alpha s)) # r)))
           else
             rbind (explode_version cs) (\<lambda>r.
               Inr ((if c = CHR ''~'' then (-1, VStr [c]) else (2, VStr [c])) # r))))"
  by pat_completeness auto
termination
proof (relation "measure length", goal_cases)
  case 1
  then show ?case by simp
next
  case (2 s c cs rest)
  then have "length rest \<le> length (dropWhile char_digit cs)"
    by (auto dest!: match_tail_length)
  also have "\<dots> \<le> length cs" by (rule length_dropWhile_le)
  finally show ?case using 2 by simp
next
  case (3 s c cs rest)
  then have "length rest \<le> length (dropWhile char_alpha cs)"
    by (auto dest!: match_tail_length)
  also have "\<dots> \<le> length cs" by (rule length_dropWhile_le)
  finally show ?case using 3 by simp
next
  case (4 s c cs)
  then show ?case by simp
qed

declare explode_version.simps [simp del]

definition split_version :: "string \<Rightarrow> (int \<times> string \<times> string) res" where
  "split_version s0 =
     (let s = strip_by (\<lambda>c. c \<in> set '' <>='') s0 in
      rbind (if CHR '':'' \<in> set s then py_int (hd (split_on CHR '':'' s)) else Inr 0) (\<lambda>e.
        let s1 = (if CHR '':'' \<in> set s then split_on CHR '':'' s ! 1 else s)
        in (case rsplit1 CHR ''-'' s1 of
              None \<Rightarrow> Inr (e, s1, [])
            | Some (v, r) \<Rightarrow> Inr (e, v, r))))"

section \<open>Comparing versions\<close>

fun vval_less :: "vval \<Rightarrow> vval \<Rightarrow> bool res" where
  "vval_less (VInt a) (VInt b) = Inr (a < b)"
| "vval_less (VStr a) (VStr b) = Inr (a < b)"
| "vval_less _ _ = Inl TypeError"

text \<open>\<open>(0, None)\<close> for an empty list, else what \<open>pop(0)\<close> returns.\<close>

definition vhead :: "vpart list \<Rightarrow> vpart" where
  "vhead va = (case va of [] \<Rightarrow> (0, VNone) | p # _ \<Rightarrow> p)"

function vercmp_loop :: "vpart list \<Rightarrow> vpart list \<Rightarrow> int res" where
  "vercmp_loop va vb =
     (let (oa, ca) = vhead va; (ob, cb) = vhead vb in
      if (oa, ca) = (0, VNone) \<and> (ob, cb) = (0, VNone) then Inr 0
      else if oa < ob then Inr (- 1)
      else if oa > ob then Inr 1
      else rbind (vval_less ca cb) (\<lambda>lt.
             if lt then Inr (- 1)
             else rbind (vval_less cb ca) (\<lambda>gt.
               if gt then Inr 1 else vercmp_loop (tl va) (tl vb))))"
  by pat_completeness auto
termination
  by (relation "measure (\<lambda>(va, vb). length va + length vb)")
     (auto simp: vhead_def split: list.splits)

declare vercmp_loop.simps [simp del]

definition vercmp_part :: "string \<Rightarrow> string \<Rightarrow> int res" where
  "vercmp_part a b =
     rbind (explode_version a) (\<lambda>va. rbind (explode_version b) (\<lambda>vb. vercmp_loop va vb))"

text \<open>The epoch is an integer (from \<open>split_version\<close>) or a string (from the recipe cache).\<close>

datatype epoch = EInt int | EStr string

fun epoch_int :: "epoch \<Rightarrow> int res" where
  "epoch_int (EInt i) = Inr i"
| "epoch_int (EStr s) = (if s = [] then Inr 0 else py_int s)"

fun vercmp :: "epoch \<times> string \<times> string \<Rightarrow> epoch \<times> string \<times> string \<Rightarrow> int res" where
  "vercmp (ea, va, ra) (eb, vb, rb) =
     rbind (epoch_int ea) (\<lambda>ia. rbind (epoch_int eb) (\<lambda>ib.
       rbind (if ia - ib = 0 then vercmp_part va vb else Inr (ia - ib)) (\<lambda>r.
         if r = 0 then vercmp_part ra rb else Inr r)))"

definition vercmp_string :: "string \<Rightarrow> string \<Rightarrow> int res" where
  "vercmp_string a b =
     rbind (split_version a) (\<lambda>(ea, va, ra). rbind (split_version b) (\<lambda>(eb, vb, rb).
       vercmp (EInt ea, va, ra) (EInt eb, vb, rb)))"

definition vercmp_string_op :: "string \<Rightarrow> string \<Rightarrow> string \<Rightarrow> bool res" where
  "vercmp_string_op a b op =
     rbind (vercmp_string a b) (\<lambda>res.
       if op = ''='' \<or> op = ''=='' then Inr (res = 0)
       else if op = ''<='' then Inr (res \<le> 0)
       else if op = ''>='' then Inr (res \<ge> 0)
       else if op = ''>'' \<or> op = ''>>'' then Inr (res > 0)
       else if op = ''<'' \<or> op = ''<<'' then Inr (res < 0)
       else if op = ''!='' then Inr (res \<noteq> 0)
       else Inl VersionStringException)"

section \<open>The order on components\<close>

text \<open>What \<open>explode_version\<close> produces: the value fits the order code.\<close>

fun vpart_ok :: "vpart \<Rightarrow> bool" where
  "vpart_ok (n, VInt i) = (n = 0)"
| "vpart_ok (n, VStr s) = (n = 1 \<or> n = - 1 \<or> n = 2)"
| "vpart_ok (n, VNone) = False"

lemma explode_version_ok: "explode_version s = Inr va \<Longrightarrow> \<forall>p \<in> set va. vpart_ok p"
proof (induction s arbitrary: va rule: explode_version.induct)
  case (1 s)
  show ?case
  proof (cases s)
    case Nil
    with "1.prems" show ?thesis by (simp add: explode_version.simps)
  next
    case (Cons c cs)
    have "explode_version s = Inr va" by (rule "1.prems")
    then show ?thesis
      using "1.IH" Cons
      by (subst (asm) explode_version.simps) (auto simp: res_simps split: if_splits)
  qed
qed

text \<open>The comparison of two components, the end of the version included.\<close>

definition vpart_cmp :: "vpart \<Rightarrow> vpart \<Rightarrow> int res" where
  "vpart_cmp p q =
     (if p = (0, VNone) \<and> q = (0, VNone) then Inr 0
      else if fst p < fst q then Inr (- 1)
      else if fst p > fst q then Inr 1
      else rbind (vval_less (snd p) (snd q)) (\<lambda>lt.
             if lt then Inr (- 1)
             else rbind (vval_less (snd q) (snd p)) (\<lambda>gt. if gt then Inr 1 else Inr 0)))"

lemma vercmp_loop_Nil [simp]: "vercmp_loop [] [] = Inr 0"
  by (subst vercmp_loop.simps) (simp add: vhead_def)

lemma vercmp_loop_step:
  assumes "va \<noteq> [] \<or> vb \<noteq> []" "\<forall>p \<in> set va. vpart_ok p" "\<forall>p \<in> set vb. vpart_ok p"
  shows "vercmp_loop va vb =
    rbind (vpart_cmp (vhead va) (vhead vb)) (\<lambda>r. if r = 0 then vercmp_loop (tl va) (tl vb) else Inr r)"
proof -
  have "\<not> (vhead va = (0, VNone) \<and> vhead vb = (0, VNone))"
    using assms by (auto simp: vhead_def split: list.splits)
  then show ?thesis
    by (subst vercmp_loop.simps)
       (auto simp: vpart_cmp_def rbind_def split: prod.splits sum.splits)
qed

definition vpart_pad :: "vpart \<Rightarrow> bool" where
  "vpart_pad p \<longleftrightarrow> p = (0, VNone) \<or> vpart_ok p"

lemma vhead_pad: "\<forall>p \<in> set va. vpart_ok p \<Longrightarrow> vpart_pad (vhead va)"
  by (cases va) (auto simp: vhead_def vpart_pad_def)

lemma vpart_cmp_0: "vpart_pad p \<Longrightarrow> vpart_pad q \<Longrightarrow> vpart_cmp p q = Inr 0 \<longleftrightarrow> p = q"
  by (cases p; cases q; cases "snd p"; cases "snd q")
     (auto simp: vpart_cmp_def vpart_pad_def)

lemma vpart_cmp_swap:
  "vpart_cmp q p = (case vpart_cmp p q of Inl e \<Rightarrow> Inl e | Inr r \<Rightarrow> Inr (- r))"
  by (cases p; cases q; cases "snd p"; cases "snd q") (auto simp: vpart_cmp_def)

lemma vpart_cmp_range: "vpart_cmp p q = Inr r \<Longrightarrow> r \<in> {-1, 0, 1}"
  by (auto simp: vpart_cmp_def res_simps split: if_splits)

lemma vpart_cmp_trans:
  assumes "vpart_pad p" "vpart_pad q" "vpart_pad s"
    and "vpart_cmp p q = Inr r1" "r1 \<le> 0" "vpart_cmp q s = Inr r2" "r2 \<le> 0"
  shows "\<exists>r3. vpart_cmp p s = Inr r3 \<and> r3 \<le> 0 \<and> (r3 = 0 \<longleftrightarrow> r1 = 0 \<and> r2 = 0)"
  using assms
  by (cases p; cases q; cases s; cases "snd p"; cases "snd q"; cases "snd s")
     (auto simp: vpart_cmp_def vpart_pad_def split: if_splits)

text \<open>The comparison fails exactly when one side has ended and the other has a number there.\<close>

lemma vpart_cmp_error:
  "vpart_pad p \<Longrightarrow> vpart_pad q \<Longrightarrow>
   vpart_cmp p q = Inl e \<longleftrightarrow>
     e = TypeError \<and> ((p = (0, VNone) \<and> (\<exists>n. q = (0, VInt n))) \<or> (q = (0, VNone) \<and> (\<exists>n. p = (0, VInt n))))"
  by (cases p; cases q; cases "snd p"; cases "snd q")
     (auto simp: vpart_cmp_def vpart_pad_def)

section \<open>Laws of the comparison\<close>

abbreviation vparts_ok :: "vpart list \<Rightarrow> bool" where
  "vparts_ok va \<equiv> \<forall>p \<in> set va. vpart_ok p"

lemma vparts_ok_tl: "vparts_ok va \<Longrightarrow> vparts_ok (tl va)"
  by (cases va) auto

lemma vercmp_loop_Cons [simp]:
  "vparts_ok (q # vb) \<Longrightarrow> vercmp_loop [] (q # vb) = vpart_cmp (0, VNone) q"
  "vparts_ok (p # va) \<Longrightarrow> vercmp_loop (p # va) [] = vpart_cmp p (0, VNone)"
  "vparts_ok (p # va) \<Longrightarrow> vparts_ok (q # vb) \<Longrightarrow> vercmp_loop (p # va) (q # vb) =
     rbind (vpart_cmp p q) (\<lambda>r. if r = 0 then vercmp_loop va vb else Inr r)"
proof -
  show "vercmp_loop [] (q # vb) = vpart_cmp (0, VNone) q" if "vparts_ok (q # vb)"
    using vpart_cmp_0 [of "(0, VNone)" q] that
    by (subst vercmp_loop_step) (auto simp: vhead_def vpart_pad_def rbind_def split: sum.split)
  show "vercmp_loop (p # va) [] = vpart_cmp p (0, VNone)" if "vparts_ok (p # va)"
    using vpart_cmp_0 [of p "(0, VNone)"] that
    by (subst vercmp_loop_step) (auto simp: vhead_def vpart_pad_def rbind_def split: sum.split)
  show "vercmp_loop (p # va) (q # vb) =
     rbind (vpart_cmp p q) (\<lambda>r. if r = 0 then vercmp_loop va vb else Inr r)"
    if "vparts_ok (p # va)" "vparts_ok (q # vb)"
    using that by (subst vercmp_loop_step) (simp_all add: vhead_def cong: if_cong)
qed

lemma vercmp_loop_swap:
  "vparts_ok va \<Longrightarrow> vparts_ok vb \<Longrightarrow>
   vercmp_loop vb va = (case vercmp_loop va vb of Inl e \<Rightarrow> Inl e | Inr r \<Rightarrow> Inr (- r))"
proof (induction va vb rule: list_induct2')
  case 1
  then show ?case by simp
next
  case (2 p va)
  then show ?case using vpart_cmp_swap [of "(0, VNone)" p] by simp
next
  case (3 q vb)
  then show ?case using vpart_cmp_swap [of q "(0, VNone)"] by simp
next
  case (4 p va q vb)
  then show ?case
    using vpart_cmp_swap [of q p] by (cases "vpart_cmp p q") auto
qed

lemma vercmp_loop_trans:
  assumes "vparts_ok va" "vparts_ok vb" "vparts_ok vc"
    and "vercmp_loop va vb = Inr r1" "r1 \<le> 0" "vercmp_loop vb vc = Inr r2" "r2 \<le> 0"
  shows "\<exists>r3. vercmp_loop va vc = Inr r3 \<and> r3 \<le> 0 \<and> (r3 = 0 \<longleftrightarrow> r1 = 0 \<and> r2 = 0)"
  using assms
proof (induction "length va + length vb + length vc" arbitrary: va vb vc rule: less_induct)
  case less
  show ?case
  proof (cases "va = [] \<and> vb = [] \<or> vb = [] \<and> vc = [] \<or> va = [] \<and> vc = []")
    case True
    then show ?thesis
      using less.prems vercmp_loop_swap [of va vb] by auto
  next
    case False
    then have ne: "va \<noteq> [] \<or> vb \<noteq> []" "vb \<noteq> [] \<or> vc \<noteq> []" "va \<noteq> [] \<or> vc \<noteq> []" by auto
    note step = vercmp_loop_step [OF ne(1) less.prems(1,2)] vercmp_loop_step [OF ne(2) less.prems(2,3)]
      vercmp_loop_step [OF ne(3) less.prems(1,3)]
    obtain q1 where q1: "vpart_cmp (vhead va) (vhead vb) = Inr q1"
      "(if q1 = 0 then vercmp_loop (tl va) (tl vb) else Inr q1) = Inr r1"
      using less.prems(4) step(1) by (auto simp: res_simps)
    obtain q2 where q2: "vpart_cmp (vhead vb) (vhead vc) = Inr q2"
      "(if q2 = 0 then vercmp_loop (tl vb) (tl vc) else Inr q2) = Inr r2"
      using less.prems(6) step(2) by (auto simp: res_simps)
    have le: "q1 \<le> 0" "q2 \<le> 0" using q1(2) q2(2) less.prems(5,7) by (auto split: if_splits)
    obtain q3 where q3: "vpart_cmp (vhead va) (vhead vc) = Inr q3" "q3 \<le> 0"
      "q3 = 0 \<longleftrightarrow> q1 = 0 \<and> q2 = 0"
      using vpart_cmp_trans [OF vhead_pad [OF less.prems(1)] vhead_pad [OF less.prems(2)]
          vhead_pad [OF less.prems(3)] q1(1) le(1) q2(1) le(2)] by blast
    show ?thesis
    proof (cases "q3 = 0")
      case True
      have len: "length (tl va) + length (tl vb) + length (tl vc) < length va + length vb + length vc"
        using ne by (cases va; cases vb; cases vc) auto
      have "vercmp_loop (tl va) (tl vb) = Inr r1" "vercmp_loop (tl vb) (tl vc) = Inr r2"
        using True q3(3) q1(2) q2(2) by simp_all
      then obtain r3 where "vercmp_loop (tl va) (tl vc) = Inr r3" "r3 \<le> 0" "r3 = 0 \<longleftrightarrow> r1 = 0 \<and> r2 = 0"
        using less.hyps [OF len vparts_ok_tl [OF less.prems(1)] vparts_ok_tl [OF less.prems(2)]
            vparts_ok_tl [OF less.prems(3)] _ less.prems(5) _ less.prems(7)] by blast
      with True q3(1) step(3) show ?thesis by simp
    next
      case ne3: False
      have "r1 = 0 \<Longrightarrow> q1 = 0" "r2 = 0 \<Longrightarrow> q2 = 0" using q1(2) q2(2) by (auto split: if_splits)
      with ne3 q3 step(3) show ?thesis by auto
    qed
  qed
qed

lemma vercmp_loop_eq:
  "vparts_ok va \<Longrightarrow> vparts_ok vb \<Longrightarrow> vercmp_loop va vb = Inr 0 \<longleftrightarrow> va = vb"
proof (induction va vb rule: list_induct2')
  case (4 p va q vb)
  then show ?case
    using vpart_cmp_0 [of p q] by (auto simp: vpart_pad_def res_simps)
next
  case (2 p va)
  then show ?case using vpart_cmp_0 [of p "(0, VNone)"] by (auto simp: vpart_pad_def)
next
  case (3 q vb)
  then show ?case using vpart_cmp_0 [of "(0, VNone)" q] by (auto simp: vpart_pad_def)
qed auto

lemma vercmp_loop_error:
  "vparts_ok va \<Longrightarrow> vparts_ok vb \<Longrightarrow> vercmp_loop va vb = Inl e \<longleftrightarrow>
     e = TypeError \<and> (\<exists>n ps. vb = va @ (0, VInt n) # ps \<or> va = vb @ (0, VInt n) # ps)"
proof (induction va vb rule: list_induct2')
  case 1
  then show ?case by simp
next
  case (2 p va)
  then show ?case using vpart_cmp_error [of p "(0, VNone)" e] by (auto simp: vpart_pad_def)
next
  case (3 q vb)
  then show ?case using vpart_cmp_error [of "(0, VNone)" q e] by (auto simp: vpart_pad_def)
next
  case (4 p va q vb)
  have noerr: "vpart_cmp p q \<noteq> Inl e"
    using vpart_cmp_error [of p q e] 4 by (auto simp: vpart_pad_def)
  have "vpart_cmp p q = Inr 0 \<longleftrightarrow> p = q"
    using vpart_cmp_0 [of p q] 4 by (auto simp: vpart_pad_def)
  then show ?case using 4 noerr by (auto simp: res_simps)
qed

section \<open>The interface of a version order\<close>

text \<open>
  What the code that picks the newest of several versions relies on: swapping the operands
  negates the result (and keeps the exception), and the order is transitive, where a
  comparison of the two ends cannot raise if the two inner ones did not.
\<close>

definition not_newer :: "('a \<Rightarrow> 'a \<Rightarrow> int res) \<Rightarrow> 'a \<Rightarrow> 'a \<Rightarrow> bool" where
  "not_newer cmp a b = (case cmp a b of Inl e \<Rightarrow> False | Inr r \<Rightarrow> r \<le> 0)"

lemma not_newer_iff: "not_newer cmp a b \<longleftrightarrow> (\<exists>r. cmp a b = Inr r \<and> r \<le> 0)"
  by (simp add: not_newer_def split: sum.split)

locale version_order =
  fixes cmp :: "'a \<Rightarrow> 'a \<Rightarrow> int res"
  assumes cmp_swap: "cmp b a = (case cmp a b of Inl e \<Rightarrow> Inl e | Inr r \<Rightarrow> Inr (- r))"
    and cmp_trans: "cmp a b = Inr r1 \<Longrightarrow> r1 \<le> 0 \<Longrightarrow> cmp b c = Inr r2 \<Longrightarrow> r2 \<le> 0 \<Longrightarrow>
      \<exists>r3. cmp a c = Inr r3 \<and> r3 \<le> 0 \<and> (r3 = 0 \<longleftrightarrow> r1 = 0 \<and> r2 = 0)"
begin

lemma not_newer_trans: "not_newer cmp a b \<Longrightarrow> not_newer cmp b c \<Longrightarrow> not_newer cmp a c"
  unfolding not_newer_iff by (metis cmp_trans)

lemma not_newer_refl: "cmp a a = Inr r \<Longrightarrow> not_newer cmp a a"
  using cmp_swap [of a a] by (auto simp: not_newer_iff)

text \<open>Replacing the newest so far when the next one is newer, and keeping it when it is not.\<close>

lemma newest_replace:
  assumes "\<forall>x \<in> S. not_newer cmp x m" and "cmp m y = Inr r" and "r < 0"
  shows "\<forall>x \<in> S. not_newer cmp x y"
proof -
  have "not_newer cmp m y" using assms(2,3) by (auto simp: not_newer_iff)
  then show ?thesis using assms(1) not_newer_trans by blast
qed

lemma newest_keep: "cmp m y = Inr r \<Longrightarrow> \<not> r < 0 \<Longrightarrow> not_newer cmp y m"
  using cmp_swap [of y m] by (auto simp: not_newer_iff)

end

lemma explode_version_error: "explode_version s = Inl e \<Longrightarrow> e = AttributeError"
proof (induction s rule: explode_version.induct)
  case (1 s)
  show ?case
  proof (cases s)
    case Nil
    with "1.prems" show ?thesis by (simp add: explode_version.simps)
  next
    case (Cons c cs)
    have mt: "match_tail t = Inl e' \<Longrightarrow> e' = AttributeError" for t e'
      by (auto simp: match_tail_def Let_def split: if_splits)
    have "explode_version s = Inl e" by (rule "1.prems")
    then show ?thesis
      using "1.IH" Cons mt
      by (subst (asm) explode_version.simps) (auto simp: res_simps split: if_splits)
  qed
qed

lemma vercmp_part_swap:
  "vercmp_part b a = (case vercmp_part a b of Inl e \<Rightarrow> Inl e | Inr r \<Rightarrow> Inr (- r))"
proof (cases "explode_version a")
  case (Inl e)
  then show ?thesis
    using explode_version_error [of a] explode_version_error [of b]
    by (cases "explode_version b") (auto simp: vercmp_part_def)
next
  case (Inr va)
  then show ?thesis
    using vercmp_loop_swap explode_version_ok [of a] explode_version_ok [of b]
    by (cases "explode_version b") (auto simp: vercmp_part_def)
qed

lemma vercmp_part_trans:
  assumes "vercmp_part a b = Inr r1" "r1 \<le> 0" "vercmp_part b c = Inr r2" "r2 \<le> 0"
  shows "\<exists>r3. vercmp_part a c = Inr r3 \<and> r3 \<le> 0 \<and> (r3 = 0 \<longleftrightarrow> r1 = 0 \<and> r2 = 0)"
  using assms vercmp_loop_trans [OF explode_version_ok explode_version_ok explode_version_ok]
  by (auto simp: vercmp_part_def res_simps)

interpretation part: version_order vercmp_part
  by unfold_locales (fact vercmp_part_swap, fact vercmp_part_trans)

lemma epoch_int_error: "epoch_int e = Inl x \<Longrightarrow> x = ValueError"
  by (cases e) (auto simp: py_int_def split: if_splits list.splits)

lemma vercmp_swap:
  "vercmp b a = (case vercmp a b of Inl e \<Rightarrow> Inl e | Inr r \<Rightarrow> Inr (- r))"
proof -
  obtain ea va ra eb vb rb where ab: "a = (ea, va, ra)" "b = (eb, vb, rb)"
    by (cases a; cases b)
  show ?thesis
  proof (cases "epoch_int ea")
    case (Inl e)
    then show ?thesis
      using epoch_int_error ab by (cases "epoch_int eb") auto
  next
    case (Inr ia)
    show ?thesis
      using ab Inr vercmp_part_swap [of vb va] vercmp_part_swap [of rb ra]
      by (cases "epoch_int eb"; cases "vercmp_part va vb") (auto simp: rbind_def)
  qed
qed

lemma vercmp_trans:
  assumes "vercmp a b = Inr r1" "r1 \<le> 0" "vercmp b c = Inr r2" "r2 \<le> 0"
  shows "\<exists>r3. vercmp a c = Inr r3 \<and> r3 \<le> 0 \<and> (r3 = 0 \<longleftrightarrow> r1 = 0 \<and> r2 = 0)"
proof -
  obtain ea va ra eb vb rb ec vc rc where abc: "a = (ea, va, ra)" "b = (eb, vb, rb)" "c = (ec, vc, rc)"
    by (cases a; cases b; cases c)
  obtain ia ib ic where e: "epoch_int ea = Inr ia" "epoch_int eb = Inr ib" "epoch_int ec = Inr ic"
    using assms abc by (auto simp: res_simps)
  show ?thesis
  proof (cases "ia = ib \<and> ib = ic")
    case False
    have "ia \<le> ib" "ib \<le> ic" using assms abc e by (auto simp: res_simps split: if_splits)
    with False have lt: "ia - ic < 0" by auto
    have "\<not> (r1 = 0 \<and> r2 = 0)"
      using assms abc e False by (auto simp: res_simps split: if_splits)
    with lt show ?thesis using abc e by auto
  next
    case True
    obtain p1 where p1: "vercmp_part va vb = Inr p1"
      "(if p1 = 0 then vercmp_part ra rb else Inr p1) = Inr r1"
      using assms(1) abc e True by (auto simp: res_simps)
    obtain p2 where p2: "vercmp_part vb vc = Inr p2"
      "(if p2 = 0 then vercmp_part rb rc else Inr p2) = Inr r2"
      using assms(3) abc e True by (auto simp: res_simps)
    have "p1 \<le> 0" "p2 \<le> 0" using p1 p2 assms(2,4) by (auto split: if_splits)
    then obtain p3 where p3: "vercmp_part va vc = Inr p3" "p3 \<le> 0" "p3 = 0 \<longleftrightarrow> p1 = 0 \<and> p2 = 0"
      using vercmp_part_trans p1(1) p2(1) by blast
    show ?thesis
    proof (cases "p3 = 0")
      case z: True
      then have "vercmp_part ra rb = Inr r1" "vercmp_part rb rc = Inr r2" using p1 p2 p3 by auto
      then obtain p4 where "vercmp_part ra rc = Inr p4" "p4 \<le> 0" "p4 = 0 \<longleftrightarrow> r1 = 0 \<and> r2 = 0"
        using vercmp_part_trans assms(2,4) by blast
      with z p3 abc e True show ?thesis by auto
    next
      case nz: False
      have "\<not> (r1 = 0 \<and> r2 = 0)" using p1(2) p2(2) p3(3) nz by (auto split: if_splits)
      with nz p3 abc e True show ?thesis by auto
    qed
  qed
qed

interpretation ver: version_order vercmp
  by unfold_locales (fact vercmp_swap, fact vercmp_trans)

lemma vercmp_string_swap:
  "vercmp_string b a = (case vercmp_string a b of Inl e \<Rightarrow> Inl e | Inr r \<Rightarrow> Inr (- r))"
proof -
  have ve: "split_version s = Inl e \<Longrightarrow> e = ValueError" for s e
    by (auto simp: split_version_def Let_def res_simps py_int_def split: if_splits list.splits option.splits)
  show ?thesis
  proof (cases "split_version a")
    case (Inl e)
    then show ?thesis using ve by (cases "split_version b") (auto simp: vercmp_string_def split: prod.splits)
  next
    case (Inr ta)
    obtain ea va ra where ta: "ta = (ea, va, ra)" by (cases ta)
    show ?thesis
    proof (cases "split_version b")
      case (Inl e)
      with Inr ta ve show ?thesis by (simp add: vercmp_string_def)
    next
      case (Inr tb)
      obtain eb vb rb where "tb = (eb, vb, rb)" by (cases tb)
      with Inr ta \<open>split_version a = Inr ta\<close>
        vercmp_swap [of "(EInt eb, vb, rb)" "(EInt ea, va, ra)"]
      show ?thesis by (simp add: vercmp_string_def)
    qed
  qed
qed

section \<open>Properties\<close>

text \<open>
  C36. Version comparison is transitive: if a is not newer than b and b not newer than c, then
  comparing a with c does not raise and a is not newer than c; it is equal to c exactly when
  both given comparisons said equal.
\<close>

theorem vercmp_transitive:
  assumes "vercmp a b = Inr r1" "r1 \<le> 0" "vercmp b c = Inr r2" "r2 \<le> 0"
  shows "\<exists>r3. vercmp a c = Inr r3 \<and> r3 \<le> 0 \<and> (r3 = 0 \<longleftrightarrow> r1 = 0 \<and> r2 = 0)"
  using assms by (rule ver.cmp_trans)

theorem vercmp_transitive_witness:
  "\<exists>r3. vercmp (EInt 0, ''1.0~rc1'', ''r0'') (EInt 0, ''1.0.2'', ''r0'') = Inr r3 \<and> r3 \<le> 0 \<and>
     (r3 = 0 \<longleftrightarrow> (- 1 :: int) = 0 \<and> (- 1 :: int) = 0)"
proof (rule vercmp_transitive)
  show "vercmp (EInt 0, ''1.0~rc1'', ''r0'') (EInt 0, ''1.0'', ''r0'') = Inr (- 1)" by code_simp
  show "vercmp (EInt 0, ''1.0'', ''r0'') (EInt 0, ''1.0.2'', ''r0'') = Inr (- 1)" by code_simp
qed simp_all

text \<open>
  Comparing two version parts raises \<open>TypeError\<close> exactly when one exploded version is a
  proper prefix of the other and the longer one continues with a number: the end of a version
  is \<open>None\<close>, which does not compare with an integer.
\<close>

theorem vercmp_part_type_error:
  "vercmp_part a b = Inl TypeError \<longleftrightarrow>
     (\<exists>va vb n ps. explode_version a = Inr va \<and> explode_version b = Inr vb \<and>
        (vb = va @ (0, VInt n) # ps \<or> va = vb @ (0, VInt n) # ps))"
  using vercmp_loop_error [OF explode_version_ok explode_version_ok, of a _ b _ TypeError]
    explode_version_error [of a] explode_version_error [of b]
  by (auto simp: vercmp_part_def res_simps)

text \<open>For instance a version without a revision against the same version with a numeric one.\<close>

lemma vercmp_string_no_revision: "vercmp_string ''1.0'' ''1.0-1'' = Inl TypeError"
  by code_simp

text \<open>
  The comparison operators of \<open>vercmp_string_op\<close> agree with each other on all inputs, the
  exceptions included: swapping the operands turns an operator into its mirror image, and the
  three pairs of complementary operators give opposite answers.
\<close>

theorem vercmp_string_op_laws:
  "vercmp_string_op a b ''>='' = vercmp_string_op b a ''<='' \<and>
   vercmp_string_op a b ''>>'' = vercmp_string_op b a ''<<'' \<and>
   vercmp_string_op a b ''=='' = vercmp_string_op b a ''='' \<and>
   vercmp_string_op a b ''!='' = rbind (vercmp_string_op a b ''='') (\<lambda>x. Inr (\<not> x)) \<and>
   vercmp_string_op a b ''<='' = rbind (vercmp_string_op a b ''>'') (\<lambda>x. Inr (\<not> x)) \<and>
   vercmp_string_op a b ''>='' = rbind (vercmp_string_op a b ''<'') (\<lambda>x. Inr (\<not> x))"
  using vercmp_string_swap [of b a]
  by (cases "vercmp_string a b") (auto simp: vercmp_string_op_def)

end
