(* ===== verification/Providers.thy ===== *)
theory Providers
  imports Prelude Versions RecipeCache "HOL-Library.Multiset"
begin

text \<open>
  Choice of providers: \<open>bitbake/lib/bb/providers.py\<close>.  The recipes that provide a name are sorted
  by layer priority and default preference; the preferred version wins, otherwise the newest
  version of the highest priority; among different recipes \<open>PREFERRED_PROVIDER\<close> decides.

  The argument \<open>cfg\<close> is \<open>cfgData.getVar(name, True)\<close>; \<open>re_match p s\<close> is \<open>re.match\<close> of the
  standard library (\<open>None\<close> when the pattern does not compile).  Log messages are left out.
\<close>

section \<open>Priorities\<close>

type_synonym config = "string \<Rightarrow> string option"

definition py_sorted :: "('a :: linorder) list \<Rightarrow> 'a list" where
  "py_sorted xs = sort xs"

definition collate_priority ::
  "cachedata \<Rightarrow> string \<Rightarrow> (int, (int, string list) dict) dict \<Rightarrow> (int, (int, string list) dict) dict res" where
  "collate_priority c f priorities =
     rbind (dlookup (c_bbfile_priority c) f) (\<lambda>priority.
     rbind (dlookup (c_pkg_dp c) f) (\<lambda>preference.
       Inr (dset priority (dappend preference f (dgetd priorities priority [])) priorities)))"

definition pri_files :: "(int, string list) dict \<Rightarrow> string list" where
  "pri_files prefs = concat (map (\<lambda>pref. dgetd prefs pref []) (py_sorted (dkeys prefs)))"

definition sortPriorities :: "string \<Rightarrow> cachedata \<Rightarrow> (string, string list) dict \<Rightarrow> string list list res" where
  "sortPriorities pn c pkg_pn =
     rbind (dlookup (if pkg_pn = [] then c_pkg_pn c else pkg_pn) pn) (\<lambda>files.
     rbind (rfold (collate_priority c) files []) (\<lambda>priorities.
       Inr (fold (\<lambda>pri tmp_pn. pri_files (dgetd priorities pri []) # tmp_pn) (py_sorted (dkeys priorities)) [])))"

section \<open>Preferred version\<close>

definition preferredVersionMatch ::
  "string \<Rightarrow> string \<Rightarrow> string \<Rightarrow> string option \<Rightarrow> string \<Rightarrow> string option \<Rightarrow> bool" where
  "preferredVersionMatch pe pv pr preferred_e preferred_v preferred_r =
     ((Some pr = preferred_r \<or> preferred_r = None) \<and> (Some pe = preferred_e \<or> preferred_e = None) \<and>
      (preferred_v = pv \<or> endswith preferred_v ''%'' \<and> startswith pv (butlast preferred_v)))"

text \<open>
  \<open>re.match('(\d+:)*(.*)(_.*)*', preferred_v)\<close>: group 1 is the last of the leading numbers, group 2
  runs to the end of the line, group 3 would start there.
\<close>

function pref_epoch :: "string option \<Rightarrow> string \<Rightarrow> string option \<times> string" where
  "pref_epoch e s =
     (let ds = takeWhile char_digit s; r = dropWhile char_digit s
      in if ds \<noteq> [] \<and> r \<noteq> [] \<and> hd r = colon then pref_epoch (Some ds) (tl r) else (e, s))"
  by pat_completeness auto
termination
proof (relation "measure (length \<circ> snd)", goal_cases)
  case 1
  then show ?case by simp
next
  case (2 e s x xa)
  then show ?case
    using length_dropWhile_le [of char_digit s] by (cases "dropWhile char_digit s") auto
qed

declare pref_epoch.simps [simp del]

definition pref_revision :: "string \<Rightarrow> string option" where
  "pref_revision r = (case r of [] \<Rightarrow> None | c # cs \<Rightarrow> if c = CHR ''_'' then Some (takeWhile (\<lambda>c. c \<noteq> CHR 0x0A) cs) else None)"

definition split_preferred :: "string \<Rightarrow> string option \<times> string \<times> string option" where
  "split_preferred s =
     (let (e, r) = pref_epoch None s
      in (e, takeWhile (\<lambda>c. c \<noteq> CHR 0x0A) r, pref_revision (dropWhile (\<lambda>c. c \<noteq> CHR 0x0A) r)))"

text \<open>\<open>x or y\<close> on optional strings: the empty string counts as nothing.\<close>

definition or_else :: "string option \<Rightarrow> string option \<Rightarrow> string option" where
  "or_else x y = (if x = None \<or> x = Some [] then y else x)"

definition preferred_version_var :: "config \<Rightarrow> string \<Rightarrow> string option" where
  "preferred_version_var cfg pn =
     or_else (or_else (or_else (cfg (''PREFERRED_VERSION_pn-'' @ pn)) (cfg (''PREFERRED_VERSION_'' @ pn)))
       (cfg ''PREFERRED_VERSION'')) None"

type_synonym pepvpr = "string \<times> string \<times> string"

fun first_match ::
  "cachedata \<Rightarrow> string option \<times> string \<times> string option \<Rightarrow> string list \<Rightarrow> (pepvpr option \<times> string option) res" where
  "first_match c want [] = Inr (None, None)"
| "first_match c (e, v, r) (f # fs) =
     rbind (dlookup (c_pkg_pepvpr c) f) (\<lambda>(pe, pv, pr).
       if preferredVersionMatch pe pv pr e v r then Inr (Some (pe, pv, pr), Some f)
       else first_match c (e, v, r) fs)"

definition findPreferredProvider ::
  "string \<Rightarrow> config \<Rightarrow> cachedata \<Rightarrow> string list list \<Rightarrow> (pepvpr option \<times> string option) res" where
  "findPreferredProvider pn cfg c pkg_pn =
     (case preferred_version_var cfg pn of
        None \<Rightarrow> Inr (None, None)
      | Some v \<Rightarrow> first_match c (split_preferred v) (concat pkg_pn))"

section \<open>Latest version\<close>

definition ver_of :: "pepvpr \<Rightarrow> epoch \<times> string \<times> string" where
  "ver_of p = (case p of (pe, pv, pr) \<Rightarrow> (EStr pe, pv, pr))"

record latest =
  l_ver :: "pepvpr option"
  l_p :: int
  l_f :: "string option"

definition latest_step :: "cachedata \<Rightarrow> string \<Rightarrow> latest \<Rightarrow> latest res" where
  "latest_step c file_name s =
     rbind (dlookup (c_pkg_pepvpr c) file_name) (\<lambda>v.
     rbind (dlookup (c_pkg_dp c) file_name) (\<lambda>dp.
     rbind (case l_ver s of
              None \<Rightarrow> Inr True
            | Some latest \<Rightarrow>
                rbind (if l_p s = dp then rbind (vercmp (ver_of latest) (ver_of v)) (\<lambda>r. Inr (r < 0)) else Inr False)
                  (\<lambda>newer. Inr (newer \<or> dp > l_p s))) (\<lambda>take_it.
       Inr (if take_it then \<lparr>l_ver = Some v, l_p = dp, l_f = Some file_name\<rparr> else s))))"

definition findLatestProvider :: "cachedata \<Rightarrow> string list \<Rightarrow> (pepvpr option \<times> string option) res" where
  "findLatestProvider c file_set =
     rbind (rfold (latest_step c) file_set \<lparr>l_ver = None, l_p = 0, l_f = None\<rparr>) (\<lambda>s. Inr (l_ver s, l_f s))"

definition first_of :: "'a list \<Rightarrow> 'a res" where
  "first_of xs = (case xs of [] \<Rightarrow> Inl IndexError | x # _ \<Rightarrow> Inr x)"

definition findBestProvider ::
  "string \<Rightarrow> config \<Rightarrow> cachedata \<Rightarrow> (string, string list) dict \<Rightarrow>
   (pepvpr option \<times> string option \<times> pepvpr option \<times> string option) res" where
  "findBestProvider pn cfg c pkg_pn =
     rbind (sortPriorities pn c pkg_pn) (\<lambda>sortpkg_pn.
     rbind (findPreferredProvider pn cfg c sortpkg_pn) (\<lambda>(preferred_ver, preferred_file).
     rbind (first_of sortpkg_pn) (\<lambda>file_set.
     rbind (findLatestProvider c file_set) (\<lambda>(latest, latest_f).
       Inr (if preferred_file = None then (latest, latest_f, latest, latest_f)
            else (latest, latest_f, preferred_ver, preferred_file))))))"

text \<open>\<open>cfg\<close> is the copy of the configuration after \<open>update_data\<close> and \<open>expandKeys\<close>.\<close>

definition findProviders ::
  "config \<Rightarrow> cachedata \<Rightarrow> (string, string list) dict \<Rightarrow>
   ((string, pepvpr option \<times> string option) dict \<times> (string, pepvpr option \<times> string option) dict) res" where
  "findProviders cfg c pkg_pn =
     (let pkg_pn = (if pkg_pn = [] then c_pkg_pn c else pkg_pn)
      in rfold (\<lambda>pn (latest_versions, preferred_versions).
           rbind (findBestProvider pn cfg c pkg_pn) (\<lambda>(last_ver, last_file, pref_ver, pref_file).
             Inr (dset pn (last_ver, last_file) latest_versions, dset pn (pref_ver, pref_file) preferred_versions)))
         (dkeys pkg_pn) ([], []))"

definition allProviders :: "cachedata \<Rightarrow> (string, (pepvpr \<times> string) list) dict res" where
  "allProviders c =
     rfold (\<lambda>(fn, pn) all_providers. rbind (dlookup (c_pkg_pepvpr c) fn) (\<lambda>ver.
         Inr (dappend pn (ver, fn) all_providers))) (c_pkg_fn c) []"

section \<open>Filtering\<close>

definition collate_pn :: "cachedata \<Rightarrow> string list \<Rightarrow> (string, string list) dict res" where
  "collate_pn c ps = rfold (\<lambda>p pkg_pn. rbind (dlookup (c_pkg_fn c) p) (\<lambda>pn. Inr (dappend pn p pkg_pn))) ps []"

record filtering =
  f_eligible :: "string list"
  f_versions :: "(string, string option) dict"
  f_sorted :: "(string, string list list) dict"

definition filter_preferred ::
  "config \<Rightarrow> cachedata \<Rightarrow> (string, string list) dict \<Rightarrow> string \<Rightarrow> filtering \<Rightarrow> filtering res" where
  "filter_preferred cfg c pkg_pn pn s =
     rbind (sortPriorities pn c pkg_pn) (\<lambda>sortpkg_pn.
     rbind (findPreferredProvider pn cfg c sortpkg_pn) (\<lambda>(_, file).
       Inr (s\<lparr>f_sorted := dset pn sortpkg_pn (f_sorted s), f_versions := dset pn file (f_versions s),
              f_eligible := (case file of None \<Rightarrow> f_eligible s | Some f \<Rightarrow> f_eligible s @ [f])\<rparr>)))"

text \<open>The newest version for a recipe name with no preferred one.  The file sets are never empty, so there is a file.\<close>

definition filter_latest :: "cachedata \<Rightarrow> string \<times> string list list \<Rightarrow> filtering \<Rightarrow> filtering res" where
  "filter_latest c entry s =
     (if dgetd (f_versions s) (fst entry) None \<noteq> None then Inr s
      else rbind (first_of (snd entry)) (\<lambda>file_set.
           rbind (findLatestProvider c file_set) (\<lambda>(_, file).
             Inr (s\<lparr>f_versions := dset (fst entry) file (f_versions s),
                    f_eligible := (case file of None \<Rightarrow> f_eligible s | Some f \<Rightarrow> f_eligible s @ [f])\<rparr>))))"

text \<open>\<open>eligible.remove(x); eligible = [x] + eligible\<close>.\<close>

definition to_front :: "'a \<Rightarrow> 'a list \<Rightarrow> 'a list" where
  "to_front x xs = x # remove1 x xs"

definition prefer_same_name ::
  "cachedata \<Rightarrow> string \<Rightarrow> (string, string option) dict \<Rightarrow> string \<Rightarrow> string list \<Rightarrow> string list res" where
  "prefer_same_name c item versions p eligible =
     rbind (dlookup (c_pkg_fn c) p) (\<lambda>pn.
       if pn \<noteq> item then Inr eligible
       else rbind (dlookup versions pn) (\<lambda>file.
         Inr (case file of None \<Rightarrow> eligible | Some fn \<Rightarrow> if fn \<notin> set eligible then eligible else to_front fn eligible)))"

text \<open>\<open>_filterProviders\<close>; \<open>None\<close> is the \<open>0\<close> it returns when nothing is eligible.\<close>

definition filterProviders0 :: "string list \<Rightarrow> string \<Rightarrow> config \<Rightarrow> cachedata \<Rightarrow> string list option res" where
  "filterProviders0 providers item cfg c =
     (let providers = py_sorted providers
      in rbind (collate_pn c providers) (\<lambda>pkg_pn.
         rbind (rfold (filter_preferred cfg c pkg_pn) (dkeys pkg_pn) \<lparr>f_eligible = [], f_versions = [], f_sorted = []\<rparr>) (\<lambda>s.
         rbind (rfold (filter_latest c) (f_sorted s) s) (\<lambda>s.
           if f_eligible s = [] then Inr None
           else rbind (rfold (prefer_same_name c item (f_versions s)) providers (f_eligible s)) (\<lambda>eligible.
             Inr (Some eligible))))))"

text \<open>The first eligible file of the named recipe moves to the front.\<close>

fun select_pn :: "cachedata \<Rightarrow> string \<Rightarrow> string list \<Rightarrow> string list \<Rightarrow> (string list \<times> bool) res" where
  "select_pn c want [] eligible = Inr (eligible, False)"
| "select_pn c want (p # ps) eligible =
     rbind (dlookup (c_pkg_fn c) p) (\<lambda>pn.
       if want = pn then Inr (to_front p eligible, True) else select_pn c want ps eligible)"

definition filterProviders ::
  "string list \<Rightarrow> string \<Rightarrow> config \<Rightarrow> cachedata \<Rightarrow> (string list option \<times> bool \<times> cachedata) res" where
  "filterProviders providers item cfg c =
     rbind (filterProviders0 providers item cfg c) (\<lambda>eligible.
       let c = (case or_else (cfg (''PREFERRED_PROVIDER_'' @ item)) None of
                  None \<Rightarrow> c | Some v \<Rightarrow> c\<lparr>c_preferred := dset item v (c_preferred c)\<rparr>)
       in (case dget (c_preferred c) item of
             None \<Rightarrow> Inr (eligible, False, c)
           | Some want \<Rightarrow> (case eligible of
               None \<Rightarrow> Inl TypeError
             | Some el \<Rightarrow> rbind (select_pn c want el el) (\<lambda>(el, found). Inr (Some el, found, c)))))"

text \<open>
  The search for a \<open>PREFERRED_PROVIDER\<close> of anything the eligible recipes provide.  The loop walks the
  list object \<open>eligible\<close>; the first \<open>eligible.remove\<close> changes that object, the later ones change the
  lists built since.  \<open>xs\<close> is the object walked and \<open>shared\<close> tells whether it is still \<open>eligible\<close>.
\<close>

fun infer_provide ::
  "config \<Rightarrow> (string, string) dict \<Rightarrow> string list \<Rightarrow> string list \<Rightarrow> string option" where
  "infer_provide cfg pns preferred [] = None"
| "infer_provide cfg pns preferred (provide # ps) =
     (case cfg (''PREFERRED_PROVIDER_'' @ provide) of
        None \<Rightarrow> infer_provide cfg pns preferred ps
      | Some want \<Rightarrow> (case dget pns want of
          None \<Rightarrow> infer_provide cfg pns preferred ps
        | Some f \<Rightarrow> if f \<notin> set preferred then Some f else infer_provide cfg pns preferred ps))"

function infer_preferred ::
  "config \<Rightarrow> cachedata \<Rightarrow> (string, string) dict \<Rightarrow> nat \<Rightarrow> string list \<Rightarrow> bool \<Rightarrow> string list \<Rightarrow> string list \<Rightarrow>
   (string list \<times> string list) res" where
  "infer_preferred cfg c pns i xs shared eligible preferred =
     (if length xs \<le> i then Inr (eligible, preferred)
      else rbind (dlookup (c_pkg_fn c) (xs ! i)) (\<lambda>pn.
        case infer_provide cfg pns preferred (dgetd (c_pn_provides c) pn []) of
          None \<Rightarrow> infer_preferred cfg c pns (Suc i) xs shared eligible preferred
        | Some f \<Rightarrow> infer_preferred cfg c pns (Suc i) (if shared then remove1 f xs else xs) False
                     (to_front f eligible) (preferred @ [f])))"
  by pat_completeness auto
termination
  by (relation "measure (\<lambda>(_, _, _, i, xs, _). length xs - i)") (auto simp: length_remove1)

declare infer_preferred.simps [simp del]

definition filterProvidersRunTime ::
  "string list \<Rightarrow> string \<Rightarrow> config \<Rightarrow> cachedata \<Rightarrow> (string list \<times> nat) res" where
  "filterProvidersRunTime providers item cfg c =
     rbind (filterProviders0 providers item cfg c) (\<lambda>eligible.
       case eligible of
         None \<Rightarrow> Inl TypeError
       | Some el \<Rightarrow>
           rbind (case or_else (cfg (''PREFERRED_RPROVIDER_'' @ item)) None of
                    None \<Rightarrow> Inr (el, False) | Some want \<Rightarrow> select_pn c want el el) (\<lambda>(el, foundUnique).
             if foundUnique then Inr (el, 1)
             else rbind (rfold (\<lambda>p pns. rbind (dlookup (c_pkg_fn c) p) (\<lambda>pn. Inr (dset pn p pns))) el []) (\<lambda>pns.
                  rbind (infer_preferred cfg c pns 0 el True el []) (\<lambda>(el, preferred).
                    Inr (el, length preferred)))))"

section \<open>Runtime providers\<close>

definition escape_plus :: "string \<Rightarrow> string" where
  "escape_plus p = concat (map (\<lambda>c. if c = CHR ''+'' then [CHR 0x5C, CHR ''+''] else [c]) p)"

text \<open>
  The table is read at the escaped pattern while it is being iterated over: a pattern that
  contains \<open>+\<close> is then a new key of the \<open>defaultdict\<close>, and the next step of the iteration raises
  \<open>RuntimeError\<close>.  \<open>ValueError\<close> stands for \<open>re.error\<close>.
\<close>

fun dynamic_providers ::
  "(string \<Rightarrow> string \<Rightarrow> bool option) \<Rightarrow> (string, string list) dict \<Rightarrow> string \<Rightarrow> string list \<Rightarrow> string list \<Rightarrow> string list res" where
  "dynamic_providers re_match table rdepend [] acc = Inr acc"
| "dynamic_providers re_match table rdepend (pattern # ps) acc =
     (case re_match (escape_plus pattern) rdepend of
        None \<Rightarrow> Inl ValueError
      | Some False \<Rightarrow> dynamic_providers re_match table rdepend ps acc
      | Some True \<Rightarrow> (case dget table (escape_plus pattern) of
          None \<Rightarrow> Inl RuntimeError
        | Some fns \<Rightarrow> dynamic_providers re_match table rdepend ps (acc @ fns)))"

definition getRuntimeProviders ::
  "(string \<Rightarrow> string \<Rightarrow> bool option) \<Rightarrow> cachedata \<Rightarrow> string \<Rightarrow> string list res" where
  "getRuntimeProviders re_match c rdepend =
     (let rproviders = dgetd (c_rproviders c) rdepend [] @ dgetd (c_packages c) rdepend []
      in if rproviders \<noteq> [] then Inr rproviders
         else dynamic_providers re_match (c_packages_dynamic c) rdepend (dkeys (c_packages_dynamic c)) [])"

section \<open>World\<close>

fun sole_provider :: "cachedata \<Rightarrow> string \<Rightarrow> string list \<Rightarrow> bool res" where
  "sole_provider c pn [] = Inr True"
| "sole_provider c pn (pf # pfs) =
     rbind (dlookup (c_pkg_fn c) pf) (\<lambda>pn'. if pn' \<noteq> pn then Inr False else sole_provider c pn pfs)"

fun terminal_provides :: "cachedata \<Rightarrow> string \<Rightarrow> string list \<Rightarrow> bool \<Rightarrow> bool res" where
  "terminal_provides c pn [] terminal = Inr terminal"
| "terminal_provides c pn (p # ps) terminal =
     (if startswith p ''virtual/'' then Inr False
      else rbind (sole_provider c pn (dgetd (c_providers c) p [])) (\<lambda>sole.
        terminal_provides c pn ps (terminal \<and> sole)))"

definition world_step :: "string option \<Rightarrow> string \<Rightarrow> cachedata \<Rightarrow> cachedata res" where
  "world_step task f c =
     rbind (dlookup (c_pkg_fn c) f) (\<lambda>pn.
     rbind (case or_else task None of
              None \<Rightarrow> Inr True
            | Some t \<Rightarrow> rbind (dlookup (c_task_deps c) f) (\<lambda>td. Inr (t \<in> set (td_tasks td)))) (\<lambda>terminal.
     rbind (terminal_provides c pn (dgetd (c_pn_provides c) pn []) terminal) (\<lambda>terminal.
       Inr (if terminal then c\<lparr>c_world_target := sadd pn (c_world_target c)\<rparr> else c))))"

definition buildWorldTargetList :: "string option \<Rightarrow> cachedata \<Rightarrow> cachedata res" where
  "buildWorldTargetList task c =
     (if c_world_target c \<noteq> [] then Inr c else rfold (world_step task) (c_possible_world c) c)"

section \<open>Sorting by priority\<close>

abbreviation pri_of :: "cachedata \<Rightarrow> string \<Rightarrow> int" where
  "pri_of c f \<equiv> dgetd (c_bbfile_priority c) f 0"

abbreviation pref_of :: "cachedata \<Rightarrow> string \<Rightarrow> int" where
  "pref_of c f \<equiv> dgetd (c_pkg_dp c) f 0"

lemma mset_concat_one:
  "distinct ks \<Longrightarrow> mset (concat (map (\<lambda>k. (if key = k then [x] else []) @ g k) ks)) =
     (if key \<in> set ks then {#x#} else {#}) + mset (concat (map g ks))"
  by (induction ks) auto

lemma mset_concat_classes:
  "distinct ks \<Longrightarrow> key ` set xs \<subseteq> set ks \<Longrightarrow> mset (concat (map (\<lambda>k. filter (\<lambda>x. key x = k) xs) ks)) = mset xs"
proof (induction xs)
  case Nil
  then show ?case by (induction ks) auto
next
  case (Cons x xs)
  have "map (\<lambda>k. filter (\<lambda>x. key x = k) (x # xs)) ks =
      map (\<lambda>k. (if key x = k then [x] else []) @ filter (\<lambda>x. key x = k) xs) ks"
    by simp
  then show ?case using Cons mset_concat_one [of ks "key x" x] by (simp del: map_eq_conv)
qed

text \<open>The two-level table after the files \<open>done\<close> have been collated.\<close>

definition collated :: "cachedata \<Rightarrow> string list \<Rightarrow> (int, (int, string list) dict) dict \<Rightarrow> bool" where
  "collated c files P \<longleftrightarrow> dwf P \<and> set (dkeys P) = pri_of c ` set files \<and>
     (\<forall>p. dwf (dgetd P p []) \<and> set (dkeys (dgetd P p [])) = pref_of c ` {f \<in> set files. pri_of c f = p} \<and>
        (\<forall>q. dgetd (dgetd P p []) q [] = filter (\<lambda>f. pri_of c f = p \<and> pref_of c f = q) files))"

lemma collated_step:
  assumes "collated c files P" "collate_priority c f P = Inr P'"
  shows "collated c (files @ [f]) P'"
proof -
  from assms(2) have P': "P' = dset (pri_of c f) (dappend (pref_of c f) f (dgetd P (pri_of c f) [])) P"
    by (auto simp: collate_priority_def res_simps dgetd_def)
  have sub: "dgetd P' p [] = (if p = pri_of c f then dappend (pref_of c f) f (dgetd P p []) else dgetd P p [])" for p
    by (simp add: P')
  have app: "dgetd (dappend k x d) q [] = (if q = k then dgetd d q [] @ [x] else dgetd d q [])" for k q :: int and x :: string and d
    by (simp add: dappend_def)
  have "dwf P'" "set (dkeys P') = pri_of c ` set (files @ [f])"
    using assms(1) by (auto simp: P' collated_def)
  moreover have "dwf (dgetd P' p [])" for p
    using assms(1) unfolding sub by (simp add: collated_def dappend_def)
  moreover have "set (dkeys (dgetd P' p [])) = pref_of c ` {g \<in> set (files @ [f]). pri_of c g = p}" for p
    using assms(1) unfolding sub by (auto simp: collated_def dappend_def)
  moreover have "dgetd (dgetd P' p []) q [] = filter (\<lambda>g. pri_of c g = p \<and> pref_of c g = q) (files @ [f])" for p q
    using assms(1) unfolding sub by (auto simp: collated_def app)
  ultimately show ?thesis unfolding collated_def by blast
qed

lemma collated_fold:
  "rfold (collate_priority c) fs P = Inr P' \<Longrightarrow> collated c files P \<Longrightarrow> collated c (files @ fs) P'"
proof (induction fs arbitrary: files P)
  case Nil
  then show ?case by simp
next
  case (Cons f fs)
  then obtain P1 where "collate_priority c f P = Inr P1" "rfold (collate_priority c) fs P1 = Inr P'"
    by (auto simp: res_simps)
  then show ?case using Cons.IH [of P1 "files @ [f]"] collated_step [OF Cons.prems(2)] by simp
qed

lemma collated_Nil: "collated c [] []"
  by (simp add: collated_def dwf_def dgetd_def)

lemma py_sorted_simps [simp]:
  "set (py_sorted xs) = set xs" "distinct (py_sorted xs) = distinct xs" "sorted (py_sorted xs)"
  by (simp_all add: py_sorted_def)

lemma sorted_concat_map:
  assumes "sorted ks" "distinct ks" "\<And>k x. k \<in> set ks \<Longrightarrow> x \<in> set (g k) \<Longrightarrow> h x = k"
  shows "sorted (map h (concat (map g ks)))"
  using assms
proof (induction ks)
  case Nil
  then show ?case by simp
next
  case (Cons k ks)
  have "sorted (map h (concat (map g ks)))" using Cons by simp
  moreover have "map h (g k) = replicate (length (g k)) k"
    using Cons.prems(3) by (intro replicate_eqI) auto
  moreover have "\<forall>y \<in> set (map h (concat (map g ks))). k \<le> y"
    using Cons.prems by fastforce
  ultimately show ?case by (simp add: sorted_append)
qed

lemma pri_files_spec:
  assumes "collated c files P"
  shows "mset (pri_files (dgetd P p [])) = mset (filter (\<lambda>f. pri_of c f = p) files)"
    and "sorted (map (pref_of c) (pri_files (dgetd P p [])))"
proof -
  let ?ks = "py_sorted (dkeys (dgetd P p []))"
  have eq: "pri_files (dgetd P p []) =
      concat (map (\<lambda>q. filter (\<lambda>f. pref_of c f = q) (filter (\<lambda>f. pri_of c f = p) files)) ?ks)"
    using assms by (simp add: pri_files_def collated_def conj_commute)
  have ks: "distinct ?ks" "pref_of c ` set (filter (\<lambda>f. pri_of c f = p) files) \<subseteq> set ?ks"
    using assms by (auto simp: collated_def dwf_def)
  show "mset (pri_files (dgetd P p [])) = mset (filter (\<lambda>f. pri_of c f = p) files)"
    unfolding eq using mset_concat_classes [OF ks] by simp
  show "sorted (map (pref_of c) (pri_files (dgetd P p [])))"
    unfolding eq by (rule sorted_concat_map) (use ks(1) in auto)
qed

lemma fold_Cons_map: "fold (\<lambda>x acc. g x # acc) xs acc = rev (map g xs) @ acc"
  by (induction xs arbitrary: acc) auto

lemma sortPriorities_spec:
  assumes "sortPriorities pn c pkg_pn = Inr sets"
  obtains files where "dget (if pkg_pn = [] then c_pkg_pn c else pkg_pn) pn = Some files"
    and "mset (concat sets) = mset files"
    and "sorted_wrt (\<lambda>s t. \<forall>f \<in> set s. \<forall>g \<in> set t. pri_of c g < pri_of c f) sets"
    and "\<forall>s \<in> set sets. s \<noteq> [] \<and> (\<exists>p. \<forall>f \<in> set s. pri_of c f = p) \<and> sorted (map (pref_of c) s)"
proof -
  from assms obtain files P where
    files: "dget (if pkg_pn = [] then c_pkg_pn c else pkg_pn) pn = Some files"
    and P: "rfold (collate_priority c) files [] = Inr P"
    and sets: "sets = rev (map (\<lambda>p. pri_files (dgetd P p [])) (py_sorted (dkeys P)))"
    by (auto simp: sortPriorities_def res_simps fold_Cons_map)
  have col: "collated c files P" using collated_fold [OF P collated_Nil] by simp
  note spec = pri_files_spec [OF col]
  have mem: "set (pri_files (dgetd P p [])) = {f \<in> set files. pri_of c f = p}" for p
    using spec(1) [of p] by (metis set_mset_mset set_filter)
  let ?ks = "py_sorted (dkeys P)"
  have ks: "distinct ?ks" "sorted ?ks" "set ?ks = pri_of c ` set files"
    using col by (auto simp: collated_def dwf_def)
  have "mset (concat sets) = mset (concat (map (\<lambda>p. pri_files (dgetd P p [])) ?ks))"
    unfolding sets by (simp add: mset_concat rev_map [symmetric])
  also have "\<dots> = mset (concat (map (\<lambda>p. filter (\<lambda>f. pri_of c f = p) files) ?ks))"
    by (simp add: mset_concat spec(1) comp_def)
  also have "\<dots> = mset files" using ks by (intro mset_concat_classes) auto
  finally have perm: "mset (concat sets) = mset files" .
  have "sorted_wrt (\<lambda>p q. p < q) ?ks" using ks by (simp add: strict_sorted_iff)
  then have order: "sorted_wrt (\<lambda>s t. \<forall>f \<in> set s. \<forall>g \<in> set t. pri_of c g < pri_of c f) sets"
    unfolding sets sorted_wrt_rev sorted_wrt_map by (rule sorted_wrt_mono_rel [rotated]) (auto simp: mem)
  have "\<forall>s \<in> set sets. s \<noteq> [] \<and> (\<exists>p. \<forall>f \<in> set s. pri_of c f = p) \<and> sorted (map (pref_of c) s)"
  proof
    fix s assume "s \<in> set sets"
    then obtain p where p: "p \<in> set ?ks" "s = pri_files (dgetd P p [])" unfolding sets by auto
    have "set s \<noteq> {}" using p ks(3) mem [of p] by auto
    then show "s \<noteq> [] \<and> (\<exists>p. \<forall>f \<in> set s. pri_of c f = p) \<and> sorted (map (pref_of c) s)"
      using p(2) mem [of p] spec(2) [of p] by auto
  qed
  with files perm order show ?thesis by (rule that)
qed

section \<open>The newest version\<close>

abbreviation ver_at :: "cachedata \<Rightarrow> string \<Rightarrow> epoch \<times> string \<times> string" where
  "ver_at c f \<equiv> ver_of (the (dget (c_pkg_pepvpr c) f))"

definition newest_so_far :: "cachedata \<Rightarrow> string set \<Rightarrow> latest \<Rightarrow> bool" where
  "newest_so_far c seen s \<longleftrightarrow> (case l_f s of
     None \<Rightarrow> seen = {} \<and> l_ver s = None
   | Some f \<Rightarrow> f \<in> seen \<and> l_ver s \<noteq> None \<and> l_ver s = dget (c_pkg_pepvpr c) f \<and> l_p s = pref_of c f \<and>
       (\<forall>g \<in> seen. pref_of c g \<le> l_p s) \<and>
       (\<forall>v \<in> ver_at c ` {g \<in> seen. pref_of c g = l_p s \<and> g \<noteq> f}. not_newer vercmp v (ver_at c f)))"

lemma latest_step_newest:
  assumes "newest_so_far c seen s" "latest_step c g s = Inr s'"
  shows "newest_so_far c (insert g seen) s'"
proof -
  from assms(2) obtain v dp where v: "dget (c_pkg_pepvpr c) g = Some v" "dget (c_pkg_dp c) g = Some dp"
    by (auto simp: latest_step_def res_simps)
  then have dp: "pref_of c g = dp" by (simp add: dgetd_def)
  show ?thesis
  proof (cases "l_f s")
    case None
    then show ?thesis using assms v dp by (auto simp: latest_step_def newest_so_far_def dlookup_def)
  next
    case (Some f)
    let ?S = "ver_at c ` {g \<in> seen. pref_of c g = l_p s \<and> g \<noteq> f}"
    from Some assms(1) obtain w where w: "l_ver s = Some w" "dget (c_pkg_pepvpr c) f = Some w"
      and f: "f \<in> seen" "l_p s = pref_of c f" "\<forall>g \<in> seen. pref_of c g \<le> l_p s"
        "\<forall>x \<in> ?S. not_newer vercmp x (ver_at c f)"
      by (auto simp: newest_so_far_def)
    consider (less) "dp < l_p s" | (more) "dp > l_p s" | (same) "dp = l_p s" by linarith
    then show ?thesis
    proof cases
      case less
      then show ?thesis using assms v dp w Some f by (auto simp: latest_step_def newest_so_far_def dlookup_def)
    next
      case more
      then show ?thesis using assms v dp w Some f by (fastforce simp: latest_step_def newest_so_far_def dlookup_def)
    next
      case same
      with assms(2) v w obtain r where r: "vercmp (ver_of w) (ver_of v) = Inr r"
        "s' = (if r < 0 then \<lparr>l_ver = Some v, l_p = dp, l_f = Some g\<rparr> else s)"
        by (auto simp: latest_step_def dlookup_def res_simps)
      show ?thesis
      proof (cases "r < 0")
        case True
        have "not_newer vercmp (ver_of w) (ver_of v)" using r(1) True by (auto simp: not_newer_iff)
        moreover have "\<forall>x \<in> ?S. not_newer vercmp x (ver_of v)"
          using ver.newest_replace [OF _ r(1) True, of ?S] f(4) w(2) by simp
        ultimately show ?thesis
          using f True r(2) v w same dp by (fastforce simp: newest_so_far_def)
      next
        case False
        have "not_newer vercmp (ver_of v) (ver_of w)" using ver.newest_keep [OF r(1) False] .
        then show ?thesis using f False r(2) v w same dp Some by (fastforce simp: newest_so_far_def)
      qed
    qed
  qed
qed

lemma latest_fold_newest:
  "rfold (latest_step c) fs s = Inr s' \<Longrightarrow> newest_so_far c seen s \<Longrightarrow> newest_so_far c (seen \<union> set fs) s'"
proof (induction fs arbitrary: s seen)
  case Nil
  then show ?case by simp
next
  case (Cons g fs)
  then obtain s1 where s1: "latest_step c g s = Inr s1" "rfold (latest_step c) fs s1 = Inr s'"
    by (auto simp: res_simps)
  from Cons.IH [OF s1(2) latest_step_newest [OF Cons.prems(2) s1(1)]] show ?case by simp
qed

lemma findLatestProvider_spec:
  assumes "findLatestProvider c fs = Inr (v, chosen)"
  shows "newest_so_far c (set fs) \<lparr>l_ver = v, l_p = (case chosen of None \<Rightarrow> 0 | Some f \<Rightarrow> pref_of c f), l_f = chosen\<rparr>"
proof -
  obtain s where s: "rfold (latest_step c) fs \<lparr>l_ver = None, l_p = 0, l_f = None\<rparr> = Inr s" "v = l_ver s" "chosen = l_f s"
    using assms by (auto simp: findLatestProvider_def res_simps)
  have "newest_so_far c {} \<lparr>l_ver = None, l_p = 0, l_f = None\<rparr>" by (simp add: newest_so_far_def)
  from latest_fold_newest [OF s(1) this] s(2,3) show ?thesis
    by (auto simp: newest_so_far_def split: option.splits)
qed

lemma findLatestProvider_mem:
  "findLatestProvider c fs = Inr (v, chosen) \<Longrightarrow> fs \<noteq> [] \<Longrightarrow> \<exists>f. chosen = Some f \<and> f \<in> set fs"
  using findLatestProvider_spec [of c fs v chosen] by (cases chosen) (auto simp: newest_so_far_def)

lemma first_match_mem:
  "first_match c want fs = Inr (v, chosen) \<Longrightarrow> chosen = Some f \<Longrightarrow> f \<in> set fs \<and> v = dget (c_pkg_pepvpr c) f \<and> v \<noteq> None"
proof (induction fs)
  case Nil
  then show ?case by simp
next
  case (Cons g fs)
  obtain e va r where want: "want = (e, va, r)" by (cases want)
  from Cons.prems(1) obtain pe pv pr where "dget (c_pkg_pepvpr c) g = Some (pe, pv, pr)"
    by (auto simp: want res_simps)
  with Cons show ?case
    by (cases "preferredVersionMatch pe pv pr e va r") (simp_all add: want dlookup_def, (metis option.distinct(1))+)
qed

section \<open>Filtering keeps one file for each recipe name\<close>

definition filtering_ok :: "cachedata \<Rightarrow> string list \<Rightarrow> filtering \<Rightarrow> bool" where
  "filtering_ok c ps s \<longleftrightarrow> distinct (f_eligible s) \<and> set (f_eligible s) \<subseteq> set ps \<and> dwf (f_sorted s) \<and>
     (\<forall>pn f. dget (f_versions s) pn = Some (Some f) \<longrightarrow> f \<in> set (f_eligible s) \<and> dget (c_pkg_fn c) f = Some pn) \<and>
     (\<forall>f \<in> set (f_eligible s). dget (c_pkg_fn c) f \<noteq> None \<and>
        dget (f_versions s) (the (dget (c_pkg_fn c) f)) = Some (Some f)) \<and>
     (\<forall>pn sets. dget (f_sorted s) pn = Some sets \<longrightarrow> sets \<noteq> [] \<and> (\<forall>t \<in> set sets. t \<noteq> []) \<and>
        (\<forall>f \<in> set (concat sets). f \<in> set ps \<and> dget (c_pkg_fn c) f = Some pn))"

lemma collate_pn_spec:
  assumes "collate_pn c ps = Inr d"
  shows "\<forall>p \<in> set ps. dget (c_pkg_fn c) p \<noteq> None"
    and "dget d pn = (if \<exists>p \<in> set ps. dget (c_pkg_fn c) p = Some pn
            then Some (filter (\<lambda>p. dget (c_pkg_fn c) p = Some pn) ps) else None)"
    and "dwf d"
proof -
  have "(\<forall>p \<in> set xs. dget (c_pkg_fn c) p \<noteq> None) \<and>
     (\<forall>pn. dgetd d' pn [] = dgetd d0 pn [] @ filter (\<lambda>p. dget (c_pkg_fn c) p = Some pn) xs \<and>
        (dget d' pn = None \<longleftrightarrow> dget d0 pn = None \<and> (\<forall>p \<in> set xs. dget (c_pkg_fn c) p \<noteq> Some pn))) \<and>
     (dwf d0 \<longrightarrow> dwf d')"
    if "rfold (\<lambda>p pkg_pn. rbind (dlookup (c_pkg_fn c) p) (\<lambda>pn. Inr (dappend pn p pkg_pn))) xs d0 = Inr d'" for xs d0 d'
    using that
  proof (induction xs arbitrary: d0)
    case Nil
    then show ?case by simp
  next
    case (Cons p xs)
    then obtain q where q: "dget (c_pkg_fn c) p = Some q" by (auto simp: res_simps)
    then show ?case using Cons.IH [of "dappend q p d0"] Cons.prems by (auto simp: dappend_def dlookup_def)
  qed
  from this [OF assms [unfolded collate_pn_def]] show "\<forall>p \<in> set ps. dget (c_pkg_fn c) p \<noteq> None"
    and "dget d pn = (if \<exists>p \<in> set ps. dget (c_pkg_fn c) p = Some pn
            then Some (filter (\<lambda>p. dget (c_pkg_fn c) p = Some pn) ps) else None)"
    and "dwf d"
    by (auto simp: dgetd_def dwf_def split: option.splits)
qed

lemma filter_preferred_ok:
  assumes ok: "filtering_ok c ps s" and col: "collate_pn c ps = Inr d" and pn: "pn \<in> set (dkeys d)"
    and new: "pn \<notin> set (dkeys (f_sorted s))" "set (dkeys (f_versions s)) = set (dkeys (f_sorted s))"
    and step: "filter_preferred cfg c d pn s = Inr s'"
  shows "filtering_ok c ps s' \<and> set (dkeys (f_sorted s')) = insert pn (set (dkeys (f_sorted s))) \<and>
    set (dkeys (f_versions s')) = set (dkeys (f_sorted s'))"
proof -
  from step obtain sets v chosen where sets: "sortPriorities pn c d = Inr sets"
    and chosen: "findPreferredProvider pn cfg c sets = Inr (v, chosen)"
    and s': "s' = s\<lparr>f_sorted := dset pn sets (f_sorted s), f_versions := dset pn chosen (f_versions s),
        f_eligible := (case chosen of None \<Rightarrow> f_eligible s | Some f \<Rightarrow> f_eligible s @ [f])\<rparr>"
    by (auto simp: filter_preferred_def res_simps)
  have "d \<noteq> []" using pn by auto
  from sortPriorities_spec [OF sets] obtain files where
    files: "dget d pn = Some files" "mset (concat sets) = mset files" "\<forall>t \<in> set sets. t \<noteq> []"
    using \<open>d \<noteq> []\<close> by auto
  have mem: "\<forall>f \<in> set (concat sets). f \<in> set ps \<and> dget (c_pkg_fn c) f = Some pn"
    and ne: "files \<noteq> []"
    using files(1) mset_eq_setD [OF files(2)] collate_pn_spec(2) [OF col, of pn]
    by (auto split: if_splits simp: filter_empty_conv)
  have "sets \<noteq> []" using ne files(2) by auto
  have pref: "f \<in> set (concat sets)" if "chosen = Some f" for f
    using chosen first_match_mem [of c _ "concat sets" v chosen f] that
    by (auto simp: findPreferredProvider_def split: option.splits)
  have nov: "dget (f_versions s) pn = None" using new by (simp add: dget_None_iff)
  have fresh: "f \<notin> set (f_eligible s)" if "dget (c_pkg_fn c) f = Some pn" for f
    using ok nov that by (auto simp: filtering_ok_def)
  have sorted': "\<forall>q ts. dget (f_sorted s') q = Some ts \<longrightarrow> ts \<noteq> [] \<and> (\<forall>t \<in> set ts. t \<noteq> []) \<and>
        (\<forall>f \<in> set (concat ts). f \<in> set ps \<and> dget (c_pkg_fn c) f = Some q)"
    using ok mem \<open>sets \<noteq> []\<close> files(3) unfolding s' filtering_ok_def by simp
  have "filtering_ok c ps s'"
  proof (cases chosen)
    case None
    then show ?thesis
      using ok nov sorted' unfolding filtering_ok_def by (auto simp: s')
  next
    case (Some f)
    have fp: "f \<in> set ps" "dget (c_pkg_fn c) f = Some pn" using pref [OF Some] mem by auto
    show ?thesis
      using ok nov sorted' fp fresh [OF fp(2)] Some unfolding filtering_ok_def by (auto simp: s')
  qed
  then show ?thesis using new s' by simp
qed

lemma filter_preferred_all:
  assumes "collate_pn c ps = Inr d"
  shows "rfold (filter_preferred cfg c d) pns s = Inr s' \<Longrightarrow> distinct pns \<Longrightarrow> set pns \<subseteq> set (dkeys d) \<Longrightarrow>
    set pns \<inter> set (dkeys (f_sorted s)) = {} \<Longrightarrow> set (dkeys (f_versions s)) = set (dkeys (f_sorted s)) \<Longrightarrow>
    filtering_ok c ps s \<Longrightarrow> filtering_ok c ps s' \<and> set (dkeys (f_sorted s')) = set (dkeys (f_sorted s)) \<union> set pns"
proof (induction pns arbitrary: s)
  case Nil
  then show ?case by simp
next
  case (Cons pn pns)
  then obtain s1 where s1: "filter_preferred cfg c d pn s = Inr s1" "rfold (filter_preferred cfg c d) pns s1 = Inr s'"
    by (auto simp: res_simps)
  have "filtering_ok c ps s1 \<and> set (dkeys (f_sorted s1)) = insert pn (set (dkeys (f_sorted s))) \<and>
    set (dkeys (f_versions s1)) = set (dkeys (f_sorted s1))"
    using filter_preferred_ok [OF Cons.prems(6) assms _ _ Cons.prems(5) s1(1)] Cons.prems(3,4) by simp
  then show ?case using Cons.IH [OF s1(2)] Cons.prems by auto
qed

lemma filter_latest_ok:
  assumes ok: "filtering_ok c ps s" and entry: "dget (f_sorted s) pn = Some sets"
    and step: "filter_latest c (pn, sets) s = Inr s'"
  shows "filtering_ok c ps s' \<and> f_sorted s' = f_sorted s \<and> (\<exists>f. dget (f_versions s') pn = Some (Some f)) \<and>
    (\<forall>q f. dget (f_versions s) q = Some (Some f) \<longrightarrow> dget (f_versions s') q = Some (Some f))"
proof (cases "dgetd (f_versions s) pn None")
  case None
  with step obtain v chosen where sets: "sets \<noteq> []" and chosen: "findLatestProvider c (hd sets) = Inr (v, chosen)"
    and s': "s' = s\<lparr>f_versions := dset pn chosen (f_versions s),
        f_eligible := (case chosen of None \<Rightarrow> f_eligible s | Some f \<Rightarrow> f_eligible s @ [f])\<rparr>"
    by (auto simp: filter_latest_def first_of_def res_simps split: list.splits)
  have "hd sets \<noteq> []" using ok entry sets by (auto simp: filtering_ok_def)
  then obtain f where f: "chosen = Some f" "f \<in> set (hd sets)" using findLatestProvider_mem [OF chosen] by blast
  then have "f \<in> set (concat sets)" using sets by (cases sets) auto
  then have fp: "f \<in> set ps" "dget (c_pkg_fn c) f = Some pn" using ok entry by (auto simp: filtering_ok_def)
  have nov: "dget (f_versions s) pn \<noteq> Some (Some g)" for g using None by (auto simp: dgetd_def)
  then have "f \<notin> set (f_eligible s)" using ok fp(2) by (auto simp: filtering_ok_def)
  then show ?thesis using ok f(1) fp nov unfolding s' by (auto simp: filtering_ok_def)
next
  case (Some f)
  then have "s' = s" "dget (f_versions s) pn = Some (Some f)"
    using step by (auto simp: filter_latest_def dgetd_def split: option.splits)
  then show ?thesis using ok by simp
qed

lemma filter_latest_all:
  "rfold (filter_latest c) entries s = Inr s' \<Longrightarrow> filtering_ok c ps s \<Longrightarrow>
    \<forall>(pn, sets) \<in> set entries. dget (f_sorted s) pn = Some sets \<Longrightarrow>
    filtering_ok c ps s' \<and> (\<forall>pn \<in> fst ` set entries. \<exists>f. dget (f_versions s') pn = Some (Some f)) \<and>
    (\<forall>q f. dget (f_versions s) q = Some (Some f) \<longrightarrow> dget (f_versions s') q = Some (Some f))"
proof (induction entries arbitrary: s)
  case Nil
  then show ?case by simp
next
  case (Cons e entries)
  obtain pn sets where e: "e = (pn, sets)" by (cases e)
  from Cons.prems(1) obtain s1 where s1: "filter_latest c (pn, sets) s = Inr s1" "rfold (filter_latest c) entries s1 = Inr s'"
    by (auto simp: res_simps e)
  have st: "filtering_ok c ps s1 \<and> f_sorted s1 = f_sorted s \<and> (\<exists>f. dget (f_versions s1) pn = Some (Some f)) \<and>
    (\<forall>q f. dget (f_versions s) q = Some (Some f) \<longrightarrow> dget (f_versions s1) q = Some (Some f))"
    using filter_latest_ok [OF Cons.prems(2) _ s1(1)] Cons.prems(3) e by simp
  have "\<forall>(pn, sets) \<in> set entries. dget (f_sorted s1) pn = Some sets" using Cons.prems(3) st by auto
  from Cons.IH [OF s1(2) _ this] st show ?case by (simp add: e) blast
qed

lemma to_front_props:
  "x \<in> set xs \<Longrightarrow> set (to_front x xs) = set xs \<and> hd (to_front x xs) = x \<and> (distinct xs \<longrightarrow> distinct (to_front x xs))"
  using set_remove1_subset [of x xs] in_set_remove1 by (fastforce simp: to_front_def)

lemma prefer_same_name_all:
  assumes ok: "filtering_ok c qs s"
  shows "rfold (prefer_same_name c item (f_versions s)) ps el = Inr el' \<Longrightarrow> set el = set (f_eligible s) \<Longrightarrow> distinct el \<Longrightarrow>
    set el' = set (f_eligible s) \<and> distinct el' \<and>
    ((\<exists>p \<in> set ps. dget (c_pkg_fn c) p = Some item) \<and> dget (f_versions s) item = Some (Some fn) \<longrightarrow> hd el' = fn) \<and>
    (hd el = fn \<and> dget (f_versions s) item = Some (Some fn) \<longrightarrow> hd el' = fn)"
proof (induction ps arbitrary: el)
  case Nil
  then show ?case by auto
next
  case (Cons p ps)
  then obtain el1 where el1: "prefer_same_name c item (f_versions s) p el = Inr el1"
    "rfold (prefer_same_name c item (f_versions s)) ps el1 = Inr el'"
    by (auto simp: res_simps)
  from el1(1) obtain pn where pn: "dget (c_pkg_fn c) p = Some pn"
    by (auto simp: prefer_same_name_def res_simps)
  have "set el1 = set (f_eligible s) \<and> distinct el1 \<and>
    (pn = item \<and> dget (f_versions s) item = Some (Some fn) \<longrightarrow> hd el1 = fn) \<and>
    (hd el = fn \<and> dget (f_versions s) item = Some (Some fn) \<longrightarrow> hd el1 = fn)"
  proof (cases "pn = item")
    case False
    then show ?thesis using el1(1) pn Cons.prems by (simp add: prefer_same_name_def dlookup_def)
  next
    case True
    then obtain chosen where chosen: "dget (f_versions s) item = Some chosen"
      using el1(1) pn by (auto simp: prefer_same_name_def dlookup_def res_simps split: option.splits)
    show ?thesis
    proof (cases chosen)
      case None
      then show ?thesis using el1(1) pn True chosen Cons.prems by (simp add: prefer_same_name_def dlookup_def)
    next
      case (Some f)
      then have "f \<in> set el" using ok chosen Cons.prems(2) by (simp add: filtering_ok_def)
      then have "el1 = to_front f el"
        using el1(1) pn True chosen Some by (simp add: prefer_same_name_def dlookup_def)
      then show ?thesis using to_front_props [OF \<open>f \<in> set el\<close>] Cons.prems(2,3) Some chosen by auto
    qed
  qed
  then show ?case using Cons.IH [OF el1(2)] pn by auto
qed

lemma filterProviders0_spec:
  assumes "filterProviders0 ps item cfg c = Inr (Some el)"
  shows "set el \<subseteq> set ps" "distinct (map (\<lambda>p. dget (c_pkg_fn c) p) el)"
    "(\<lambda>p. dget (c_pkg_fn c) p) ` set el = (\<lambda>p. dget (c_pkg_fn c) p) ` set ps"
    "Some item \<in> (\<lambda>p. dget (c_pkg_fn c) p) ` set ps \<Longrightarrow> dget (c_pkg_fn c) (hd el) = Some item"
proof -
  let ?qs = "py_sorted ps"
  let ?s0 = "\<lparr>f_eligible = [], f_versions = [], f_sorted = []\<rparr>"
  from assms obtain d s1 s where d: "collate_pn c ?qs = Inr d"
    and s1: "rfold (filter_preferred cfg c d) (dkeys d) ?s0 = Inr s1"
    and s: "rfold (filter_latest c) (f_sorted s1) s1 = Inr s"
    and el: "rfold (prefer_same_name c item (f_versions s)) ?qs (f_eligible s) = Inr el"
    by (auto simp: filterProviders0_def Let_def res_simps split: if_splits)
  note col = collate_pn_spec [OF d]
  have dd: "distinct (dkeys d)" using col(3) by (simp add: dwf_def)
  have "filtering_ok c ?qs ?s0" by (simp add: filtering_ok_def dwf_def)
  then have ok1: "filtering_ok c ?qs s1" "set (dkeys (f_sorted s1)) = set (dkeys d)"
    using filter_preferred_all [OF d s1 dd] by auto
  have "\<forall>(pn, sets) \<in> set (f_sorted s1). dget (f_sorted s1) pn = Some sets"
    using ok1(1) dwf_dget [of "f_sorted s1"] by (auto simp: filtering_ok_def)
  note lat = filter_latest_all [OF s ok1(1) this]
  then have ok: "filtering_ok c ?qs s" by blast
  have "fst ` set (f_sorted s1) = set (dkeys d)" using ok1(2) by (simp add: dkeys_def)
  then have all: "\<forall>pn \<in> set (dkeys d). \<exists>f. dget (f_versions s) pn = Some (Some f)" using lat by metis
  have keys: "pn \<in> set (dkeys d) \<longleftrightarrow> (\<exists>p \<in> set ps. dget (c_pkg_fn c) p = Some pn)" for pn
    using col(2) [of pn] dget_None_iff [of d pn] by (auto split: if_splits)
  note final = prefer_same_name_all [OF ok el refl]
  have dist: "distinct (f_eligible s)" using ok by (simp add: filtering_ok_def)
  have set_el: "set el = set (f_eligible s)" and del: "distinct el" using final dist by auto
  show "set el \<subseteq> set ps" using ok set_el by (auto simp: filtering_ok_def)
  have key: "f \<in> set el \<longleftrightarrow> dget (c_pkg_fn c) f \<noteq> None \<and> dget (f_versions s) (the (dget (c_pkg_fn c) f)) = Some (Some f)" for f
    using ok unfolding set_el filtering_ok_def by (metis option.sel)
  have "inj_on (\<lambda>p. dget (c_pkg_fn c) p) (set el)"
  proof (rule inj_onI)
    fix f g assume "f \<in> set el" "g \<in> set el" "dget (c_pkg_fn c) f = dget (c_pkg_fn c) g"
    then show "f = g" using key [of f] key [of g] by simp
  qed
  then show "distinct (map (\<lambda>p. dget (c_pkg_fn c) p) el)" using del by (simp add: distinct_map)
  show "(\<lambda>p. dget (c_pkg_fn c) p) ` set el = (\<lambda>p. dget (c_pkg_fn c) p) ` set ps"
  proof
    show "(\<lambda>p. dget (c_pkg_fn c) p) ` set el \<subseteq> (\<lambda>p. dget (c_pkg_fn c) p) ` set ps"
      using \<open>set el \<subseteq> set ps\<close> by blast
    show "(\<lambda>p. dget (c_pkg_fn c) p) ` set ps \<subseteq> (\<lambda>p. dget (c_pkg_fn c) p) ` set el"
    proof (rule image_subsetI)
      fix p assume p: "p \<in> set ps"
      then obtain pn where pn: "dget (c_pkg_fn c) p = Some pn" using col(1) by auto
      then obtain f where f: "dget (f_versions s) pn = Some (Some f)" using all keys p by blast
      then have "dget (c_pkg_fn c) f = Some pn" "f \<in> set el"
        using ok by (auto simp: filtering_ok_def set_el)
      then show "dget (c_pkg_fn c) p \<in> (\<lambda>p. dget (c_pkg_fn c) p) ` set el" using pn by force
    qed
  qed
  show "dget (c_pkg_fn c) (hd el) = Some item" if it: "Some item \<in> (\<lambda>p. dget (c_pkg_fn c) p) ` set ps"
  proof -
    from it have "item \<in> set (dkeys d)" using keys [of item] by auto
    then obtain f where f: "dget (f_versions s) item = Some (Some f)" using all by blast
    then have "hd el = f" using final [of f] dist it by auto
    then show ?thesis using ok f by (simp add: filtering_ok_def)
  qed
qed

lemma select_pn_spec:
  "select_pn c want ps el = Inr (el', found) \<Longrightarrow> set ps \<subseteq> set el \<Longrightarrow>
    mset el' = mset el \<and> (found \<longleftrightarrow> (\<exists>p \<in> set ps. dget (c_pkg_fn c) p = Some want)) \<and>
    (found \<longrightarrow> dget (c_pkg_fn c) (hd el') = Some want)"
proof (induction ps)
  case Nil
  then show ?case by simp
next
  case (Cons p ps)
  from Cons.prems(1) obtain pn where "dget (c_pkg_fn c) p = Some pn" by (auto simp: res_simps)
  then show ?case using Cons by (auto simp: dlookup_def to_front_def split: if_splits)
qed

section \<open>Properties\<close>

text \<open>
  \<open>sortPriorities\<close> returns the files of the package name, each once as often as it is listed,
  in non-empty groups of equal layer priority; the groups have strictly decreasing priority and each
  group is ordered by the default preference.
\<close>

theorem sortPriorities_order:
  assumes "sortPriorities pn c pkg_pn = Inr sets"
  shows "(\<exists>files. dget (if pkg_pn = [] then c_pkg_pn c else pkg_pn) pn = Some files \<and> mset (concat sets) = mset files) \<and>
    sorted_wrt (\<lambda>s t. \<forall>f \<in> set s. \<forall>g \<in> set t. dgetd (c_bbfile_priority c) g 0 < dgetd (c_bbfile_priority c) f 0) sets \<and>
    (\<forall>s \<in> set sets. s \<noteq> [] \<and> (\<exists>p. \<forall>f \<in> set s. dgetd (c_bbfile_priority c) f 0 = p) \<and>
       sorted (map (\<lambda>f. dgetd (c_pkg_dp c) f 0) s))"
  using sortPriorities_spec [OF assms] by blast

definition example_tables :: cachedata where
  "example_tables = init_cacheData\<lparr>
     c_pkg_fn := [(''a1'', ''a''), (''a2'', ''a''), (''a3'', ''a''), (''b'', ''b'')],
     c_pkg_pn := [(''a'', [''a1'', ''a2'', ''a3'']), (''b'', [''b''])],
     c_pkg_pepvpr := [(''a1'', [], ''1'', ''r0''), (''a2'', [], ''2'', ''r0''), (''a3'', [], ''3'', ''r0''), (''b'', [], ''1'', ''r0'')],
     c_pkg_dp := [(''a1'', 0), (''a2'', 0), (''a3'', -1), (''b'', 0)],
     c_bbfile_priority := [(''a1'', 5), (''a2'', 5), (''a3'', 5), (''b'', 6)]\<rparr>"

theorem sortPriorities_order_witness:
  "sortPriorities ''a'' example_tables [] = Inr [[''a3'', ''a1'', ''a2'']] \<and> sorted [-1, 0, 0 :: int]"
proof -
  have r: "sortPriorities ''a'' example_tables [] = Inr [[''a3'', ''a1'', ''a2'']]" by code_simp
  show ?thesis using r sortPriorities_order [OF r] by (simp add: example_tables_def dgetd_def)
qed

text \<open>
  \<open>findLatestProvider\<close> returns one of the files, with its version; no file has a higher default
  preference, and among those of the same preference none has a newer version.
\<close>

theorem findLatestProvider_newest:
  assumes "findLatestProvider c files = Inr (v, file)" "files \<noteq> []"
  shows "\<exists>f. file = Some f \<and> f \<in> set files \<and> v = dget (c_pkg_pepvpr c) f \<and>
    (\<forall>g \<in> set files. dgetd (c_pkg_dp c) g 0 \<le> dgetd (c_pkg_dp c) f 0 \<and>
       (dgetd (c_pkg_dp c) g 0 = dgetd (c_pkg_dp c) f 0 \<and> g \<noteq> f \<longrightarrow>
          not_newer vercmp (ver_of (the (dget (c_pkg_pepvpr c) g))) (ver_of (the (dget (c_pkg_pepvpr c) f)))))"
proof -
  obtain f where f: "file = Some f" "f \<in> set files" using findLatestProvider_mem [OF assms] by blast
  then show ?thesis using findLatestProvider_spec [OF assms(1)] by (auto simp: newest_so_far_def)
qed

theorem findLatestProvider_newest_witness:
  "findLatestProvider example_tables [''a3'', ''a1'', ''a2''] = Inr (Some ([], ''2'', ''r0''), Some ''a2'') \<and>
    not_newer vercmp (EStr [], ''1'', ''r0'') (EStr [], ''2'', ''r0'')"
proof -
  have r: "findLatestProvider example_tables [''a3'', ''a1'', ''a2''] = Inr (Some ([], ''2'', ''r0''), Some ''a2'')"
    by code_simp
  show ?thesis using r findLatestProvider_newest [OF r] by (simp add: example_tables_def dgetd_def ver_of_def)
qed



section \<open>The targets of a world build\<close>

lemma sole_provider_spec:
  "\<forall>f \<in> set pfs. dget (c_pkg_fn c) f \<noteq> None \<Longrightarrow>
    sole_provider c pn pfs = Inr (\<forall>f \<in> set pfs. dget (c_pkg_fn c) f = Some pn)"
  by (induction pfs) (auto simp: dlookup_def)

definition own_name :: "cachedata \<Rightarrow> string \<Rightarrow> string \<Rightarrow> bool" where
  "own_name c pn p \<longleftrightarrow> \<not> startswith p ''virtual/'' \<and> (\<forall>f \<in> lists_of (c_providers c) p. dget (c_pkg_fn c) f = Some pn)"

lemma terminal_provides_spec:
  assumes "\<And>p. \<forall>f \<in> lists_of (c_providers c) p. dget (c_pkg_fn c) f \<noteq> None"
  shows "terminal_provides c pn ps t = Inr (t \<and> (\<forall>p \<in> set ps. own_name c pn p))"
  by (induction ps arbitrary: t) (auto simp: sole_provider_spec [OF assms] own_name_def)

text \<open>
  On consistent tables \<open>bitbake world\<close> selects exactly the recipes of possible world files that
  have the requested task, provide no \<open>virtual/\<close> name, and are the only recipe to provide each of
  the names they provide.
\<close>

theorem buildWorldTargetList_exact:
  assumes "cache_ok c" "set (c_possible_world c) \<subseteq> set (dkeys (c_pkg_fn c))" "c_world_target c = []"
  shows "\<exists>c'. buildWorldTargetList task c = Inr c' \<and>
    (\<forall>pn. pn \<in> set (c_world_target c') \<longleftrightarrow>
       (\<exists>f \<in> set (c_possible_world c). dget (c_pkg_fn c) f = Some pn \<and>
          (\<forall>t. task = Some t \<and> t \<noteq> [] \<longrightarrow> t \<in> set (td_tasks (the (dget (c_task_deps c) f)))) \<and>
          (\<forall>g p. dget (c_pkg_fn c) g = Some pn \<and> p \<in> lists_of (c_fn_provides c) g \<longrightarrow>
             \<not> startswith p ''virtual/'' \<and>
             (\<forall>h. p \<in> lists_of (c_fn_provides c) h \<longrightarrow> dget (c_pkg_fn c) h = Some pn))))"
proof -
  let ?task_ok = "\<lambda>f. \<forall>t. task = Some t \<and> t \<noteq> [] \<longrightarrow> t \<in> set (td_tasks (the (dget (c_task_deps c) f)))"
  have prov: "\<forall>f \<in> lists_of (c_providers c) p. dget (c_pkg_fn c) f \<noteq> None" for p
  proof
    fix f assume "f \<in> lists_of (c_providers c) p"
    then have "p \<in> lists_of (c_fn_provides c) f" using assms(1) by (simp add: cache_ok_def)
    then have "dget (c_fn_provides c) f \<noteq> None" by (cases "dget (c_fn_provides c) f") (simp_all add: dgetd_def)
    then have "f \<in> set (dkeys (c_fn_provides c))" by (simp add: dget_None_iff)
    then have "f \<in> set (dkeys (c_pkg_fn c))" using assms(1) by (simp add: cache_ok_def)
    then show "dget (c_pkg_fn c) f \<noteq> None" by (simp add: dget_None_iff)
  qed
  have own: "(\<forall>p \<in> lists_of (c_pn_provides c) pn. own_name c pn p) \<longleftrightarrow>
      (\<forall>g p. dget (c_pkg_fn c) g = Some pn \<and> p \<in> lists_of (c_fn_provides c) g \<longrightarrow>
         \<not> startswith p ''virtual/'' \<and> (\<forall>h. p \<in> lists_of (c_fn_provides c) h \<longrightarrow> dget (c_pkg_fn c) h = Some pn))" for pn
    using assms(1) unfolding cache_ok_def own_name_def by blast
  let ?c = "\<lambda>w. c\<lparr>c_world_target := w\<rparr>"
  have step: "world_step task f (?c w) = Inr (?c (if ?task_ok f \<and> (\<forall>p \<in> lists_of (c_pn_provides c) pn. own_name c pn p)
      then sadd pn w else w))" if f: "dget (c_pkg_fn c) f = Some pn" for f w pn
  proof -
    have "f \<in> set (dkeys (c_task_deps c))" using assms(1) dget_SomeD [OF f] by (simp add: cache_ok_def)
    then obtain td where td: "dget (c_task_deps c) f = Some td" by (rule dget_keyE)
    have tp: "terminal_provides (?c w) pn ps t = Inr (t \<and> (\<forall>p \<in> set ps. own_name c pn p))" for ps t
      using terminal_provides_spec [of "?c w" pn ps t] prov by (simp add: own_name_def)
    have sel: "(case or_else task None of None \<Rightarrow> Inr True
        | Some t \<Rightarrow> rbind (dlookup (c_task_deps (?c w)) f) (\<lambda>td. Inr (t \<in> set (td_tasks td)))) = Inr (?task_ok f)"
      using td by (cases task) (simp_all add: or_else_def dlookup_def)
    have pkg: "dlookup (c_pkg_fn (?c w)) f = Inr pn" using f by simp
    have pp: "c_pn_provides (?c w) = c_pn_provides c" by simp
    show ?thesis unfolding world_step_def pkg rbind_simps sel tp pp by auto
  qed
  have "\<exists>w'. rfold (world_step task) fs (?c w) = Inr (?c w') \<and>
      (\<forall>pn. pn \<in> set w' \<longleftrightarrow> pn \<in> set w \<or> (\<exists>f \<in> set fs. dget (c_pkg_fn c) f = Some pn \<and> ?task_ok f \<and>
         (\<forall>p \<in> lists_of (c_pn_provides c) pn. own_name c pn p)))"
    if "set fs \<subseteq> set (dkeys (c_pkg_fn c))" for fs w
    using that
  proof (induction fs arbitrary: w)
    case Nil
    then show ?case by (intro exI [of _ w]) simp
  next
    case (Cons f fs)
    then obtain pn where pn: "dget (c_pkg_fn c) f = Some pn" by (auto elim: dget_keyE)
    let ?w = "if ?task_ok f \<and> (\<forall>p \<in> lists_of (c_pn_provides c) pn. own_name c pn p) then sadd pn w else w"
    obtain w' where w': "rfold (world_step task) fs (?c ?w) = Inr (?c w')"
      "\<forall>pn. pn \<in> set w' \<longleftrightarrow> pn \<in> set ?w \<or> (\<exists>f \<in> set fs. dget (c_pkg_fn c) f = Some pn \<and> ?task_ok f \<and>
         (\<forall>p \<in> lists_of (c_pn_provides c) pn. own_name c pn p))"
      using Cons.IH [of ?w] Cons.prems by auto
    have "rfold (world_step task) (f # fs) (?c w) = Inr (?c w')" using step [OF pn] w'(1) by simp
    moreover have "pn' \<in> set ?w \<longleftrightarrow> pn' \<in> set w \<or> pn' = pn \<and> ?task_ok f \<and>
        (\<forall>p \<in> lists_of (c_pn_provides c) pn. own_name c pn p)" for pn'
      by auto
    ultimately show ?case using w'(2) pn by (intro exI [of _ w']) auto
  qed
  from this [OF assms(2), of "[]"] obtain w' where
    "rfold (world_step task) (c_possible_world c) (?c []) = Inr (?c w')"
    "\<forall>pn. pn \<in> set w' \<longleftrightarrow> (\<exists>f \<in> set (c_possible_world c). dget (c_pkg_fn c) f = Some pn \<and> ?task_ok f \<and>
         (\<forall>p \<in> lists_of (c_pn_provides c) pn. own_name c pn p))"
    by auto
  moreover have "?c [] = c" using assms(3) by simp
  ultimately show ?thesis
    using assms(3) unfolding own by (intro exI [of _ "?c w'"]) (simp add: buildWorldTargetList_def)
qed

definition example_world :: cachedata where
  "example_world =
     (let i = recipe_full 7 example_metadata [''do_build''] 0
      in (add_recipe_provides i ''zlib'' ''zlib.bb'' (add_recipe_tables i ''zlib'' ''zlib.bb'' init_cacheData))
           \<lparr>c_possible_world := [''zlib.bb'']\<rparr>)"

lemma example_world_ok: "cache_ok example_world"
proof -
  have "cache_ok init_cacheData" by (simp add: cache_ok_def init_cacheData_def dgetd_def)
  from cache_ok_add [OF this] have
    "cache_ok (add_recipe_provides (recipe_full 7 example_metadata [''do_build''] 0) ''zlib'' ''zlib.bb''
      (add_recipe_tables (recipe_full 7 example_metadata [''do_build''] 0) ''zlib'' ''zlib.bb'' init_cacheData))"
    by (simp add: init_cacheData_def)
  then show ?thesis
    unfolding example_world_def Let_def by (rule cache_ok_core [THEN iffD1, rotated]) (simp add: core_tables_def)
qed

theorem buildWorldTargetList_exact_witness:
  "(\<exists>c'. buildWorldTargetList None example_world = Inr c' \<and> ''zlib'' \<in> set (c_world_target c'))"
proof -
  have run: "buildWorldTargetList None example_world = Inr (example_world\<lparr>c_world_target := [''zlib'']\<rparr>)"
    by code_simp
  have tables: "set (c_possible_world example_world) \<subseteq> set (dkeys (c_pkg_fn example_world))"
    "c_world_target example_world = []"
    by (simp_all add: example_world_def Let_def add_recipe_provides_eq add_recipe_tables_def init_cacheData_def)
  from buildWorldTargetList_exact [OF example_world_ok tables, of None] run show ?thesis by auto
qed

text \<open>
  A revision in \<open>PREFERRED_VERSION\<close> is never split off: the pattern leaves it in the version, so
  the recipe version 1.2 with revision r3 does not satisfy the preference 1.2_r3.
\<close>

theorem preferred_revision_ignored:
  "snd (snd (split_preferred s)) = None \<and>
   (let (e, v, r) = split_preferred ''1.2_r3''
    in (e, v, r) = (None, ''1.2_r3'', None) \<and> \<not> preferredVersionMatch [] ''1.2'' ''r3'' e v r)"
proof
  have "pref_revision (dropWhile (\<lambda>c. c \<noteq> CHR 0x0A) r) = None" for r
  proof (cases "dropWhile (\<lambda>c. c \<noteq> CHR 0x0A) r")
    case Nil
    then show ?thesis unfolding Nil by (simp add: pref_revision_def)
  next
    case (Cons c cs)
    then have "c = CHR 0x0A" using hd_dropWhile [of "\<lambda>c. c \<noteq> CHR 0x0A" r] by simp
    then show ?thesis by (simp add: pref_revision_def Cons)
  qed
  then show "snd (snd (split_preferred s)) = None" by (simp add: split_preferred_def case_prod_beta Let_def)
  have "split_preferred ''1.2_r3'' = (None, ''1.2_r3'', None)" by code_simp
  then show "(let (e, v, r) = split_preferred ''1.2_r3''
    in (e, v, r) = (None, ''1.2_r3'', None) \<and> \<not> preferredVersionMatch [] ''1.2'' ''r3'' e v r)"
    by (simp add: preferredVersionMatch_def endswith_def)
qed

text \<open>A dynamic package pattern with a plus sign ends the search with an exception.\<close>

lemma dynamic_plus_raises:
  "getRuntimeProviders (\<lambda>p s. Some True)
     (init_cacheData\<lparr>c_packages_dynamic := [(''locale-c++-.*'', [''glibc.bb''])]\<rparr>) ''locale-c++-de'' = Inl RuntimeError"
  by code_simp

end
