(* ===== verification/TaskData.thy ===== *)
theory TaskData
  imports Prelude TaskIds RecipeCache Providers
begin

text \<open>
  \<open>bitbake/lib/bb/taskdata.py\<close>: the targets asked for, the recipe files that provide them, the tasks
  of these files with their unresolved dependencies, and the propagation of failures when a target
  has no provider left.

  Operations are commands on the pair of the task data and the cache tables: an exception leaves the
  changes made so far.  \<open>re_match\<close> is \<open>re.match\<close>; \<open>extra\<close> runs the \<open>calculate_extra_depends\<close> code
  of a recipe.  Events and log messages are left out, and with them the \<open>missing_list\<close> arguments and
  the lists of reasons, which only build messages.
\<close>

section \<open>State\<close>

record taskentry =
  te_tdepends :: "string list"
  te_idepends :: "(string \<times> string) list"
  te_irdepends :: "(string \<times> string) list"

definition new_taskentry :: taskentry where
  "new_taskentry = \<lparr>te_tdepends = [], te_idepends = [], te_irdepends = []\<rparr>"

record skipitem =
  sk_pn :: string
  sk_skipreason :: string
  sk_provides :: "string list"
  sk_rprovides :: "string list"

record taskdata =
  td_build_targets :: "(string, string list) dict"
  td_run_targets :: "(string, string list) dict"
  td_external_targets :: "string list"
  td_seenfns :: "string list"
  td_taskentries :: "(string, taskentry) dict"
  td_depids :: "(string, string list) dict"
  td_rdepids :: "(string, string list) dict"
  td_consider_msgs_cache :: "string list"
  td_failed_deps :: "string list"
  td_failed_rdeps :: "string list"
  td_failed_fns :: "string list"
  td_abort :: bool
  td_tryaltconfigs :: bool
  td_allowincomplete :: bool
  td_skiplist :: "(string, skipitem) dict option"

definition new_taskdata :: "bool \<Rightarrow> bool \<Rightarrow> (string, skipitem) dict option \<Rightarrow> bool \<Rightarrow> taskdata" where
  "new_taskdata abort tryaltconfigs skiplist allowincomplete =
     \<lparr>td_build_targets = [], td_run_targets = [], td_external_targets = [], td_seenfns = [], td_taskentries = [],
      td_depids = [], td_rdepids = [], td_consider_msgs_cache = [], td_failed_deps = [], td_failed_rdeps = [],
      td_failed_fns = [], td_abort = abort, td_tryaltconfigs = tryaltconfigs,
      td_allowincomplete = allowincomplete, td_skiplist = skiplist\<rparr>"

definition re_match_strings :: "(string \<Rightarrow> string \<Rightarrow> bool option) \<Rightarrow> string \<Rightarrow> string list \<Rightarrow> bool res" where
  "re_match_strings re_match target strings =
     rany (\<lambda>name. if name = target then Inr True
                   else (case re_match name target of None \<Rightarrow> Inl ValueError | Some b \<Rightarrow> Inr b)) strings"

section \<open>Targets\<close>

definition have_build_target :: "taskdata \<Rightarrow> string \<Rightarrow> bool" where
  "have_build_target td target = (dgetd (td_build_targets td) target [] \<noteq> [])"

definition have_runtime_target :: "taskdata \<Rightarrow> string \<Rightarrow> bool" where
  "have_runtime_target td target = (dgetd (td_run_targets td) target [] \<noteq> [])"

text \<open>\<open>seen_*_target\<close> and \<open>add_*_target\<close> work on either table.\<close>

definition seen_target :: "string \<Rightarrow> (string, string list) dict \<Rightarrow> (string, string list) dict" where
  "seen_target name targets = (if name \<in> set (dkeys targets) then targets else dset name [] targets)"

definition seen_build_target :: "string \<Rightarrow> taskdata \<Rightarrow> taskdata" where
  "seen_build_target name td = td\<lparr>td_build_targets := seen_target name (td_build_targets td)\<rparr>"

definition seen_run_target :: "string \<Rightarrow> taskdata \<Rightarrow> taskdata" where
  "seen_run_target name td = td\<lparr>td_run_targets := seen_target name (td_run_targets td)\<rparr>"

definition add_build_target :: "string \<Rightarrow> string \<Rightarrow> taskdata \<Rightarrow> taskdata" where
  "add_build_target fn item td = td\<lparr>td_build_targets := dappend_new item fn (td_build_targets td)\<rparr>"

definition add_runtime_target :: "string \<Rightarrow> string \<Rightarrow> taskdata \<Rightarrow> taskdata" where
  "add_runtime_target fn item td = td\<lparr>td_run_targets := dappend_new item fn (td_run_targets td)\<rparr>"

definition mark_external_target :: "string \<Rightarrow> taskdata \<Rightarrow> taskdata" where
  "mark_external_target target td = td\<lparr>td_external_targets := sadd target (td_external_targets td)\<rparr>"

fun unresolved_of ::
  "(string \<Rightarrow> string \<Rightarrow> bool option) \<Rightarrow> string list \<Rightarrow> string list \<Rightarrow> (string, string list) dict \<Rightarrow> string list res" where
  "unresolved_of re_match ignored failed [] = Inr []"
| "unresolved_of re_match ignored failed ((target, fns) # rest) =
     rbind (re_match_strings re_match target ignored) (\<lambda>ig.
     rbind (unresolved_of re_match ignored failed rest) (\<lambda>unresolved.
       Inr (if ig \<or> target \<in> set failed \<or> fns \<noteq> [] then unresolved else target # unresolved)))"

definition get_unresolved_build_targets ::
  "(string \<Rightarrow> string \<Rightarrow> bool option) \<Rightarrow> cachedata \<Rightarrow> taskdata \<Rightarrow> string list res" where
  "get_unresolved_build_targets re_match c td =
     unresolved_of re_match (c_ignored_dependencies c) (td_failed_deps td) (td_build_targets td)"

definition get_unresolved_run_targets ::
  "(string \<Rightarrow> string \<Rightarrow> bool option) \<Rightarrow> cachedata \<Rightarrow> taskdata \<Rightarrow> string list res" where
  "get_unresolved_run_targets re_match c td =
     unresolved_of re_match (c_ignored_dependencies c) (td_failed_rdeps td) (td_run_targets td)"

definition get_provider :: "taskdata \<Rightarrow> string \<Rightarrow> string list res" where
  "get_provider td item = dlookup (td_build_targets td) item"

definition get_dependees :: "taskdata \<Rightarrow> string \<Rightarrow> string list" where
  "get_dependees td item = map fst (filter (\<lambda>(fn, ids). item \<in> set ids) (td_depids td))"

definition get_rdependees :: "taskdata \<Rightarrow> string \<Rightarrow> string list" where
  "get_rdependees td item = map fst (filter (\<lambda>(fn, ids). item \<in> set ids) (td_rdepids td))"

definition skip_reason :: "string \<Rightarrow> bool \<Rightarrow> skipitem \<Rightarrow> string list" where
  "skip_reason item runtime s =
     (if sk_pn s = item then [sk_pn s @ '' was skipped: '' @ sk_skipreason s]
      else if runtime \<and> item \<in> set (sk_rprovides s) then
        [sk_pn s @ '' RPROVIDES '' @ item @ '' but was skipped: '' @ sk_skipreason s]
      else if \<not> runtime \<and> item \<in> set (sk_provides s) then
        [sk_pn s @ '' PROVIDES '' @ item @ '' but was skipped: '' @ sk_skipreason s]
      else [])"

definition get_reasons :: "taskdata \<Rightarrow> string \<Rightarrow> bool \<Rightarrow> string list" where
  "get_reasons td item runtime =
     (case td_skiplist td of None \<Rightarrow> [] | Some sl \<Rightarrow> concat (map (\<lambda>(fn, s). skip_reason item runtime s) sl))"

definition get_providermap :: "string \<Rightarrow> taskdata \<Rightarrow> (string, string) dict" where
  "get_providermap prefix td =
     fold (\<lambda>(name, fns) provmap.
        if prefix \<noteq> [] \<and> \<not> startswith name prefix then provmap
        else (case fns of [] \<Rightarrow> provmap | fn # _ \<Rightarrow> dset name fn provmap)) (td_build_targets td) []"

section \<open>Failure of files and targets\<close>

text \<open>
  \<open>fail_fn\<close>, \<open>remove_buildtarget\<close> and \<open>remove_runtarget\<close> call each other.  The first argument bounds the
  depth of the calls; \<open>fail_fuel\<close> below is enough, since every \<open>fail_fn\<close> that does anything adds to
  \<open>failed_fns\<close>.
\<close>

text \<open>The files of the tasks with an inter-task dependency on \<open>target\<close>, in the order the loop calls \<open>fail_fn\<close>.\<close>

definition intertask_fns :: "(taskentry \<Rightarrow> (string \<times> string) list) \<Rightarrow> string \<Rightarrow> taskdata \<Rightarrow> string list" where
  "intertask_fns ids target td =
     concat (map (\<lambda>(tid, e). map (\<lambda>_. fn_from_tid tid) (filter (\<lambda>(d, _). d = target) (ids e))) (td_taskentries td))"

fun fail_fn :: "nat \<Rightarrow> string \<Rightarrow> taskdata \<Rightarrow> taskdata cmd"
  and remove_buildtarget :: "nat \<Rightarrow> string \<Rightarrow> taskdata \<Rightarrow> taskdata cmd"
  and remove_runtarget :: "nat \<Rightarrow> string \<Rightarrow> taskdata \<Rightarrow> taskdata cmd" where
  "fail_fn 0 fn td = (td, Some OutOfFuel)"
| "fail_fn (Suc n) fn td =
     (if fn \<in> set (td_failed_fns td) then (td, None)
      else cseq (cfold (\<lambda>target td.
               let fns = dgetd (td_build_targets td) target []
               in if fn \<in> set fns
                  then let td = td\<lparr>td_build_targets := dset target (remove1 fn fns) (td_build_targets td)\<rparr>
                       in if remove1 fn fns = [] then remove_buildtarget n target td else (td, None)
                  else (td, None))
             (dkeys (td_build_targets td)) (td\<lparr>td_failed_fns := td_failed_fns td @ [fn]\<rparr>)) (\<lambda>td.
           cfold (\<lambda>target td.
               let fns = dgetd (td_run_targets td) target []
               in if fn \<in> set fns
                  then let td = td\<lparr>td_run_targets := dset target (remove1 fn fns) (td_run_targets td)\<rparr>
                       in if remove1 fn fns = [] then remove_runtarget n target td else (td, None)
                  else (td, None))
             (dkeys (td_run_targets td)) td))"
| "remove_buildtarget 0 target td = (td, Some OutOfFuel)"
| "remove_buildtarget (Suc n) target td =
     cseq (cfold (fail_fn n) (get_dependees td target)
             (td\<lparr>td_failed_deps := td_failed_deps td @ [target]\<rparr>)) (\<lambda>td.
     cseq (cfold (fail_fn n) (intertask_fns te_idepends target td) td) (\<lambda>td.
       if td_abort td \<and> target \<in> set (td_external_targets td) then (td, Some (NoProvider target)) else (td, None)))"
| "remove_runtarget 0 target td = (td, Some OutOfFuel)"
| "remove_runtarget (Suc n) target td =
     cseq (cfold (fail_fn n) (get_rdependees td target)
             (td\<lparr>td_failed_rdeps := td_failed_rdeps td @ [target]\<rparr>)) (\<lambda>td.
       cfold (fail_fn n) (intertask_fns te_irdepends target td) td)"

text \<open>The files that can fail, and the fuel for them.\<close>

definition known_fns :: "taskdata \<Rightarrow> string list" where
  "known_fns td = dkeys (td_depids td) @ dkeys (td_rdepids td) @ map fn_from_tid (dkeys (td_taskentries td))"

definition fail_fuel :: "taskdata \<Rightarrow> nat" where
  "fail_fuel td = 2 * length (known_fns td) + 4"

section \<open>Adding tasks and providers\<close>

type_synonym tstate = "taskdata \<times> cachedata"

definition on_td :: "(taskdata \<Rightarrow> taskdata) \<Rightarrow> tstate \<Rightarrow> tstate" where
  "on_td f s = (f (fst s), snd s)"

definition lift_td :: "(taskdata \<Rightarrow> taskdata cmd) \<Rightarrow> tstate \<Rightarrow> tstate cmd" where
  "lift_td f s = (case f (fst s) of (td, e) \<Rightarrow> ((td, snd s), e))"

text \<open>A lookup or another call that may raise, inside a command.\<close>

definition cget :: "'a res \<Rightarrow> 's \<Rightarrow> ('a \<Rightarrow> 's cmd) \<Rightarrow> 's cmd" where
  "cget m s k = (case m of Inl e \<Rightarrow> (s, Some e) | Inr x \<Rightarrow> k x)"

lemma cget_simps [simp]:
  "cget (Inl e) s k = (s, Some e)"
  "cget (Inr x) s k = k x"
  by (simp_all add: cget_def)

text \<open>One entry \<open>target:task\<close> of a \<open>depends\<close> or \<open>rdepends\<close> flag, with the target it makes known.\<close>

definition intertask_dep :: "string \<Rightarrow> (string \<times> string) res" where
  "intertask_dep dep =
     (if colon \<notin> set dep then Inl Fatal else Inr (split_on colon dep ! 0, split_on colon dep ! 1))"

definition task_flag :: "taskdeps \<Rightarrow> string \<Rightarrow> string \<Rightarrow> string option" where
  "task_flag td flag task = (case dget (td_flags td) flag of None \<Rightarrow> None | Some m \<Rightarrow> dget m task)"

fun intertask_loop :: "(string \<Rightarrow> taskdata \<Rightarrow> taskdata) \<Rightarrow> string list \<Rightarrow> (string \<times> string) list \<Rightarrow> taskdata \<Rightarrow>
    taskdata \<times> (string \<times> string) list res" where
  "intertask_loop seen [] ids td = (td, Inr ids)"
| "intertask_loop seen (dep # deps) ids td =
     (case intertask_dep dep of
        Inl e \<Rightarrow> (td, Inl e)
      | Inr d \<Rightarrow> intertask_loop seen deps (ids @ [d]) (seen (fst d) td))"

definition set_entry :: "string \<Rightarrow> (taskentry \<Rightarrow> taskentry) \<Rightarrow> taskdata \<Rightarrow> taskdata" where
  "set_entry tid f td = td\<lparr>td_taskentries := dset tid (f (dgetd (td_taskentries td) tid new_taskentry)) (td_taskentries td)\<rparr>"

definition add_intertask ::
  "taskdeps \<Rightarrow> string \<Rightarrow> string \<Rightarrow> (string \<Rightarrow> taskdata \<Rightarrow> taskdata) \<Rightarrow> ((string \<times> string) list \<Rightarrow> taskentry \<Rightarrow> taskentry) \<Rightarrow>
   string \<Rightarrow> taskdata \<Rightarrow> taskdata cmd" where
  "add_intertask task_deps flag task seen upd tid td =
     (case task_flag task_deps flag task of
        None \<Rightarrow> (td, None)
      | Some deps \<Rightarrow> (case intertask_loop seen (split_ws deps) [] td of
          (td, Inl e) \<Rightarrow> (td, Some e)
        | (td, Inr ids) \<Rightarrow> (set_entry tid (upd ids) td, None)))"

definition add_task :: "string \<Rightarrow> taskdeps \<Rightarrow> string \<Rightarrow> taskdata \<Rightarrow> taskdata cmd" where
  "add_task fn task_deps task td =
     (let tid = fn @ [colon] @ task;
          td = td\<lparr>td_taskentries := dset tid new_taskentry (td_taskentries td)\<rparr>
      in cget (dlookup (td_parents task_deps) task) td (\<lambda>parents.
           let parentids = map (\<lambda>dep. fn @ [colon] @ dep) (filter (\<lambda>dep. dep \<in> set (td_tasks task_deps)) parents);
               td = set_entry tid (\<lambda>e. e\<lparr>te_tdepends := te_tdepends e @ parentids\<rparr>) td
           in cseq (add_intertask task_deps ''depends'' task seen_build_target
                      (\<lambda>ids e. e\<lparr>te_idepends := te_idepends e @ ids\<rparr>) tid td)
                   (add_intertask task_deps ''rdepends'' task seen_run_target
                      (\<lambda>ids e. e\<lparr>te_irdepends := te_irdepends e @ ids\<rparr>) tid)))"

text \<open>\<open>list(set(xs))\<close>, in the order of the first occurrences.\<close>

definition dedup :: "string list \<Rightarrow> string list" where
  "dedup xs = sunion [] xs"

definition add_depids :: "string \<Rightarrow> cachedata \<Rightarrow> taskdata \<Rightarrow> taskdata" where
  "add_depids fn c td =
     (if fn \<in> set (dkeys (td_depids td)) then td
      else td\<lparr>td_depids := dset fn (dedup (dgetd (c_deps c) fn [])) (td_depids td)\<rparr>)"

definition add_rdepids :: "string \<Rightarrow> cachedata \<Rightarrow> taskdata \<Rightarrow> taskdata" where
  "add_rdepids fn c td =
     (if fn \<in> set (dkeys (td_rdepids td)) then td
      else let rdepends = concat (map snd (dgetd (c_rundeps c) fn []));
               rrecs = concat (map snd (dgetd (c_runrecs c) fn []))
           in td\<lparr>td_rdepids := dset fn (dedup (rdepends @ rrecs)) (td_rdepids td)\<rparr>)"

text \<open>The two last loops: the first failed dependency fails the file and ends \<open>add_tasks\<close>.\<close>

fun touch_deps :: "(string \<Rightarrow> taskdata \<Rightarrow> taskdata) \<Rightarrow> (taskdata \<Rightarrow> string list) \<Rightarrow> string \<Rightarrow> string list \<Rightarrow>
    taskdata \<Rightarrow> taskdata cmd \<times> bool" where
  "touch_deps seen failed fn [] td = ((td, None), False)"
| "touch_deps seen failed fn (dep # deps) td =
     (let td = seen dep td
      in if dep \<in> set (failed td) then (fail_fn (fail_fuel td) fn td, True)
         else touch_deps seen failed fn deps td)"

definition touch_all :: "string \<Rightarrow> taskdata \<Rightarrow> taskdata cmd" where
  "touch_all fn td =
     (case touch_deps seen_build_target td_failed_deps fn (dgetd (td_depids td) fn []) td of
        (r, True) \<Rightarrow> r
      | (r, False) \<Rightarrow> cseq r (\<lambda>td. fst (touch_deps seen_run_target td_failed_rdeps fn (dgetd (td_rdepids td) fn []) td)))"

definition add_extra_deps ::
  "(string \<Rightarrow> string \<Rightarrow> cachedata \<Rightarrow> cachedata res) \<Rightarrow> string \<Rightarrow> tstate \<Rightarrow> tstate cmd" where
  "add_extra_deps extra fn s =
     (let func = dgetd (c_extradepsfunc (snd s)) fn []
      in if func = [] then (s, None)
         else cget (buildWorldTargetList None (snd s)) s (\<lambda>c.
              cget (dlookup (c_pkg_fn c) fn) (fst s, c) (\<lambda>pn.
              cget (extra func fn c) (fst s, c) (\<lambda>c. ((fst s, c), None)))))"

definition add_tasks ::
  "(string \<Rightarrow> string \<Rightarrow> cachedata \<Rightarrow> cachedata res) \<Rightarrow> string \<Rightarrow> tstate \<Rightarrow> tstate cmd" where
  "add_tasks extra fn s =
     cget (dlookup (c_task_deps (snd s)) fn) s (\<lambda>task_deps.
       if fn \<in> set (td_failed_fns (fst s)) then (s, Some Fatal)
       else if fn \<in> set (td_seenfns (fst s)) then (s, None)
       else cseq (add_extra_deps extra fn (on_td (\<lambda>td. td\<lparr>td_seenfns := td_seenfns td @ [fn]\<rparr>) s)) (\<lambda>s.
            cseq (lift_td (cfold (add_task fn task_deps) (td_tasks task_deps)) s) (\<lambda>s.
              lift_td (\<lambda>td. touch_all fn (add_rdepids fn (snd s) (add_depids fn (snd s) td))) s)))"

definition add_provided ::
  "(string \<Rightarrow> string \<Rightarrow> cachedata \<Rightarrow> cachedata res) \<Rightarrow> (string \<Rightarrow> string \<Rightarrow> taskdata \<Rightarrow> taskdata) \<Rightarrow> string \<Rightarrow>
   string \<Rightarrow> tstate \<Rightarrow> tstate cmd" where
  "add_provided extra add_target item fn s =
     (if fn \<in> set (td_failed_fns (fst s)) then (s, None)
      else add_tasks extra fn (on_td (add_target fn item) s))"

definition consider_msg :: "string \<Rightarrow> taskdata \<Rightarrow> taskdata" where
  "consider_msg item td = td\<lparr>td_consider_msgs_cache := td_consider_msgs_cache td @ [item]\<rparr>"

definition add_provider_internal ::
  "(string \<Rightarrow> string \<Rightarrow> bool option) \<Rightarrow> (string \<Rightarrow> string \<Rightarrow> cachedata \<Rightarrow> cachedata res) \<Rightarrow> config \<Rightarrow> string \<Rightarrow>
   tstate \<Rightarrow> tstate cmd" where
  "add_provider_internal re_match extra cfg item s =
     cget (re_match_strings re_match item (c_ignored_dependencies (snd s))) s (\<lambda>ignored.
       if ignored then (s, None)
       else (case dget (c_providers (snd s)) item of
         None \<Rightarrow>
           cget (getRuntimeProviders re_match (snd s) item) s (\<lambda>all_p.
           cget (rmap (dlookup (c_pkg_fn (snd s))) all_p) s (\<lambda>_.
             (s, Some (NoProvider item))))
       | Some all_p \<Rightarrow>
           if have_build_target (fst s) item then (s, None)
           else let s = (fst s, (snd s)\<lparr>c_providers := dset item (py_sorted all_p) (c_providers (snd s))\<rparr>)
             in cget (filterProviders all_p item cfg (snd s)) s (\<lambda>(eligible, foundUnique, c).
                  let s = (fst s, c)
                  in (case eligible of
                        None \<Rightarrow> (s, Some TypeError)
                      | Some el \<Rightarrow>
                          let el = filter (\<lambda>p. p \<notin> set (td_failed_fns (fst s))) el
                          in if el = [] then (s, Some (NoProvider item))
                             else let s = (if length el > 1 \<and> \<not> foundUnique then on_td (consider_msg item) s else s)
                                  in cfold (add_provided extra add_build_target item) el s))))"

definition add_provider ::
  "(string \<Rightarrow> string \<Rightarrow> bool option) \<Rightarrow> (string \<Rightarrow> string \<Rightarrow> cachedata \<Rightarrow> cachedata res) \<Rightarrow> config \<Rightarrow> string \<Rightarrow>
   tstate \<Rightarrow> tstate cmd" where
  "add_provider re_match extra cfg item s =
     cseq (case add_provider_internal re_match extra cfg item s of
             (s, Some (NoProvider i)) \<Rightarrow>
               if td_abort (fst s) then (s, Some (NoProvider i))
               else lift_td (\<lambda>td. remove_buildtarget (fail_fuel td) item td) s
           | r \<Rightarrow> r) (\<lambda>s. (on_td (mark_external_target item) s, None))"

definition add_rprovider ::
  "(string \<Rightarrow> string \<Rightarrow> bool option) \<Rightarrow> (string \<Rightarrow> string \<Rightarrow> cachedata \<Rightarrow> cachedata res) \<Rightarrow> config \<Rightarrow> string \<Rightarrow>
   tstate \<Rightarrow> tstate cmd" where
  "add_rprovider re_match extra cfg item s =
     cget (re_match_strings re_match item (c_ignored_dependencies (snd s))) s (\<lambda>ignored.
       if ignored \<or> have_runtime_target (fst s) item then (s, None)
       else cget (getRuntimeProviders re_match (snd s) item) s (\<lambda>all_p.
         if all_p = [] then (s, Some (NoRProvider item))
         else cget (filterProvidersRunTime all_p item cfg (snd s)) s (\<lambda>(eligible, numberPreferred).
           let el = filter (\<lambda>p. p \<notin> set (td_failed_fns (fst s))) eligible
           in if el = [] then (s, Some (NoRProvider item))
              else let s = (if length el > 1 \<and> numberPreferred = 0 then on_td (consider_msg item) s else s)
                   in if numberPreferred > 1 then (on_td (consider_msg item) s, Some (MultipleRProvider item))
                      else cfold (add_provided extra add_runtime_target item) el s)))"

section \<open>add_unresolved\<close>

definition resolve_build ::
  "(string \<Rightarrow> string \<Rightarrow> bool option) \<Rightarrow> (string \<Rightarrow> string \<Rightarrow> cachedata \<Rightarrow> cachedata res) \<Rightarrow> config \<Rightarrow> string \<Rightarrow>
   tstate \<times> nat \<Rightarrow> (tstate \<times> nat) cmd" where
  "resolve_build re_match extra cfg target sn =
     (case add_provider_internal re_match extra cfg target (fst sn) of
        (s, None) \<Rightarrow> ((s, snd sn + 1), None)
      | (s, Some (NoProvider i)) \<Rightarrow>
          if td_abort (fst s) \<and> target \<in> set (td_external_targets (fst s)) \<and> \<not> td_allowincomplete (fst s)
          then ((s, snd sn), Some (NoProvider i))
          else if td_allowincomplete (fst s) then ((s, snd sn), None)
          else (case lift_td (\<lambda>td. remove_buildtarget (fail_fuel td) target td) s of (s, e) \<Rightarrow> ((s, snd sn), e))
      | (s, Some e) \<Rightarrow> ((s, snd sn), Some e))"

definition resolve_run ::
  "(string \<Rightarrow> string \<Rightarrow> bool option) \<Rightarrow> (string \<Rightarrow> string \<Rightarrow> cachedata \<Rightarrow> cachedata res) \<Rightarrow> config \<Rightarrow> string \<Rightarrow>
   tstate \<times> nat \<Rightarrow> (tstate \<times> nat) cmd" where
  "resolve_run re_match extra cfg target sn =
     (case add_rprovider re_match extra cfg target (fst sn) of
        (s, None) \<Rightarrow> ((s, snd sn + 1), None)
      | (s, Some e) \<Rightarrow>
          (case e of
             NoRProvider _ \<Rightarrow>
               (case lift_td (\<lambda>td. remove_runtarget (fail_fuel td) target td) s of (s, e) \<Rightarrow> ((s, snd sn), e))
           | MultipleRProvider _ \<Rightarrow>
               (case lift_td (\<lambda>td. remove_runtarget (fail_fuel td) target td) s of (s, e) \<Rightarrow> ((s, snd sn), e))
           | _ \<Rightarrow> ((s, snd sn), Some e)))"

definition resolve_round ::
  "(string \<Rightarrow> string \<Rightarrow> bool option) \<Rightarrow> (string \<Rightarrow> string \<Rightarrow> cachedata \<Rightarrow> cachedata res) \<Rightarrow> config \<Rightarrow>
   tstate \<Rightarrow> (tstate \<times> nat) cmd" where
  "resolve_round re_match extra cfg s =
     cget (get_unresolved_build_targets re_match (snd s) (fst s)) (s, 0) (\<lambda>build.
     cseq (cfold (resolve_build re_match extra cfg) build (s, 0)) (\<lambda>(s, n).
     cget (get_unresolved_run_targets re_match (snd s) (fst s)) (s, n) (\<lambda>run.
       cfold (resolve_run re_match extra cfg) run (s, n))))"

text \<open>The outer loop runs until a round resolves nothing; \<open>fuel\<close> bounds the rounds.\<close>

fun add_unresolved ::
  "(string \<Rightarrow> string \<Rightarrow> bool option) \<Rightarrow> (string \<Rightarrow> string \<Rightarrow> cachedata \<Rightarrow> cachedata res) \<Rightarrow> config \<Rightarrow> nat \<Rightarrow>
   tstate \<Rightarrow> tstate cmd" where
  "add_unresolved re_match extra cfg 0 s = (s, Some OutOfFuel)"
| "add_unresolved re_match extra cfg (Suc fuel) s =
     (case resolve_round re_match extra cfg s of
        ((s, added), Some e) \<Rightarrow> (s, Some e)
      | ((s, added), None) \<Rightarrow> if added = 0 then (s, None) else add_unresolved re_match extra cfg fuel s)"

section \<open>What a failure changes\<close>

abbreviation built_by :: "taskdata \<Rightarrow> string \<Rightarrow> string set" where
  "built_by td t \<equiv> lists_of (td_build_targets td) t"

abbreviation run_by :: "taskdata \<Rightarrow> string \<Rightarrow> string set" where
  "run_by td t \<equiv> lists_of (td_run_targets td) t"

definition fail_frame :: "taskdata \<Rightarrow> _" where
  "fail_frame td = (set (dkeys (td_build_targets td)), set (dkeys (td_run_targets td)), td_external_targets td,
     td_seenfns td, td_taskentries td, td_depids td, td_rdepids td, td_abort td, td_allowincomplete td)"

definition shrinks :: "taskdata \<Rightarrow> taskdata \<Rightarrow> bool" where
  "shrinks td td' \<longleftrightarrow> fail_frame td' = fail_frame td \<and>
     set (td_failed_fns td) \<subseteq> set (td_failed_fns td') \<and>
     set (td_failed_deps td) \<subseteq> set (td_failed_deps td') \<and>
     set (td_failed_rdeps td) \<subseteq> set (td_failed_rdeps td') \<and>
     (\<forall>t. built_by td' t \<subseteq> built_by td t \<and> run_by td' t \<subseteq> run_by td t)"

lemma shrinks_refl [simp]: "shrinks td td"
  by (simp add: shrinks_def)

lemma shrinks_trans [trans]: "shrinks a b \<Longrightarrow> shrinks b c \<Longrightarrow> shrinks a c"
  unfolding shrinks_def by (elim conjE, intro conjI) (simp, blast+)

lemma shrinks_upd [simp]:
  "shrinks td (td\<lparr>td_failed_fns := td_failed_fns td @ xs\<rparr>)"
  "shrinks td (td\<lparr>td_failed_deps := td_failed_deps td @ xs\<rparr>)"
  "shrinks td (td\<lparr>td_failed_rdeps := td_failed_rdeps td @ xs\<rparr>)"
  by (auto simp: shrinks_def fail_frame_def)

lemma dgetd_member_key: "x \<in> lists_of d k \<Longrightarrow> k \<in> set (dkeys d)"
  by (metis dget_None_iff dgetd_def empty_iff empty_set option.simps(4))

lemma shrinks_remove [simp]:
  "fn \<in> built_by td t \<Longrightarrow> shrinks td (td\<lparr>td_build_targets := dset t (remove1 fn (dgetd (td_build_targets td) t [])) (td_build_targets td)\<rparr>)"
  "fn \<in> run_by td t \<Longrightarrow> shrinks td (td\<lparr>td_run_targets := dset t (remove1 fn (dgetd (td_run_targets td) t [])) (td_run_targets td)\<rparr>)"
  using set_remove1_subset
  by (fastforce simp: shrinks_def fail_frame_def dest: dgetd_member_key)+

text \<open>The bodies of the two loops of \<open>fail_fn\<close>.\<close>

definition drop_build :: "nat \<Rightarrow> string \<Rightarrow> string \<Rightarrow> taskdata \<Rightarrow> taskdata cmd" where
  "drop_build n fn target td =
     (let fns = dgetd (td_build_targets td) target []
      in if fn \<in> set fns
         then let td = td\<lparr>td_build_targets := dset target (remove1 fn fns) (td_build_targets td)\<rparr>
              in if remove1 fn fns = [] then remove_buildtarget n target td else (td, None)
         else (td, None))"

definition drop_run :: "nat \<Rightarrow> string \<Rightarrow> string \<Rightarrow> taskdata \<Rightarrow> taskdata cmd" where
  "drop_run n fn target td =
     (let fns = dgetd (td_run_targets td) target []
      in if fn \<in> set fns
         then let td = td\<lparr>td_run_targets := dset target (remove1 fn fns) (td_run_targets td)\<rparr>
              in if remove1 fn fns = [] then remove_runtarget n target td else (td, None)
         else (td, None))"

lemma drop_build_cases:
  obtains (absent) "fn \<notin> built_by u t" "drop_build n fn t u = (u, None)"
  | (kept) u' where "u' = u\<lparr>td_build_targets := dset t (remove1 fn (dgetd (td_build_targets u) t [])) (td_build_targets u)\<rparr>"
      "fn \<in> built_by u t" "shrinks u u'" "built_by u' t \<noteq> {}" "drop_build n fn t u = (u', None)"
  | (emptied) u' where "u' = u\<lparr>td_build_targets := dset t (remove1 fn (dgetd (td_build_targets u) t [])) (td_build_targets u)\<rparr>"
      "fn \<in> built_by u t" "shrinks u u'" "built_by u' t = {}" "drop_build n fn t u = remove_buildtarget n t u'"
proof (cases "fn \<in> built_by u t")
  case False
  then show ?thesis by (intro absent) (simp_all add: drop_build_def)
next
  case True
  let ?u = "u\<lparr>td_build_targets := dset t (remove1 fn (dgetd (td_build_targets u) t [])) (td_build_targets u)\<rparr>"
  show ?thesis
  proof (cases "remove1 fn (dgetd (td_build_targets u) t []) = []")
    case empty: True
    show ?thesis
      by (rule emptied [OF refl True shrinks_remove(1) [OF True]]) (use True empty in \<open>simp_all add: drop_build_def\<close>)
  next
    case False
    show ?thesis
      by (rule kept [OF refl True shrinks_remove(1) [OF True]]) (use True False in \<open>simp_all add: drop_build_def Let_def\<close>)
  qed
qed

lemma drop_run_cases:
  obtains (absent) "fn \<notin> run_by u t" "drop_run n fn t u = (u, None)"
  | (kept) u' where "u' = u\<lparr>td_run_targets := dset t (remove1 fn (dgetd (td_run_targets u) t [])) (td_run_targets u)\<rparr>"
      "fn \<in> run_by u t" "shrinks u u'" "run_by u' t \<noteq> {}" "drop_run n fn t u = (u', None)"
  | (emptied) u' where "u' = u\<lparr>td_run_targets := dset t (remove1 fn (dgetd (td_run_targets u) t [])) (td_run_targets u)\<rparr>"
      "fn \<in> run_by u t" "shrinks u u'" "run_by u' t = {}" "drop_run n fn t u = remove_runtarget n t u'"
proof (cases "fn \<in> run_by u t")
  case False
  then show ?thesis by (intro absent) (simp_all add: drop_run_def)
next
  case True
  let ?u = "u\<lparr>td_run_targets := dset t (remove1 fn (dgetd (td_run_targets u) t [])) (td_run_targets u)\<rparr>"
  show ?thesis
  proof (cases "remove1 fn (dgetd (td_run_targets u) t []) = []")
    case empty: True
    show ?thesis
      by (rule emptied [OF refl True shrinks_remove(2) [OF True]]) (use True empty in \<open>simp_all add: drop_run_def\<close>)
  next
    case False
    show ?thesis
      by (rule kept [OF refl True shrinks_remove(2) [OF True]]) (use True False in \<open>simp_all add: drop_run_def Let_def\<close>)
  qed
qed

lemma fail_fn_Suc:
  "fail_fn (Suc n) fn td =
     (if fn \<in> set (td_failed_fns td) then (td, None)
      else cseq (cfold (drop_build n fn) (dkeys (td_build_targets td)) (td\<lparr>td_failed_fns := td_failed_fns td @ [fn]\<rparr>))
             (\<lambda>td. cfold (drop_run n fn) (dkeys (td_run_targets td)) td))"
  by (simp add: drop_build_def [abs_def] drop_run_def [abs_def])

declare fail_fn.simps(2) [simp del]

lemma cfold_shrinks:
  "(\<And>x u. shrinks u (fst (f x u))) \<Longrightarrow> shrinks td (fst (cfold f xs td))"
  using cfold_inv [of "shrinks td" td xs f] shrinks_trans by auto

lemma cseq_shrinks:
  "shrinks td (fst m) \<Longrightarrow> (\<And>s. shrinks s (fst (f s))) \<Longrightarrow> shrinks td (fst (cseq m f))"
  by (rule cseq_inv) (auto intro: shrinks_trans)

lemma fail_shrinks:
  "shrinks td (fst (fail_fn n fn td)) \<and> shrinks td (fst (remove_buildtarget n t td)) \<and> shrinks td (fst (remove_runtarget n t td))"
proof (induction n arbitrary: td fn t)
  case 0
  show ?case by simp
next
  case (Suc n)
  have b: "shrinks td (fst (drop_build n fn t td))" and r: "shrinks td (fst (drop_run n fn t td))" for fn t td
    using Suc.IH shrinks_remove shrinks_trans by (fastforce simp: drop_build_def drop_run_def Let_def)+
  have "shrinks td (fst (fail_fn (Suc n) fn td))"
  proof -
    have "shrinks td (fst (cfold (drop_build n fn) (dkeys (td_build_targets td)) (td\<lparr>td_failed_fns := td_failed_fns td @ [fn]\<rparr>)))"
      by (rule shrinks_trans [OF _ cfold_shrinks]) (simp_all add: b)
    then show ?thesis unfolding fail_fn_Suc
      by (auto intro!: cseq_shrinks cfold_shrinks simp: r)
  qed
  moreover have "shrinks td (fst (remove_buildtarget (Suc n) t td))"
  proof -
    have "shrinks td (fst (cfold (fail_fn n) (get_dependees td t) (td\<lparr>td_failed_deps := td_failed_deps td @ [t]\<rparr>)))"
      by (rule shrinks_trans [OF _ cfold_shrinks]) (simp_all add: Suc.IH)
    then show ?thesis by (auto intro!: cseq_shrinks cfold_shrinks simp: Suc.IH)
  qed
  moreover have "shrinks td (fst (remove_runtarget (Suc n) t td))"
  proof -
    have "shrinks td (fst (cfold (fail_fn n) (get_rdependees td t) (td\<lparr>td_failed_rdeps := td_failed_rdeps td @ [t]\<rparr>)))"
      by (rule shrinks_trans [OF _ cfold_shrinks]) (simp_all add: Suc.IH)
    then show ?thesis by (auto intro!: cseq_shrinks cfold_shrinks simp: Suc.IH)
  qed
  ultimately show ?case by blast
qed

section \<open>The fuel is enough\<close>

definition alive :: "taskdata \<Rightarrow> nat" where
  "alive td = card (set (known_fns td) - set (td_failed_fns td))"

lemma shrinks_known: "shrinks td td' \<Longrightarrow> known_fns td' = known_fns td"
  by (simp add: shrinks_def fail_frame_def known_fns_def)

lemma shrinks_alive: "shrinks td td' \<Longrightarrow> alive td' \<le> alive td"
  unfolding alive_def by (rule card_mono) (auto simp: shrinks_known shrinks_def)

lemma alive_fail:
  assumes "fn \<in> set (known_fns td)" "fn \<notin> set (td_failed_fns td)"
  shows "Suc (alive (td\<lparr>td_failed_fns := td_failed_fns td @ [fn]\<rparr>)) = alive td"
proof -
  have "set (known_fns td) - insert fn (set (td_failed_fns td)) = (set (known_fns td) - set (td_failed_fns td)) - {fn}"
    by auto
  then show ?thesis
    using assms card_Suc_Diff1 [of "set (known_fns td) - set (td_failed_fns td)" fn]
    by (simp add: alive_def known_fns_def)
qed

lemma fail_fuel_ok:
  "(2 * alive td + 3 \<le> n \<longrightarrow> snd (fail_fn n fn td) \<noteq> Some OutOfFuel) \<and>
   (fn \<in> set (known_fns td) \<longrightarrow> 2 * alive td + 1 \<le> n \<longrightarrow> snd (fail_fn n fn td) \<noteq> Some OutOfFuel) \<and>
   (2 * alive td + 2 \<le> n \<longrightarrow> snd (remove_buildtarget n t td) \<noteq> Some OutOfFuel) \<and>
   (2 * alive td + 2 \<le> n \<longrightarrow> snd (remove_runtarget n t td) \<noteq> Some OutOfFuel)"
proof (induction n arbitrary: td fn t)
  case 0
  show ?case by simp
next
  case (Suc n)
  have loops: "snd (fail_fn (Suc n) fn td) \<noteq> Some OutOfFuel"
    if enough: "2 * alive (td\<lparr>td_failed_fns := td_failed_fns td @ [fn]\<rparr>) + 2 \<le> n \<or> fn \<in> set (td_failed_fns td)" for fn td
  proof (cases "fn \<in> set (td_failed_fns td)")
    case True
    then show ?thesis by (simp add: fail_fn_Suc)
  next
    case False
    let ?P = "\<lambda>u. 2 * alive u + 2 \<le> n"
    have rm: "?P v" if "?P u" "shrinks u v" for u v
      using that shrinks_alive [OF that(2)] by linarith
    have b: "?P (fst (drop_build n fn t u)) \<and> snd (drop_build n fn t u) \<noteq> Some OutOfFuel" if P: "?P u" for t u
    proof (cases rule: drop_build_cases [where u = u and t = t and n = n and fn = fn])
      case (emptied u')
      have "shrinks u (fst (remove_buildtarget n t u'))" using emptied(3) fail_shrinks shrinks_trans by blast
      then show ?thesis using rm [OF P] rm [OF P emptied(3)] Suc.IH [of u' fn t] emptied(5) by simp
    qed (use P rm in auto)
    have r: "?P (fst (drop_run n fn t u)) \<and> snd (drop_run n fn t u) \<noteq> Some OutOfFuel" if P: "?P u" for t u
    proof (cases rule: drop_run_cases [where u = u and t = t and n = n and fn = fn])
      case (emptied u')
      have "shrinks u (fst (remove_runtarget n t u'))" using emptied(3) fail_shrinks shrinks_trans by blast
      then show ?thesis using rm [OF P] rm [OF P emptied(3)] Suc.IH [of u' fn t] emptied(5) by simp
    qed (use P rm in auto)
    let ?u = "td\<lparr>td_failed_fns := td_failed_fns td @ [fn]\<rparr>"
    have "?P ?u" using enough False by simp
    have fb: "?P (fst (cfold (drop_build n fn) xs ?u))" for xs
      by (rule cfold_inv [where P = ?P]) (use \<open>?P ?u\<close> b in auto)
    have sb: "snd (cfold (drop_build n fn) xs ?u) \<noteq> Some OutOfFuel" for xs
      by (rule cfold_no_exc [where P = ?P]) (use \<open>?P ?u\<close> b in auto)
    have sr: "snd (cfold (drop_run n fn) xs u) \<noteq> Some OutOfFuel" if "?P u" for xs u
      by (rule cfold_no_exc [where P = ?P]) (use that r in auto)
    show ?thesis
      using False fb [of "dkeys (td_build_targets td)"] sb [of "dkeys (td_build_targets td)"] sr
      by (simp add: fail_fn_Suc cseq_no_exc)
  qed
  have rem: "snd (cfold (fail_fn n) xs u) \<noteq> Some OutOfFuel"
    if "2 * alive u + 1 \<le> n" "set xs \<subseteq> set (known_fns u)" for xs u
  proof (rule cfold_no_exc [where P = "\<lambda>v. 2 * alive v + 1 \<le> n \<and> set xs \<subseteq> set (known_fns v)"])
    fix x v assume x: "x \<in> set xs" and v: "2 * alive v + 1 \<le> n \<and> set xs \<subseteq> set (known_fns v)"
    have sh: "shrinks v (fst (fail_fn n x v))" using fail_shrinks by blast
    show "(2 * alive (fst (fail_fn n x v)) + 1 \<le> n \<and> set xs \<subseteq> set (known_fns (fst (fail_fn n x v)))) \<and>
        snd (fail_fn n x v) \<noteq> Some OutOfFuel"
      using v x Suc.IH [of v x] shrinks_alive [OF sh] shrinks_known [OF sh] by auto
  qed (use that in simp)
  have dep: "set (get_dependees td t) \<subseteq> set (known_fns td)" "set (get_rdependees td t) \<subseteq> set (known_fns td)"
    for td t by (auto simp: get_dependees_def get_rdependees_def known_fns_def dkeys_def)
  have dep2: "set (intertask_fns ids t td) \<subseteq> set (known_fns td)" for td t ids
    by (force simp: intertask_fns_def known_fns_def dkeys_def)
  have keep: "2 * alive (fst (cfold (fail_fn n) xs u)) + 1 \<le> n" if "2 * alive u + 1 \<le> n" for xs u
  proof -
    have "shrinks u (fst (cfold (fail_fn n) xs u))" by (rule cfold_shrinks) (simp add: fail_shrinks)
    from shrinks_alive [OF this] that show ?thesis by linarith
  qed
  have upd: "alive (td\<lparr>td_failed_deps := x\<rparr>) = alive td" "alive (td\<lparr>td_failed_rdeps := x\<rparr>) = alive td"
    "known_fns (td\<lparr>td_failed_deps := x\<rparr>) = known_fns td" "known_fns (td\<lparr>td_failed_rdeps := x\<rparr>) = known_fns td" for x
    by (simp_all add: alive_def known_fns_def)
  have "2 * alive td + 2 \<le> Suc n \<longrightarrow> snd (remove_buildtarget (Suc n) t td) \<noteq> Some OutOfFuel"
  proof
    assume "2 * alive td + 2 \<le> Suc n"
    then have n: "2 * alive (td\<lparr>td_failed_deps := td_failed_deps td @ [t]\<rparr>) + 1 \<le> n" by (simp add: upd)
    let ?m = "cfold (fail_fn n) (get_dependees td t) (td\<lparr>td_failed_deps := td_failed_deps td @ [t]\<rparr>)"
    have m: "snd ?m \<noteq> Some OutOfFuel" "2 * alive (fst ?m) + 1 \<le> n"
      using rem [OF n] keep [OF n] dep by (simp_all add: upd)
    show "snd (remove_buildtarget (Suc n) t td) \<noteq> Some OutOfFuel"
      unfolding remove_buildtarget.simps
      by (intro cseq_no_exc m(1) rem [OF m(2) dep2]) simp
  qed
  moreover have "2 * alive td + 2 \<le> Suc n \<longrightarrow> snd (remove_runtarget (Suc n) t td) \<noteq> Some OutOfFuel"
  proof
    assume "2 * alive td + 2 \<le> Suc n"
    then have n: "2 * alive (td\<lparr>td_failed_rdeps := td_failed_rdeps td @ [t]\<rparr>) + 1 \<le> n" by (simp add: upd)
    let ?m = "cfold (fail_fn n) (get_rdependees td t) (td\<lparr>td_failed_rdeps := td_failed_rdeps td @ [t]\<rparr>)"
    have m: "snd ?m \<noteq> Some OutOfFuel" "2 * alive (fst ?m) + 1 \<le> n"
      using rem [OF n] keep [OF n] dep by (simp_all add: upd)
    show "snd (remove_runtarget (Suc n) t td) \<noteq> Some OutOfFuel"
      unfolding remove_runtarget.simps
      by (intro cseq_no_exc m(1) rem [OF m(2) dep2])
  qed
  moreover have "2 * alive td + 3 \<le> Suc n \<longrightarrow> snd (fail_fn (Suc n) fn td) \<noteq> Some OutOfFuel"
    using loops [of td fn] shrinks_alive [OF shrinks_upd(1) [of td "[fn]"]] by auto
  moreover have "fn \<in> set (known_fns td) \<longrightarrow> 2 * alive td + 1 \<le> Suc n \<longrightarrow> snd (fail_fn (Suc n) fn td) \<noteq> Some OutOfFuel"
    using loops [of td fn] alive_fail [of fn td] by (cases "fn \<in> set (td_failed_fns td)") auto
  ultimately show ?case by blast
qed

lemma alive_fuel: "2 * alive td + 4 \<le> fail_fuel td"
proof -
  have "alive td \<le> card (set (known_fns td))" unfolding alive_def by (rule card_mono) auto
  also have "\<dots> \<le> length (known_fns td)" by (rule card_length)
  finally show ?thesis by (simp add: fail_fuel_def)
qed

section \<open>No provider list keeps a failed file\<close>

text \<open>\<open>P\<close> is the set of the files whose failure is being propagated.\<close>

definition providers_ok :: "string set \<Rightarrow> taskdata \<Rightarrow> bool" where
  "providers_ok P td \<longleftrightarrow>
     (\<forall>t. distinct (dgetd (td_build_targets td) t []) \<and> distinct (dgetd (td_run_targets td) t []) \<and>
        (built_by td t \<union> run_by td t) \<inter> (set (td_failed_fns td) - P) = {})"

text \<open>A target that loses its last provider is recorded as failed.\<close>

definition losses_recorded :: "taskdata \<Rightarrow> taskdata \<Rightarrow> bool" where
  "losses_recorded td td' \<longleftrightarrow>
     (\<forall>t. (built_by td t \<noteq> {} \<longrightarrow> built_by td' t = {} \<longrightarrow> t \<in> set (td_failed_deps td')) \<and>
        (run_by td t \<noteq> {} \<longrightarrow> run_by td' t = {} \<longrightarrow> t \<in> set (td_failed_rdeps td')))"

definition good_step :: "taskdata \<Rightarrow> taskdata \<Rightarrow> bool" where
  "good_step td td' \<longleftrightarrow> shrinks td td' \<and> losses_recorded td td' \<and> (\<forall>P. providers_ok P td \<longrightarrow> providers_ok P td')"

lemma good_step_refl [simp]: "good_step td td"
  by (simp add: good_step_def losses_recorded_def)

lemma good_step_trans [trans]: "good_step a b \<Longrightarrow> good_step b c \<Longrightarrow> good_step a c"
  unfolding good_step_def losses_recorded_def
  using shrinks_trans [of a b c] by (auto simp: shrinks_def subset_iff)

lemma good_step_mark [simp]:
  "good_step td (td\<lparr>td_failed_deps := td_failed_deps td @ [t]\<rparr>)"
  "good_step td (td\<lparr>td_failed_rdeps := td_failed_rdeps td @ [t]\<rparr>)"
  by (auto simp: good_step_def losses_recorded_def providers_ok_def)

lemma cfold_good:
  "cfold f xs td = (td', None) \<Longrightarrow> (\<And>x u v. f x u = (v, None) \<Longrightarrow> good_step u v) \<Longrightarrow> good_step td td'"
  using cfold_None_inv [of f xs td td' "good_step td"] good_step_trans good_step_refl by blast

text \<open>While \<open>fn\<close> fails: one step of the loop over the build targets, then the loop.\<close>

definition drop_ok :: "string \<Rightarrow> taskdata \<Rightarrow> taskdata \<Rightarrow> bool" where
  "drop_ok fn td td' \<longleftrightarrow> shrinks td td' \<and> losses_recorded td td' \<and>
     (\<forall>P. fn \<in> P \<longrightarrow> providers_ok P td \<longrightarrow> providers_ok P td')"

lemma drop_ok_trans: "drop_ok fn a b \<Longrightarrow> drop_ok fn b c \<Longrightarrow> drop_ok fn a c"
  unfolding drop_ok_def losses_recorded_def
  using shrinks_trans [of a b c] by (auto simp: shrinks_def subset_iff)

lemma good_drop: "good_step a b \<Longrightarrow> drop_ok fn a b"
  by (simp add: good_step_def drop_ok_def)

lemma drop_build_ok:
  assumes step: "drop_build n fn t u = (v, None)"
    and IH: "\<And>u v. remove_buildtarget n t u = (v, None) \<Longrightarrow> good_step u v \<and> t \<in> set (td_failed_deps v)"
  shows "drop_ok fn u v \<and> (distinct (dgetd (td_build_targets u) t []) \<longrightarrow> fn \<notin> built_by v t)"
proof (cases rule: drop_build_cases [where u = u and t = t and n = n and fn = fn])
  case absent
  then show ?thesis using step good_drop [OF good_step_refl] by simp
next
  case (kept u')
  have "losses_recorded u u'" using kept(1,4) by (auto simp: losses_recorded_def)
  moreover have "fn \<in> P \<longrightarrow> providers_ok P u \<longrightarrow> providers_ok P u'" for P
    using kept(1) set_remove1_subset by (fastforce simp: providers_ok_def)
  ultimately show ?thesis using step kept by (auto simp: drop_ok_def)
next
  case (emptied u')
  then have v: "good_step u' v" "t \<in> set (td_failed_deps v)" using step IH by auto
  have "losses_recorded u v"
    unfolding losses_recorded_def
  proof (intro allI conjI impI)
    fix s assume s: "built_by u s \<noteq> {}" "built_by v s = {}"
    show "s \<in> set (td_failed_deps v)"
    proof (cases "s = t")
      case False
      then have "built_by u' s \<noteq> {}" using s(1) emptied(1) by simp
      then show ?thesis using v(1) s(2) unfolding good_step_def losses_recorded_def by blast
    qed (use v in simp)
  next
    fix s assume "run_by u s \<noteq> {}" "run_by v s = {}"
    then show "s \<in> set (td_failed_rdeps v)"
      using v(1) emptied(1) unfolding good_step_def losses_recorded_def by simp
  qed
  moreover have "fn \<in> P \<longrightarrow> providers_ok P u \<longrightarrow> providers_ok P v" for P
  proof -
    have "fn \<in> P \<longrightarrow> providers_ok P u \<longrightarrow> providers_ok P u'"
      using emptied(1) set_remove1_subset by (fastforce simp: providers_ok_def)
    then show ?thesis using v(1) by (simp add: good_step_def)
  qed
  moreover have "shrinks u v" using emptied(3) v(1) shrinks_trans by (auto simp: good_step_def)
  moreover have "built_by v t \<subseteq> built_by u' t" using v(1) by (simp add: good_step_def shrinks_def)
  then have "fn \<notin> built_by v t" using emptied(4) by auto
  ultimately show ?thesis by (simp add: drop_ok_def)
qed

lemma drop_run_ok:
  assumes step: "drop_run n fn t u = (v, None)"
    and IH: "\<And>u v. remove_runtarget n t u = (v, None) \<Longrightarrow> good_step u v \<and> t \<in> set (td_failed_rdeps v)"
  shows "drop_ok fn u v \<and> (distinct (dgetd (td_run_targets u) t []) \<longrightarrow> fn \<notin> run_by v t)"
proof (cases rule: drop_run_cases [where u = u and t = t and n = n and fn = fn])
  case absent
  then show ?thesis using step good_drop [OF good_step_refl] by simp
next
  case (kept u')
  have "losses_recorded u u'" using kept(1,4) by (auto simp: losses_recorded_def)
  moreover have "fn \<in> P \<longrightarrow> providers_ok P u \<longrightarrow> providers_ok P u'" for P
    using kept(1) set_remove1_subset by (fastforce simp: providers_ok_def)
  ultimately show ?thesis using step kept by (auto simp: drop_ok_def)
next
  case (emptied u')
  then have v: "good_step u' v" "t \<in> set (td_failed_rdeps v)" using step IH by auto
  have "losses_recorded u v"
    unfolding losses_recorded_def
  proof (intro allI conjI impI)
    fix s assume s: "run_by u s \<noteq> {}" "run_by v s = {}"
    show "s \<in> set (td_failed_rdeps v)"
    proof (cases "s = t")
      case False
      then have "run_by u' s \<noteq> {}" using s(1) emptied(1) by simp
      then show ?thesis using v(1) s(2) unfolding good_step_def losses_recorded_def by blast
    qed (use v in simp)
  next
    fix s assume "built_by u s \<noteq> {}" "built_by v s = {}"
    then show "s \<in> set (td_failed_deps v)"
      using v(1) emptied(1) unfolding good_step_def losses_recorded_def by simp
  qed
  moreover have "fn \<in> P \<longrightarrow> providers_ok P u \<longrightarrow> providers_ok P v" for P
  proof -
    have "fn \<in> P \<longrightarrow> providers_ok P u \<longrightarrow> providers_ok P u'"
      using emptied(1) set_remove1_subset by (fastforce simp: providers_ok_def)
    then show ?thesis using v(1) by (simp add: good_step_def)
  qed
  moreover have "shrinks u v" using emptied(3) v(1) shrinks_trans by (auto simp: good_step_def)
  moreover have "run_by v t \<subseteq> run_by u' t" using v(1) by (simp add: good_step_def shrinks_def)
  then have "fn \<notin> run_by v t" using emptied(4) by auto
  ultimately show ?thesis by (simp add: drop_ok_def)
qed

text \<open>A loop of such steps over all the keys of a table leaves \<open>fn\<close> in none of its lists.\<close>

lemma drop_loop:
  assumes "cfold f ts u = (v, None)"
    and step: "\<And>t u v. f t u = (v, None) \<Longrightarrow> drop_ok fn u v \<and> (distinct (g u t) \<longrightarrow> fn \<notin> set (g v t))"
    and shrink: "\<And>u v t. shrinks u v \<Longrightarrow> set (g v t) \<subseteq> set (g u t)"
    and dist: "\<And>u t. providers_ok P u \<Longrightarrow> distinct (g u t)" and fn: "fn \<in> P"
  shows "drop_ok fn u v \<and> (providers_ok P u \<longrightarrow> (\<forall>t \<in> set ts. fn \<notin> set (g v t)))"
  using assms(1)
proof (induction ts arbitrary: u)
  case Nil
  then show ?case using good_drop [OF good_step_refl] by simp
next
  case (Cons t ts)
  from Cons.prems(1) obtain w where w: "f t u = (w, None)" "cfold f ts w = (v, None)" by (auto elim: cseq_NoneE)
  have 1: "drop_ok fn u w" "distinct (g u t) \<longrightarrow> fn \<notin> set (g w t)" using step [OF w(1)] by auto
  from Cons.IH [OF w(2)] have 2: "drop_ok fn w v" "providers_ok P w \<longrightarrow> (\<forall>t \<in> set ts. fn \<notin> set (g v t))" by auto
  have "fn \<notin> set (g v t)" if "providers_ok P u"
    using 1(2) 2(1) shrink [of w v t] dist [OF that] by (auto simp: drop_ok_def)
  moreover have "providers_ok P w" if "providers_ok P u" using 1(1) fn that by (simp add: drop_ok_def)
  ultimately show ?case using 2(2) drop_ok_trans [OF 1(1) 2(1)] by simp
qed

lemma not_in_lists: "\<forall>t \<in> set (dkeys d). x \<notin> lists_of d t \<Longrightarrow> x \<notin> lists_of d t"
  using dgetd_member_key by metis

lemma fail_fn_good:
  assumes run: "fail_fn (Suc n) fn td = (td', None)" "fn \<notin> set (td_failed_fns td)"
    and IHb: "\<And>t u v. remove_buildtarget n t u = (v, None) \<Longrightarrow> good_step u v \<and> t \<in> set (td_failed_deps v)"
    and IHr: "\<And>t u v. remove_runtarget n t u = (v, None) \<Longrightarrow> good_step u v \<and> t \<in> set (td_failed_rdeps v)"
  shows "good_step td td'"
proof -
  let ?u = "td\<lparr>td_failed_fns := td_failed_fns td @ [fn]\<rparr>"
  obtain w where w: "cfold (drop_build n fn) (dkeys (td_build_targets td)) ?u = (w, None)"
    "cfold (drop_run n fn) (dkeys (td_run_targets w)) w = (td', None)"
    using run by (auto simp: fail_fn_Suc elim: cseq_NoneE)
  have lb: "drop_ok fn ?u w \<and> (providers_ok P ?u \<longrightarrow> (\<forall>t \<in> set (dkeys (td_build_targets td)). fn \<notin> built_by w t))"
    if "fn \<in> P" for P
  proof (rule drop_loop [where g = "\<lambda>u t. dgetd (td_build_targets u) t []" and P = P, OF w(1) _ _ _ that])
    show "drop_ok fn u v \<and> (distinct (dgetd (td_build_targets u) t []) \<longrightarrow> fn \<notin> built_by v t)"
      if "drop_build n fn t u = (v, None)" for t u v
      using drop_build_ok [OF that IHb] .
  qed (auto simp: shrinks_def providers_ok_def)
  have lr: "drop_ok fn w td' \<and> (providers_ok P w \<longrightarrow> (\<forall>t \<in> set (dkeys (td_run_targets w)). fn \<notin> run_by td' t))"
    if "fn \<in> P" for P
  proof (rule drop_loop [where g = "\<lambda>u t. dgetd (td_run_targets u) t []" and P = P, OF w(2) _ _ _ that])
    show "drop_ok fn u v \<and> (distinct (dgetd (td_run_targets u) t []) \<longrightarrow> fn \<notin> run_by v t)"
      if "drop_run n fn t u = (v, None)" for t u v
      using drop_run_ok [OF that IHr] .
  qed (auto simp: shrinks_def providers_ok_def)
  have d1: "drop_ok fn ?u w" using lb [of "{fn}"] by blast
  have d2: "drop_ok fn w td'" using lr [of "{fn}"] by blast
  have d: "drop_ok fn ?u td'" by (rule drop_ok_trans [OF d1 d2])
  have sh: "shrinks td td'" using d shrinks_trans [OF shrinks_upd(1)] by (auto simp: drop_ok_def)
  have los: "losses_recorded td td'" using d by (simp add: drop_ok_def losses_recorded_def)
  have "providers_ok P td'" if P: "providers_ok P td" for P
  proof -
    have 0: "providers_ok (insert fn P) ?u" using P by (auto simp: providers_ok_def)
    have 1: "providers_ok (insert fn P) w" using d1 0 by (simp add: drop_ok_def)
    have 2: "providers_ok (insert fn P) td'" using d 0 by (simp add: drop_ok_def)
    have keys: "set (dkeys (td_build_targets w)) = set (dkeys (td_build_targets td))"
      "set (dkeys (td_build_targets td')) = set (dkeys (td_build_targets td))"
      "set (dkeys (td_run_targets td')) = set (dkeys (td_run_targets w))"
      using d1 d2 by (auto simp: drop_ok_def shrinks_def fail_frame_def)
    have "\<forall>t \<in> set (dkeys (td_build_targets td)). fn \<notin> built_by w t" using lb [of "insert fn P"] 0 by simp
    then have "fn \<notin> built_by w t" for t using not_in_lists [of "td_build_targets w"] keys(1) by simp
    moreover have "built_by td' t \<subseteq> built_by w t" for t using d2 by (simp add: drop_ok_def shrinks_def)
    ultimately have b: "fn \<notin> built_by td' t" for t by (metis subsetD)
    have "\<forall>t \<in> set (dkeys (td_run_targets w)). fn \<notin> run_by td' t" using lr [of "insert fn P"] 1 by simp
    then have r: "fn \<notin> run_by td' t" for t using not_in_lists [of "td_run_targets td'"] keys(3) by simp
    show ?thesis using 2 b r by (auto simp: providers_ok_def)
  qed
  then show ?thesis using sh los by (simp add: good_step_def)
qed

lemma fail_good:
  "(\<forall>fn td td'. fail_fn n fn td = (td', None) \<longrightarrow> good_step td td') \<and>
   (\<forall>t td td'. remove_buildtarget n t td = (td', None) \<longrightarrow> good_step td td' \<and> t \<in> set (td_failed_deps td')) \<and>
   (\<forall>t td td'. remove_runtarget n t td = (td', None) \<longrightarrow> good_step td td' \<and> t \<in> set (td_failed_rdeps td'))"
proof (induction n)
  case 0
  show ?case by simp
next
  case (Suc n)
  have f: "good_step u v" if "cfold (fail_fn n) xs u = (v, None)" for xs u v
    using cfold_good [OF that] Suc.IH by blast
  have "good_step td td'" if "fail_fn (Suc n) fn td = (td', None)" for fn td td'
  proof (cases "fn \<in> set (td_failed_fns td)")
    case True
    then show ?thesis using that by (simp add: fail_fn_Suc)
  next
    case False
    show ?thesis by (rule fail_fn_good [OF that False]) (use Suc.IH in blast)+
  qed
  moreover have "good_step td td' \<and> t \<in> set (td_failed_deps td')" if r: "remove_buildtarget (Suc n) t td = (td', None)" for t td td'
  proof -
    let ?u = "td\<lparr>td_failed_deps := td_failed_deps td @ [t]\<rparr>"
    from r obtain v where v: "cfold (fail_fn n) (get_dependees td t) ?u = (v, None)"
      "cfold (fail_fn n) (intertask_fns te_idepends t v) v = (td', None)"
      by (auto elim!: cseq_NoneE split: if_splits)
    have g: "good_step ?u td'" using good_step_trans [OF f [OF v(1)] f [OF v(2)]] .
    then have "t \<in> set (td_failed_deps td')" by (auto simp: good_step_def shrinks_def)
    then show ?thesis using good_step_trans [OF good_step_mark(1) g] by blast
  qed
  moreover have "good_step td td' \<and> t \<in> set (td_failed_rdeps td')" if r: "remove_runtarget (Suc n) t td = (td', None)" for t td td'
  proof -
    let ?u = "td\<lparr>td_failed_rdeps := td_failed_rdeps td @ [t]\<rparr>"
    from r obtain v where v: "cfold (fail_fn n) (get_rdependees td t) ?u = (v, None)"
      "cfold (fail_fn n) (intertask_fns te_irdepends t v) v = (td', None)"
      by (auto elim!: cseq_NoneE)
    have g: "good_step ?u td'" using good_step_trans [OF f [OF v(1)] f [OF v(2)]] .
    then have "t \<in> set (td_failed_rdeps td')" by (auto simp: good_step_def shrinks_def)
    then show ?thesis using good_step_trans [OF good_step_mark(2) g] by blast
  qed
  ultimately show ?case by blast
qed

section \<open>Without abort, failures always complete\<close>

lemma fail_exc:
  "\<not> td_abort td \<Longrightarrow> snd (fail_fn n fn td) \<in> {None, Some OutOfFuel} \<and>
     snd (remove_buildtarget n t td) \<in> {None, Some OutOfFuel} \<and> snd (remove_runtarget n t td) \<in> {None, Some OutOfFuel}"
proof (induction n arbitrary: td fn t)
  case 0
  show ?case by simp
next
  case (Suc n)
  let ?ok = "\<lambda>m. \<not> td_abort (fst m) \<and> snd m \<in> {None, Some OutOfFuel}"
  have ab: "\<not> td_abort (fst (fail_fn n fn u))" "\<not> td_abort (fst (remove_buildtarget n t u))"
    "\<not> td_abort (fst (remove_runtarget n t u))" if "\<not> td_abort u" for fn t u
    using fail_shrinks [of u n fn t] that by (auto simp: shrinks_def fail_frame_def)
  have fold: "?ok (cfold f xs u)" if "\<not> td_abort u" "\<And>x u. \<not> td_abort u \<Longrightarrow> ?ok (f x u)" for f :: "string \<Rightarrow> taskdata \<Rightarrow> taskdata cmd" and xs u
    using that(1)
  proof (induction xs arbitrary: u)
    case (Cons x xs)
    then show ?case using that(2) [of u x] by (cases "f x u") (auto simp: cseq_def split: option.splits)
  qed simp
  have seq: "?ok (cseq m f)" if "?ok m" "\<And>u. \<not> td_abort u \<Longrightarrow> ?ok (f u)" for m :: "taskdata cmd" and f
    using that by (cases m) (auto simp: cseq_def split: option.splits)
  have b: "?ok (drop_build n fn t u)" if "\<not> td_abort u" for fn t u
    using that Suc.IH ab by (simp add: drop_build_def Let_def)
  have r: "?ok (drop_run n fn t u)" if "\<not> td_abort u" for fn t u
    using that Suc.IH ab by (simp add: drop_run_def Let_def)
  have f: "?ok (fail_fn n fn u)" if "\<not> td_abort u" for fn u using that Suc.IH ab by blast
  have "?ok (fail_fn (Suc n) fn td)"
  proof (cases "fn \<in> set (td_failed_fns td)")
    case True
    then show ?thesis using Suc.prems by (simp add: fail_fn_Suc)
  next
    case False
    have "?ok (cseq (cfold (drop_build n fn) (dkeys (td_build_targets td)) (td\<lparr>td_failed_fns := td_failed_fns td @ [fn]\<rparr>))
             (\<lambda>td. cfold (drop_run n fn) (dkeys (td_run_targets td)) td))"
      using Suc.prems by (intro seq fold b r) simp_all
    then show ?thesis unfolding fail_fn_Suc if_not_P [OF False] .
  qed
  moreover have "?ok (remove_buildtarget (Suc n) t td)"
    using Suc.prems unfolding remove_buildtarget.simps by (intro seq fold f) auto
  moreover have "?ok (remove_runtarget (Suc n) t td)"
    using Suc.prems unfolding remove_runtarget.simps by (intro seq fold f) auto
  ultimately show ?case by blast
qed

lemma fail_completes:
  assumes "\<not> td_abort td"
  obtains td1 td2 td3 where
    "fail_fn (fail_fuel td) fn td = (td1, None)" "good_step td td1"
    "remove_buildtarget (fail_fuel td) t td = (td2, None)" "good_step td td2" "t \<in> set (td_failed_deps td2)"
    "remove_runtarget (fail_fuel td) t td = (td3, None)" "good_step td td3" "t \<in> set (td_failed_rdeps td3)"
proof -
  have n: "2 * alive td + 3 \<le> fail_fuel td" "2 * alive td + 2 \<le> fail_fuel td" using alive_fuel [of td] by auto
  have "snd (fail_fn (fail_fuel td) fn td) = None" "snd (remove_buildtarget (fail_fuel td) t td) = None"
    "snd (remove_runtarget (fail_fuel td) t td) = None"
    using fail_exc [OF assms, of "fail_fuel td" fn t] fail_fuel_ok [of td "fail_fuel td" fn t] n by auto
  then show ?thesis
    using fail_good [of "fail_fuel td"] that
    by (metis prod.collapse)
qed

section \<open>Operations keep the invariant\<close>

definition td_inv :: "bool \<Rightarrow> taskdata \<Rightarrow> bool" where
  "td_inv ai td \<longleftrightarrow> providers_ok {} td \<and> \<not> td_abort td \<and> td_allowincomplete td = ai"

lemma td_inv_good: "td_inv ai td \<Longrightarrow> good_step td td' \<Longrightarrow> td_inv ai td'"
  by (simp add: td_inv_def good_step_def shrinks_def fail_frame_def)

lemma td_inv_fail: "td_inv ai td \<Longrightarrow> td_inv ai (fst (fail_fn (fail_fuel td) fn td)) \<and> snd (fail_fn (fail_fuel td) fn td) = None"
  using td_inv_good fail_completes [of td fn "[]"] by (metis fst_conv snd_conv td_inv_def)

lemma lists_of_seen [simp]: "dgetd (seen_target name d) t [] = dgetd d t []"
  by (auto simp: seen_target_def dgetd_def dget_None_iff [symmetric] split: option.split)

lemma td_inv_upd [simp]:
  "td_inv ai (td\<lparr>td_taskentries := e\<rparr>) = td_inv ai td"
  "td_inv ai (td\<lparr>td_seenfns := l\<rparr>) = td_inv ai td"
  "td_inv ai (td\<lparr>td_depids := d\<rparr>) = td_inv ai td"
  "td_inv ai (td\<lparr>td_rdepids := d\<rparr>) = td_inv ai td"
  "td_inv ai (td\<lparr>td_consider_msgs_cache := l\<rparr>) = td_inv ai td"
  "td_inv ai (seen_build_target name td) = td_inv ai td"
  "td_inv ai (seen_run_target name td) = td_inv ai td"
  "td_inv ai (set_entry tid f td) = td_inv ai td"
  "td_inv ai (consider_msg item td) = td_inv ai td"
  "td_inv ai (add_depids fn c td) = td_inv ai td"
  "td_inv ai (add_rdepids fn c td) = td_inv ai td"
  by (simp_all add: td_inv_def providers_ok_def seen_build_target_def seen_run_target_def set_entry_def
      consider_msg_def add_depids_def add_rdepids_def Let_def)

lemma td_inv_add_target:
  assumes "td_inv ai td" "fn \<notin> set (td_failed_fns td)"
  shows "td_inv ai (add_build_target fn item td)" "td_inv ai (add_runtime_target fn item td)"
  using assms
  by (auto simp: td_inv_def providers_ok_def add_build_target_def add_runtime_target_def dappend_new_def)

text \<open>Exceptions that resolution does not catch.\<close>

fun quiet :: "exc \<Rightarrow> bool" where
  "quiet (NoProvider _) = False"
| "quiet (NoRProvider _) = False"
| "quiet (MultipleRProvider _) = False"
| "quiet _ = True"

definition quiet_opt :: "exc option \<Rightarrow> bool" where
  "quiet_opt x = (case x of None \<Rightarrow> True | Some e \<Rightarrow> quiet e)"

lemma quiet_opt_simps [simp]: "quiet_opt None" "quiet_opt (Some e) = quiet e"
  by (simp_all add: quiet_opt_def)

text \<open>A command that keeps the invariant and raises nothing that resolution catches.\<close>

definition calm :: "bool \<Rightarrow> taskdata cmd \<Rightarrow> bool" where
  "calm ai m \<longleftrightarrow> td_inv ai (fst m) \<and> quiet_opt (snd m)"

definition calm_s :: "bool \<Rightarrow> tstate cmd \<Rightarrow> bool" where
  "calm_s ai m \<longleftrightarrow> td_inv ai (fst (fst m)) \<and> quiet_opt (snd m)"

lemma calm_cseq: "calm ai m \<Longrightarrow> (\<And>u. td_inv ai u \<Longrightarrow> calm ai (f u)) \<Longrightarrow> calm ai (cseq m f)"
  by (cases m) (auto simp: calm_def cseq_def split: option.split)

lemma calm_cfold: "td_inv ai u \<Longrightarrow> (\<And>x u. td_inv ai u \<Longrightarrow> calm ai (f x u)) \<Longrightarrow> calm ai (cfold f xs u)"
proof (induction xs arbitrary: u)
  case Nil
  then show ?case by (simp add: calm_def)
next
  case (Cons x xs)
  then show ?case by (simp add: calm_cseq)
qed

lemma calm_cget:
  "(\<And>e. m = Inl e \<Longrightarrow> quiet e) \<Longrightarrow> td_inv ai u \<Longrightarrow> (\<And>x. m = Inr x \<Longrightarrow> calm ai (k x)) \<Longrightarrow> calm ai (cget m u k)"
  by (cases m) (simp_all add: calm_def)

lemma calm_s_cseq: "calm_s ai m \<Longrightarrow> (\<And>u. td_inv ai (fst u) \<Longrightarrow> calm_s ai (f u)) \<Longrightarrow> calm_s ai (cseq m f)"
  by (cases m) (auto simp: calm_s_def cseq_def split: option.split)

lemma calm_s_cfold: "td_inv ai (fst u) \<Longrightarrow> (\<And>x u. td_inv ai (fst u) \<Longrightarrow> calm_s ai (f x u)) \<Longrightarrow> calm_s ai (cfold f xs u)"
proof (induction xs arbitrary: u)
  case Nil
  then show ?case by (simp add: calm_s_def)
next
  case (Cons x xs)
  then show ?case by (simp only: cfold.simps) (rule calm_s_cseq, auto)
qed

lemma calm_s_cget:
  "(\<And>e. m = Inl e \<Longrightarrow> quiet e) \<Longrightarrow> td_inv ai (fst u) \<Longrightarrow> (\<And>x. m = Inr x \<Longrightarrow> calm_s ai (k x)) \<Longrightarrow> calm_s ai (cget m u k)"
  by (cases m) (simp_all add: calm_s_def)

lemma calm_lift: "calm ai (f (fst s)) \<Longrightarrow> calm_s ai (lift_td f s)"
  by (simp add: calm_def calm_s_def lift_td_def case_prod_beta)

lemma intertask_loop_calm:
  assumes seen: "\<And>d u. td_inv ai u \<Longrightarrow> td_inv ai (seen d u)"
  shows "td_inv ai td \<Longrightarrow> td_inv ai (fst (intertask_loop seen deps ids td)) \<and>
    (\<forall>e. snd (intertask_loop seen deps ids td) = Inl e \<longrightarrow> quiet e)"
proof (induction deps arbitrary: ids td)
  case Nil
  then show ?case by simp
next
  case (Cons d deps)
  then show ?case using seen by (auto simp: intertask_dep_def split: sum.split)
qed

lemma add_intertask_calm:
  assumes "\<And>d u. td_inv ai u \<Longrightarrow> td_inv ai (seen d u)" "td_inv ai td"
  shows "calm ai (add_intertask task_deps flag task seen upd tid td)"
proof (cases "task_flag task_deps flag task")
  case None
  then show ?thesis using assms(2) by (simp add: add_intertask_def calm_def)
next
  case (Some deps)
  then show ?thesis
    using intertask_loop_calm [of ai seen td "split_ws deps" "[]"] assms
    by (auto simp: add_intertask_def calm_def split: prod.split sum.split)
qed

lemma add_task_calm: "td_inv ai td \<Longrightarrow> calm ai (add_task fn task_deps task td)"
  unfolding add_task_def Let_def by (intro calm_cget calm_cseq add_intertask_calm) auto

lemma touch_deps_calm:
  assumes seen: "\<And>d u. td_inv ai u \<Longrightarrow> td_inv ai (seen d u)"
  shows "td_inv ai td \<Longrightarrow> calm ai (fst (touch_deps seen failed fn deps td))"
proof (induction deps arbitrary: td)
  case Nil
  then show ?case by (simp add: calm_def)
next
  case (Cons d deps)
  then show ?case using seen [of td d] td_inv_fail by (auto simp: Let_def calm_def)
qed

lemma touch_all_calm: "td_inv ai td \<Longrightarrow> calm ai (touch_all fn td)"
  unfolding touch_all_def
  using touch_deps_calm [of ai seen_build_target td td_failed_deps fn] touch_deps_calm [of ai seen_run_target]
  by (auto split: prod.split bool.split intro!: calm_cseq) (metis fst_conv)+

definition extra_quiet :: "(string \<Rightarrow> string \<Rightarrow> cachedata \<Rightarrow> cachedata res) \<Rightarrow> bool" where
  "extra_quiet extra \<longleftrightarrow> (\<forall>func fn c e. extra func fn c = Inl e \<longrightarrow> quiet e)"

lemma rfold_quiet:
  "rfold f xs s = Inl e \<Longrightarrow> (\<And>x s e. f x s = Inl e \<Longrightarrow> quiet e) \<Longrightarrow> quiet e"
  by (induction xs arbitrary: s) (auto simp: res_simps)

lemma buildWorldTargetList_quiet: "buildWorldTargetList task c = Inl e \<Longrightarrow> quiet e"
proof -
  have sole: "sole_provider c pn pfs = Inl e \<Longrightarrow> quiet e" for c pn pfs e
    by (induction pfs) (auto simp: res_simps split: if_splits)
  have term': "terminal_provides c pn ps t = Inl e \<Longrightarrow> quiet e" for c pn ps t e
    by (induction ps arbitrary: t) (auto simp: res_simps split: if_splits dest: sole)
  have "world_step task f c = Inl e \<Longrightarrow> quiet e" for f c e
    by (auto simp: world_step_def res_simps dest: term' split: option.splits)
  then show "buildWorldTargetList task c = Inl e \<Longrightarrow> quiet e"
    by (auto simp: buildWorldTargetList_def split: if_splits dest: rfold_quiet)
qed

lemma add_extra_deps_calm:
  assumes "extra_quiet extra" "td_inv ai (fst s)"
  shows "calm_s ai (add_extra_deps extra fn s)"
proof (cases "dgetd (c_extradepsfunc (snd s)) fn [] = []")
  case True
  then show ?thesis using assms(2) by (simp add: add_extra_deps_def calm_s_def)
next
  case False
  have "calm_s ai (cget (buildWorldTargetList None (snd s)) s (\<lambda>c.
              cget (dlookup (c_pkg_fn c) fn) (fst s, c) (\<lambda>pn.
              cget (extra (dgetd (c_extradepsfunc (snd s)) fn []) fn c) (fst s, c) (\<lambda>c. ((fst s, c), None)))))"
    using assms by (intro calm_s_cget) (auto simp: calm_s_def extra_quiet_def dest: buildWorldTargetList_quiet)
  then show ?thesis using False by (simp add: add_extra_deps_def)
qed

lemma add_tasks_calm:
  assumes "extra_quiet extra" "td_inv ai (fst s)"
  shows "calm_s ai (add_tasks extra fn s)"
proof -
  have "calm_s ai (cseq (add_extra_deps extra fn (on_td (\<lambda>td. td\<lparr>td_seenfns := td_seenfns td @ [fn]\<rparr>) s)) (\<lambda>s.
            cseq (lift_td (cfold (add_task fn td) (td_tasks td)) s) (\<lambda>s.
              lift_td (\<lambda>td. touch_all fn (add_rdepids fn (snd s) (add_depids fn (snd s) td))) s)))" for td
    using assms
    by (auto simp: on_td_def intro!: calm_s_cseq calm_lift add_extra_deps_calm calm_cfold add_task_calm touch_all_calm)
  moreover have "calm_s ai (s, Some Fatal)" "calm_s ai (s, None)" using assms(2) by (simp_all add: calm_s_def)
  ultimately show ?thesis
    unfolding add_tasks_def using assms(2) by (intro calm_s_cget) (simp_all only: dlookup_Inl quiet.simps split: if_splits, auto)
qed

lemma add_provided_calm:
  assumes "extra_quiet extra" "td_inv ai (fst s)"
    and "add_target = add_build_target \<or> add_target = add_runtime_target"
  shows "calm_s ai (add_provided extra add_target item fn s)"
  using assms td_inv_add_target [OF assms(2)]
  by (auto simp: add_provided_def on_td_def calm_s_def [of ai "(_, None)"] intro!: add_tasks_calm)

section \<open>Resolution\<close>

text \<open>Nothing but the record of printed messages and parts of the cache has changed.\<close>

definition still :: "tstate \<Rightarrow> tstate \<Rightarrow> bool" where
  "still s s' \<longleftrightarrow> (\<exists>l. fst s' = (fst s)\<lparr>td_consider_msgs_cache := l\<rparr>) \<and>
     c_ignored_dependencies (snd s') = c_ignored_dependencies (snd s)"

lemma still_refl [simp]: "still s s"
  unfolding still_def by (intro conjI exI [of _ "td_consider_msgs_cache (fst s)"]) simp_all

lemma still_cache [simp]: "still s (fst s, c) = (c_ignored_dependencies c = c_ignored_dependencies (snd s))"
  unfolding still_def by (auto intro: exI [of _ "td_consider_msgs_cache (fst s)"])

lemma still_consider:
  assumes "still s s'"
  shows "still s (on_td (consider_msg item) s')"
proof -
  from assms obtain l where "fst s' = (fst s)\<lparr>td_consider_msgs_cache := l\<rparr>"
    "c_ignored_dependencies (snd s') = c_ignored_dependencies (snd s)" by (auto simp: still_def)
  then show ?thesis
    unfolding still_def by (intro conjI exI [of _ "l @ [item]"]) (simp_all add: on_td_def consider_msg_def)
qed

lemma still_good: "still s s' \<Longrightarrow> good_step (fst s) (fst s')"
  unfolding still_def
  by (elim exE conjE) (simp add: good_step_def shrinks_def fail_frame_def losses_recorded_def providers_ok_def)

text \<open>An operation keeps the invariant, and a caught exception means that it has done nothing.\<close>

definition careful :: "bool \<Rightarrow> tstate \<Rightarrow> tstate cmd \<Rightarrow> bool" where
  "careful ai s m \<longleftrightarrow> td_inv ai (fst (fst m)) \<and> (\<forall>e. snd m = Some e \<longrightarrow> quiet e \<or> still s (fst m))"

lemma careful_calm: "calm_s ai m \<Longrightarrow> careful ai s m"
  by (auto simp: calm_s_def careful_def)

lemma careful_still: "td_inv ai (fst s) \<Longrightarrow> still s s' \<Longrightarrow> careful ai s (s', x)"
  using td_inv_good still_good by (auto simp: careful_def)

lemma careful_cget:
  "td_inv ai (fst s) \<Longrightarrow> still s s' \<Longrightarrow> (\<And>x. m = Inr x \<Longrightarrow> careful ai s (k x)) \<Longrightarrow> careful ai s (cget m s' k)"
  by (cases m) (simp_all add: careful_still)

lemma filterProviders_ignored:
  "filterProviders ps item cfg c = Inr (el, found, c') \<Longrightarrow> c_ignored_dependencies c' = c_ignored_dependencies c"
  by (auto simp: filterProviders_def Let_def res_simps split: option.splits)

lemma add_provider_internal_careful:
  assumes "extra_quiet extra" and inv: "td_inv ai (fst s)"
  shows "careful ai s (add_provider_internal re_match extra cfg item s)"
proof -
  have add: "careful ai s (cfold (add_provided extra add_build_target item) el u)" if "td_inv ai (fst u)" for el u
    using that assms(1) by (intro careful_calm calm_s_cfold add_provided_calm) auto
  have el: "careful ai s (let el = filter (\<lambda>p. p \<notin> set (td_failed_fns (fst u))) el
       in if el = [] then (u, Some (NoProvider item))
          else let s = (if length el > 1 \<and> \<not> found then on_td (consider_msg item) u else u)
               in cfold (add_provided extra add_build_target item) el s)" if "still s u" for el found u
  proof -
    have inv': "td_inv ai (fst u)" "td_inv ai (fst (on_td (consider_msg item) u))"
      using td_inv_good [OF inv still_good [OF that]] by (simp_all add: on_td_def)
    show ?thesis
      unfolding Let_def using inv that add [OF inv'(1)] add [OF inv'(2)] by (simp add: careful_still)
  qed
  show ?thesis
    unfolding add_provider_internal_def
  proof (intro careful_cget [OF inv still_refl], split if_split, intro conjI impI, simp add: careful_still inv)
    show "careful ai s (case dget (c_providers (snd s)) item of
         None \<Rightarrow>
           cget (getRuntimeProviders re_match (snd s) item) s (\<lambda>all_p.
           cget (rmap (dlookup (c_pkg_fn (snd s))) all_p) s (\<lambda>_.
             (s, Some (NoProvider item))))
       | Some all_p \<Rightarrow>
           if have_build_target (fst s) item then (s, None)
           else let s = (fst s, (snd s)\<lparr>c_providers := dset item (py_sorted all_p) (c_providers (snd s))\<rparr>)
             in cget (filterProviders all_p item cfg (snd s)) s (\<lambda>(eligible, foundUnique, c).
                  let s = (fst s, c)
                  in (case eligible of
                        None \<Rightarrow> (s, Some TypeError)
                      | Some el \<Rightarrow>
                          let el = filter (\<lambda>p. p \<notin> set (td_failed_fns (fst s))) el
                          in if el = [] then (s, Some (NoProvider item))
                             else let s = (if length el > 1 \<and> \<not> foundUnique then on_td (consider_msg item) s else s)
                                  in cfold (add_provided extra add_build_target item) el s)))"
    proof (cases "dget (c_providers (snd s)) item")
      case None
      then show ?thesis using inv by (auto intro!: careful_cget careful_still)
    next
      case (Some all_p)
      show ?thesis
      proof (cases "have_build_target (fst s) item")
        case True
        then show ?thesis using inv Some by (simp add: careful_still)
      next
        case False
        let ?s = "(fst s, (snd s)\<lparr>c_providers := dset item (py_sorted all_p) (c_providers (snd s))\<rparr>)"
        have "careful ai s (cget (filterProviders all_p item cfg (snd ?s)) ?s (\<lambda>(eligible, foundUnique, c).
                  let s = (fst ?s, c)
                  in (case eligible of
                        None \<Rightarrow> (s, Some TypeError)
                      | Some el \<Rightarrow>
                          let el = filter (\<lambda>p. p \<notin> set (td_failed_fns (fst s))) el
                          in if el = [] then (s, Some (NoProvider item))
                             else let s = (if length el > 1 \<and> \<not> foundUnique then on_td (consider_msg item) s else s)
                                  in cfold (add_provided extra add_build_target item) el s)))"
        proof (rule careful_cget [OF inv])
          fix x assume x: "filterProviders all_p item cfg (snd ?s) = Inr x"
          obtain eligible found c where xs: "x = (eligible, found, c)" by (cases x)
          have st: "still s (fst s, c)" using filterProviders_ignored x xs by fastforce
          show "careful ai s (case x of (eligible, foundUnique, c) \<Rightarrow>
                  let s = (fst ?s, c)
                  in (case eligible of
                        None \<Rightarrow> (s, Some TypeError)
                      | Some el \<Rightarrow>
                          let el = filter (\<lambda>p. p \<notin> set (td_failed_fns (fst s))) el
                          in if el = [] then (s, Some (NoProvider item))
                             else let s = (if length el > 1 \<and> \<not> foundUnique then on_td (consider_msg item) s else s)
                                  in cfold (add_provided extra add_build_target item) el s))"
            using el [OF st] careful_still [OF inv st] by (cases eligible) (simp_all add: xs Let_def)
        qed simp
        then show ?thesis using Some False unfolding Let_def by simp
      qed
    qed
  qed
qed

lemma add_rprovider_careful:
  assumes "extra_quiet extra" and inv: "td_inv ai (fst s)"
  shows "careful ai s (add_rprovider re_match extra cfg item s)"
proof -
  have add: "careful ai s (cfold (add_provided extra add_runtime_target item) el u)" if "td_inv ai (fst u)" for el u
    using that assms(1) by (intro careful_calm calm_s_cfold add_provided_calm) auto
  have el: "careful ai s (let el = filter (\<lambda>p. p \<notin> set (td_failed_fns (fst s))) el
           in if el = [] then (s, Some (NoRProvider item))
              else let s = (if length el > 1 \<and> n = 0 then on_td (consider_msg item) s else s)
                   in if n > 1 then (on_td (consider_msg item) s, Some (MultipleRProvider item))
                      else cfold (add_provided extra add_runtime_target item) el s)" for el and n :: nat
  proof -
    have inv': "td_inv ai (fst (on_td (consider_msg item) s))" using inv by (simp add: on_td_def)
    show ?thesis
      unfolding Let_def using inv add [OF inv] add [OF inv'] still_consider [OF still_refl] still_consider [OF still_consider [OF still_refl]]
      by (simp add: careful_still)
  qed
  show ?thesis
    unfolding add_rprovider_def
  proof (intro careful_cget [OF inv still_refl], split if_split, intro conjI impI, simp add: careful_still inv,
      intro careful_cget [OF inv still_refl], split if_split, intro conjI impI, simp add: careful_still inv,
      intro careful_cget [OF inv still_refl])
    fix x :: "string list \<times> nat"
    show "careful ai s (case x of (eligible, numberPreferred) \<Rightarrow>
           let el = filter (\<lambda>p. p \<notin> set (td_failed_fns (fst s))) eligible
           in if el = [] then (s, Some (NoRProvider item))
              else let s = (if length el > 1 \<and> numberPreferred = 0 then on_td (consider_msg item) s else s)
                   in if numberPreferred > 1 then (on_td (consider_msg item) s, Some (MultipleRProvider item))
                      else cfold (add_provided extra add_runtime_target item) el s)"
      using el by (cases x) simp
  qed
qed

lemma resolve_build_mono: "snd sn \<le> snd (fst (resolve_build re_match extra cfg t sn))"
  by (auto simp: resolve_build_def lift_td_def split: prod.split option.split exc.split)

lemma resolve_run_mono: "snd sn \<le> snd (fst (resolve_run re_match extra cfg t sn))"
  by (auto simp: resolve_run_def lift_td_def split: prod.split option.split exc.split)

text \<open>One step: the invariant stays, and if nothing was added the target has failed and nothing else has changed but by failing.\<close>

lemma resolve_build_step:
  assumes "extra_quiet extra" and inv: "td_inv False (fst s)"
    and r: "resolve_build re_match extra cfg t (s, n) = ((s', n'), None)"
  shows "td_inv False (fst s')"
    and "n' = n \<Longrightarrow> good_step (fst s) (fst s') \<and> t \<in> set (td_failed_deps (fst s')) \<and>
      c_ignored_dependencies (snd s') = c_ignored_dependencies (snd s)"
proof -
  obtain u e where u: "add_provider_internal re_match extra cfg t s = (u, e)" by (cases "add_provider_internal re_match extra cfg t s")
  note car = add_provider_internal_careful [OF assms(1,2), of re_match cfg t, unfolded careful_def u]
  have invu: "td_inv False (fst u)" using car by simp
  then have na: "\<not> td_abort (fst u)" "\<not> td_allowincomplete (fst u)" by (auto simp: td_inv_def)
  obtain td2 where td2: "remove_buildtarget (fail_fuel (fst u)) t (fst u) = (td2, None)" "good_step (fst u) td2"
    "t \<in> set (td_failed_deps td2)"
    using fail_completes [OF na(1), of t t] by blast
  have "td_inv False (fst s') \<and> (n' = n \<longrightarrow> good_step (fst s) (fst s') \<and> t \<in> set (td_failed_deps (fst s')) \<and>
      c_ignored_dependencies (snd s') = c_ignored_dependencies (snd s))"
  proof (cases "\<exists>i. e = Some (NoProvider i)")
    case True
    then have s': "s' = (td2, snd u)" "still s u"
      using r u na td2(1) car by (auto simp: resolve_build_def lift_td_def)
    then show ?thesis
      using td2 td_inv_good [OF invu td2(2)] good_step_trans [OF still_good [OF s'(2)] td2(2)] by (simp add: still_def)
  next
    case False
    then have "e = None" using r u by (auto simp: resolve_build_def split: option.splits exc.splits)
    then show ?thesis using r u invu by (simp add: resolve_build_def)
  qed
  then show "td_inv False (fst s')"
    and "n' = n \<Longrightarrow> good_step (fst s) (fst s') \<and> t \<in> set (td_failed_deps (fst s')) \<and>
      c_ignored_dependencies (snd s') = c_ignored_dependencies (snd s)" by blast+
qed

lemma resolve_run_step:
  assumes "extra_quiet extra" and inv: "td_inv False (fst s)"
    and r: "resolve_run re_match extra cfg t (s, n) = ((s', n'), None)"
  shows "td_inv False (fst s')"
    and "n' = n \<Longrightarrow> good_step (fst s) (fst s') \<and> t \<in> set (td_failed_rdeps (fst s')) \<and>
      c_ignored_dependencies (snd s') = c_ignored_dependencies (snd s)"
proof -
  obtain u e where u: "add_rprovider re_match extra cfg t s = (u, e)" by (cases "add_rprovider re_match extra cfg t s")
  note car = add_rprovider_careful [OF assms(1,2), of re_match cfg t, unfolded careful_def u]
  have invu: "td_inv False (fst u)" using car by simp
  then have na: "\<not> td_abort (fst u)" by (auto simp: td_inv_def)
  obtain td2 where td2: "remove_runtarget (fail_fuel (fst u)) t (fst u) = (td2, None)" "good_step (fst u) td2"
    "t \<in> set (td_failed_rdeps td2)"
    using fail_completes [OF na, of t t] by blast
  have "td_inv False (fst s') \<and> (n' = n \<longrightarrow> good_step (fst s) (fst s') \<and> t \<in> set (td_failed_rdeps (fst s')) \<and>
      c_ignored_dependencies (snd s') = c_ignored_dependencies (snd s))"
  proof (cases "(\<exists>i. e = Some (NoRProvider i)) \<or> (\<exists>i. e = Some (MultipleRProvider i))")
    case True
    then have s': "s' = (td2, snd u)" "still s u"
      using r u td2(1) car by (auto simp: resolve_run_def lift_td_def)
    then show ?thesis
      using td2 td_inv_good [OF invu td2(2)] good_step_trans [OF still_good [OF s'(2)] td2(2)] by (simp add: still_def)
  next
    case False
    then have "e = None" using r u by (auto simp: resolve_run_def split: option.splits exc.splits)
    then show ?thesis using r u invu by (simp add: resolve_run_def)
  qed
  then show "td_inv False (fst s')"
    and "n' = n \<Longrightarrow> good_step (fst s) (fst s') \<and> t \<in> set (td_failed_rdeps (fst s')) \<and>
      c_ignored_dependencies (snd s') = c_ignored_dependencies (snd s)" by blast+
qed

lemma resolve_fold:
  fixes f :: "string \<Rightarrow> tstate \<times> nat \<Rightarrow> (tstate \<times> nat) cmd"
  assumes step: "\<And>t s n s' n'. td_inv False (fst s) \<Longrightarrow> f t (s, n) = ((s', n'), None) \<Longrightarrow>
      td_inv False (fst s') \<and> n \<le> n' \<and> (n' = n \<longrightarrow> good_step (fst s) (fst s') \<and> t \<in> set (F (fst s')) \<and>
        c_ignored_dependencies (snd s') = c_ignored_dependencies (snd s))"
    and mono: "\<And>u v. good_step u v \<Longrightarrow> set (F u) \<subseteq> set (F v)"
  shows "cfold f ts (s, n) = ((s', n'), None) \<Longrightarrow> td_inv False (fst s) \<Longrightarrow>
    td_inv False (fst s') \<and> n \<le> n' \<and> (n' = n \<longrightarrow> good_step (fst s) (fst s') \<and> set ts \<subseteq> set (F (fst s')) \<and>
        c_ignored_dependencies (snd s') = c_ignored_dependencies (snd s))"
proof (induction ts arbitrary: s n)
  case Nil
  then show ?case by simp
next
  case (Cons t ts)
  from Cons.prems(1) obtain sn where sn: "f t (s, n) = (sn, None)" "cfold f ts sn = ((s', n'), None)"
    by (auto elim: cseq_NoneE)
  obtain s1 n1 where s1: "sn = (s1, n1)" by (cases sn)
  have 1: "td_inv False (fst s1)" "n \<le> n1" "n1 = n \<longrightarrow> good_step (fst s) (fst s1) \<and> t \<in> set (F (fst s1)) \<and>
        c_ignored_dependencies (snd s1) = c_ignored_dependencies (snd s)"
    using step [OF Cons.prems(2)] sn(1) s1 by auto
  have 2: "td_inv False (fst s')" "n1 \<le> n'" "n' = n1 \<longrightarrow> good_step (fst s1) (fst s') \<and> set ts \<subseteq> set (F (fst s')) \<and>
        c_ignored_dependencies (snd s') = c_ignored_dependencies (snd s1)"
    using Cons.IH [of s1 n1] sn(2) s1 1(1) by auto
  show ?case
  proof (intro conjI impI)
    show "td_inv False (fst s')" "n \<le> n'" using 1 2 by auto
    assume "n' = n"
    then have eq: "n1 = n" "n' = n1" using 1(2) 2(2) by auto
    then show "good_step (fst s) (fst s')" using 1 2 good_step_trans by blast
    show "set (t # ts) \<subseteq> set (F (fst s'))" using 1 2 eq mono by fastforce
    show "c_ignored_dependencies (snd s') = c_ignored_dependencies (snd s)" using 1 2 eq by simp
  qed
qed

definition resolved ::
  "(string \<Rightarrow> string \<Rightarrow> bool option) \<Rightarrow> string list \<Rightarrow> string list \<Rightarrow> (string, string list) dict \<Rightarrow> bool" where
  "resolved re_match ignored failed targets \<longleftrightarrow>
     (\<forall>t \<in> set (dkeys targets). re_match_strings re_match t ignored = Inr True \<or> t \<in> set failed \<or> dgetd targets t [] \<noteq> [])"

lemma unresolved_of_spec:
  "unresolved_of re_match ignored failed d = Inr us \<Longrightarrow> (t, fns) \<in> set d \<Longrightarrow>
    re_match_strings re_match t ignored = Inr True \<or> t \<in> set failed \<or> fns \<noteq> [] \<or> t \<in> set us"
  by (induction d arbitrary: us) (auto simp: res_simps split: if_splits)

lemma unresolved_resolved:
  assumes "unresolved_of re_match ignored failed d = Inr us" "set us \<subseteq> set failed'" "set failed \<subseteq> set failed'"
    and "set (dkeys d') = set (dkeys d)"
    and "\<And>t. dgetd d t [] \<noteq> [] \<Longrightarrow> dgetd d' t [] = [] \<Longrightarrow> t \<in> set failed'"
  shows "resolved re_match ignored failed' d'"
  unfolding resolved_def
proof
  fix t assume "t \<in> set (dkeys d')"
  then obtain fns where fns: "dget d t = Some fns" using assms(4) by (metis dget_keyE)
  then have "(t, fns) \<in> set d" by (rule map_of_SomeD)
  from unresolved_of_spec [OF assms(1) this] fns assms(2,3,5)
  show "re_match_strings re_match t ignored = Inr True \<or> t \<in> set failed' \<or> dgetd d' t [] \<noteq> []"
    by (auto simp: dgetd_def)
qed

lemma resolve_round_spec:
  assumes "extra_quiet extra" "td_inv False (fst s)" "resolve_round re_match extra cfg s = ((s', added), None)"
  shows "td_inv False (fst s')"
    and "added = 0 \<Longrightarrow>
      resolved re_match (c_ignored_dependencies (snd s')) (td_failed_deps (fst s')) (td_build_targets (fst s')) \<and>
      resolved re_match (c_ignored_dependencies (snd s')) (td_failed_rdeps (fst s')) (td_run_targets (fst s'))"
proof -
  from assms(3) obtain build s1 n1 run where
    build: "get_unresolved_build_targets re_match (snd s) (fst s) = Inr build"
    and s1: "cfold (resolve_build re_match extra cfg) build (s, 0) = ((s1, n1), None)"
    and run: "get_unresolved_run_targets re_match (snd s1) (fst s1) = Inr run"
    and s': "cfold (resolve_run re_match extra cfg) run (s1, n1) = ((s', added), None)"
    by (auto simp: resolve_round_def cget_def split: sum.splits elim!: cseq_NoneE)
  have fb: "set (td_failed_deps u) \<subseteq> set (td_failed_deps v)" "set (td_failed_rdeps u) \<subseteq> set (td_failed_rdeps v)"
    if "good_step u v" for u v
    using that by (auto simp: good_step_def shrinks_def)
  have 1: "td_inv False (fst s1) \<and> 0 \<le> n1 \<and> (n1 = 0 \<longrightarrow> good_step (fst s) (fst s1) \<and> set build \<subseteq> set (td_failed_deps (fst s1)) \<and>
        c_ignored_dependencies (snd s1) = c_ignored_dependencies (snd s))"
  proof (rule resolve_fold [OF _ fb(1) s1 assms(2)])
    fix t s n s' n' assume "td_inv False (fst s)" and r: "resolve_build re_match extra cfg t (s, n) = ((s', n'), None)"
    then show "td_inv False (fst s') \<and> n \<le> n' \<and> (n' = n \<longrightarrow> good_step (fst s) (fst s') \<and> t \<in> set (td_failed_deps (fst s')) \<and>
        c_ignored_dependencies (snd s') = c_ignored_dependencies (snd s))"
      using resolve_build_step [OF assms(1) _ r] resolve_build_mono [of "(s, n)" re_match extra cfg t] by simp
  qed
  have 2: "td_inv False (fst s') \<and> n1 \<le> added \<and> (added = n1 \<longrightarrow> good_step (fst s1) (fst s') \<and>
        set run \<subseteq> set (td_failed_rdeps (fst s')) \<and> c_ignored_dependencies (snd s') = c_ignored_dependencies (snd s1))"
  proof (rule resolve_fold [OF _ fb(2) s' conjunct1 [OF 1]])
    fix t s n s' n' assume "td_inv False (fst s)" and r: "resolve_run re_match extra cfg t (s, n) = ((s', n'), None)"
    then show "td_inv False (fst s') \<and> n \<le> n' \<and> (n' = n \<longrightarrow> good_step (fst s) (fst s') \<and> t \<in> set (td_failed_rdeps (fst s')) \<and>
        c_ignored_dependencies (snd s') = c_ignored_dependencies (snd s))"
      using resolve_run_step [OF assms(1) _ r] resolve_run_mono [of "(s, n)" re_match extra cfg t] by simp
  qed
  show "td_inv False (fst s')" using 2 by simp
  assume "added = 0"
  then have g: "good_step (fst s) (fst s1)" "set build \<subseteq> set (td_failed_deps (fst s1))"
    "c_ignored_dependencies (snd s1) = c_ignored_dependencies (snd s)" "good_step (fst s1) (fst s')"
    "set run \<subseteq> set (td_failed_rdeps (fst s'))" "c_ignored_dependencies (snd s') = c_ignored_dependencies (snd s1)"
    using 1 2 by auto
  have g2: "good_step (fst s) (fst s')" using good_step_trans [OF g(1,4)] .
  have "resolved re_match (c_ignored_dependencies (snd s)) (td_failed_deps (fst s')) (td_build_targets (fst s'))"
    using build [unfolded get_unresolved_build_targets_def]
  proof (rule unresolved_resolved)
    show "set build \<subseteq> set (td_failed_deps (fst s'))" using g(2) fb(1) [OF g(4)] by blast
  qed (use g2 fb(1) [OF g2] in \<open>auto simp: good_step_def shrinks_def fail_frame_def losses_recorded_def\<close>)
  moreover have "resolved re_match (c_ignored_dependencies (snd s1)) (td_failed_rdeps (fst s')) (td_run_targets (fst s'))"
    using run [unfolded get_unresolved_run_targets_def] g(5)
    by (rule unresolved_resolved)
      (use g(4) fb(2) [OF g(4)] in \<open>auto simp: good_step_def shrinks_def fail_frame_def losses_recorded_def\<close>)
  ultimately show "resolved re_match (c_ignored_dependencies (snd s')) (td_failed_deps (fst s')) (td_build_targets (fst s')) \<and>
      resolved re_match (c_ignored_dependencies (snd s')) (td_failed_rdeps (fst s')) (td_run_targets (fst s'))"
    using g(3,6) by simp
qed

lemma add_unresolved_spec:
  assumes "extra_quiet extra"
  shows "td_inv False (fst s) \<Longrightarrow> add_unresolved re_match extra cfg fuel s = (s', None) \<Longrightarrow>
    td_inv False (fst s') \<and>
    resolved re_match (c_ignored_dependencies (snd s')) (td_failed_deps (fst s')) (td_build_targets (fst s')) \<and>
    resolved re_match (c_ignored_dependencies (snd s')) (td_failed_rdeps (fst s')) (td_run_targets (fst s'))"
proof (induction fuel arbitrary: s)
  case 0
  then show ?case by simp
next
  case (Suc fuel)
  obtain s1 added e where r: "resolve_round re_match extra cfg s = ((s1, added), e)"
    by (cases "resolve_round re_match extra cfg s") auto
  have e: "e = None" using Suc.prems(2) r by (auto split: option.splits)
  note spec = resolve_round_spec [OF assms Suc.prems(1) r [unfolded e]]
  show ?case
  proof (cases "added = 0")
    case True
    then have "s' = s1" using Suc.prems(2) r e by simp
    then show ?thesis using spec True by simp
  next
    case False
    then have "add_unresolved re_match extra cfg fuel s1 = (s', None)" using Suc.prems(2) r e by simp
    then show ?thesis using Suc.IH spec(1) by blast
  qed
qed

section \<open>Properties\<close>

text \<open>
  The failure of a file or of a target always comes to an end: \<open>fail_fuel\<close> is more than the
  depth that the mutual calls can reach.
\<close>

theorem failure_terminates:
  "snd (fail_fn (fail_fuel td) fn td) \<noteq> Some OutOfFuel \<and>
   snd (remove_buildtarget (fail_fuel td) t td) \<noteq> Some OutOfFuel \<and>
   snd (remove_runtarget (fail_fuel td) t td) \<noteq> Some OutOfFuel"
  using fail_fuel_ok [of td "fail_fuel td" fn t] alive_fuel [of td] by auto


definition example_taskdata :: taskdata where
  "example_taskdata = (new_taskdata False False None False)\<lparr>
     td_build_targets := [(''b'', [''b.bb'']), (''a'', [''a.bb''])],
     td_depids := [(''b.bb'', []), (''a.bb'', [''b''])], td_seenfns := [''b.bb'', ''a.bb'']\<rparr>"

lemma example_taskdata_ok: "providers_ok {} example_taskdata"
  by (auto simp: providers_ok_def example_taskdata_def new_taskdata_def dgetd_def)



definition example_request :: taskdata where
  "example_request = (new_taskdata False False None False)\<lparr>td_build_targets := [(''zlib'', []), (''nope'', [])]\<rparr>"

definition example_recipes :: cachedata where
  "example_recipes = init_cacheData\<lparr>
     c_task_deps := [(''zlib.bb'', no_task_deps)], c_pkg_fn := [(''zlib.bb'', ''zlib'')],
     c_pkg_pepvpr := [(''zlib.bb'', [], ''1'', ''r0'')], c_pkg_dp := [(''zlib.bb'', 0)],
     c_pn_provides := [(''zlib'', [''zlib''])], c_providers := [(''zlib'', [''zlib.bb''])],
     c_bbfile_priority := [(''zlib.bb'', 5)]\<rparr>"


end
