(* ===== verification/Worklist.thy ===== *)
theory Worklist
  imports Prelude
begin

text \<open>
  Depth-first walks over the task graph.  The nested functions \<open>mark_active\<close> and
  \<open>generate_recdeps\<close> of \<open>bitbake/lib/bb/runqueue.py\<close> call themselves for the successors of a task in
  order; here the pending calls are a list.  The locale \<open>graph_walk\<close> states what such a walk visits,
  for any visit function whose successors depend on the task alone.
\<close>

text \<open>
  \<open>keys\<close> are the tasks of the table, so visiting another one raises \<open>KeyError\<close>; \<open>visit t st\<close> gives the
  successors of \<open>t\<close> and the new local state.
\<close>

function dfs ::
  "'t list \<Rightarrow> ('t \<Rightarrow> 's \<Rightarrow> ('t list \<times> 's) res) \<Rightarrow> 't list \<Rightarrow> 't list \<Rightarrow> 's \<Rightarrow> ('t list \<times> 's) res" where
  "dfs keys visit [] seen st = Inr (seen, st)"
| "dfs keys visit (t # work) seen st =
     (if t \<in> set seen then dfs keys visit work seen st
      else rbind (visit t st) (\<lambda>(cs, st').
             if t \<notin> set keys then Inl KeyError else dfs keys visit (cs @ work) (sadd t seen) st'))"
  by pat_completeness auto
termination
proof (relation "inv_image (less_than <*lex*> less_than)
    (\<lambda>(keys, visit, work, seen, st). (card (set keys - set seen), length work))", goal_cases)
  case 1
  then show ?case by auto
next
  case (2 keys visit t work seen st)
  then show ?case by simp
next
  case (3 keys visit t work seen st x cs st')
  then have "set keys - insert t (set seen) \<subset> set keys - set seen" by blast
  then have "card (set keys - insert t (set seen)) < card (set keys - set seen)"
    by (simp add: psubset_card_mono)
  then show ?case using 3 by simp
qed

definition edges_of :: "('t \<Rightarrow> 't list) \<Rightarrow> ('t \<times> 't) set" where
  "edges_of succs = {(t, d). d \<in> set (succs t)}"

lemma subset_via: "A \<subseteq> B \<Longrightarrow> t \<in> B \<Longrightarrow> S \<subseteq> insert t X \<union> (A \<union> C) \<Longrightarrow> S \<subseteq> X \<union> (B \<union> C)"
  by blast

locale graph_walk =
  fixes visit :: "'t \<Rightarrow> 's \<Rightarrow> ('t list \<times> 's) res" and succs :: "'t \<Rightarrow> 't list"
  assumes visit_succs: "visit t st = Inr (cs, st') \<Longrightarrow> cs = succs t"
begin

lemma dfs_closed:
  "dfs keys v work seen st = Inr (seen', st') \<Longrightarrow> v = visit \<Longrightarrow>
     set seen \<subseteq> set seen' \<and> set work \<subseteq> set seen' \<and> set seen' \<subseteq> set seen \<union> set keys \<and>
     (\<forall>t \<in> set seen' - set seen. set (succs t) \<subseteq> set seen')"
proof (induction keys v work seen st rule: dfs.induct)
  case (1 keys v seen st)
  then show ?case by simp
next
  case (2 keys v t work seen st)
  show ?case
  proof (cases "t \<in> set seen")
    case True
    then show ?thesis using 2 by auto
  next
    case False
    then obtain cs st1 where v: "visit t st = Inr (cs, st1)" "t \<in> set keys"
      "dfs keys visit (cs @ work) (sadd t seen) st1 = Inr (seen', st')"
      using 2(3) 2(4) by (auto simp: res_simps split: if_splits)
    have "set (sadd t seen) \<subseteq> set seen' \<and> set (cs @ work) \<subseteq> set seen' \<and> set seen' \<subseteq> set (sadd t seen) \<union> set keys \<and>
        (\<forall>u \<in> set seen' - set (sadd t seen). set (succs u) \<subseteq> set seen')"
      using 2(2) [of "(cs, st1)" cs st1] 2(4) False v by simp
    then show ?thesis using visit_succs [OF v(1)] v(2) by auto
  qed
qed

lemma dfs_reach:
  "dfs keys v work seen st = Inr (seen', st') \<Longrightarrow> v = visit \<Longrightarrow>
     set seen' \<subseteq> set seen \<union> (edges_of succs)\<^sup>* `` set work"
proof (induction keys v work seen st rule: dfs.induct)
  case (1 keys v seen st)
  then show ?case by simp
next
  case (2 keys v t work seen st)
  show ?case
  proof (cases "t \<in> set seen")
    case True
    then show ?thesis using 2 by auto
  next
    case False
    then obtain cs st1 where v: "visit t st = Inr (cs, st1)" "t \<in> set keys"
      "dfs keys visit (cs @ work) (sadd t seen) st1 = Inr (seen', st')"
      using 2(3) 2(4) by (auto simp: res_simps split: if_splits)
    have *: "set seen' \<subseteq> set (sadd t seen) \<union> (edges_of succs)\<^sup>* `` set (cs @ work)"
      using 2(2) [of "(cs, st1)" cs st1] 2(4) False v by simp
    let ?R = "(edges_of succs)\<^sup>*"
    have "?R `` set cs \<subseteq> ?R `` {t}"
      using visit_succs [OF v(1)] by (auto simp: edges_of_def intro: converse_rtrancl_into_rtrancl)
    moreover have "t \<in> ?R `` {t}" by auto
    moreover have "set seen' \<subseteq> insert t (set seen) \<union> (?R `` set cs \<union> ?R `` set work)"
      using * by (simp add: Image_Un)
    ultimately have "set seen' \<subseteq> set seen \<union> (?R `` {t} \<union> ?R `` set work)" by (rule subset_via)
    moreover have "?R `` {t} \<union> ?R `` set work = ?R `` set (t # work)" by auto
    ultimately show ?thesis by simp
  qed
qed

lemma dfs_state:
  "dfs keys v work seen st = Inr (seen', st') \<Longrightarrow> v = visit \<Longrightarrow> P seen st \<Longrightarrow>
    (\<And>t seen st cs st'. t \<in> set keys \<Longrightarrow> t \<notin> set seen \<Longrightarrow> visit t st = Inr (cs, st') \<Longrightarrow> P seen st \<Longrightarrow> P (sadd t seen) st') \<Longrightarrow>
    P seen' st'"
proof (induction keys v work seen st rule: dfs.induct)
  case (1 keys v seen st)
  then show ?case by simp
next
  case (2 keys v t work seen st)
  show ?case
  proof (cases "t \<in> set seen")
    case True
    then show ?thesis using 2 by auto
  next
    case False
    then obtain cs st1 where v: "visit t st = Inr (cs, st1)" "t \<in> set keys"
      "dfs keys visit (cs @ work) (sadd t seen) st1 = Inr (seen', st')"
      using 2(3) 2(4) by (auto simp: res_simps split: if_splits)
    have "P (sadd t seen) st1" using 2(6) [OF v(2) False v(1) 2(5)] .
    then show ?thesis using 2(2) [of "(cs, st1)" cs st1] 2(4,6) False v by simp
  qed
qed

end

end
