(* ===== verification/RunQueueData.thy ===== *)
theory RunQueueData
  imports Prelude TaskIds TaskGraph TaskData Worklist
begin

text \<open>
  \<open>RunQueueData\<close> of \<open>bitbake/lib/bb/runqueue.py\<close>: \<open>prepare\<close> turns the task data into the graph of
  tasks to run.  The dependencies of every kind are resolved to task identifiers (step A and the
  recursive ones), the tasks needed for the targets are marked and the others pruned (steps B and
  C), reverse dependencies and weights are computed, cycles are refused, and every task gets its
  hash from the signature generator (step D).

  \<open>tds\<close> is \<open>self.taskData\<close> and \<open>dcs\<close> is \<open>self.dataCaches\<close>, both by multiconfig name.  Log messages,
  progress reports and the texts of fatal errors are left out.
\<close>

section \<open>Step A: the dependencies of every task\<close>

type_synonym mctd = "(string, taskdata) dict"
type_synonym mcdc = "(string, cachedata) dict"

record prep =
  p_entries :: "string graph"
  p_recursive :: "(string, string list) dict"
  p_reci :: "(string, string list) dict"
  p_selfref :: "string list"

definition add_target_dependencies ::
  "(string, string list) dict \<Rightarrow> taskdata \<Rightarrow> string list \<Rightarrow> string list \<Rightarrow> string list \<Rightarrow> string list" where
  "add_target_dependencies targets td depids tasknames depends =
     fold (\<lambda>depname depends.
        (case dgetd targets depname [] of
           [] \<Rightarrow> depends
         | depdata # _ \<Rightarrow>
             fold (\<lambda>taskname depends.
                let t = depdata @ [colon] @ taskname
                in if t \<in> set (dkeys (td_taskentries td)) then sadd t depends else depends) tasknames depends))
       depids depends"

definition add_build_dependencies :: "taskdata \<Rightarrow> string list \<Rightarrow> string list \<Rightarrow> string list \<Rightarrow> string list" where
  "add_build_dependencies td = add_target_dependencies (td_build_targets td) td"

definition add_runtime_dependencies :: "taskdata \<Rightarrow> string list \<Rightarrow> string list \<Rightarrow> string list \<Rightarrow> string list" where
  "add_runtime_dependencies td = add_target_dependencies (td_run_targets td) td"

definition add_tdepend :: "string \<Rightarrow> string \<Rightarrow> string list \<Rightarrow> string list res" where
  "add_tdepend mc t depends =
     rbind (split_tid_mcfn t) (\<lambda>(_, depfn, deptaskname, _). Inr (sadd (build_tid mc depfn deptaskname) depends))"

text \<open>\<open>depends\<close> and \<open>rdepends\<close> flags: a target known to be provided must have the task asked for.\<close>

definition need_task :: "taskdata \<Rightarrow> string \<Rightarrow> string list \<Rightarrow> string list res" where
  "need_task td t depends = (if t \<in> set (dkeys (td_taskentries td)) then Inr (sadd t depends) else Inl Fatal)"

definition add_idepend :: "taskdata \<Rightarrow> string \<times> string \<Rightarrow> string list \<Rightarrow> string list res" where
  "add_idepend td d depends =
     (case dgetd (td_build_targets td) (fst d) [] of
        [] \<Rightarrow> Inr depends
      | depdata # _ \<Rightarrow>
          if fst d \<in> set (td_failed_deps td) then Inr depends
          else need_task td (depdata @ [colon] @ snd d) depends)"

definition add_irdepend :: "taskdata \<Rightarrow> string \<times> string \<Rightarrow> string list \<Rightarrow> string list res" where
  "add_irdepend td d depends =
     (case dget (td_run_targets td) (fst d) of
        None \<Rightarrow> Inr depends
      | Some [] \<Rightarrow> Inl IndexError
      | Some (depdata # _) \<Rightarrow> need_task td (depdata @ [colon] @ snd d) depends)"

definition with_flag ::
  "taskdeps \<Rightarrow> string \<Rightarrow> string \<Rightarrow> (string list \<Rightarrow> 'a \<Rightarrow> 'a res) \<Rightarrow> 'a \<Rightarrow> 'a res" where
  "with_flag task_deps flag taskname f x =
     (case task_flag task_deps flag taskname of None \<Rightarrow> Inr x | Some v \<Rightarrow> f (split_ws v) x)"

text \<open>\<open>recrdeptask\<close>, part A: the direct dependencies, and the notes for the recursive part.\<close>

definition note_recursive ::
  "taskdata \<Rightarrow> taskdeps \<Rightarrow> string \<Rightarrow> string \<Rightarrow> string \<Rightarrow> string \<Rightarrow> string \<Rightarrow> string list \<Rightarrow> string list \<times> prep \<Rightarrow>
   (string list \<times> prep) res" where
  "note_recursive td task_deps tid mc fn taskname taskfn tasknames dp =
     rbind (dlookup (td_depids td) taskfn) (\<lambda>depids.
     rbind (dlookup (td_rdepids td) taskfn) (\<lambda>rdepids.
       let depends = add_runtime_dependencies td rdepids tasknames (add_build_dependencies td depids tasknames (fst dp));
           p = (snd dp)\<lparr>p_recursive := dset tid tasknames (p_recursive (snd dp)),
                 p_selfref := (if taskname \<in> set tasknames then sadd tid (p_selfref (snd dp)) else p_selfref (snd dp))\<rparr>
       in Inr (depends,
            (case task_flag task_deps ''recideptask'' taskname of
               None \<Rightarrow> p
             | Some v \<Rightarrow> p\<lparr>p_reci := dset tid (map (build_tid mc fn) (split_ws v)) (p_reci p)\<rparr>))))"

text \<open>The dependencies of a task other than the recursive ones.\<close>

definition direct_depends :: "taskdata \<Rightarrow> taskdeps \<Rightarrow> string \<Rightarrow> string \<Rightarrow> string \<Rightarrow> taskentry \<Rightarrow> string list res" where
  "direct_depends td task_deps mc taskname taskfn e =
     rbind (rfold (add_tdepend mc) (te_tdepends e) []) (\<lambda>depends.
     rbind (with_flag task_deps ''deptask'' taskname (\<lambda>tasknames depends.
              rbind (dlookup (td_depids td) taskfn) (\<lambda>depids.
                Inr (add_build_dependencies td depids tasknames depends))) depends) (\<lambda>depends.
     rbind (with_flag task_deps ''rdeptask'' taskname (\<lambda>tasknames depends.
              rbind (dlookup (td_rdepids td) taskfn) (\<lambda>rdepids.
                Inr (add_runtime_dependencies td rdepids tasknames depends))) depends) (\<lambda>depends.
     rbind (rfold (add_idepend td) (te_idepends e) depends) (\<lambda>depends.
       rfold (add_irdepend td) (te_irdepends e) depends))))"

definition resolve_task :: "mctd \<Rightarrow> mcdc \<Rightarrow> string \<Rightarrow> prep \<Rightarrow> prep res" where
  "resolve_task tds dcs tid p =
     rbind (split_tid_mcfn tid) (\<lambda>(mc, fn, taskname, taskfn).
     rbind (dlookup dcs mc) (\<lambda>dc.
     rbind (dlookup (c_task_deps dc) taskfn) (\<lambda>task_deps.
     rbind (dlookup tds mc) (\<lambda>td.
       let p = p\<lparr>p_entries := dset tid new_rte (p_entries p)\<rparr>
       in if fn \<in> set (td_failed_fns td) then Inr p
          else rbind (dlookup (td_taskentries td) tid) (\<lambda>e.
          rbind (direct_depends td task_deps mc taskname taskfn e) (\<lambda>depends.
          rbind (with_flag task_deps ''recrdeptask'' taskname
                   (note_recursive td task_deps tid mc fn taskname taskfn) (depends, p)) (\<lambda>(depends, p).
            Inr (p\<lparr>p_entries := dset tid (new_rte\<lparr>rt_depends := depends\<rparr>) (p_entries p)\<rparr>))))))))"

definition step_a :: "mctd \<Rightarrow> mcdc \<Rightarrow> prep res" where
  "step_a tds dcs =
     rfold (\<lambda>(_, td). rfold (resolve_task tds dcs) (dkeys (td_taskentries td))) tds
       \<lparr>p_entries = [], p_recursive = [], p_reci = [], p_selfref = []\<rparr>"

section \<open>Step A, part B: recursive dependencies\<close>

text \<open>The tasks of the same file that exist, and the tasks that \<open>generate_recdeps\<close> goes on to.\<close>

definition add_resolved_dependencies :: "string graph \<Rightarrow> string \<Rightarrow> string \<Rightarrow> string list \<Rightarrow> string list \<Rightarrow> string list" where
  "add_resolved_dependencies g mc fn tasknames depends =
     fold (\<lambda>taskname depends. let tid = build_tid mc fn taskname
        in if tid \<in> set (dkeys g) then sadd tid depends else depends) tasknames depends"

definition recdeps_visit ::
  "string graph \<Rightarrow> string list \<Rightarrow> string \<Rightarrow> string list \<Rightarrow> (string list \<times> string list) res" where
  "recdeps_visit g tasknames t extra =
     rbind (split_tid_mcfn t) (\<lambda>(mc, fn, taskname, _).
       let newdeps = add_resolved_dependencies g mc fn tasknames []
       in Inr (concat (map (deps g) (t # removeAll t newdeps)), sunion extra newdeps))"

text \<open>\<open>generate_recdeps(t)\<close> at the outermost level: \<open>t\<close> is expanded even if it was seen before.\<close>

definition generate_recdeps ::
  "string graph \<Rightarrow> string list \<Rightarrow> string \<Rightarrow> string list \<times> string list \<Rightarrow> (string list \<times> string list) res" where
  "generate_recdeps g tasknames t se =
     rbind (recdeps_visit g tasknames t (snd se)) (\<lambda>(children, extra).
       if t \<notin> set (dkeys g) then Inl KeyError
       else dfs (dkeys g) (recdeps_visit g tasknames) children (sadd t (fst se)) extra)"

definition recursive_deps :: "prep \<Rightarrow> string \<times> string list \<Rightarrow> (string, string list) dict \<Rightarrow> (string, string list) dict res" where
  "recursive_deps p entry extradeps =
     (let tid = fst entry; tasknames = snd entry; g = p_entries p
      in rbind (dlookup g tid) (\<lambda>e.
         rbind (generate_recdeps g tasknames tid ([], rt_depends e)) (\<lambda>se.
         rbind (rfold (generate_recdeps g tasknames) (dgetd (p_reci p) tid []) se) (\<lambda>se.
           Inr (dset tid (snd se) extradeps)))))"

definition final_depends :: "prep \<Rightarrow> (string, string list) dict \<Rightarrow> string \<Rightarrow> string rte \<Rightarrow> string rte" where
  "final_depends p extradeps tid e =
     (let depends = (case dget extradeps tid of
                       None \<Rightarrow> rt_depends e
                     | Some extra \<Rightarrow> filter (\<lambda>d. d \<notin> set (p_selfref p)) extra)
      in e\<lparr>rt_depends := remove1 tid depends\<rparr>)"

definition part_b :: "prep \<Rightarrow> string graph res" where
  "part_b p =
     rbind (rfold (recursive_deps p) (p_recursive p) []) (\<lambda>extradeps.
       Inr (map (\<lambda>(tid, e). (tid, final_depends p extradeps tid e)) (p_entries p)))"

section \<open>Steps B and C: active tasks\<close>

definition mark_visit :: "'t graph \<Rightarrow> 't \<Rightarrow> unit \<Rightarrow> ('t list \<times> unit) res" where
  "mark_visit g t u = rbind (dlookup g t) (\<lambda>e. Inr (rt_depends e, ()))"

definition mark_active :: "'t graph \<Rightarrow> 't list \<Rightarrow> 't list \<Rightarrow> 't list res" where
  "mark_active g tids active = rbind (dfs (dkeys g) (mark_visit g) tids active ()) (\<lambda>(active, _). Inr active)"

type_synonym target = "string \<times> string \<times> string \<times> string"

text \<open>A target asks for a task, or with a trailing dash for the dependencies of a task.\<close>

definition mark_target :: "mctd \<Rightarrow> string graph \<Rightarrow> target \<Rightarrow> string list \<times> string list \<Rightarrow> (string list \<times> string list) res" where
  "mark_target tds g tgt st =
     (case tgt of (mc, target, task, fn) \<Rightarrow>
       rbind (dlookup tds mc) (\<lambda>td.
         if dgetd (td_build_targets td) target [] = [] \<or> target \<in> set (td_failed_deps td) then Inr st
         else let parents = endswith task ''-''; task = (if parents then butlast task else task)
           in if fn \<in> set (td_failed_fns td) then Inr st
              else let tid = fn @ [colon] @ task; target_tids = snd st @ [tid]
                in if tid \<notin> set (dkeys (td_taskentries td)) then Inl Fatal
                   else rbind (if parents
                               then rbind (dlookup g tid) (\<lambda>e. mark_active g (rt_depends e) (fst st))
                               else mark_active g [tid] (fst st)) (\<lambda>active.
                        Inr (active, target_tids))))"

definition steps_bc :: "mctd \<Rightarrow> string graph \<Rightarrow> target list \<Rightarrow> (string graph \<times> string list) res" where
  "steps_bc tds g targets =
     rbind (rfold (mark_target tds g) targets ([], [])) (\<lambda>(active, target_tids).
       let pruned = filter (\<lambda>(tid, e). tid \<in> set active) g
       in if pruned = [] then rbind (dlookup tds []) (\<lambda>_. Inl Fatal) else Inr (pruned, target_tids))"

section \<open>Step D: reverse dependencies and cycles\<close>

definition add_revdep :: "'t \<Rightarrow> 't \<Rightarrow> 't graph \<Rightarrow> 't graph res" where
  "add_revdep tid dep g =
     rbind (dlookup g dep) (\<lambda>e. Inr (dset dep (e\<lparr>rt_revdeps := sadd tid (rt_revdeps e)\<rparr>) g))"

definition add_revdeps :: "'t graph \<Rightarrow> 't graph res" where
  "add_revdeps g = rfold (\<lambda>(tid, e). rfold (add_revdep tid) (rt_depends e)) g g"

definition loop_of_two :: "'t graph \<Rightarrow> bool" where
  "loop_of_two g = list_ex (\<lambda>(tid, e). list_ex (\<lambda>dep. dep \<in> set (rt_depends e)) (rt_revdeps e)) g"

definition find_endpoints :: "'t graph \<Rightarrow> 't list res" where
  "find_endpoints g =
     (if loop_of_two g then Inl Fatal else Inr (map fst (filter (\<lambda>(tid, e). rt_revdeps e = []) g)))"

text \<open>
  \<open>circular_depchains_handler\<close>: the search for the loops to print.  A call that has found more than
  ten loops returns without recording what it explored, so its caller reads a missing key.
\<close>

definition chain_reorder :: "('t :: linorder) list \<Rightarrow> 't list" where
  "chain_reorder chain =
     (let lowest = fold (\<lambda>entry lowest. if chain ! entry < chain ! lowest then entry else lowest) [0..<length chain] 0
      in drop lowest chain @ take lowest chain)"

record 't chains =
  ch_valid :: "'t list list"
  ch_explored :: "('t, 't list) dict"

definition needs_scan :: "'t \<Rightarrow> 't list \<Rightarrow> 't chains \<Rightarrow> bool" where
  "needs_scan revdep prev_chain st =
     (case dget (ch_explored st) revdep of
        None \<Rightarrow> True
      | Some ds \<Rightarrow> revdep \<in> set ds \<or> list_ex (\<lambda>dep. dep \<in> set ds) prev_chain)"

definition note_chain :: "('t :: linorder) \<Rightarrow> 't list \<Rightarrow> 't chains \<Rightarrow> 't chains" where
  "note_chain revdep prev_chain st =
     (let new_chain = chain_reorder (dropWhile (\<lambda>t. t \<noteq> revdep) prev_chain)
      in if new_chain \<in> set (ch_valid st) then st else st\<lparr>ch_valid := ch_valid st @ [new_chain]\<rparr>)"

text \<open>The fuel bounds the length of the chain, which never repeats a task.\<close>

fun find_chains :: "nat \<Rightarrow> ('t :: linorder) graph \<Rightarrow> 't \<Rightarrow> 't list \<Rightarrow> 't chains \<Rightarrow> 't chains res"
  and follow_revdeps :: "nat \<Rightarrow> ('t :: linorder) graph \<Rightarrow> 't list \<Rightarrow> 't list \<Rightarrow> 't list \<Rightarrow> 't chains \<Rightarrow> ('t list option \<times> 't chains) res" where
  "find_chains 0 g tid prev_chain st = Inl OutOfFuel"
| "find_chains (Suc n) g tid prev_chain st =
     (let prev_chain = prev_chain @ [tid]
      in rbind (dlookup g tid) (\<lambda>e.
         rbind (follow_revdeps n g prev_chain (rt_revdeps e) (rt_revdeps e) st) (\<lambda>(total_deps, st).
           Inr (case total_deps of None \<Rightarrow> st | Some ds \<Rightarrow> st\<lparr>ch_explored := dset tid ds (ch_explored st)\<rparr>))))"
| "follow_revdeps n g prev_chain [] total_deps st = Inr (Some total_deps, st)"
| "follow_revdeps n g prev_chain (revdep # revdeps) total_deps st =
     (if revdep \<in> set prev_chain then
        let st = note_chain revdep prev_chain st
        in if length (ch_valid st) > 10 then Inr (None, st)
           else follow_revdeps n g prev_chain revdeps total_deps st
      else rbind (if needs_scan revdep prev_chain st then find_chains n g revdep prev_chain st else Inr st) (\<lambda>st.
           rbind (dlookup (ch_explored st) revdep) (\<lambda>ds.
             follow_revdeps n g prev_chain revdeps (sunion total_deps ds) st)))"

definition circular_depchains_handler :: "('t :: linorder) graph \<Rightarrow> 't list \<Rightarrow> 't list list res" where
  "circular_depchains_handler g tasks =
     rbind (rfold (\<lambda>task. find_chains (Suc (length g)) g task []) tasks \<lparr>ch_valid = [], ch_explored = []\<rparr>) (\<lambda>st.
       Inr (ch_valid st))"

definition calculate_task_weights :: "('t :: linorder) graph \<Rightarrow> 't list \<Rightarrow> 't graph res" where
  "calculate_task_weights g endpoints =
     rbind (weigh_tasks g endpoints) (\<lambda>(g, problem_tasks).
       if problem_tasks = [] then Inr g
       else rbind (circular_depchains_handler g problem_tasks) (\<lambda>_. Inl Fatal))"

section \<open>Step D: providers, white lists and hashes\<close>

record rqconfig =
  cf_stampwhitelist :: string
  cf_multi_provider_whitelist :: "string list"
  cf_nosetscene :: bool
  cf_force :: bool
  cf_invalidate_stamp :: string

text \<open>The files of one configuration that are built for every provided name.\<close>

definition note_provider ::
  "string \<Rightarrow> cachedata \<Rightarrow> string \<Rightarrow> string list \<times> (string, string list) dict \<Rightarrow>
   (string list \<times> (string, string list) dict) res" where
  "note_provider mc dc tid st =
     rbind (split_tid_mcfn tid) (\<lambda>(tidmc, fn, taskname, taskfn).
       if taskfn \<in> set (fst st) \<or> mc \<noteq> tidmc then Inr st
       else rbind (dlookup (c_fn_provides dc) taskfn) (\<lambda>provs.
         Inr (fst st @ [taskfn], fold (\<lambda>prov. dappend_new prov taskfn) provs (snd st))))"

text \<open>Two files of the same package name that provide the same name are fatal; other duplicates are only reported.\<close>

fun same_pn_twice :: "cachedata \<Rightarrow> string list \<Rightarrow> string list \<Rightarrow> bool res" where
  "same_pn_twice dc seen_pn [] = Inr False"
| "same_pn_twice dc seen_pn (fn # fns) =
     rbind (dlookup (c_pkg_fn dc) fn) (\<lambda>pn.
       if pn \<in> set seen_pn then Inr True else same_pn_twice dc (seen_pn @ [pn]) fns)"

definition check_provider :: "rqconfig \<Rightarrow> cachedata \<Rightarrow> string \<times> string list \<Rightarrow> unit \<Rightarrow> unit res" where
  "check_provider cf dc entry u =
     (if length (snd entry) < 2 \<or> fst entry \<in> set (cf_multi_provider_whitelist cf) then Inr ()
      else rbind (same_pn_twice dc [] (snd entry)) (\<lambda>twice. if twice then Inl Fatal else Inr ()))"

definition check_multi_providers :: "rqconfig \<Rightarrow> mcdc \<Rightarrow> string graph \<Rightarrow> unit res" where
  "check_multi_providers cf dcs g =
     rfold (\<lambda>(mc, dc) u.
       rbind (rfold (note_provider mc dc) (dkeys g) ([], [])) (\<lambda>(_, prov_list).
         rfold (check_provider cf dc) prov_list ())) dcs ()"

text \<open>\<open>self.taskData\<close> is the dictionary of all configurations, which has no \<open>build_targets\<close>.\<close>

definition stamp_whitelist :: "rqconfig \<Rightarrow> mctd \<Rightarrow> (string, string list) dict res" where
  "stamp_whitelist cf tds =
     rfold (\<lambda>(mc, td) wl.
       if list_ex (\<lambda>entry. entry \<in> set (dkeys (td_build_targets td))) (split_ws (cf_stampwhitelist cf))
       then Inl AttributeError else Inr (dset mc [] wl)) tds []"

definition setscene_tids :: "rqconfig \<Rightarrow> mctd \<Rightarrow> string graph \<Rightarrow> string list res" where
  "setscene_tids cf tds g =
     (if cf_nosetscene cf then Inr []
      else rfold (\<lambda>tid tids.
        rbind (split_tid_mcfn tid) (\<lambda>(mc, fn, taskname, _).
        rbind (dlookup tds mc) (\<lambda>td.
          Inr (if (tid @ ''_setscene'') \<in> set (dkeys (td_taskentries td)) then tids @ [tid] else tids))))
        (dkeys g) [])"

text \<open>\<open>invalidate_task\<close>: the signature generator is told to invalidate a task of a file.\<close>

definition invalidate_task ::
  "mcdc \<Rightarrow> string \<Rightarrow> bool \<Rightarrow> (string \<times> string) list \<Rightarrow> (string \<times> string) list res" where
  "invalidate_task dcs tid error_nostamp invl =
     rbind (split_tid_mcfn tid) (\<lambda>(mc, fn, taskname, taskfn).
     rbind (dlookup dcs mc) (\<lambda>dc.
     rbind (dlookup (c_task_deps dc) taskfn) (\<lambda>taskdep.
       if task_flag taskdep ''nostamp'' taskname \<noteq> None
       then (if error_nostamp then Inl Fatal else Inr invl)
       else Inr (invl @ [(taskname, fn)]))))"

definition invalidated :: "rqconfig \<Rightarrow> mcdc \<Rightarrow> string list \<Rightarrow> (string \<times> string) list res" where
  "invalidated cf dcs target_tids =
     rbind (if cf_force cf then rfold (\<lambda>tid. invalidate_task dcs tid False) target_tids [] else Inr []) (\<lambda>invl.
       if cf_invalidate_stamp cf = [] then Inr invl
       else rfold (\<lambda>tid invl.
         rfold (\<lambda>st. invalidate_task dcs
                  (fn_from_tid tid @ [colon] @ (if startswith st ''do_'' then st else ''do_'' @ st)) True)
           (split_on CHR '','' (cf_invalidate_stamp cf)) invl) target_tids invl)"

text \<open>
  The loop over the tasks for their hashes; \<open>siggen tid procdep\<close> stands for the call of
  \<open>get_taskhash\<close> on the state of the signature generator.  The fuel bounds the rounds.
\<close>

record ('t, 'g) hashing =
  h_entries :: "'t graph"
  h_dealt :: "'t list"
  h_todeal :: "'t list"
  h_siggen :: 'g

definition hash_step ::
  "('t \<Rightarrow> 't list \<Rightarrow> 'g \<Rightarrow> ('g \<times> string) res) \<Rightarrow> 't \<Rightarrow> ('t, 'g) hashing \<Rightarrow> ('t, 'g) hashing res" where
  "hash_step siggen tid h =
     rbind (dlookup (h_entries h) tid) (\<lambda>e.
       if \<not> set (rt_depends e) \<subseteq> set (h_dealt h) then Inr h
       else rbind (siggen tid (rt_depends e) (h_siggen h)) (\<lambda>(g, hash).
         Inr (h\<lparr>h_dealt := h_dealt h @ [tid], h_todeal := remove1 tid (h_todeal h), h_siggen := g,
                h_entries := dset tid (e\<lparr>rt_hash := Some hash\<rparr>) (h_entries h)\<rparr>)))"

fun hash_loop ::
  "('t \<Rightarrow> 't list \<Rightarrow> 'g \<Rightarrow> ('g \<times> string) res) \<Rightarrow> nat \<Rightarrow> ('t, 'g) hashing \<Rightarrow> ('t, 'g) hashing res" where
  "hash_loop siggen fuel h =
     (if h_todeal h = [] then Inr h
      else (case fuel of
              0 \<Rightarrow> Inl OutOfFuel
            | Suc n \<Rightarrow> rbind (rfold (hash_step siggen) (h_todeal h) h) (hash_loop siggen n)))"

declare hash_loop.simps [simp del]

text \<open>What \<open>get_taskhash\<close> is called with: file, task, the names of the dependencies and the cache.\<close>

definition call_siggen ::
  "(string \<Rightarrow> string \<Rightarrow> string list \<Rightarrow> cachedata \<Rightarrow> 'g \<Rightarrow> ('g \<times> string) res) \<Rightarrow> mcdc \<Rightarrow> string \<Rightarrow> string list \<Rightarrow> 'g \<Rightarrow>
   ('g \<times> string) res" where
  "call_siggen get_taskhash dcs tid depends g =
     rbind (rmap (\<lambda>dep. rbind (taskname_from_tid dep) (\<lambda>t. Inr (fn_from_tid dep @ ''.'' @ t))) depends) (\<lambda>procdep.
     rbind (split_tid_mcfn tid) (\<lambda>(mc, fn, taskname, taskfn).
     rbind (dlookup dcs mc) (\<lambda>dc. get_taskhash taskfn taskname procdep dc g)))"

section \<open>prepare\<close>

record 'g rqdata =
  rq_entries :: "string graph"
  rq_target_tids :: "string list"
  rq_setscene_tids :: "string list"
  rq_stampfnwhitelist :: "(string, string list) dict"
  rq_invalidated :: "(string \<times> string) list"
  rq_siggen :: 'g

text \<open>The graph before hashing: closed, without cycles, with reverse dependencies and weights.\<close>

definition prepare_graph :: "mctd \<Rightarrow> mcdc \<Rightarrow> target list \<Rightarrow> (string graph \<times> string list) res" where
  "prepare_graph tds dcs targets =
     rbind (step_a tds dcs) (\<lambda>p.
     rbind (part_b p) (\<lambda>g.
     rbind (steps_bc tds g targets) (\<lambda>(g, target_tids).
     rbind (add_revdeps g) (\<lambda>g.
     rbind (find_endpoints g) (\<lambda>endpoints.
     rbind (calculate_task_weights g endpoints) (\<lambda>g. Inr (g, target_tids)))))))"

text \<open>\<open>None\<close> when there is nothing to do.\<close>

definition prepare ::
  "(string \<Rightarrow> string \<Rightarrow> string list \<Rightarrow> cachedata \<Rightarrow> 'g \<Rightarrow> ('g \<times> string) res) \<Rightarrow> rqconfig \<Rightarrow> mctd \<Rightarrow> mcdc \<Rightarrow> target list \<Rightarrow>
   'g \<Rightarrow> 'g rqdata option res" where
  "prepare get_taskhash cf tds dcs targets siggen =
     (if list_all (\<lambda>(mc, td). td_taskentries td = []) tds then Inr None
      else rbind (prepare_graph tds dcs targets) (\<lambda>(g, target_tids).
           rbind (check_multi_providers cf dcs g) (\<lambda>_.
           rbind (stamp_whitelist cf tds) (\<lambda>wl.
           rbind (setscene_tids cf tds g) (\<lambda>setscene.
           rbind (invalidated cf dcs target_tids) (\<lambda>invl.
           rbind (hash_loop (call_siggen get_taskhash dcs) (length g)
                    \<lparr>h_entries = g, h_dealt = [], h_todeal = dkeys g, h_siggen = siggen\<rparr>) (\<lambda>h.
             Inr (Some \<lparr>rq_entries = h_entries h, rq_target_tids = target_tids, rq_setscene_tids = setscene,
                        rq_stampfnwhitelist = wl, rq_invalidated = invl, rq_siggen = h_siggen h\<rparr>))))))))"

section \<open>The list of tasks that may run when setscene is enforced\<close>

text \<open>\<open>args\<close> is \<open>sys.argv[1:]\<close>; \<open>fnmatch\<close> is the function of the standard library.\<close>

definition get_setscene_enforce_whitelist :: "config \<Rightarrow> string list \<Rightarrow> string list option res" where
  "get_setscene_enforce_whitelist cfg args =
     (if cfg ''BB_SETSCENE_ENFORCE'' \<noteq> Some ''1'' then Inr None
      else rbind (rmap (\<lambda>item.
             if startswith item ''%:'' then
               Inr (map (\<lambda>target. hd (split_on colon target) @ [colon] @ split_on colon item ! 1)
                      (filter (\<lambda>target. \<not> startswith target ''-'') args))
             else Inr [item])
           (split_ws (case cfg ''BB_SETSCENE_ENFORCE_WHITELIST'' of None \<Rightarrow> [] | Some v \<Rightarrow> v)))
           (\<lambda>items. Inr (Some (concat items))))"

definition check_setscene_enforce_whitelist ::
  "(string \<Rightarrow> string \<Rightarrow> bool) \<Rightarrow> string \<Rightarrow> string \<Rightarrow> string list option \<Rightarrow> bool" where
  "check_setscene_enforce_whitelist fnmatch pn taskname whitelist =
     (case whitelist of
        None \<Rightarrow> True
      | Some [] \<Rightarrow> True
      | Some items \<Rightarrow> list_ex (fnmatch (pn @ [colon] @ taskname)) items)"

section \<open>What the walks visit\<close>

text \<open>The successors of a task for \<open>mark_active\<close> and for \<open>generate_recdeps\<close>.\<close>

definition recdeps_succs :: "string graph \<Rightarrow> string list \<Rightarrow> string \<Rightarrow> string list" where
  "recdeps_succs g tasknames t =
     (case recdeps_visit g tasknames t [] of Inl e \<Rightarrow> [] | Inr (children, extra) \<Rightarrow> children)"

interpretation active: graph_walk "mark_visit g" "deps g" for g :: "'t graph"
  by unfold_locales (auto simp: mark_visit_def deps_def res_simps)

interpretation recdeps: graph_walk "recdeps_visit g tasknames" "recdeps_succs g tasknames" for g tasknames
  by unfold_locales (auto simp: recdeps_visit_def recdeps_succs_def res_simps Let_def split: sum.splits prod.splits)

section \<open>The graph that prepare hands over\<close>

text \<open>Before reverse dependencies are computed: no task twice, no dependency twice, no reverse dependency.\<close>

definition fresh_graph :: "'t graph \<Rightarrow> bool" where
  "fresh_graph g \<longleftrightarrow> dwf g \<and> (\<forall>t e. dget g t = Some e \<longrightarrow> distinct (rt_depends e) \<and> rt_revdeps e = [])"

named_theorems keeps_distinct

lemma rfold_distinct:
  assumes "rfold f xs s = Inr t" "distinct s" "\<And>x u v. distinct u \<Longrightarrow> f x u = Inr v \<Longrightarrow> distinct v"
  shows "distinct t"
  using rfold_inv [of f xs s t distinct] assms by blast

lemma fold_distinct: "distinct s \<Longrightarrow> (\<And>x u. distinct u \<Longrightarrow> distinct (f x u)) \<Longrightarrow> distinct (fold f xs s)"
  by (induction xs arbitrary: s) auto

lemma add_target_dependencies_distinct [keeps_distinct]:
  "distinct ds \<Longrightarrow> distinct (add_target_dependencies targets td depids tasknames ds)"
  unfolding add_target_dependencies_def
  by (intro fold_distinct) (auto simp: Let_def split: list.split intro!: fold_distinct)

lemma add_build_dependencies_distinct [keeps_distinct]:
  "distinct ds \<Longrightarrow> distinct (add_build_dependencies td depids tasknames ds)"
  by (simp add: add_build_dependencies_def add_target_dependencies_distinct)

lemma add_runtime_dependencies_distinct [keeps_distinct]:
  "distinct ds \<Longrightarrow> distinct (add_runtime_dependencies td depids tasknames ds)"
  by (simp add: add_runtime_dependencies_def add_target_dependencies_distinct)

lemma add_tdepend_distinct: "distinct u \<Longrightarrow> add_tdepend mc t u = Inr v \<Longrightarrow> distinct v"
  by (auto simp: add_tdepend_def res_simps)

lemma add_idepend_distinct: "distinct u \<Longrightarrow> add_idepend td d u = Inr v \<Longrightarrow> distinct v"
  by (auto simp: add_idepend_def need_task_def split: list.splits if_splits)

lemma add_irdepend_distinct: "distinct u \<Longrightarrow> add_irdepend td d u = Inr v \<Longrightarrow> distinct v"
  by (auto simp: add_irdepend_def need_task_def split: list.splits option.splits if_splits)

lemma with_flag_inv:
  assumes "with_flag tdeps flag taskname f x = Inr y" "P x" "\<And>v z. f v x = Inr z \<Longrightarrow> P z"
  shows "P y"
  using assms by (auto simp: with_flag_def split: option.splits)

lemma note_recursive_keeps:
  "note_recursive td task_deps tid mc fn taskname taskfn tasknames dp = Inr z \<Longrightarrow> distinct (fst dp) \<Longrightarrow>
     distinct (fst z) \<and> p_entries (snd z) = p_entries (snd dp)"
  by (auto simp: note_recursive_def res_simps Let_def keeps_distinct split: option.splits)

lemma fresh_graph_dset: "fresh_graph g \<Longrightarrow> distinct ds \<Longrightarrow> fresh_graph (dset t (new_rte\<lparr>rt_depends := ds\<rparr>) g)"
  by (auto simp: fresh_graph_def new_rte_def)

lemma fresh_graph_new: "fresh_graph g \<Longrightarrow> fresh_graph (dset t new_rte g)"
  by (auto simp: fresh_graph_def new_rte_def)

lemma build_flag_distinct:
  "with_flag task_deps flag taskname (\<lambda>tasknames depends.
     rbind (dlookup table key) (\<lambda>depids. Inr (add_build_dependencies td depids tasknames depends))) d = Inr d' \<Longrightarrow>
   distinct d \<Longrightarrow> distinct d'"
  by (auto simp: with_flag_def res_simps keeps_distinct split: option.splits)

lemma run_flag_distinct:
  "with_flag task_deps flag taskname (\<lambda>tasknames depends.
     rbind (dlookup table key) (\<lambda>depids. Inr (add_runtime_dependencies td depids tasknames depends))) d = Inr d' \<Longrightarrow>
   distinct d \<Longrightarrow> distinct d'"
  by (auto simp: with_flag_def res_simps keeps_distinct split: option.splits)

lemma direct_depends_distinct:
  assumes "direct_depends td task_deps mc taskname taskfn e = Inr ds"
  shows "distinct ds"
  using assms unfolding direct_depends_def
proof (elim rbind_InrE)
  fix d1 d2 d3 d4
  assume d: "rfold (add_tdepend mc) (te_tdepends e) [] = Inr d1"
    "with_flag task_deps ''deptask'' taskname (\<lambda>tasknames depends.
       rbind (dlookup (td_depids td) taskfn) (\<lambda>depids.
         Inr (add_build_dependencies td depids tasknames depends))) d1 = Inr d2"
    "with_flag task_deps ''rdeptask'' taskname (\<lambda>tasknames depends.
       rbind (dlookup (td_rdepids td) taskfn) (\<lambda>rdepids.
         Inr (add_runtime_dependencies td rdepids tasknames depends))) d2 = Inr d3"
    "rfold (add_idepend td) (te_idepends e) d3 = Inr d4"
    "rfold (add_irdepend td) (te_irdepends e) d4 = Inr ds"
  have "distinct d1" by (rule rfold_distinct [OF d(1)]) (auto dest: add_tdepend_distinct)
  then have "distinct d3" by (rule run_flag_distinct [OF d(3) build_flag_distinct [OF d(2)]])
  then have "distinct d4" by (rule rfold_distinct [OF d(4)]) (auto dest: add_idepend_distinct)
  then show "distinct ds" by (rule rfold_distinct [OF d(5)]) (auto dest: add_irdepend_distinct)
qed

lemma resolve_task_fresh:
  assumes "resolve_task tds dcs tid p = Inr p'" "fresh_graph (p_entries p)"
  shows "fresh_graph (p_entries p')"
proof -
  let ?p = "p\<lparr>p_entries := dset tid new_rte (p_entries p)\<rparr>"
  have new: "fresh_graph (p_entries ?p)" using fresh_graph_new [OF assms(2)] by simp
  from assms(1) consider "p' = ?p" | td task_deps mc fn taskname taskfn e ds z where
      "direct_depends td task_deps mc taskname taskfn e = Inr ds"
      "with_flag task_deps ''recrdeptask'' taskname
         (note_recursive td task_deps tid mc fn taskname taskfn) (ds, ?p) = Inr z"
      "p' = (snd z)\<lparr>p_entries := dset tid (new_rte\<lparr>rt_depends := fst z\<rparr>) (p_entries (snd z))\<rparr>"
    unfolding resolve_task_def by (fastforce simp: Let_def res_simps split: if_splits)
  then show ?thesis
  proof cases
    case 1
    then show ?thesis using new by simp
  next
    case 2
    have "distinct (fst z) \<and> p_entries (snd z) = p_entries ?p"
      using with_flag_inv [OF 2(2), of "\<lambda>z. distinct (fst z) \<and> p_entries (snd z) = p_entries ?p"]
        direct_depends_distinct [OF 2(1)] note_recursive_keeps by fastforce
    then show ?thesis using 2(3) fresh_graph_dset [OF assms(2)] by simp
  qed
qed

lemma step_a_fresh:
  assumes "step_a tds dcs = Inr p"
  shows "fresh_graph (p_entries p)"
proof -
  let ?P = "\<lambda>p. fresh_graph (p_entries p)"
  let ?f = "\<lambda>(mc, td). rfold (resolve_task tds dcs) (dkeys (td_taskentries td))"
  have inner: "?P v" if u: "?P u" and f: "?f m u = Inr v" for m u v
  proof (cases m)
    case (Pair mc td)
    then have "rfold (resolve_task tds dcs) (dkeys (td_taskentries td)) u = Inr v" using f by simp
    then show ?thesis using u resolve_task_fresh by (rule rfold_inv [where P = ?P])
  qed
  have "?P \<lparr>p_entries = [], p_recursive = [], p_reci = [], p_selfref = []\<rparr>"
    by (simp add: fresh_graph_def dwf_def)
  then show ?thesis
    using rfold_inv [OF assms [unfolded step_a_def], of ?P] inner by blast
qed

lemma generate_recdeps_distinct:
  assumes "generate_recdeps g tasknames t se = Inr se'" "distinct (snd se)"
  shows "distinct (snd se')"
proof -
  obtain children extra where v: "recdeps_visit g tasknames t (snd se) = Inr (children, extra)"
    "dfs (dkeys g) (recdeps_visit g tasknames) children (sadd t (fst se)) extra = Inr (fst se', snd se')"
    using assms(1) by (auto simp: generate_recdeps_def res_simps split: if_splits)
  have step: "distinct e'" if "recdeps_visit g tasknames u e = Inr (cs, e')" "distinct e" for u e cs e'
    using that by (auto simp: recdeps_visit_def res_simps Let_def)
  have "distinct extra" using step v(1) assms(2) by blast
  then show ?thesis
    by (rule recdeps.dfs_state [OF v(2) refl, where P = "\<lambda>_ e. distinct e"]) (rule step)
qed

definition distinct_values :: "('t, 't list) dict \<Rightarrow> bool" where
  "distinct_values d = (\<forall>t ds. dget d t = Some ds \<longrightarrow> distinct ds)"

lemma distinct_values_dset: "distinct_values d \<Longrightarrow> distinct ds \<Longrightarrow> distinct_values (dset t ds d)"
  unfolding distinct_values_def dget_dset by (metis option.inject)

lemma recursive_deps_distinct:
  assumes "recursive_deps p entry ed = Inr ed'" "distinct_values ed" "fresh_graph (p_entries p)"
  shows "distinct_values ed'"
proof -
  let ?gen = "generate_recdeps (p_entries p) (snd entry)"
  obtain e se se' where r: "dlookup (p_entries p) (fst entry) = Inr e" "?gen (fst entry) ([], rt_depends e) = Inr se"
    "rfold ?gen (dgetd (p_reci p) (fst entry) []) se = Inr se'" "Inr (dset (fst entry) (snd se') ed) = (Inr ed' :: _ res)"
    using assms(1) unfolding recursive_deps_def Let_def by (elim rbind_InrE) (rule that)
  have "distinct (snd se)"
    using generate_recdeps_distinct [OF r(2)] r(1) assms(3) by (auto simp: fresh_graph_def)
  then have "distinct (snd se')"
    by (rule rfold_inv [OF r(3), of "\<lambda>se. distinct (snd se)"]) (rule generate_recdeps_distinct)
  then show ?thesis using r(4) distinct_values_dset [OF assms(2)] by auto
qed

lemma dwf_map: "dwf (map (\<lambda>(k, v). (k, f k v)) d) = dwf d"
  by (simp add: dwf_def)

lemma part_b_fresh:
  assumes "part_b p = Inr g" "fresh_graph (p_entries p)"
  shows "fresh_graph g" "dkeys g = dkeys (p_entries p)"
proof -
  obtain ed where ed: "rfold (recursive_deps p) (p_recursive p) [] = Inr ed"
    "g = map (\<lambda>(tid, e). (tid, final_depends p ed tid e)) (p_entries p)"
    using assms(1) by (auto simp: part_b_def res_simps)
  have "distinct_values ([] :: (string, string list) dict)" by (simp add: distinct_values_def)
  then have "distinct_values ed"
    by (rule rfold_inv [OF ed(1)]) (rule recursive_deps_distinct [OF _ _ assms(2)])
  then have "distinct (rt_depends (final_depends p ed t e)) \<and> rt_revdeps (final_depends p ed t e) = []"
    if t: "dget (p_entries p) t = Some e" for t e
  proof -
    have e: "distinct (rt_depends e)" "rt_revdeps e = []"
      using t assms(2) unfolding fresh_graph_def by blast+
    have "dget ed t = Some extra \<Longrightarrow> distinct extra" for extra
      using \<open>distinct_values ed\<close> unfolding distinct_values_def by blast
    then show ?thesis using e by (cases "dget ed t") (simp_all add: final_depends_def Let_def)
  qed
  then have "distinct (rt_depends e) \<and> rt_revdeps e = []" if "dget g t = Some e" for t e
    using that unfolding ed(2) dget_map by auto
  moreover have "dwf g" using assms(2) unfolding ed(2) dwf_map by (simp add: fresh_graph_def)
  ultimately show "fresh_graph g" by (simp only: fresh_graph_def) blast
  show "dkeys g = dkeys (p_entries p)" using ed(2) by simp
qed

text \<open>The tasks that a target asks for, and what marking adds.\<close>

definition target_roots :: "mctd \<Rightarrow> string graph \<Rightarrow> target \<Rightarrow> string set" where
  "target_roots tds g tgt =
     (case tgt of (mc, target, task, fn) \<Rightarrow>
       (case dget tds mc of
          None \<Rightarrow> {}
        | Some td \<Rightarrow>
            if dgetd (td_build_targets td) target [] = [] \<or> target \<in> set (td_failed_deps td) \<or>
               fn \<in> set (td_failed_fns td) then {}
            else if endswith task ''-'' then set (deps g (fn @ [colon] @ butlast task))
            else {fn @ [colon] @ task}))"

abbreviation needs :: "'t graph \<Rightarrow> ('t \<times> 't) set" where
  "needs g \<equiv> (edges_of (deps g))\<^sup>*"

lemma mark_active_exact:
  assumes "mark_active g tids active = Inr active'" "edges_of (deps g) `` set active \<subseteq> set active"
  shows "set active' = set active \<union> needs g `` set tids" "edges_of (deps g) `` set active' \<subseteq> set active'"
    "set active' \<subseteq> set active \<union> set (dkeys g)"
proof -
  have d: "dfs (dkeys g) (mark_visit g) tids active () = Inr (active', ())"
    using assms(1) by (auto simp: mark_active_def res_simps)
  have c: "set active \<subseteq> set active'" "set tids \<subseteq> set active'" "set active' \<subseteq> set active \<union> set (dkeys g)"
    "\<forall>t \<in> set active' - set active. set (deps g t) \<subseteq> set active'"
    using active.dfs_closed [OF d refl] by auto
  show closed: "edges_of (deps g) `` set active' \<subseteq> set active'"
    using c(1,4) assms(2) by (auto simp: edges_of_def)
  have "needs g `` set tids \<subseteq> needs g `` set active'" using c(2) by blast
  also have "\<dots> = set active'" using closed by (rule Image_closed_trancl)
  finally show "set active' = set active \<union> needs g `` set tids"
    using active.dfs_reach [OF d refl] c(1) by blast
  show "set active' \<subseteq> set active \<union> set (dkeys g)" by (rule c(3))
qed

lemma mark_target_exact:
  assumes "mark_target tds g tgt st = Inr st'" "edges_of (deps g) `` set (fst st) \<subseteq> set (fst st)"
  shows "set (fst st') = set (fst st) \<union> needs g `` target_roots tds g tgt \<and>
    edges_of (deps g) `` set (fst st') \<subseteq> set (fst st') \<and> set (fst st') \<subseteq> set (fst st) \<union> set (dkeys g)"
proof -
  obtain mc target task fn where tgt: "tgt = (mc, target, task, fn)" by (cases tgt)
  obtain td where td: "dget tds mc = Some td"
    using assms(1) by (auto simp: mark_target_def tgt res_simps)
  consider "target_roots tds g tgt = {}" "st' = st"
    | tids where "mark_active g tids (fst st) = Inr (fst st')" "target_roots tds g tgt = set tids"
    using assms(1)
    by (auto simp: mark_target_def target_roots_def tgt td res_simps Let_def deps_def split: if_splits)
  then show ?thesis
  proof cases
    case 1
    then show ?thesis using assms(2) by simp
  next
    case 2
    then show ?thesis using mark_active_exact [OF 2(1) assms(2)] by simp
  qed
qed

lemma mark_targets_exact:
  assumes "rfold (mark_target tds g) targets st = Inr st'" "edges_of (deps g) `` set (fst st) \<subseteq> set (fst st)"
  shows "set (fst st') = set (fst st) \<union> needs g `` (\<Union>tgt \<in> set targets. target_roots tds g tgt) \<and>
    edges_of (deps g) `` set (fst st') \<subseteq> set (fst st') \<and> set (fst st') \<subseteq> set (fst st) \<union> set (dkeys g)"
  using assms
proof (induction targets arbitrary: st)
  case Nil
  then show ?case by auto
next
  case (Cons tgt targets)
  then obtain st1 where st1: "mark_target tds g tgt st = Inr st1" "rfold (mark_target tds g) targets st1 = Inr st'"
    by (auto elim: rbind_InrE)
  have one: "set (fst st1) = set (fst st) \<union> needs g `` target_roots tds g tgt"
    "edges_of (deps g) `` set (fst st1) \<subseteq> set (fst st1)" "set (fst st1) \<subseteq> set (fst st) \<union> set (dkeys g)"
    using mark_target_exact [OF st1(1) Cons.prems(2)] by blast+
  have rest: "set (fst st') = set (fst st1) \<union> needs g `` (\<Union>tgt \<in> set targets. target_roots tds g tgt)"
    "edges_of (deps g) `` set (fst st') \<subseteq> set (fst st')" "set (fst st') \<subseteq> set (fst st1) \<union> set (dkeys g)"
    using Cons.IH [OF st1(2) one(2)] by blast+
  have "set (fst st') = set (fst st) \<union> needs g `` (\<Union>tgt \<in> set (tgt # targets). target_roots tds g tgt)"
    unfolding rest(1) one(1) by (simp add: Image_Un Un_assoc)
  moreover have "set (fst st') \<subseteq> set (fst st) \<union> set (dkeys g)" using rest(3) one(3) by blast
  ultimately show ?case using rest(2) by simp
qed

lemma dget_filter_keys: "dget (filter (\<lambda>(t, e). t \<in> S) g) t = (if t \<in> S then dget g t else None)"
  by (induction g) auto

lemma dkeys_filter_keys: "dkeys (filter (\<lambda>(t, e). t \<in> S) g) = filter (\<lambda>t. t \<in> S) (dkeys g)"
  by (induction g) auto

text \<open>Pruning keeps exactly the tasks that the targets need, with their dependencies.\<close>

lemma steps_bc_exact:
  assumes "steps_bc tds g targets = Inr (g', tids)" "fresh_graph g"
  shows "fresh_graph g'" "g' \<noteq> []"
    "set (dkeys g') = needs g `` (\<Union>tgt \<in> set targets. target_roots tds g tgt)"
    "t \<in> set (dkeys g') \<Longrightarrow> deps g' t = deps g t \<and> set (deps g t) \<subseteq> set (dkeys g')"
proof -
  obtain active where a: "rfold (mark_target tds g) targets ([], []) = Inr (active, tids)"
    "g' = filter (\<lambda>(tid, e). tid \<in> set active) g" "g' \<noteq> []"
    using assms(1) by (auto simp: steps_bc_def res_simps Let_def split: if_splits)
  have m: "set active = needs g `` (\<Union>tgt \<in> set targets. target_roots tds g tgt)"
    "edges_of (deps g) `` set active \<subseteq> set active" "set active \<subseteq> set (dkeys g)"
    using mark_targets_exact [OF a(1)] by (metis Image_empty2 Un_empty_left empty_subsetI fst_conv list.set(1))+
  show "g' \<noteq> []" by (rule a(3))
  have k: "set (dkeys g') = set active" unfolding a(2) dkeys_filter_keys using m(3) by auto
  then show "set (dkeys g') = needs g `` (\<Union>tgt \<in> set targets. target_roots tds g tgt)" using m(1) by simp
  have "deps g' t = deps g t" if "t \<in> set active" for t
    using that unfolding deps_def a(2) dget_filter_keys by simp
  then show "t \<in> set (dkeys g') \<Longrightarrow> deps g' t = deps g t \<and> set (deps g t) \<subseteq> set (dkeys g')"
    using m(2) k by (auto simp: edges_of_def)
  have "dwf g'" using assms(2) unfolding fresh_graph_def dwf_def a(2) dkeys_filter_keys by simp
  moreover have "dget g' t = Some e \<Longrightarrow> dget g t = Some e" for t e
    unfolding a(2) dget_filter_keys by (simp split: if_splits)
  ultimately show "fresh_graph g'" using assms(2) unfolding fresh_graph_def by blast
qed

text \<open>Reverse dependencies: \<open>tid\<close> is added to each of its dependencies.\<close>

lemma add_revdep_effect:
  assumes "add_revdep tid dep g = Inr g'"
  shows "dkeys g' = dkeys g" "deps g' t = deps g t" "dep \<in> set (dkeys g)"
    "revs g' t = (if t = dep then sadd tid (revs g t) else revs g t)"
proof -
  obtain e where e: "dget g dep = Some e" "g' = dset dep (e\<lparr>rt_revdeps := sadd tid (rt_revdeps e)\<rparr>) g"
    using assms by (auto simp: add_revdep_def res_simps)
  show k: "dep \<in> set (dkeys g)" using e(1) by (rule dget_SomeD)
  show "dkeys g' = dkeys g" unfolding e(2) by (rule dkeys_dset_present [OF k])
  show "deps g' t = deps g t" "revs g' t = (if t = dep then sadd tid (revs g t) else revs g t)"
    using e by (simp_all add: deps_def revs_def)
qed

definition more_revs :: "'t graph \<Rightarrow> ('t \<times> 't) set \<Rightarrow> 't graph \<Rightarrow> bool" where
  "more_revs g E g' \<longleftrightarrow> dkeys g' = dkeys g \<and> (\<forall>t. deps g' t = deps g t) \<and> snd ` E \<subseteq> set (dkeys g) \<and>
     (\<forall>t. set (revs g' t) = set (revs g t) \<union> {r. (r, t) \<in> E}) \<and> (\<forall>t. distinct (revs g t) \<longrightarrow> distinct (revs g' t))"

lemma more_revs_none: "more_revs g {} g"
  by (simp add: more_revs_def)

lemma more_revs_trans: "more_revs g E g' \<Longrightarrow> more_revs g' F g'' \<Longrightarrow> more_revs g (E \<union> F) g''"
  unfolding more_revs_def by auto

lemma add_revdep_more: "add_revdep tid dep g = Inr g' \<Longrightarrow> more_revs g {(tid, dep)} g'"
  unfolding more_revs_def by (auto simp: add_revdep_effect)

lemma rfold_add_revdep:
  "rfold (add_revdep tid) ds g = Inr g' \<Longrightarrow> more_revs g (Pair tid ` set ds) g'"
proof (induction ds arbitrary: g)
  case Nil
  then show ?case by (simp add: more_revs_none)
next
  case (Cons d ds)
  then obtain g1 where g1: "add_revdep tid d g = Inr g1" "rfold (add_revdep tid) ds g1 = Inr g'"
    by (auto elim: rbind_InrE)
  show ?case using more_revs_trans [OF add_revdep_more [OF g1(1)] Cons.IH [OF g1(2)]] by simp
qed

lemma rfold_add_revdeps:
  "rfold (\<lambda>(tid, e). rfold (add_revdep tid) (rt_depends e)) es g = Inr g' \<Longrightarrow>
     more_revs g {(tid, d). \<exists>e. (tid, e) \<in> set es \<and> d \<in> set (rt_depends e)} g'"
proof (induction es arbitrary: g)
  case Nil
  then show ?case by (simp add: more_revs_none)
next
  case (Cons p es)
  obtain tid e where p: "p = (tid, e)" by (cases p)
  from Cons.prems obtain g1 where g1: "rfold (add_revdep tid) (rt_depends e) g = Inr g1"
    "rfold (\<lambda>(tid, e). rfold (add_revdep tid) (rt_depends e)) es g1 = Inr g'"
    unfolding p by (auto elim: rbind_InrE)
  have "Pair tid ` set (rt_depends e) \<union> {(tid, d). \<exists>e. (tid, e) \<in> set es \<and> d \<in> set (rt_depends e)} =
      {(tid, d). \<exists>e. (tid, e) \<in> set (p # es) \<and> d \<in> set (rt_depends e)}"
    unfolding p by auto
  then show ?case using more_revs_trans [OF rfold_add_revdep [OF g1(1)] Cons.IH [OF g1(2)]] by simp
qed

lemma add_revdeps_wf:
  assumes "add_revdeps g = Inr g'" "fresh_graph g"
  shows "graph_wf g'" "dkeys g' = dkeys g" "deps g' t = deps g t"
proof -
  let ?E = "{(tid, d). \<exists>e. (tid, e) \<in> set g \<and> d \<in> set (rt_depends e)}"
  have wf: "dwf g" using assms(2) by (simp add: fresh_graph_def)
  have m: "more_revs g ?E g'" using rfold_add_revdeps assms(1) unfolding add_revdeps_def by fast
  have E: "(r, t) \<in> ?E \<longleftrightarrow> r \<in> set (dkeys g) \<and> t \<in> set (deps g r)" for r t
    using dwf_dget [OF wf] dget_None_iff [of g r] by (fastforce simp: deps_def split: option.splits)
  have none: "revs g t = []" for t
    using assms(2) by (auto simp: fresh_graph_def revs_def split: option.splits)
  have dist: "distinct (deps g t)" for t
    using assms(2) by (auto simp: fresh_graph_def deps_def split: option.splits)
  show k: "dkeys g' = dkeys g" using m by (simp add: more_revs_def)
  show d: "deps g' t = deps g t" for t using m by (simp add: more_revs_def)
  have r: "set (revs g' t) = {r. (r, t) \<in> ?E}" "distinct (revs g' t)" for t
    using m none by (simp_all add: more_revs_def)
  have in_keys: "t \<in> set (dkeys g)" if "(r, t) \<in> ?E" for r t
    using m that unfolding more_revs_def by force
  show "graph_wf g'"
    unfolding graph_wf_def dwf_def k d r
    using wf dist r(2) in_keys unfolding E by (auto simp: dwf_def)
qed

lemma find_endpoints_of:
  assumes "find_endpoints g = Inr ends" "dwf g"
  shows "ends = endpoints_of g"
proof -
  have "map fst (filter (\<lambda>(t, e). rt_revdeps e = []) es) = filter (\<lambda>t. revs g t = []) (map fst es)"
    if "set es \<subseteq> set g" for es
    using that by (induction es) (auto simp: revs_def dwf_dget [OF assms(2)])
  then show ?thesis
    using assms(1) by (auto simp: find_endpoints_def endpoints_of_def dkeys_def split: if_splits)
qed

lemma same_graph_wf:
  assumes "dkeys g' = dkeys g" "\<And>t. deps g' t = deps g t" "\<And>t. revs g' t = revs g t"
  shows "graph_wf g' = graph_wf g" "dep_edges g' = dep_edges g"
  unfolding graph_wf_def dep_edges_def dwf_def assms by simp_all

lemma store_weights:
  fixes f :: "'t \<Rightarrow> int" and g :: "'t graph"
  defines "g' \<equiv> map (\<lambda>(tid, e). (tid, e\<lparr>rt_weight := f tid\<rparr>)) g"
  shows "dkeys g' = dkeys g" "deps g' t = deps g t" "revs g' t = revs g t"
proof -
  have d: "dget g' t = map_option (\<lambda>e. e\<lparr>rt_weight := f t\<rparr>) (dget g t)" for t
    unfolding g'_def by (rule dget_map)
  show "dkeys g' = dkeys g" unfolding g'_def by (rule dkeys_simps(4))
  show "deps g' t = deps g t" "revs g' t = revs g t"
    unfolding deps_def revs_def d by (auto split: option.split)
qed

lemma calculate_task_weights_ok:
  assumes "calculate_task_weights g (endpoints_of g) = Inr g'" "graph_wf g"
  shows "graph_wf g'" "acyclic (dep_edges g')" "dkeys g' = dkeys g" "deps g' t = deps g t"
proof -
  obtain s where s: "weigh_tasks g (endpoints_of g) =
      Inr (map (\<lambda>(tid, e). (tid, e\<lparr>rt_weight := wt s tid\<rparr>)) g, problem_tasks g s)"
    "winv g (out_edges g (done_set s)) s"
    by (rule weigh_tasks_ok [OF assms(2)])
  have g': "g' = map (\<lambda>(tid, e). (tid, e\<lparr>rt_weight := wt s tid\<rparr>)) g" "problem_tasks g s = []"
    using assms(1) unfolding calculate_task_weights_def s(1)
    by (auto simp: res_simps split: if_splits)
  note same = store_weights [where f = "wt s" and g = g, folded g'(1)]
  show "dkeys g' = dkeys g" "deps g' t = deps g t" by (rule same)+
  show "graph_wf g'" "acyclic (dep_edges g')"
    unfolding same_graph_wf [OF same] using assms(2) winv_final(1) [OF assms(2) s(2)] g'(2) by simp_all
qed

lemma prepare_graph_parts:
  assumes "prepare_graph tds dcs targets = Inr (g, tids)"
  obtains p g0 where "step_a tds dcs = Inr p" "part_b p = Inr g0" "g \<noteq> []" "graph_wf g" "acyclic (dep_edges g)"
    "set (dkeys g) = (edges_of (deps g0))\<^sup>* `` (\<Union>tgt \<in> set targets. target_roots tds g0 tgt)"
    "\<And>t. t \<in> set (dkeys g) \<Longrightarrow> deps g t = deps g0 t"
proof -
  from assms obtain p g0 g1 g2 ends where
    r: "step_a tds dcs = Inr p" "part_b p = Inr g0" "steps_bc tds g0 targets = Inr (g1, tids)"
    "add_revdeps g1 = Inr g2" "find_endpoints g2 = Inr ends" "calculate_task_weights g2 ends = Inr g"
    by (auto simp: prepare_graph_def res_simps)
  note bc = steps_bc_exact [OF r(3) part_b_fresh(1) [OF r(2) step_a_fresh [OF r(1)]]]
  note wf = add_revdeps_wf [OF r(4) bc(1)]
  have "ends = endpoints_of g2" using find_endpoints_of [OF r(5)] wf(1) by (simp add: graph_wf_def)
  note ok = calculate_task_weights_ok [OF r(6) [unfolded this] wf(1)]
  have "g \<noteq> []" using ok(3) wf(2) bc(2) by (auto simp: dkeys_def)
  then show ?thesis using that [OF r(1,2)] ok wf(2,3) bc(3,4) by auto
qed

text \<open>
  C12. What \<open>prepare\<close> hands to the executor: a non-empty graph without cycles, whose dependencies are
  tasks of the graph and whose reverse dependencies are their inverse.  Its tasks are exactly those
  that the targets ask for and what these need, directly or not, in the graph of steps A and B, and each
  keeps all the dependencies it has there.
\<close>
theorem prepare_graph_sound:
  assumes "prepare_graph tds dcs targets = Inr (g, tids)"
  shows "g \<noteq> [] \<and> graph_wf g \<and> acyclic (dep_edges g) \<and>
    (\<exists>p g0. step_a tds dcs = Inr p \<and> part_b p = Inr g0 \<and>
       set (dkeys g) = (edges_of (deps g0))\<^sup>* `` (\<Union>tgt \<in> set targets. target_roots tds g0 tgt) \<and>
       (\<forall>t \<in> set (dkeys g). deps g t = deps g0 t))"
proof (rule prepare_graph_parts [OF assms])
  fix p g0
  assume "step_a tds dcs = Inr p" "part_b p = Inr g0" "g \<noteq> []" "graph_wf g" "acyclic (dep_edges g)"
    "set (dkeys g) = (edges_of (deps g0))\<^sup>* `` (\<Union>tgt \<in> set targets. target_roots tds g0 tgt)"
    "\<And>t. t \<in> set (dkeys g) \<Longrightarrow> deps g t = deps g0 t"
  then show ?thesis by (intro conjI exI [of _ p] exI [of _ g0] ballI)
qed

text \<open>A recipe of two tasks and one that is not asked for.\<close>

definition example_tds :: mctd where
  "example_tds = [('''', (new_taskdata False False None False)\<lparr>
     td_build_targets := [(''a'', [''a.bb''])], td_depids := [(''a.bb'', [])], td_rdepids := [(''a.bb'', [])],
     td_taskentries := [(''a.bb:x'', new_taskentry), (''a.bb:y'', new_taskentry\<lparr>te_tdepends := [''a.bb:x'']\<rparr>),
       (''a.bb:z'', new_taskentry\<lparr>te_tdepends := [''a.bb:y'']\<rparr>)]\<rparr>)]"

definition example_dcs :: mcdc where
  "example_dcs = [('''', init_cacheData\<lparr>c_task_deps := [(''a.bb'', no_task_deps)]\<rparr>)]"

lemma prepare_graph_sound_witness:
  "\<exists>g. prepare_graph example_tds example_dcs [('''', ''a'', ''y'', ''a.bb'')] = Inr (g, [''a.bb:y'']) \<and>
     dkeys g = [''a.bb:x'', ''a.bb:y''] \<and> graph_wf g \<and> acyclic (dep_edges g)"
proof -
  let ?g = "[(''a.bb:x'', \<lparr>rt_depends = [], rt_revdeps = [''a.bb:y''], rt_hash = None, rt_weight = 11\<rparr>),
    (''a.bb:y'', \<lparr>rt_depends = [''a.bb:x''], rt_revdeps = [], rt_hash = None, rt_weight = 10\<rparr>)]"
  have "prepare_graph example_tds example_dcs [('''', ''a'', ''y'', ''a.bb'')] = Inr (?g, [''a.bb:y''])" by code_simp
  moreover from prepare_graph_sound [OF this] have "graph_wf ?g \<and> acyclic (dep_edges ?g)" by blast
  ultimately show ?thesis by (intro exI [of _ ?g]) (simp add: dkeys_def)
qed

section \<open>The loops end\<close>

text \<open>
  \<open>find_chains\<close> only goes on to tasks that are not on the chain yet, so the chain is never longer
  than the graph.
\<close>

lemma chain_bound:
  assumes "distinct xs" "set xs \<subseteq> set (dkeys g)"
  shows "length xs \<le> length g"
proof -
  have "card (set xs) \<le> card (set (dkeys g))" using assms(2) by (simp add: card_mono)
  moreover have "card (set (dkeys g)) \<le> length g" using card_length [of "dkeys g"] by (simp add: dkeys_def)
  ultimately show ?thesis using distinct_card [OF assms(1)] by linarith
qed

lemma find_chains_fuel:
  "distinct chain \<Longrightarrow> set chain \<subseteq> set (dkeys g) \<Longrightarrow> tid \<notin> set chain \<Longrightarrow> length g < n + length chain \<Longrightarrow>
     find_chains n g tid chain st \<noteq> Inl OutOfFuel"
  "distinct chain \<Longrightarrow> set chain \<subseteq> set (dkeys g) \<Longrightarrow> length g < n + length chain \<Longrightarrow>
     follow_revdeps n g chain revdeps tds st \<noteq> Inl OutOfFuel"
proof (induction n g tid chain st and n g chain revdeps tds st rule: find_chains_follow_revdeps.induct)
  case (1 g tid chain st)
  then show ?case using chain_bound [of chain g] by simp
next
  case (2 n g tid chain st)
  show ?case
  proof (cases "dget g tid")
    case None
    then show ?thesis by (simp add: dlookup_def)
  next
    case (Some e)
    then have "set (chain @ [tid]) \<subseteq> set (dkeys g)" using 2(3) dget_SomeD [OF Some] by simp
    then have "follow_revdeps n g (chain @ [tid]) (rt_revdeps e) (rt_revdeps e) st \<noteq> Inl OutOfFuel"
      using 2(1) [OF refl, of e] 2(2,4,5) Some by simp
    then show ?thesis using Some by (auto simp: dlookup_def Let_def rbind_Inl_iff split: option.splits)
  qed
next
  case (3 n g chain tds st)
  then show ?case by simp
next
  case (4 n g chain revdep revdeps tds st)
  show ?case
  proof (cases "revdep \<in> set chain")
    case True
    then show ?thesis using 4(1) [OF True refl] 4(4-6) by (simp add: Let_def)
  next
    case False
    have scan: "(if needs_scan revdep chain st then find_chains n g revdep chain st else Inr st) \<noteq> Inl OutOfFuel"
      using 4(2) [OF False] 4(4-6) False by simp
    show ?thesis
      using 4(3) [OF False] 4(4-6) scan False by (auto simp: rbind_Inl_iff simp del: dlookup_Inr)
  qed
qed

text \<open>
  The loop over the hashes.  A task is dealt with only after its dependencies; on a graph without
  cycles every round deals with at least one task, so there are at most as many rounds as tasks.
\<close>

definition deps_first :: "'t graph \<Rightarrow> 't list \<Rightarrow> bool" where
  "deps_first g xs \<longleftrightarrow> (\<forall>ys t zs. xs = ys @ t # zs \<longrightarrow> set (deps g t) \<subseteq> set ys)"

lemma deps_first_snoc: "deps_first g xs \<Longrightarrow> set (deps g t) \<subseteq> set xs \<Longrightarrow> deps_first g (xs @ [t])"
proof (unfold deps_first_def, intro allI impI)
  fix ys u zs
  assume *: "\<forall>ys t zs. xs = ys @ t # zs \<longrightarrow> set (deps g t) \<subseteq> set ys" "set (deps g t) \<subseteq> set xs"
    "xs @ [t] = ys @ u # zs"
  show "set (deps g u) \<subseteq> set ys"
  proof (cases zs rule: rev_cases)
    case Nil
    then show ?thesis using * by simp
  next
    case (snoc zs' z)
    then have "xs = ys @ u # zs'" using *(3) by simp
    then show ?thesis using *(1) by blast
  qed
qed

definition hashing_ok :: "'t graph \<Rightarrow> ('t, 'g) hashing \<Rightarrow> bool" where
  "hashing_ok g h \<longleftrightarrow>
     distinct (h_dealt h @ h_todeal h) \<and> set (h_dealt h @ h_todeal h) = set (dkeys g) \<and>
     dkeys (h_entries h) = dkeys g \<and> (\<forall>t. deps (h_entries h) t = deps g t) \<and> deps_first g (h_dealt h) \<and>
     (\<forall>t \<in> set (h_dealt h). \<exists>e hash. dget (h_entries h) t = Some e \<and> rt_hash e = Some hash)"

lemma hash_step_ok:
  assumes "hash_step siggen tid h = Inr h'" "hashing_ok g h" "tid \<in> set (h_todeal h)"
  shows "hashing_ok g h' \<and> set (h_dealt h) \<subseteq> set (h_dealt h') \<and>
    set (h_todeal h) - {tid} \<subseteq> set (h_todeal h') \<and> set (h_todeal h') \<subseteq> set (h_todeal h) \<and>
    (set (deps g tid) \<subseteq> set (h_dealt h) \<longrightarrow> tid \<in> set (h_dealt h'))"
proof -
  obtain e where e: "dget (h_entries h) tid = Some e"
    using assms(1) by (auto simp: hash_step_def res_simps)
  have deps: "rt_depends e = deps g tid"
    using assms(2) e unfolding hashing_ok_def deps_def by (metis option.simps(5))
  consider "\<not> set (deps g tid) \<subseteq> set (h_dealt h)" "h' = h"
    | s hash where "set (deps g tid) \<subseteq> set (h_dealt h)"
      "h' = h\<lparr>h_dealt := h_dealt h @ [tid], h_todeal := remove1 tid (h_todeal h), h_siggen := s,
                h_entries := dset tid (e\<lparr>rt_hash := Some hash\<rparr>) (h_entries h)\<rparr>"
    using assms(1) e by (auto simp: hash_step_def res_simps deps split: if_splits)
  then show ?thesis
  proof cases
    case 1
    then show ?thesis using assms(2) by blast
  next
    case 2
    have k: "tid \<in> set (dkeys (h_entries h))" using e by (rule dget_SomeD)
    have "hashing_ok g h'"
      unfolding hashing_ok_def
    proof (intro conjI)
      show "distinct (h_dealt h' @ h_todeal h')" "set (h_dealt h' @ h_todeal h') = set (dkeys g)"
        using assms(2,3) 2(2) by (auto simp: hashing_ok_def)
      show "dkeys (h_entries h') = dkeys g"
        using assms(2) 2(2) dkeys_dset_present [OF k] by (simp add: hashing_ok_def)
      show "\<forall>t. deps (h_entries h') t = deps g t"
        using assms(2) 2(2) deps by (auto simp: hashing_ok_def deps_def)
      show "deps_first g (h_dealt h')" using assms(2) 2 by (simp add: hashing_ok_def deps_first_snoc)
      show "\<forall>t \<in> set (h_dealt h'). \<exists>e hash. dget (h_entries h') t = Some e \<and> rt_hash e = Some hash"
        using assms(2) 2(2) by (auto simp: hashing_ok_def)
    qed
    moreover have "distinct (h_todeal h)" using assms(2) by (simp add: hashing_ok_def)
    ultimately show ?thesis using 2(2) by auto
  qed
qed

lemma hash_round_ok:
  "rfold (hash_step siggen) ts h = Inr h' \<Longrightarrow> hashing_ok g h \<Longrightarrow> distinct ts \<Longrightarrow> set ts \<subseteq> set (h_todeal h) \<Longrightarrow>
     hashing_ok g h' \<and> set (h_dealt h) \<subseteq> set (h_dealt h') \<and>
     (\<forall>t \<in> set ts. set (deps g t) \<subseteq> set (h_dealt h) \<longrightarrow> t \<in> set (h_dealt h'))"
proof (induction ts arbitrary: h)
  case Nil
  then show ?case by simp
next
  case (Cons t ts)
  then obtain h1 where h1: "hash_step siggen t h = Inr h1" "rfold (hash_step siggen) ts h1 = Inr h'"
    by (auto elim: rbind_InrE)
  note one = hash_step_ok [OF h1(1) Cons.prems(2)]
  have sub: "set ts \<subseteq> set (h_todeal h1)" using one Cons.prems(3,4) by auto
  have "hashing_ok g h1" using one Cons.prems(4) by simp
  note rest = Cons.IH [OF h1(2) this _ sub]
  show ?case using one rest Cons.prems(3,4) by (simp; blast)
qed

lemma acyclic_minimal:
  assumes "acyclic (dep_edges g)" "graph_wf g" "S \<subseteq> set (dkeys g)" "S \<noteq> {}"
  obtains t where "t \<in> S" "set (deps g t) \<inter> S = {}"
proof -
  have "wf ((dep_edges g)\<inverse>)" by (rule finite_acyclic_wf_converse [OF finite_dep_edges assms(1)])
  moreover obtain x where "x \<in> S" using assms(4) by blast
  ultimately obtain t where t: "t \<in> S" "\<forall>d. (d, t) \<in> (dep_edges g)\<inverse> \<longrightarrow> d \<notin> S"
    by (rule wfE_min) blast
  then show ?thesis using that [OF t(1)] assms(3) by (auto simp: dep_edges_def)
qed

lemma hash_loop_fuel:
  fixes h :: "('t, 'g) hashing"
  shows "hashing_ok g h \<Longrightarrow> graph_wf g \<Longrightarrow> acyclic (dep_edges g) \<Longrightarrow> length (h_todeal h) \<le> fuel \<Longrightarrow>
     (\<And>t ds s. siggen t ds s \<noteq> Inl OutOfFuel) \<Longrightarrow>
     hash_loop siggen fuel h \<noteq> Inl OutOfFuel \<and>
     (\<forall>h'. hash_loop siggen fuel h = Inr h' \<longrightarrow> hashing_ok g h' \<and> h_todeal h' = [])"
proof (induction fuel arbitrary: h)
  case 0
  then show ?case by (simp add: hash_loop.simps)
next
  case (Suc n)
  show ?case
  proof (cases "h_todeal h = []")
    case True
    then show ?thesis using Suc.prems by (simp add: hash_loop.simps)
  next
    case False
    have step: "hash_step siggen t u \<noteq> Inl OutOfFuel" for t u
      using Suc.prems(5) by (auto simp: hash_step_def rbind_Inl_iff simp del: dlookup_Inr)
    have nf: "rfold (hash_step siggen) ts u \<noteq> Inl OutOfFuel" for ts u
      by (induction ts arbitrary: u) (auto simp: rbind_Inl_iff step)
    have ok: "distinct (h_todeal h)" "set (h_todeal h) \<subseteq> set (dkeys g)"
      using Suc.prems(1) by (auto simp: hashing_ok_def)
    have round: "hashing_ok g h1 \<and> length (h_todeal h1) \<le> n"
      if h1: "rfold (hash_step siggen) (h_todeal h) h = Inr h1" for h1
    proof -
      note r = hash_round_ok [OF h1 Suc.prems(1) ok(1) subset_refl]
      obtain m where m: "m \<in> set (h_todeal h)" "set (deps g m) \<inter> set (h_todeal h) = {}"
        using acyclic_minimal [OF Suc.prems(3,2) ok(2)] False by auto
      have "set (deps g m) \<subseteq> set (dkeys g)" using Suc.prems(2) m(1) ok(2) by (auto simp: graph_wf_def)
      then have "set (deps g m) \<subseteq> set (h_dealt h)" using m(2) Suc.prems(1) by (auto simp: hashing_ok_def)
      then have "m \<in> set (h_dealt h1)" using r m(1) by blast
      moreover have "m \<notin> set (h_dealt h)" using m(1) Suc.prems(1) by (auto simp: hashing_ok_def)
      ultimately have "set (h_dealt h) \<subset> set (h_dealt h1)" using r by blast
      then have "card (set (h_dealt h)) < card (set (h_dealt h1))" by (simp add: psubset_card_mono)
      moreover have size: "card (set (h_dealt u)) + length (h_todeal u) = card (set (dkeys g))"
        if "hashing_ok g u" for u :: "('t, 'g) hashing"
      proof -
        have d: "distinct (h_dealt u @ h_todeal u)" "set (h_dealt u @ h_todeal u) = set (dkeys g)"
          using that unfolding hashing_ok_def by blast+
        then have "card (set (h_dealt u)) = length (h_dealt u)" using distinct_card by fastforce
        then show ?thesis using distinct_card [OF d(1)] unfolding d(2) by simp
      qed
      ultimately have "length (h_todeal h1) < length (h_todeal h)"
        using size [OF Suc.prems(1)] size [of h1] r by linarith
      then show ?thesis using r Suc.prems(4) by simp
    qed
    show ?thesis
    proof (cases "rfold (hash_step siggen) (h_todeal h) h")
      case (Inl e)
      then have "e \<noteq> OutOfFuel" using nf [of "h_todeal h" h] by simp
      then show ?thesis using False Inl by (simp add: hash_loop.simps)
    next
      case (Inr h1)
      have "hash_loop siggen (Suc n) h = hash_loop siggen n h1"
        using False Inr by (simp add: hash_loop.simps [of _ "Suc n"])
      then show ?thesis using Suc.IH [of h1] Suc.prems(2,3,5) round [OF Inr] by presburger
    qed
  qed
qed

text \<open>Hashing changes nothing but the hashes.\<close>

lemma hash_step_frame:
  assumes "hash_step siggen tid h = Inr h'"
  shows "dkeys (h_entries h') = dkeys (h_entries h)" "deps (h_entries h') = deps (h_entries h)"
    "revs (h_entries h') = revs (h_entries h)"
proof -
  obtain e where e: "dget (h_entries h) tid = Some e"
    using assms by (auto simp: hash_step_def res_simps)
  have k: "dkeys (dset tid (e\<lparr>rt_hash := hash\<rparr>) (h_entries h)) = dkeys (h_entries h)" for hash
    using dkeys_dset_present [OF dget_SomeD [OF e]] .
  have d: "deps (dset tid (e\<lparr>rt_hash := hash\<rparr>) (h_entries h)) = deps (h_entries h)"
    "revs (dset tid (e\<lparr>rt_hash := hash\<rparr>) (h_entries h)) = revs (h_entries h)" for hash
    using e by (simp_all add: deps_def revs_def fun_eq_iff)
  have "h' = h \<or> (\<exists>hash. h_entries h' = dset tid (e\<lparr>rt_hash := Some hash\<rparr>) (h_entries h))"
    using assms e by (auto simp: hash_step_def res_simps split: if_splits)
  then show "dkeys (h_entries h') = dkeys (h_entries h)" "deps (h_entries h') = deps (h_entries h)"
    "revs (h_entries h') = revs (h_entries h)"
    using k d by metis+
qed

lemma hash_loop_frame:
  "hash_loop siggen fuel h = Inr h' \<Longrightarrow>
     dkeys (h_entries h') = dkeys (h_entries h) \<and> deps (h_entries h') = deps (h_entries h) \<and>
     revs (h_entries h') = revs (h_entries h)"
proof (induction fuel arbitrary: h)
  case 0
  then show ?case by (simp add: hash_loop.simps split: if_splits)
next
  case (Suc n)
  show ?case
  proof (cases "h_todeal h = []")
    case True
    then show ?thesis using Suc.prems by (simp add: hash_loop.simps)
  next
    case False
    then obtain h1 where h1: "rfold (hash_step siggen) (h_todeal h) h = Inr h1" "hash_loop siggen n h1 = Inr h'"
      using Suc.prems by (subst (asm) hash_loop.simps) (auto elim: rbind_InrE)
    have "dkeys (h_entries h1) = dkeys (h_entries h) \<and> deps (h_entries h1) = deps (h_entries h) \<and>
        revs (h_entries h1) = revs (h_entries h)"
      by (rule rfold_inv [OF h1(1)]) (simp_all add: hash_step_frame)
    then show ?thesis using Suc.IH [OF h1(2)] by simp
  qed
qed

lemma prepare_ok:
  assumes "prepare get_taskhash cf tds dcs targets siggen = Inr (Some d)"
  shows "rq_entries d \<noteq> []" "graph_wf (rq_entries d)" "acyclic (dep_edges (rq_entries d))"
proof -
  obtain g tids h where g: "prepare_graph tds dcs targets = Inr (g, tids)"
    "hash_loop (call_siggen get_taskhash dcs) (length g) \<lparr>h_entries = g, h_dealt = [], h_todeal = dkeys g, h_siggen = siggen\<rparr> = Inr h"
    "rq_entries d = h_entries h"
    using assms by (auto simp: prepare_def elim!: rbind_InrE split: if_splits)
  have k: "dkeys (h_entries h) = dkeys g" "deps (h_entries h) = deps g" "revs (h_entries h) = revs g"
    using hash_loop_frame [OF g(2)] by simp_all
  obtain "g \<noteq> []" "graph_wf g" "acyclic (dep_edges g)" by (rule prepare_graph_parts [OF g(1)])
  moreover have "rq_entries d \<noteq> []" using k(1) \<open>g \<noteq> []\<close> g(3) by (auto simp: dkeys_def)
  ultimately show "rq_entries d \<noteq> []" "graph_wf (rq_entries d)" "acyclic (dep_edges (rq_entries d))"
    unfolding g(3) using same_graph_wf [of "h_entries h" g] k by simp_all
qed

text \<open>
  C13. The search for dependency loops always comes to an end, on every graph and for every list of
  tasks: the fuel given to it, one more than the number of tasks, is never used up.
\<close>
theorem circular_search_terminates:
  "circular_depchains_handler g tasks \<noteq> Inl OutOfFuel"
proof -
  have "rfold (\<lambda>task. find_chains (Suc (length g)) g task []) tasks st \<noteq> Inl OutOfFuel" for st
    using find_chains_fuel(1) [of "[]" g _ "Suc (length g)"]
    by (induction tasks arbitrary: st) (auto simp: rbind_Inl_iff simp del: find_chains.simps)
  then show ?thesis by (auto simp: circular_depchains_handler_def rbind_Inl_iff simp del: find_chains.simps)
qed

text \<open>
  The loop that computes the task hashes ends: on a graph without cycles as many rounds as there
  are tasks are enough.  When the signature generator raises nothing of its own, every task has been
  dealt with exactly once, after all of its dependencies, has a hash, and keeps its dependencies.
\<close>
theorem hash_loop_deps_first:
  fixes g :: "'t graph" and s :: 'g
  assumes "graph_wf g" "acyclic (dep_edges g)" "\<And>t ds s. siggen t ds s \<noteq> Inl OutOfFuel"
    "hash_loop siggen (length g) \<lparr>h_entries = g, h_dealt = [], h_todeal = dkeys g, h_siggen = s\<rparr> = r"
  shows "r \<noteq> Inl OutOfFuel \<and>
    (\<forall>h. r = Inr h \<longrightarrow> set (h_dealt h) = set (dkeys g) \<and> distinct (h_dealt h) \<and> deps_first g (h_dealt h) \<and>
       (\<forall>t \<in> set (dkeys g). \<exists>e hash. dget (h_entries h) t = Some e \<and> rt_hash e = Some hash \<and>
          rt_depends e = deps g t))"
proof -
  let ?h = "\<lparr>h_entries = g, h_dealt = [], h_todeal = dkeys g, h_siggen = s\<rparr>"
  have "hashing_ok g ?h" using assms(1) by (auto simp: hashing_ok_def graph_wf_def dwf_def deps_first_def)
  moreover have "length (h_todeal ?h) \<le> length g" by (simp add: dkeys_def)
  ultimately have f: "r \<noteq> Inl OutOfFuel \<and> (\<forall>h. r = Inr h \<longrightarrow> hashing_ok g h \<and> h_todeal h = [])"
    unfolding assms(4) [symmetric] by (rule hash_loop_fuel [OF _ assms(1,2) _ assms(3)])
  have "rt_depends e = deps g t" if "hashing_ok g h" "dget (h_entries h) t = Some e" for h :: "('t, 'g) hashing" and t e
  proof -
    have "deps (h_entries h) t = deps g t" using that(1) unfolding hashing_ok_def by blast
    then show ?thesis using that(2) by (simp add: deps_def [of "h_entries h"])
  qed
  moreover have "set (h_dealt h) = set (dkeys g) \<and> distinct (h_dealt h) \<and> deps_first g (h_dealt h) \<and>
      (\<forall>t \<in> set (h_dealt h). \<exists>e hash. dget (h_entries h) t = Some e \<and> rt_hash e = Some hash)"
    if "hashing_ok g h" "h_todeal h = []" for h
    using that by (simp add: hashing_ok_def)
  ultimately show ?thesis using f by metis
qed

lemma hash_loop_deps_first_witness:
  "\<exists>h. hash_loop (\<lambda>t ds s. Inr (s + 1, [])) 4 \<lparr>h_entries = diamond, h_dealt = [], h_todeal = dkeys diamond, h_siggen = 0 :: nat\<rparr> =
       Inr h \<and> h_siggen h = 4 \<and> h_dealt h = [4, 2, 3, 1] \<and> deps_first diamond (h_dealt h)"
proof -
  let ?r = "hash_loop (\<lambda>t ds s. Inr (s + 1, [])) 4
    \<lparr>h_entries = diamond, h_dealt = [], h_todeal = dkeys diamond, h_siggen = 0 :: nat\<rparr>"
  have n: "length diamond = 4" by (simp add: diamond_def)
  have ac: "acyclic (dep_edges diamond)"
  proof -
    have "dep_edges diamond \<subseteq> {(t, d). t < d}" by (auto simp: dep_edges_def diamond_def deps_def split: if_splits)
    moreover have "acyclic {(t :: nat, d). t < d}" by (rule acyclicI_order [of _ "\<lambda>n. - int n"]) auto
    ultimately show ?thesis by (rule acyclic_subset [rotated])
  qed
  have "?r = Inr (the (case ?r of Inr h \<Rightarrow> Some h)) \<and> h_siggen (the (case ?r of Inr h \<Rightarrow> Some h)) = 4 \<and>
      h_dealt (the (case ?r of Inr h \<Rightarrow> Some h)) = [4, 2, 3, 1]"
    by code_simp
  then obtain h where h: "?r = Inr h" "h_siggen h = 4" "h_dealt h = [4, 2, 3, 1]" by blast
  moreover have "deps_first diamond (h_dealt h)"
    using hash_loop_deps_first [OF diamond_wf ac, of "\<lambda>t ds s. Inr (s + 1, [])" "0 :: nat", unfolded n, OF _ h(1)]
    by simp
  ultimately show ?thesis by blast
qed

end
