(* ===== verification/Stamps.thy ===== *)
theory Stamps
  imports RunQueueData
begin

text \<open>
  Stamp files: \<open>stamp_internal\<close>, \<open>stamp_cleanmask_internal\<close>, \<open>make_stamp\<close>, \<open>del_stamp\<close> and
  \<open>stampfile\<close> of \<open>bitbake/lib/bb/build.py\<close>, called with a \<open>CacheData\<close> and a file name, and
  \<open>RunQueue.check_stamp_task\<close> of \<open>bitbake/lib/bb/runqueue.py\<close>, which decides from the time stamps
  whether a task has to run.

  \<open>sigstamp\<close> and \<open>sigmask\<close> are \<open>stampfile\<close> and \<open>stampcleanmask\<close> of the signature generator.  The
  directory tree is a dictionary from paths to modification times; \<open>glob\<close> is \<open>glob.glob\<close> on it.
  Creating the directory of a stamp is left out.
\<close>

section \<open>Names of stamps\<close>

text \<open>\<open>s.replace(old, new)\<close> for a non-empty \<open>old\<close>.\<close>

function py_replace :: "string \<Rightarrow> string \<Rightarrow> string \<Rightarrow> string" where
  "py_replace old new s =
     (case s of
        [] \<Rightarrow> []
      | c # cs \<Rightarrow>
          if old \<noteq> [] \<and> startswith s old then new @ py_replace old new (drop (length old) s)
          else c # py_replace old new cs)"
  by pat_completeness auto
termination
  by (relation "measure (\<lambda>(old, new, s). length s)") auto

declare py_replace.simps [simp del]

type_synonym signame = "string \<Rightarrow> string \<Rightarrow> string \<Rightarrow> string \<Rightarrow> string res"

definition setscene_name :: "string \<Rightarrow> bool" where
  "setscene_name taskname = (endswith taskname ''_setscene'' \<and> taskname \<noteq> ''do_setscene'')"

definition task_flag_name :: "string \<Rightarrow> string" where
  "task_flag_name taskname = (if setscene_name taskname then py_replace ''_setscene'' [] taskname else taskname)"

definition stamp_extra :: "cachedata \<Rightarrow> string \<Rightarrow> string \<Rightarrow> string res" where
  "stamp_extra dc file_name flag =
     rbind (dlookup (c_stamp_extrainfo dc) file_name) (\<lambda>m.
       Inr (case dgetd m flag None of None \<Rightarrow> [] | Some v \<Rightarrow> v))"

text \<open>Without a file name the argument would have to be a datastore, which a \<open>CacheData\<close> is not.\<close>

definition stamp_internal :: "signame \<Rightarrow> string \<Rightarrow> cachedata \<Rightarrow> string \<Rightarrow> bool \<Rightarrow> bool \<Rightarrow> string option res" where
  "stamp_internal sigstamp taskname dc file_name baseonly noextra =
     (if file_name = [] then Inl AttributeError
      else rbind (dlookup (c_stamp dc) file_name) (\<lambda>stamp.
           rbind (stamp_extra dc file_name (task_flag_name taskname)) (\<lambda>extrainfo.
             if baseonly then Inr (Some stamp)
             else let extrainfo = (if noextra then [] else extrainfo)
               in if stamp = [] then Inr None
                  else rbind (sigstamp stamp file_name taskname extrainfo) (\<lambda>s. Inr (Some s)))))"

definition stampfile :: "signame \<Rightarrow> string \<Rightarrow> cachedata \<Rightarrow> string \<Rightarrow> bool \<Rightarrow> string option res" where
  "stampfile sigstamp taskname dc file_name noextra = stamp_internal sigstamp taskname dc file_name False noextra"

definition stamp_cleanmask_internal :: "signame \<Rightarrow> string \<Rightarrow> cachedata \<Rightarrow> string \<Rightarrow> string list res" where
  "stamp_cleanmask_internal sigmask taskname dc file_name =
     (if file_name = [] then Inl AttributeError
      else let taskflagname = task_flag_name taskname
        in rbind (dlookup (c_stampclean dc) file_name) (\<lambda>stamp.
           rbind (stamp_extra dc file_name taskflagname) (\<lambda>extrainfo.
             if stamp = [] then Inr []
             else rbind (sigmask stamp file_name taskname extrainfo) (\<lambda>cleanmask.
               Inr [cleanmask, py_replace taskflagname (taskflagname @ ''_setscene'') cleanmask]))))"

section \<open>Making and deleting stamps\<close>

type_synonym files = "(string, int) dict"

text \<open>\<open>bb.utils.remove(path)\<close> unlinks what the path matches.\<close>

definition remove_path :: "(string \<Rightarrow> files \<Rightarrow> string list) \<Rightarrow> string option \<Rightarrow> files \<Rightarrow> files" where
  "remove_path glob path fs = (case path of None \<Rightarrow> fs | Some p \<Rightarrow> if p = [] then fs else fold ddel (glob p fs) fs)"

definition keep_in_stamps :: "string \<Rightarrow> bool" where
  "keep_in_stamps name = (py_contains ''sigdata'' name \<or> py_contains ''sigbasedata'' name \<or> endswith name ''.taint'')"

definition clean_mask :: "(string \<Rightarrow> files \<Rightarrow> string list) \<Rightarrow> string \<Rightarrow> files \<Rightarrow> files" where
  "clean_mask glob pattern fs = fold (\<lambda>name fs. if keep_in_stamps name then fs else ddel name fs) (glob pattern fs) fs"

definition make_stamp ::
  "signame \<Rightarrow> signame \<Rightarrow> (string \<Rightarrow> files \<Rightarrow> string list) \<Rightarrow> int \<Rightarrow> string \<Rightarrow> cachedata \<Rightarrow> string \<Rightarrow> files \<Rightarrow> files res" where
  "make_stamp sigmask sigstamp glob now task dc file_name fs =
     rbind (stamp_cleanmask_internal sigmask task dc file_name) (\<lambda>masks.
     rbind (stamp_internal sigstamp task dc file_name False False) (\<lambda>stamp.
       let fs = fold (clean_mask glob) masks fs
       in Inr (case stamp of
                 None \<Rightarrow> fs
               | Some s \<Rightarrow> if s = [] then fs else dset s now (remove_path glob stamp fs))))"

definition del_stamp ::
  "signame \<Rightarrow> (string \<Rightarrow> files \<Rightarrow> string list) \<Rightarrow> string \<Rightarrow> cachedata \<Rightarrow> string \<Rightarrow> files \<Rightarrow> files res" where
  "del_stamp sigstamp glob task dc file_name fs =
     rbind (stamp_internal sigstamp task dc file_name False False) (\<lambda>stamp. Inr (remove_path glob stamp fs))"

section \<open>check_stamp_task\<close>

text \<open>
  \<open>sv_time\<close> gives the modification time of a file that is accessible; \<open>sv_whitelist\<close> is
  \<open>stampfnwhitelist\<close>.  A time of 0 counts as no time, like \<open>None\<close>.
\<close>

record stampview =
  sv_policy :: string
  sv_time :: "string \<Rightarrow> int option"
  sv_sig :: signame
  sv_dcs :: mcdc
  sv_whitelist :: "(string, string list) dict"

definition stamp_of :: "stampview \<Rightarrow> string \<Rightarrow> string \<Rightarrow> string \<Rightarrow> string option res" where
  "stamp_of v mc taskname taskfn = rbind (dlookup (sv_dcs v) mc) (\<lambda>dc. stampfile (sv_sig v) taskname dc taskfn False)"

definition get_timestamp :: "stampview \<Rightarrow> string option \<Rightarrow> int option" where
  "get_timestamp v f = (case f of None \<Rightarrow> None | Some f \<Rightarrow> sv_time v f)"

definition truthy :: "int option \<Rightarrow> bool" where
  "truthy t = (case t of None \<Rightarrow> False | Some n \<Rightarrow> n \<noteq> 0)"

text \<open>What one dependency says: \<open>None\<close> when it does not matter, else whether its stamp is not newer than \<open>t1\<close>.\<close>

definition judge_dep ::
  "stampview \<Rightarrow> string \<Rightarrow> bool \<Rightarrow> string list \<Rightarrow> int \<Rightarrow> string \<Rightarrow> bool option res" where
  "judge_dep v fn fulldeptree whitelist t1 dep =
     rbind (split_tid_mcfn dep) (\<lambda>(mc2, fn2, taskname2, taskfn2).
     rbind (stamp_of v mc2 taskname2 taskfn2) (\<lambda>stampfile2.
     rbind (stamp_of v mc2 (taskname2 @ ''_setscene'') taskfn2) (\<lambda>stampfile3.
       let t2 = get_timestamp v stampfile2; t3 = get_timestamp v stampfile3
       in if truthy t3 \<and> (\<not> truthy t2 \<or> the t3 > the t2) then Inr None
          else if fn = fn2 \<or> (fulldeptree \<and> fn2 \<notin> set whitelist) then Inr (Some (truthy t2 \<and> \<not> t1 < the t2))
          else Inr None)))"

text \<open>
  The loop over the dependencies; \<open>again\<close> is the recursive call, which only happens with \<open>recurse\<close>.  The
  fuel of \<open>check_stamp_task\<close> bounds the depth of the recursion.
\<close>

type_synonym stampcache = "(string, bool) dict"

primrec check_stamp_deps ::
  "(string \<Rightarrow> stampcache \<Rightarrow> (bool \<times> stampcache) res) \<Rightarrow> (string \<Rightarrow> bool option res) \<Rightarrow> bool \<Rightarrow> string list \<Rightarrow>
   stampcache \<Rightarrow> (bool \<times> stampcache) res" where
  "check_stamp_deps again judge recurse [] cache = Inr (True, cache)"
| "check_stamp_deps again judge recurse (dep # ds) cache =
     rbind (judge dep) (\<lambda>verdict.
       case verdict of
         None \<Rightarrow> check_stamp_deps again judge recurse ds cache
       | Some current \<Rightarrow>
           if \<not> current then Inr (False, cache)
           else if \<not> recurse then check_stamp_deps again judge recurse ds cache
           else rbind (case dget cache dep of
                         Some b \<Rightarrow> Inr (b, cache)
                       | None \<Rightarrow> rbind (again dep cache) (\<lambda>(b, cache). Inr (b, dset dep b cache)))
                  (\<lambda>(b, cache). if b then check_stamp_deps again judge recurse ds cache else Inr (False, cache)))"

text \<open>The part once the time \<open>t1\<close> of the stamp is known, and the whole check with \<open>again\<close> for its recursive calls.\<close>

definition check_stamped ::
  "(string \<Rightarrow> stampcache \<Rightarrow> (bool \<times> stampcache) res) \<Rightarrow> (string \<Rightarrow> bool option res) \<Rightarrow> cachedata \<Rightarrow> string graph \<Rightarrow>
   string \<Rightarrow> string \<Rightarrow> string \<Rightarrow> bool \<Rightarrow> stampcache \<Rightarrow> (bool \<times> stampcache) res" where
  "check_stamped again judge dc g tid taskname taskfn recurse cache =
     rbind (dlookup (c_task_deps dc) taskfn) (\<lambda>taskdep.
       if task_flag taskdep ''nostamp'' taskname \<noteq> None then Inr (False, cache)
       else if setscene_name taskname then Inr (True, cache)
       else rbind (dlookup g tid) (\<lambda>e.
            rbind (check_stamp_deps again judge recurse (rt_depends e) cache) (\<lambda>(iscurrent, cache).
              Inr (iscurrent, if recurse then dset tid iscurrent cache else cache))))"

definition check_stamp ::
  "(string \<Rightarrow> stampcache \<Rightarrow> (bool \<times> stampcache) res) \<Rightarrow> stampview \<Rightarrow> string graph \<Rightarrow> string \<Rightarrow> string option \<Rightarrow> bool \<Rightarrow>
   stampcache \<Rightarrow> (bool \<times> stampcache) res" where
  "check_stamp again v g tid name recurse cache =
     rbind (split_tid_mcfn tid) (\<lambda>(mc, fn, tn, taskfn).
       let taskname = (case name of None \<Rightarrow> tn | Some t \<Rightarrow> t)
       in rbind (if sv_policy v = ''whitelist'' then dlookup (sv_whitelist v) mc else Inr []) (\<lambda>whitelist.
          rbind (stamp_of v mc taskname taskfn) (\<lambda>stamp.
            case stamp of
              None \<Rightarrow> Inl TypeError
            | Some f \<Rightarrow>
                (case sv_time v f of
                   None \<Rightarrow> Inr (False, cache)
                 | Some t1 \<Rightarrow>
                     rbind (dlookup (sv_dcs v) mc) (\<lambda>dc.
                       check_stamped again (judge_dep v fn (sv_policy v \<noteq> ''perfile'') whitelist t1) dc g tid taskname taskfn
                         recurse cache)))))"

primrec check_stamp_task ::
  "nat \<Rightarrow> stampview \<Rightarrow> string graph \<Rightarrow> string \<Rightarrow> string option \<Rightarrow> bool \<Rightarrow> stampcache \<Rightarrow> (bool \<times> stampcache) res" where
  "check_stamp_task 0 v g tid name recurse cache = Inl OutOfFuel"
| "check_stamp_task (Suc n) v g tid name recurse cache =
     check_stamp (\<lambda>dep. check_stamp_task n v g dep None True) v g tid name recurse cache"

section \<open>What a current stamp means\<close>

lemma check_stamp_deps_sound:
  "check_stamp_deps again judge recurse ds cache = Inr (True, cache') \<Longrightarrow> dep \<in> set ds \<Longrightarrow>
     judge dep \<in> {Inr None, Inr (Some True)}"
proof (induction ds arbitrary: cache)
  case Nil
  then show ?case by simp
next
  case (Cons d ds)
  obtain verdict where v: "judge d = Inr verdict" using Cons.prems(1) by (cases "judge d") auto
  have "verdict \<noteq> Some False" using Cons.prems(1) v by auto
  moreover obtain c where "check_stamp_deps again judge recurse ds c = Inr (True, cache')"
    using Cons.prems(1) v by (auto simp: res_simps split: option.splits if_splits)
  ultimately show ?case using Cons.IH Cons.prems(2) v by (cases verdict) auto
qed

lemma judge_same_file:
  assumes "judge_dep v fn fulldeptree whitelist t1 dep \<in> {Inr None, Inr (Some True)}"
    "split_tid_mcfn dep = Inr (mc2, fn, tn2, taskfn2)"
    "stamp_of v mc2 tn2 taskfn2 = Inr s2" "stamp_of v mc2 (tn2 @ ''_setscene'') taskfn2 = Inr s3"
  shows "(truthy (get_timestamp v s2) \<and> the (get_timestamp v s2) \<le> t1) \<or>
    (truthy (get_timestamp v s3) \<and>
      (\<not> truthy (get_timestamp v s2) \<or> the (get_timestamp v s2) < the (get_timestamp v s3)))"
  using assms by (auto simp: judge_dep_def Let_def not_less split: if_splits)

definition deps_judged :: "stampview \<Rightarrow> string graph \<Rightarrow> string \<Rightarrow> string \<Rightarrow> int \<Rightarrow> bool" where
  "deps_judged v g tid fn t1 =
     (\<exists>whitelist. \<forall>dep \<in> set (deps g tid).
        judge_dep v fn (sv_policy v \<noteq> ''perfile'') whitelist t1 dep \<in> {Inr None, Inr (Some True)})"

lemma check_stamped_True:
  assumes "check_stamped again judge dc g tid taskname taskfn recurse cache = Inr (True, cache')"
  shows "\<exists>td. dget (c_task_deps dc) taskfn = Some td \<and> task_flag td ''nostamp'' taskname = None \<and>
    (setscene_name taskname \<or> (\<forall>dep \<in> set (deps g tid). judge dep \<in> {Inr None, Inr (Some True)}))"
proof -
  obtain td where td: "dget (c_task_deps dc) taskfn = Some td" "task_flag td ''nostamp'' taskname = None"
    using assms by (auto simp: check_stamped_def res_simps split: if_splits)
  have "judge dep \<in> {Inr None, Inr (Some True)}" if ns: "\<not> setscene_name taskname" and dep: "dep \<in> set (deps g tid)" for dep
  proof -
    obtain e c where e: "dget g tid = Some e" "check_stamp_deps again judge recurse (rt_depends e) cache = Inr (True, c)"
      using assms td ns by (auto simp: check_stamped_def res_simps)
    have "dep \<in> set (rt_depends e)" using e(1) dep by (simp add: deps_def)
    then show ?thesis by (rule check_stamp_deps_sound [OF e(2)])
  qed
  then show ?thesis using td by blast
qed

lemma check_stamp_True:
  assumes "check_stamp again v g tid name recurse cache = Inr (True, cache')"
    "split_tid_mcfn tid = Inr (mc, fn, tn, taskfn)" "taskname = (case name of None \<Rightarrow> tn | Some t \<Rightarrow> t)"
  shows "\<exists>s t1 dc td. stamp_of v mc taskname taskfn = Inr (Some s) \<and> sv_time v s = Some t1 \<and>
    dget (sv_dcs v) mc = Some dc \<and> dget (c_task_deps dc) taskfn = Some td \<and> task_flag td ''nostamp'' taskname = None \<and>
    (setscene_name taskname \<or> deps_judged v g tid fn t1)"
proof -
  obtain whitelist s t1 dc where w: "stamp_of v mc taskname taskfn = Inr (Some s)" "sv_time v s = Some t1"
    "dget (sv_dcs v) mc = Some dc"
    "check_stamped again (judge_dep v fn (sv_policy v \<noteq> ''perfile'') whitelist t1) dc g tid taskname taskfn recurse cache =
       Inr (True, cache')"
  proof -
    have "rbind (if sv_policy v = ''whitelist'' then dlookup (sv_whitelist v) mc else Inr []) (\<lambda>whitelist.
          rbind (stamp_of v mc taskname taskfn) (\<lambda>stamp.
            case stamp of
              None \<Rightarrow> Inl TypeError
            | Some f \<Rightarrow>
                (case sv_time v f of
                   None \<Rightarrow> Inr (False, cache)
                 | Some t1 \<Rightarrow>
                     rbind (dlookup (sv_dcs v) mc) (\<lambda>dc.
                       check_stamped again (judge_dep v fn (sv_policy v \<noteq> ''perfile'') whitelist t1) dc g tid taskname taskfn
                         recurse cache)))) = Inr (True, cache')"
      using assms(1,2) unfolding check_stamp_def assms(3) by (simp add: Let_def)
    then obtain whitelist stamp where
      "stamp_of v mc taskname taskfn = Inr stamp"
      "(case stamp of
              None \<Rightarrow> Inl TypeError
            | Some f \<Rightarrow>
                (case sv_time v f of
                   None \<Rightarrow> Inr (False, cache)
                 | Some t1 \<Rightarrow>
                     rbind (dlookup (sv_dcs v) mc) (\<lambda>dc.
                       check_stamped again (judge_dep v fn (sv_policy v \<noteq> ''perfile'') whitelist t1) dc g tid taskname taskfn
                         recurse cache))) = Inr (True, cache')"
      by (elim rbind_InrE) (rule that)
    then show ?thesis using that by (auto simp: rbind_Inr_iff split: option.splits)
  qed
  then show ?thesis using check_stamped_True [OF w(4)] unfolding deps_judged_def by blast
qed


section \<open>The recursion ends\<close>

lemma split_tid_mcfn_no_fuel: "split_tid_mcfn tid \<noteq> Inl OutOfFuel"
  by (auto simp: split_tid_mcfn_def Let_def split: option.splits if_splits)

lemma stamp_of_no_fuel:
  "(\<And>a b c d. sv_sig v a b c d \<noteq> Inl OutOfFuel) \<Longrightarrow> stamp_of v mc taskname taskfn \<noteq> Inl OutOfFuel"
  by (auto simp: stamp_of_def stampfile_def stamp_internal_def stamp_extra_def res_simps Let_def)

lemma judge_dep_no_fuel:
  "(\<And>a b c d. sv_sig v a b c d \<noteq> Inl OutOfFuel) \<Longrightarrow> judge_dep v fn fulldeptree whitelist t1 dep \<noteq> Inl OutOfFuel"
  using split_tid_mcfn_no_fuel [of dep] stamp_of_no_fuel [of v]
  by (auto simp: judge_dep_def res_simps Let_def split: if_splits)

lemma check_stamp_deps_no_fuel:
  "(\<And>d. judge d \<noteq> Inl OutOfFuel) \<Longrightarrow> (\<And>d c. d \<in> set ds \<Longrightarrow> again d c \<noteq> Inl OutOfFuel) \<Longrightarrow>
     check_stamp_deps again judge recurse ds cache \<noteq> Inl OutOfFuel"
  by (induction ds arbitrary: cache) (auto simp: rbind_Inl_iff split: option.splits)

lemma check_stamped_no_fuel:
  assumes "\<And>d. judge d \<noteq> Inl OutOfFuel" "\<And>d c. d \<in> set (deps g tid) \<Longrightarrow> again d c \<noteq> Inl OutOfFuel"
  shows "check_stamped again judge dc g tid taskname taskfn recurse cache \<noteq> Inl OutOfFuel"
proof -
  have "check_stamp_deps again judge recurse (rt_depends e) cache \<noteq> Inl OutOfFuel" if "dget g tid = Some e" for e
    using that assms by (intro check_stamp_deps_no_fuel) (auto simp: deps_def)
  then show ?thesis by (auto simp: check_stamped_def rbind_Inl_iff split: if_splits)
qed

lemma check_stamp_no_fuel:
  assumes "\<And>a b c d. sv_sig v a b c d \<noteq> Inl OutOfFuel" "\<And>d c. d \<in> set (deps g tid) \<Longrightarrow> again d c \<noteq> Inl OutOfFuel"
  shows "check_stamp again v g tid name recurse cache \<noteq> Inl OutOfFuel"
proof -
  have "check_stamped again (judge_dep v fn b w t1) dc g tid taskname taskfn recurse cache \<noteq> Inl OutOfFuel"
    for fn b w t1 dc taskname taskfn
    by (rule check_stamped_no_fuel [OF judge_dep_no_fuel [OF assms(1)] assms(2)])
  then show ?thesis
    using split_tid_mcfn_no_fuel [of tid] stamp_of_no_fuel [of v] assms(1)
    by (auto simp: check_stamp_def rbind_Inl_iff Let_def split: option.splits if_splits)
qed

text \<open>
  On a graph without cycles the recursion of \<open>check_stamp_task\<close> ends: a depth of one more than the
  number of tasks is enough, whatever the file system and the cache hold, unless the signature generator
  itself does not return.
\<close>
theorem check_stamp_task_terminates:
  assumes "graph_wf g" "acyclic (dep_edges g)" "\<And>a b c d. sv_sig v a b c d \<noteq> Inl OutOfFuel"
  shows "check_stamp_task (Suc (length g)) v g tid name recurse cache \<noteq> Inl OutOfFuel"
proof -
  have "below g tid < n \<Longrightarrow> check_stamp_task n v g tid name recurse cache \<noteq> Inl OutOfFuel" for n
  proof (induction n arbitrary: tid name recurse cache)
    case 0
    then show ?case by simp
  next
    case (Suc n)
    have "below g d < n" if "d \<in> set (deps g tid)" for d
      using below_less [OF assms(2) deps_edge [OF that]] Suc.prems by simp
    then show ?case using Suc.IH by (simp add: check_stamp_no_fuel [OF assms(3)])
  qed
  moreover have "below g tid < Suc (length g)" using below_length [OF assms(1), of tid] by simp
  ultimately show ?thesis by blast
qed

text \<open>The names of \<open>SignatureGenerator\<close>, the base class.\<close>

definition plain_stampfile :: signame where
  "plain_stampfile stampbase file_name taskname extrainfo =
     Inr (rstrip_by (\<lambda>c. c = CHR ''.'') (stampbase @ ''.'' @ taskname @ ''.'' @ extrainfo))"

definition plain_stampcleanmask :: signame where
  "plain_stampcleanmask = plain_stampfile"

definition example_view :: stampview where
  "example_view = \<lparr>sv_policy = ''perfile'',
     sv_time = map_of [(''st/a.x'', 10), (''st/a.y'', 12), (''st/a.y_setscene'', 9)],
     sv_sig = plain_stampfile,
     sv_dcs = [('''', init_cacheData\<lparr>c_task_deps := [(''a.bb'', no_task_deps)], c_stamp := [(''a.bb'', ''st/a'')],
       c_stamp_extrainfo := [(''a.bb'', [])]\<rparr>)],
     sv_whitelist = []\<rparr>"

definition example_graph :: "string graph" where
  "example_graph = [(''a.bb:x'', \<lparr>rt_depends = [], rt_revdeps = [''a.bb:y''], rt_hash = None, rt_weight = 11\<rparr>),
    (''a.bb:y'', \<lparr>rt_depends = [''a.bb:x''], rt_revdeps = [], rt_hash = None, rt_weight = 10\<rparr>)]"


lemma example_graph_ok: "graph_wf example_graph" "acyclic (dep_edges example_graph)"
proof -
  show "graph_wf example_graph" by (auto simp: graph_wf_def example_graph_def dwf_def deps_def revs_def)
  have "dep_edges example_graph \<subseteq> {(''a.bb:y'', ''a.bb:x'')}"
    by (auto simp: dep_edges_def example_graph_def deps_def split: if_splits)
  moreover have "acyclic {(''a.bb:y'', ''a.bb:x'')}" by (simp add: acyclic_def trancl_insert)
  ultimately show "acyclic (dep_edges example_graph)" by (rule acyclic_subset [rotated])
qed

lemma check_stamp_task_terminates_witness:
  "check_stamp_task 3 example_view example_graph ''a.bb:y'' None True [] \<noteq> Inl OutOfFuel"
proof -
  have n: "Suc (length example_graph) = 3" by (simp add: example_graph_def)
  have "sv_sig example_view a b c d \<noteq> Inl OutOfFuel" for a b c d
    by (simp add: example_view_def plain_stampfile_def)
  from check_stamp_task_terminates [OF example_graph_ok this] show ?thesis unfolding n .
qed

section \<open>What make_stamp does\<close>

lemma dget_fold_ddel: "dget (fold ddel names fs) p = (if p \<in> set names then None else dget fs p)"
  by (induction names arbitrary: fs) auto

lemma clean_mask_keeps:
  "keep_in_stamps p \<Longrightarrow> dget (clean_mask glob pattern fs) p = dget fs p"
proof -
  assume k: "keep_in_stamps p"
  have "dget (fold (\<lambda>name fs. if keep_in_stamps name then fs else ddel name fs) names fs) p = dget fs p" for names fs
    using k by (induction names arbitrary: fs) auto
  then show ?thesis by (simp add: clean_mask_def)
qed

lemma clean_mask_only: "p \<notin> set (glob pattern fs) \<Longrightarrow> dget (clean_mask glob pattern fs) p = dget fs p"
proof -
  assume k: "p \<notin> set (glob pattern fs)"
  have "p \<notin> set names \<Longrightarrow>
      dget (fold (\<lambda>name fs. if keep_in_stamps name then fs else ddel name fs) names fs) p = dget fs p" for names fs
    by (induction names arbitrary: fs) auto
  then show ?thesis using k by (simp add: clean_mask_def)
qed

text \<open>
  \<open>make_stamp\<close> for a file that is known and has a stamp: the stamp carries the present time, and
  signature and taint files are left alone, unless the name of the stamp itself matches them.
\<close>
theorem make_stamp_effect:
  assumes "stamp_internal sigstamp task dc fn False False = Inr (Some s)" "s \<noteq> []"
    "stamp_cleanmask_internal sigmask task dc fn = Inr masks"
  shows "\<exists>fs'. make_stamp sigmask sigstamp glob now task dc fn fs = Inr fs' \<and> dget fs' s = Some now \<and>
    (\<forall>p. keep_in_stamps p \<longrightarrow> p \<noteq> s \<longrightarrow> (\<forall>fs. p \<notin> set (glob s fs)) \<longrightarrow> dget fs' p = dget fs p)"
proof -
  let ?fs = "fold (clean_mask glob) masks fs"
  have "make_stamp sigmask sigstamp glob now task dc fn fs = Inr (dset s now (fold ddel (glob s ?fs) ?fs))"
    using assms by (simp add: make_stamp_def remove_path_def Let_def)
  moreover have "dget (fold (clean_mask glob) masks fs) p = dget fs p" if "keep_in_stamps p" for p fs
    using clean_mask_keeps [OF that] by (induction masks arbitrary: fs) simp_all
  ultimately show ?thesis by (simp add: dget_fold_ddel)
qed

lemma make_stamp_effect_witness:
  "\<exists>fs'. make_stamp plain_stampcleanmask plain_stampfile (\<lambda>p fs. if p \<in> set (dkeys fs) then [p] else []) 99 ''y''
       (init_cacheData\<lparr>c_stamp := [(''a.bb'', ''st/a'')], c_stampclean := [(''a.bb'', ''st/a'')],
          c_stamp_extrainfo := [(''a.bb'', [])]\<rparr>) ''a.bb''
       [(''st/a.y'', 12), (''st/a.y.taint'', 3)] = Inr fs' \<and>
     dget fs' ''st/a.y'' = Some 99 \<and> dget fs' ''st/a.y.taint'' = Some 3"
proof -
  let ?dc = "init_cacheData\<lparr>c_stamp := [(''a.bb'', ''st/a'')], c_stampclean := [(''a.bb'', ''st/a'')],
    c_stamp_extrainfo := [(''a.bb'', [])]\<rparr>"
  let ?glob = "\<lambda>p (fs :: files). if p \<in> set (dkeys fs) then [p] else []"
  have s: "stamp_internal plain_stampfile ''y'' ?dc ''a.bb'' False False = Inr (Some ''st/a.y'')" by code_simp
  have m: "stamp_cleanmask_internal plain_stampcleanmask ''y'' ?dc ''a.bb'' = Inr [''st/a.y'', ''st/a.y_setscene'']"
    by code_simp
  have k: "keep_in_stamps ''st/a.y.taint''" by code_simp
  show ?thesis
    using make_stamp_effect [OF s _ m, of ?glob 99 "[(''st/a.y'', 12), (''st/a.y.taint'', 3)]"] k by fastforce
qed

end
