(* ===== verification/Checksums.thy ===== *)
theory Checksums
  imports Stamps
begin

text \<open>
  The cache of file checksums, \<open>bitbake/lib/bb/checksum.py\<close>: \<open>FileMtimeCache\<close> and
  \<open>FileChecksumCache\<close>.  The signature generator asks it for the checksums of the local files of a task.

  \<open>fcc_get_checksums\<close> is shown to return what it would return without any cache, as long as the
  entries of the cache tell the truth about the files; merging the entries of other processes keeps this.
\<close>

section \<open>Files\<close>

text \<open>
  What the code asks the operating system: \<open>os.stat(f)[ST_MTIME]\<close> and \<open>bb.utils.md5_file\<close>, both \<open>None\<close>
  where they raise \<open>OSError\<close>; the tests for directories and links; \<open>glob.glob\<close>; and \<open>os.walk\<close>, of which
  only the directory and the names of its files matter.
\<close>

record filesystem =
  fs_mtime :: "string \<Rightarrow> int option"
  fs_md5 :: "string \<Rightarrow> string option"
  fs_isdir :: "string \<Rightarrow> bool"
  fs_islink :: "string \<Rightarrow> bool"
  fs_glob :: "string \<Rightarrow> string list"
  fs_walk :: "string \<Rightarrow> (string \<times> string list) list"

definition os_call :: "'a option \<Rightarrow> 'a res" where
  "os_call r = (case r of None \<Rightarrow> Inl OSError | Some x \<Rightarrow> Inr x)"

lemma os_call_iff [simp]:
  "os_call r = Inr x \<longleftrightarrow> r = Some x"
  "os_call r = Inl e \<longleftrightarrow> r = None \<and> e = OSError"
  by (auto simp: os_call_def split: option.split)

text \<open>\<open>os.path.join(root, name)\<close>.\<close>

definition py_join :: "string \<Rightarrow> string \<Rightarrow> string" where
  "py_join root name =
     (if startswith name ''/'' then name
      else if root = [] \<or> endswith root ''/'' then root @ name
      else root @ ''/'' @ name)"

section \<open>Times of files\<close>

text \<open>
  The two caches: the times of \<open>FileMtimeCache\<close>, which live as long as the program, the entries loaded
  from disk (\<open>cachedata[0]\<close>) and those made in this run (\<open>cachedata_extras[0]\<close>).
\<close>

type_synonym mtimes = "(string, int) dict"

record checksum_cache =
  fcc_mtimes :: mtimes
  fcc_cachedata :: "(string, int \<times> string) dict"
  fcc_extras :: "(string, int \<times> string) dict"

definition cached_mtime :: "filesystem \<Rightarrow> string \<Rightarrow> mtimes \<Rightarrow> (int \<times> mtimes) res" where
  "cached_mtime w f m =
     (case dget m f of
        Some t \<Rightarrow> Inr (t, m)
      | None \<Rightarrow> rbind (os_call (fs_mtime w f)) (\<lambda>t. Inr (t, dset f t m)))"

definition cached_mtime_noerror :: "filesystem \<Rightarrow> string \<Rightarrow> mtimes \<Rightarrow> int \<times> mtimes" where
  "cached_mtime_noerror w f m =
     (case dget m f of
        Some t \<Rightarrow> (t, m)
      | None \<Rightarrow> (case fs_mtime w f of None \<Rightarrow> (0, m) | Some t \<Rightarrow> (t, dset f t m)))"

definition update_mtime :: "filesystem \<Rightarrow> string \<Rightarrow> mtimes \<Rightarrow> (int \<times> mtimes) res" where
  "update_mtime w f m = rbind (os_call (fs_mtime w f)) (\<lambda>t. Inr (t, dset f t m))"

section \<open>Checksums\<close>

text \<open>
  The checksum of a file, or \<open>None\<close> where the code raises \<open>OSError\<close>, and the cache afterwards.  The time
  of the file stays in the cache even when reading the file fails.
\<close>

definition fcc_get_checksum :: "filesystem \<Rightarrow> string \<Rightarrow> checksum_cache \<Rightarrow> string option \<times> checksum_cache" where
  "fcc_get_checksum w f k =
     (case cached_mtime w f (fcc_mtimes k) of
        Inl e \<Rightarrow> (None, k)
      | Inr (cmtime, m) \<Rightarrow>
          let k = k\<lparr>fcc_mtimes := m\<rparr>;
              compute = (case fs_md5 w f of
                 None \<Rightarrow> (None, k)
               | Some h \<Rightarrow> (Some h, k\<lparr>fcc_extras := dset f (cmtime, h) (fcc_extras k)\<rparr>))
          in (case dget (fcc_cachedata k) f of
                None \<Rightarrow> compute
              | Some (mtime, hashval) \<Rightarrow> if cmtime = mtime then (Some hashval, k) else compute))"

text \<open>\<open>checksum_file\<close> with the test of its callers: an empty checksum counts as none.\<close>

type_synonym sums = "(string \<times> string) list"

definition add_checksum :: "filesystem \<Rightarrow> string \<Rightarrow> sums \<times> checksum_cache \<Rightarrow> sums \<times> checksum_cache" where
  "add_checksum w f s =
     (case fcc_get_checksum w f (snd s) of
        (None, k) \<Rightarrow> (fst s, k)
      | (Some h, k) \<Rightarrow> (if h = [] then fst s else fst s @ [(f, h)], k))"

definition checksum_dir :: "filesystem \<Rightarrow> string \<Rightarrow> sums \<times> checksum_cache \<Rightarrow> sums \<times> checksum_cache" where
  "checksum_dir w pth s =
     fold (\<lambda>(root, files). fold (\<lambda>name. add_checksum w (py_join root name)) files) (fs_walk w pth) s"

definition checksum_path :: "filesystem \<Rightarrow> string \<Rightarrow> sums \<times> checksum_cache \<Rightarrow> sums \<times> checksum_cache" where
  "checksum_path w f s =
     (if fs_isdir w f then (if fs_islink w f then s else checksum_dir w f s) else add_checksum w f s)"

text \<open>One word of the list: the path, a colon, and whether the file exists.\<close>

definition checksum_entry :: "filesystem \<Rightarrow> string \<Rightarrow> sums \<times> checksum_cache \<Rightarrow> (sums \<times> checksum_cache) res" where
  "checksum_entry w word s =
     (let parts = split_on colon word
      in if length parts < 2 then Inl IndexError
         else if parts ! 1 = ''False'' then Inr s
         else let pth = parts ! 0
           in Inr (if CHR ''*'' \<in> set pth then fold (checksum_path w) (fs_glob w pth) s
                   else checksum_path w pth s))"

definition fcc_get_checksums :: "filesystem \<Rightarrow> string \<Rightarrow> checksum_cache \<Rightarrow> (sums \<times> checksum_cache) res" where
  "fcc_get_checksums w filelist k =
     rbind (rfold (checksum_entry w) (split_ws filelist) ([], k)) (\<lambda>(checksums, k).
       Inr (sort_key snd checksums, k))"

text \<open>
  \<open>merge_data(source, dest)\<close>.  The test \<open>h in dest\<close> looks for a file name in a list that holds one
  dictionary, so it fails and the entries of \<open>source\<close> always replace those of \<open>dest\<close>.
\<close>

definition fcc_merge_data :: "(string, int \<times> string) dict \<Rightarrow> (string, int \<times> string) dict \<Rightarrow> (string, int \<times> string) dict" where
  "fcc_merge_data source dest = fold (\<lambda>(h, v). dset h v) source dest"

text \<open>
  \<open>save_merge\<close> of \<open>MultiProcessCache\<close> for the files it could read: the entries of each are merged into
  the entries that are saved.
\<close>

definition fcc_save_merge :: "(string, int \<times> string) dict list \<Rightarrow> checksum_cache \<Rightarrow> checksum_cache" where
  "fcc_save_merge extras k = k\<lparr>fcc_cachedata := fold fcc_merge_data extras (fcc_cachedata k)\<rparr>"

section \<open>What the checksums are without a cache\<close>

definition listed_path :: "filesystem \<Rightarrow> string \<Rightarrow> string list" where
  "listed_path w f =
     (if fs_isdir w f
      then if fs_islink w f then [] else concat (map (\<lambda>(root, files). map (py_join root) files) (fs_walk w f))
      else [f])"

definition listed_entry :: "filesystem \<Rightarrow> string \<Rightarrow> string list res" where
  "listed_entry w word =
     (let parts = split_on colon word
      in if length parts < 2 then Inl IndexError
         else if parts ! 1 = ''False'' then Inr []
         else if CHR ''*'' \<in> set (parts ! 0) then Inr (concat (map (listed_path w) (fs_glob w (parts ! 0))))
         else Inr (listed_path w (parts ! 0)))"

definition file_sum :: "filesystem \<Rightarrow> string \<Rightarrow> string option" where
  "file_sum w f = (if fs_mtime w f = None then None else fs_md5 w f)"

definition file_sums :: "filesystem \<Rightarrow> string list \<Rightarrow> sums" where
  "file_sums w fs = concat (map (\<lambda>f. case file_sum w f of None \<Rightarrow> [] | Some h \<Rightarrow> if h = [] then [] else [(f, h)]) fs)"

definition plain_checksums :: "filesystem \<Rightarrow> string \<Rightarrow> sums res" where
  "plain_checksums w filelist =
     rbind (rmap (listed_entry w) (split_ws filelist)) (\<lambda>fss. Inr (sort_key snd (file_sums w (concat fss))))"

text \<open>The entries agree with the files: a recorded time is the time of the file, and the checksum belongs to it.\<close>

definition truthful :: "filesystem \<Rightarrow> (string, int \<times> string) dict \<Rightarrow> bool" where
  "truthful w d \<longleftrightarrow> (\<forall>f t h. dget d f = Some (t, h) \<longrightarrow> fs_mtime w f = Some t \<longrightarrow> fs_md5 w f = Some h)"

definition honest :: "filesystem \<Rightarrow> checksum_cache \<Rightarrow> bool" where
  "honest w k \<longleftrightarrow> (\<forall>f t. dget (fcc_mtimes k) f = Some t \<longrightarrow> fs_mtime w f = Some t) \<and>
     truthful w (fcc_cachedata k) \<and> truthful w (fcc_extras k)"

lemma file_sums_simps [simp]:
  "file_sums w [] = []"
  "file_sums w (fs @ gs) = file_sums w fs @ file_sums w gs"
  by (simp_all add: file_sums_def)

lemma cached_mtime_honest:
  assumes "\<forall>f t. dget m f = Some t \<longrightarrow> fs_mtime w f = Some t"
  shows "case cached_mtime w f m of Inl e \<Rightarrow> fs_mtime w f = None
    | Inr (t, m') \<Rightarrow> fs_mtime w f = Some t \<and> (\<forall>f t. dget m' f = Some t \<longrightarrow> fs_mtime w f = Some t)"
  using assms by (auto simp: cached_mtime_def os_call_def split: option.split)

lemma get_checksum_honest:
  assumes "honest w k"
  shows "fst (fcc_get_checksum w f k) = file_sum w f" "honest w (snd (fcc_get_checksum w f k))"
  using assms cached_mtime_honest [of "fcc_mtimes k" w f]
  by (auto simp: fcc_get_checksum_def file_sum_def honest_def truthful_def Let_def split: sum.splits option.splits)

text \<open>A loop over files adds the checksums the files have.\<close>

definition adds :: "filesystem \<Rightarrow> (sums \<times> checksum_cache \<Rightarrow> sums \<times> checksum_cache) \<Rightarrow> string list \<Rightarrow> bool" where
  "adds w step fs \<longleftrightarrow>
     (\<forall>s. honest w (snd s) \<longrightarrow> fst (step s) = fst s @ file_sums w fs \<and> honest w (snd (step s)))"

lemma adds_checksum: "adds w (add_checksum w f) [f]"
  unfolding adds_def
proof (intro allI impI)
  fix s :: "sums \<times> checksum_cache"
  assume "honest w (snd s)"
  then show "fst (add_checksum w f s) = fst s @ file_sums w [f] \<and> honest w (snd (add_checksum w f s))"
    using get_checksum_honest [of w "snd s" f]
    by (cases "fcc_get_checksum w f (snd s)") (auto simp: add_checksum_def file_sums_def split: option.split)
qed

lemma adds_fold: "(\<And>x. x \<in> set xs \<Longrightarrow> adds w (step x) (fs x)) \<Longrightarrow> adds w (fold step xs) (concat (map fs xs))"
  by (induction xs) (simp_all add: adds_def del: split_paired_All)

lemma adds_path: "adds w (checksum_path w f) (listed_path w f)"
proof -
  have "adds w (fold (add_checksum w \<circ> py_join root) files) (map (py_join root) files)" for root files
    using adds_fold [of files w "add_checksum w \<circ> py_join root" "\<lambda>x. [py_join root x]"] adds_checksum
    by (simp add: concat_map_singleton)
  then have "adds w (checksum_dir w f) (concat (map (\<lambda>(root, files). map (py_join root) files) (fs_walk w f)))"
    using adds_fold [of "fs_walk w f" w "\<lambda>(root, files). fold (\<lambda>name. add_checksum w (py_join root name)) files"
        "\<lambda>(root, files). map (py_join root) files"]
    by (simp add: checksum_dir_def adds_def comp_def split_beta)
  then show ?thesis using adds_checksum [of w f] by (simp add: adds_def checksum_path_def listed_path_def)
qed

lemma checksum_entry_honest:
  assumes "honest w (snd s)"
  shows "case listed_entry w word of Inl e \<Rightarrow> checksum_entry w word s = Inl e
    | Inr fs \<Rightarrow> \<exists>t. checksum_entry w word s = Inr t \<and> fst t = fst s @ file_sums w fs \<and> honest w (snd t)"
  using assms adds_path [of w] adds_fold [of "fs_glob w (split_on colon word ! 0)" w "checksum_path w" "listed_path w"]
  by (simp add: listed_entry_def checksum_entry_def adds_def Let_def del: split_paired_All)

lemma checksum_entries_honest:
  "honest w (snd s) \<Longrightarrow>
     case rmap (listed_entry w) ws of Inl e \<Rightarrow> rfold (checksum_entry w) ws s = Inl e
     | Inr fss \<Rightarrow> \<exists>t. rfold (checksum_entry w) ws s = Inr t \<and> fst t = fst s @ file_sums w (concat fss) \<and> honest w (snd t)"
proof (induction ws arbitrary: s)
  case Nil
  then show ?case by simp
next
  case (Cons word ws)
  note one = checksum_entry_honest [OF Cons.prems, of word]
  show ?case
  proof (cases "listed_entry w word")
    case (Inl e)
    then show ?thesis using one by simp
  next
    case (Inr fs)
    then obtain t where t: "checksum_entry w word s = Inr t" "fst t = fst s @ file_sums w fs" "honest w (snd t)"
      using one by auto
    then show ?thesis using Inr Cons.IH [OF t(3)] by (cases "rmap (listed_entry w) ws") auto
  qed
qed

lemma get_checksums_plain:
  assumes "honest w k"
  shows "case fcc_get_checksums w filelist k of
      Inl e \<Rightarrow> plain_checksums w filelist = Inl e
    | Inr (checksums, k') \<Rightarrow> plain_checksums w filelist = Inr checksums \<and> honest w k'"
  using checksum_entries_honest [of w "([], k)" "split_ws filelist"] assms
  by (cases "rmap (listed_entry w) (split_ws filelist)")
    (auto simp: fcc_get_checksums_def plain_checksums_def)

text \<open>
  C26.  On entries that tell the truth about the files the cache cannot be seen: the checksums of a list
  of files, or the exception it ends with, are those of reading every listed file anew, and all entries
  still tell the truth afterwards.
\<close>
theorem get_checksums_uncached:
  assumes "honest w k"
  shows "case fcc_get_checksums w filelist k of
      Inl e \<Rightarrow> plain_checksums w filelist = Inl e
    | Inr (checksums, k') \<Rightarrow> plain_checksums w filelist = Inr checksums \<and> honest w k'"
  using assms by (rule get_checksums_plain)

lemma get_checksums_uncached_witness:
  "let w = \<lparr>fs_mtime = (\<lambda>f. if f = ''/a/x'' then Some 5 else None), fs_md5 = (\<lambda>f. Some ''c1''), fs_isdir = (\<lambda>f. f = ''/a''),
      fs_islink = (\<lambda>_. False), fs_glob = (\<lambda>_. []), fs_walk = (\<lambda>_. [(''/a'', [''x'', ''y''])])\<rparr>;
    k = \<lparr>fcc_mtimes = [], fcc_cachedata = [(''/a/x'', 5, ''c1'')], fcc_extras = []\<rparr>
   in honest w k \<and> (case fcc_get_checksums w ''/a:True /b:False'' k of
      Inl e \<Rightarrow> plain_checksums w ''/a:True /b:False'' = Inl e
    | Inr (checksums, k') \<Rightarrow> plain_checksums w ''/a:True /b:False'' = Inr checksums \<and> honest w k')"
  unfolding Let_def
  by (rule context_conjI [OF _ get_checksums_uncached]) (auto simp: honest_def truthful_def)

text \<open>Merging entries that tell the truth, in whatever order, leaves a cache that does.\<close>

lemma merge_data_truthful:
  assumes "dwf source" "truthful w source" "truthful w dest"
  shows "truthful w (fcc_merge_data source dest)"
proof -
  have merged: "truthful w (fold (\<lambda>(h, v). dset h v) xs dest)" if "\<forall>f t h. (f, t, h) \<in> set xs \<longrightarrow> fs_mtime w f = Some t \<longrightarrow> fs_md5 w f = Some h"
    for xs
    using that by (induction xs rule: rev_induct) (auto simp: assms(3), auto simp: truthful_def)
  have "\<forall>f t h. (f, t, h) \<in> set source \<longrightarrow> fs_mtime w f = Some t \<longrightarrow> fs_md5 w f = Some h"
    using assms(2) dwf_dget [OF assms(1)] by (simp add: truthful_def)
  then show ?thesis unfolding fcc_merge_data_def by (rule merged)
qed

lemma save_merge_honest:
  assumes "honest w k" "\<And>d. d \<in> set extras \<Longrightarrow> dwf d \<and> truthful w d"
  shows "honest w (fcc_save_merge extras k)"
proof -
  have "truthful w (fold fcc_merge_data extras d)" if "truthful w d" "\<And>d. d \<in> set extras \<Longrightarrow> dwf d \<and> truthful w d" for d
    using that by (induction extras arbitrary: d) (auto intro: merge_data_truthful)
  then show ?thesis using assms by (simp add: honest_def fcc_save_merge_def)
qed

text \<open>An entry for an older state of a file replaces the newer one: the comparison of the times never happens.\<close>

lemma merge_data_forgets_newer:
  "fcc_merge_data [(''/a/x'', 1, ''old'')] [(''/a/x'', 2, ''new'')] = [(''/a/x'', 1, ''old'')]"
  by (simp add: fcc_merge_data_def)

end
