(* ===== verification/DataSmart.thy ===== *)
theory DataSmart
  imports Stamps
begin

text \<open>
  The datastore, \<open>DataSmart\<close> of \<open>bitbake/lib/bb/data_smart.py\<close>: variables with flags, operations
  \<open>_append\<close>, \<open>_prepend\<close> and \<open>_remove\<close>, overrides, expansion of references, and copies that share the
  variables of their parent until they change them.

  \<open>getVarFlag\<close>, the expansion of values and the determination of the overrides call each other.  They are
  written over a function \<open>get\<close> for the nested calls of \<open>getVarFlag\<close>; the knot is tied by the depth of
  the calls, which Python bounds as well.  Exceptions leave the changes made so far.

  Python code in values is the record \<open>pyenv\<close>: compiling and parsing it, and running it on the datastore.
  The history of variables is recorded only with tracking switched on and is left out, and so is the history of includes.
\<close>

section \<open>Values and state\<close>

text \<open>
  The values of variables and flags.  \<open>Ops\<close> is the list of an operation, each with its override;
  \<open>SetObj\<close> refers to a set that several datastores share; \<open>PySet\<close> is a set of its own.
\<close>

datatype dval =
    PyNone
  | Str string
  | Num int
  | Lst "string list"
  | PySet "string list"
  | SetObj nat
  | Ops "(dval \<times> string option) list"

type_synonym flags = "(string, dval) dict"

record varparse =
  vp_value :: dval
  vp_references :: "string list"
  vp_contains :: "string list"

text \<open>
  \<open>sd_data\<close> holds the dictionaries that \<open>self.dict\<close> reaches through \<open>_data\<close>, nearest first; \<open>sd_sets\<close> the
  contents of the shared sets.  The other fields are the attributes of the same names.
\<close>

record smart =
  sd_dict :: "(string, flags) dict"
  sd_data :: "(string, flags) dict list"
  sd_sets :: "(nat, string list) dict"
  sd_expand_cache :: "(string, varparse) dict"
  sd_overridedata :: "(string, (string \<times> string) list) dict"
  sd_overrides :: "string list option"
  sd_overridesset :: "string list"
  sd_overridevars :: "string list"
  sd_inoverride :: bool

definition new_smart :: smart where
  "new_smart =
     \<lparr>sd_dict = [], sd_data = [], sd_sets = [], sd_expand_cache = [], sd_overridedata = [], sd_overrides = None,
      sd_overridesset = [], sd_overridevars = [''OVERRIDES'', ''FILE''], sd_inoverride = False\<rparr>"

text \<open>
  \<open>PyParsed\<close> gives the variables that the code refers to and those it tests with \<open>bb.utils.contains\<close>;
  \<open>PyUnterminated\<close> is the syntax error about the end of the line in a string, which \<open>expandWithRefs\<close> ignores.
\<close>

datatype pyparse = PyParsed "string list" "string list" | PyUnterminated | PyError exc

record pyenv =
  py_parse :: "string \<Rightarrow> pyparse"
  py_eval :: "string \<Rightarrow> smart \<Rightarrow> string res \<times> smart"

section \<open>Operations on a datastore\<close>

type_synonym 'a sm = "smart \<Rightarrow> 'a res \<times> smart"

definition sret :: "'a \<Rightarrow> 'a sm" where
  "sret x d = (Inr x, d)"

definition sraise :: "exc \<Rightarrow> 'a sm" where
  "sraise e d = (Inl e, d)"

definition sbind :: "'a sm \<Rightarrow> ('a \<Rightarrow> 'b sm) \<Rightarrow> 'b sm" where
  "sbind m f d = (case m d of (Inl e, d) \<Rightarrow> (Inl e, d) | (Inr x, d) \<Rightarrow> f x d)"

definition sget :: "(smart \<Rightarrow> 'a) \<Rightarrow> 'a sm" where
  "sget f d = (Inr (f d), d)"

definition smod :: "(smart \<Rightarrow> smart) \<Rightarrow> unit sm" where
  "smod f d = (Inr (), f d)"

definition slift :: "'a res \<Rightarrow> 'a sm" where
  "slift r d = (r, d)"

fun sfold :: "('a \<Rightarrow> 's \<Rightarrow> 's sm) \<Rightarrow> 'a list \<Rightarrow> 's \<Rightarrow> 's sm" where
  "sfold f [] s = sret s"
| "sfold f (x # xs) s = sbind (f x s) (sfold f xs)"

lemma sbind_cases:
  "sbind m f d = (case fst (m d) of Inl e \<Rightarrow> (Inl e, snd (m d)) | Inr x \<Rightarrow> f x (snd (m d)))"
  by (simp add: sbind_def case_prod_beta split: sum.split)

lemma sm_simps [simp]:
  "sret x d = (Inr x, d)"
  "sraise e d = (Inl e, d)"
  "sget f d = (Inr (f d), d)"
  "smod g d = (Inr (), g d)"
  "slift r d = (r, d)"
  by (simp_all add: sret_def sraise_def sget_def smod_def slift_def)

section \<open>Values\<close>

fun is_true :: "dval \<Rightarrow> bool" where
  "is_true PyNone = False"
| "is_true (Str s) = (s \<noteq> [])"
| "is_true (Num i) = (i \<noteq> 0)"
| "is_true (Lst xs) = (xs \<noteq> [])"
| "is_true (PySet xs) = (xs \<noteq> [])"
| "is_true (SetObj r) = True"
| "is_true (Ops l) = (l \<noteq> [])"

text \<open>\<open>a + b\<close>.\<close>

fun py_add :: "dval \<Rightarrow> dval \<Rightarrow> dval res" where
  "py_add (Str a) (Str b) = Inr (Str (a @ b))"
| "py_add (Num a) (Num b) = Inr (Num (a + b))"
| "py_add (Lst a) (Lst b) = Inr (Lst (a @ b))"
| "py_add (Ops a) (Ops b) = Inr (Ops (a @ b))"
| "py_add _ _ = Inl TypeError"

text \<open>\<open>for (r, o) in v\<close>: a string of two characters can be unpacked as well.\<close>

definition unpack2 :: "string \<Rightarrow> (dval \<times> string option) res" where
  "unpack2 w = (case w of [a, b] \<Rightarrow> Inr (Str [a], Some [b]) | _ \<Rightarrow> Inl ValueError)"

fun op_list :: "dval \<Rightarrow> (dval \<times> string option) list res" where
  "op_list (Ops l) = Inr l"
| "op_list (Str s) = (if s = [] then Inr [] else Inl ValueError)"
| "op_list (Lst xs) = rmap unpack2 xs"
| "op_list (PySet xs) = rmap unpack2 xs"
| "op_list _ = Inl TypeError"

text \<open>\<open>v.split()\<close>.\<close>

fun words_of :: "dval \<Rightarrow> string list res" where
  "words_of (Str s) = Inr (split_ws s)"
| "words_of _ = Inl AttributeError"

text \<open>\<open>copy.copy(v)\<close>.\<close>

fun copy_val :: "smart \<Rightarrow> dval \<Rightarrow> dval" where
  "copy_val d (SetObj r) = PySet (dgetd (sd_sets d) r [])"
| "copy_val d v = v"

text \<open>\<open>s.islower()\<close>: there is a letter and no letter is upper case.  The letters above code point 127 are those of Latin-1.\<close>

definition char_upper :: "char \<Rightarrow> bool" where
  "char_upper c = (let n = of_char c :: nat in 65 \<le> n \<and> n \<le> 90 \<or> 192 \<le> n \<and> n \<le> 222 \<and> n \<noteq> 215)"

definition char_lower :: "char \<Rightarrow> bool" where
  "char_lower c = (let n = of_char c :: nat in
     97 \<le> n \<and> n \<le> 122 \<or> n = 170 \<or> n = 181 \<or> n = 186 \<or> 223 \<le> n \<and> n \<le> 255 \<and> n \<noteq> 247)"

definition islower :: "string \<Rightarrow> bool" where
  "islower s \<longleftrightarrow> list_ex char_lower s \<and> \<not> list_ex char_upper s"

abbreviation uscore :: char where
  "uscore \<equiv> CHR ''_''"

section \<open>Finding variables\<close>

fun find_in :: "(string, flags) dict list \<Rightarrow> string \<Rightarrow> flags option" where
  "find_in [] var = None"
| "find_in (dest # data) var = (case dget dest var of None \<Rightarrow> find_in data var | Some fl \<Rightarrow> Some fl)"

definition findVar :: "smart \<Rightarrow> string \<Rightarrow> flags option" where
  "findVar d var = find_in (sd_dict d # sd_data d) var"

definition clear_cache :: "smart \<Rightarrow> smart" where
  "clear_cache d = d\<lparr>sd_expand_cache := []\<rparr>"

definition initVar :: "string \<Rightarrow> smart \<Rightarrow> smart" where
  "initVar var d =
     (let d = clear_cache d in if var \<in> set (dkeys (sd_dict d)) then d else d\<lparr>sd_dict := dset var [] (sd_dict d)\<rparr>)"

definition makeShadowCopy :: "string \<Rightarrow> smart \<Rightarrow> smart" where
  "makeShadowCopy var d =
     (if var \<in> set (dkeys (sd_dict d)) then d
      else (case findVar d var of
              None \<Rightarrow> initVar var d
            | Some fl \<Rightarrow> if fl = [] then initVar var d else d\<lparr>sd_dict := dset var fl (sd_dict d)\<rparr>))"

definition local_flags :: "smart \<Rightarrow> string \<Rightarrow> flags" where
  "local_flags d var = dgetd (sd_dict d) var []"

definition set_flag :: "string \<Rightarrow> string \<Rightarrow> dval \<Rightarrow> smart \<Rightarrow> smart" where
  "set_flag var flag v d = d\<lparr>sd_dict := dset var (dset flag v (local_flags d var)) (sd_dict d)\<rparr>"

definition del_flag :: "string \<Rightarrow> string \<Rightarrow> smart \<Rightarrow> smart" where
  "del_flag var flag d = d\<lparr>sd_dict := dset var (ddel flag (local_flags d var)) (sd_dict d)\<rparr>"

section \<open>Override names\<close>

text \<open>
  The pairs of a shorter name and an override that \<open>_setvar_update_overrides\<close> and \<open>delVar\<close> go through.  Without
  an underscore \<open>rfind\<close> is \<open>-1\<close>: the whole name is the override and the shorter name lacks one character.
\<close>

function override_next :: "string \<Rightarrow> string \<Rightarrow> (string \<times> string) list" where
  "override_next var shortvar =
     (case rsplit1 uscore shortvar of
        None \<Rightarrow> []
      | Some (u, v) \<Rightarrow>
          let override = drop (Suc (length u)) var
          in if u \<noteq> [] \<and> override \<noteq> [] \<and> islower override then (u, override) # override_next var u else [])"
  by pat_completeness auto
termination
  by (relation "measure (\<lambda>(var, shortvar). length shortvar)") (auto dest: rsplit1_SomeD)

declare override_next.simps [simp del]

definition override_pairs :: "string \<Rightarrow> (string \<times> string) list" where
  "override_pairs var =
     (let (shortvar, override) = (case rsplit1 uscore var of None \<Rightarrow> (butlast var, var) | Some p \<Rightarrow> p)
      in if override \<noteq> [] \<and> islower override then (shortvar, override) # override_next var shortvar else [])"

definition add_override :: "string \<Rightarrow> string \<times> string \<Rightarrow> smart \<Rightarrow> smart" where
  "add_override var p d =
     (let l = dgetd (sd_overridedata d) (fst p) []
      in d\<lparr>sd_overridedata := dset (fst p) (sadd (var, snd p) l) (sd_overridedata d)\<rparr>)"

definition setvar_update_overrides :: "string \<Rightarrow> smart \<Rightarrow> smart" where
  "setvar_update_overrides var d = fold (add_override var) (override_pairs var) d"

definition remove_override :: "string \<Rightarrow> string \<times> string \<Rightarrow> smart \<Rightarrow> smart" where
  "remove_override var p d =
     (case dget (sd_overridedata d) (fst p) of
        None \<Rightarrow> d
      | Some l \<Rightarrow> d\<lparr>sd_overridedata := dset (fst p) (remove1 (var, snd p) l) (sd_overridedata d)\<rparr>)"

definition delVar :: "string \<Rightarrow> smart \<Rightarrow> smart" where
  "delVar var d =
     (let d = clear_cache d;
          d = d\<lparr>sd_dict := dset var [] (sd_dict d), sd_overridedata := ddel var (sd_overridedata d)\<rparr>
      in if uscore \<in> set var then fold (remove_override var) (override_pairs var) d else d)"

text \<open>
  \<open>__setvar_regexp__\<close>: the shortest part before one of the keywords, which must be followed by the end or by an
  underscore and the override.  The end may be a newline.
\<close>

definition op_rest :: "string \<Rightarrow> string option option" where
  "op_rest r =
     (case r of
        [] \<Rightarrow> Some None
      | c # cs \<Rightarrow>
          if c = uscore then
            (let add = takeWhile (\<lambda>c. c \<noteq> CHR 0x0A) cs
             in if drop (length add) cs = [] \<or> drop (length add) cs = [CHR 0x0A] then Some (Some add) else None)
          else if r = [CHR 0x0A] then Some None else None)"

definition keyword_at :: "string \<Rightarrow> (string \<times> string option) option" where
  "keyword_at s =
     (case filter (startswith s) [''_append'', ''_prepend'', ''_remove''] of
        [] \<Rightarrow> None
      | k # _ \<Rightarrow> map_option (Pair k) (op_rest (drop (length k) s)))"

fun split_op :: "string \<Rightarrow> string \<Rightarrow> (string \<times> string \<times> string option) option" where
  "split_op base [] = None"
| "split_op base (c # cs) =
     (case keyword_at (c # cs) of
        Some (k, add) \<Rightarrow> Some (rev base, k, add)
      | None \<Rightarrow> if c = CHR 0x0A then None else split_op (c # base) cs)"

definition setvar_op :: "string \<Rightarrow> (string \<times> string \<times> string option) option" where
  "setvar_op var = split_op [] var"

section \<open>Choosing an override\<close>

text \<open>Is an override name active, as a whole or in all its parts?\<close>

definition override_active :: "string list \<Rightarrow> string \<Rightarrow> bool" where
  "override_active ovs o1 \<longleftrightarrow>
     o1 \<in> set ovs \<or> (uscore \<in> set o1 \<and> set (split_on uscore o1) \<subseteq> set ovs)"

record matching =
  m_active :: "(string, string) dict"
  m_match :: "string option"
  m_mod :: bool

definition match_step :: "string \<Rightarrow> string \<Rightarrow> matching \<Rightarrow> matching" where
  "match_step o1 a s =
     (case dget (m_active s) a of
        None \<Rightarrow> s
      | Some t \<Rightarrow>
          if endswith a (uscore # o1) then
            s\<lparr>m_active := dset (py_replace (uscore # o1) [] a) t (ddel a (m_active s)), m_mod := True\<rparr>
          else if a = o1 then s\<lparr>m_active := ddel a (m_active s), m_match := Some t\<rparr>
          else s)"

definition match_pass :: "string list \<Rightarrow> matching \<Rightarrow> matching" where
  "match_pass ovs s = fold (\<lambda>o1 s. fold (match_step o1) (dkeys (m_active s)) s) ovs (s\<lparr>m_mod := False\<rparr>)"

definition match_weight :: "matching \<Rightarrow> nat" where
  "match_weight s = sum_list (map (\<lambda>a. Suc (length a)) (dkeys (m_active s)))"

lemma py_replace_shorter: "length (py_replace pat [] s) \<le> length s"
proof (induction s rule: length_induct)
  case (1 s)
  show ?case
  proof (cases s)
    case Nil
    then show ?thesis by (subst py_replace.simps) simp
  next
    case (Cons c cs)
    have ih: "length (py_replace pat [] ys) \<le> length ys" if "length ys < length s" for ys
      using "1.IH" that by blast
    have "length (py_replace pat [] (drop (length pat) s)) \<le> length s" if "pat \<noteq> []"
    proof -
      have "length (py_replace pat [] (drop (length pat) s)) \<le> length (drop (length pat) s)"
        using that Cons by (intro ih) simp
      also have "\<dots> \<le> length s" by simp
      finally show ?thesis .
    qed
    moreover have "length (py_replace pat [] cs) \<le> length cs" using ih Cons by simp
    ultimately show ?thesis using Cons by (subst py_replace.simps) simp
  qed
qed

lemma py_replace_less: "pat \<noteq> [] \<Longrightarrow> endswith s pat \<Longrightarrow> length (py_replace pat [] s) < length s"
proof (induction s)
  case Nil
  then show ?case by (simp add: endswith_def)
next
  case (Cons c cs)
  show ?case
  proof (cases "startswith (c # cs) pat")
    case True
    have "length (py_replace pat [] (drop (length pat) (c # cs))) \<le> length (drop (length pat) (c # cs))"
      by (rule py_replace_shorter)
    also have "\<dots> < length (c # cs)" using Cons.prems(1) by simp
    finally show ?thesis using True Cons.prems(1) by (subst py_replace.simps) simp
  next
    case False
    obtain u where "c # cs = u @ pat" using Cons.prems(2) by (auto simp: endswith_iff)
    then have "endswith cs pat" using False by (cases u) (auto simp: endswith_iff startswith_iff)
    then have "length (py_replace pat [] cs) < length cs" using Cons.IH Cons.prems(1) by simp
    then show ?thesis using False by (subst py_replace.simps) simp
  qed
qed

lemma ddel_absent: "a \<notin> set (dkeys d) \<Longrightarrow> ddel a d = d"
  by (induction d) auto

lemma sum_list_ddel: "a \<in> set (dkeys d) \<Longrightarrow> sum_list (map f (dkeys (ddel a d))) + f a \<le> sum_list (map (f :: _ \<Rightarrow> nat) (dkeys d))"
proof (induction d)
  case Nil
  then show ?case by simp
next
  case (Cons p d)
  obtain k v where p: "p = (k, v)" by (cases p)
  show ?case
  proof (cases "k = a")
    case True
    show ?thesis
    proof (cases "a \<in> set (dkeys d)")
      case True
      then show ?thesis using Cons.IH \<open>k = a\<close> p by simp
    next
      case False
      then have "ddel a d = d" by (rule ddel_absent)
      then show ?thesis using \<open>k = a\<close> p by simp
    qed
  next
    case False
    then show ?thesis using Cons p by auto
  qed
qed

lemma sum_list_dset: "sum_list (map f (dkeys (dset k v d))) \<le> sum_list (map (f :: _ \<Rightarrow> nat) (dkeys d)) + f k"
  by (induction d) auto

lemma match_step_weight:
  "match_weight (match_step o1 a s) \<le> match_weight s \<and>
   (m_mod (match_step o1 a s) \<longrightarrow> m_mod s \<or> match_weight (match_step o1 a s) < match_weight s)"
proof (cases "dget (m_active s) a")
  case None
  then show ?thesis by (simp add: match_step_def)
next
  case (Some t)
  let ?a = "py_replace (uscore # o1) [] a"
  have d: "sum_list (map (\<lambda>a. Suc (length a)) (dkeys (ddel a (m_active s)))) + Suc (length a) \<le> match_weight s"
    unfolding match_weight_def by (rule sum_list_ddel) (use Some dget_SomeD in fast)
  have "sum_list (map (\<lambda>a. Suc (length a)) (dkeys (dset ?a t (ddel a (m_active s))))) < match_weight s" if "endswith a (uscore # o1)"
    using d sum_list_dset [of "\<lambda>a. Suc (length a)" ?a t "ddel a (m_active s)"] py_replace_less [OF _ that] by simp
  then show ?thesis using Some d by (auto simp: match_step_def match_weight_def)
qed

lemma match_fold_weight:
  "match_weight (fold (match_step o1) as s) \<le> match_weight s \<and>
   (m_mod (fold (match_step o1) as s) \<longrightarrow> m_mod s \<or> match_weight (fold (match_step o1) as s) < match_weight s)"
proof (induction as arbitrary: s)
  case Nil
  then show ?case by simp
next
  case (Cons a as)
  show ?case using match_step_weight [of o1 a s] Cons.IH [of "match_step o1 a s"] by auto
qed

lemma match_pass_weight: "m_mod (match_pass ovs s) \<Longrightarrow> match_weight (match_pass ovs s) < match_weight s"
proof -
  have "match_weight (fold (\<lambda>o1 s. fold (match_step o1) (dkeys (m_active s)) s) ovs s) \<le> match_weight s \<and>
     (m_mod (fold (\<lambda>o1 s. fold (match_step o1) (dkeys (m_active s)) s) ovs s) \<longrightarrow> m_mod s \<or>
        match_weight (fold (\<lambda>o1 s. fold (match_step o1) (dkeys (m_active s)) s) ovs s) < match_weight s)" for s
  proof (induction ovs arbitrary: s)
    case (Cons o1 ovs)
    let ?s = "fold (match_step o1) (dkeys (m_active s)) s"
    show ?case using match_fold_weight [of o1 "dkeys (m_active s)" s] Cons.IH [of ?s] by auto
  qed simp
  from this [of "s\<lparr>m_mod := False\<rparr>"] show "m_mod (match_pass ovs s) \<Longrightarrow> ?thesis"
    by (simp add: match_pass_def match_weight_def)
qed

text \<open>\<open>while mod\<close>: passes over the overrides until none shortens a name.\<close>

function match_rounds :: "string list \<Rightarrow> matching \<Rightarrow> matching" where
  "match_rounds ovs s = (if m_mod (match_pass ovs s) then match_rounds ovs (match_pass ovs s) else match_pass ovs s)"
  by pat_completeness auto
termination
  by (relation "measure (match_weight \<circ> snd)") (simp_all add: match_pass_weight)

declare match_rounds.simps [simp del]

section \<open>Expansion\<close>

text \<open>
  A match of a regular expression at the start of a string: the text that matters and the number of
  characters after the first that the match covers.
\<close>

definition ref_char :: "char \<Rightarrow> bool" where
  "ref_char c \<longleftrightarrow> c \<notin> set [CHR ''{'', CHR ''}'', CHR ''@'', CHR 0x0A, CHR 0x09, CHR '' '', CHR '':'']"

definition var_ref :: "string \<Rightarrow> (string \<times> nat) option" where
  "var_ref s =
     (case s of
        a # b # r \<Rightarrow>
          (let k = takeWhile ref_char r
           in if a = CHR ''$'' \<and> b = CHR ''{'' \<and> k \<noteq> [] \<and> startswith (drop (length k) r) ''}''
              then Some (k, length k + 2) else None)
      | _ \<Rightarrow> None)"

definition py_ref :: "string \<Rightarrow> (string \<times> nat) option" where
  "py_ref s =
     (case s of
        a # b # c # e # r \<Rightarrow>
          (let k = takeWhile (\<lambda>x. x \<noteq> CHR ''}'' \<and> x \<noteq> CHR 0x0A) r
           in if [a, b, c] = ''${@'' \<and> e \<noteq> CHR 0x0A \<and> startswith (drop (length k) r) ''}''
              then Some (e # k, length k + 4) else None)
      | _ \<Rightarrow> None)"

text \<open>The characters of a string that are kept, and the matches between them.\<close>

function tokens :: "(string \<Rightarrow> (string \<times> nat) option) \<Rightarrow> string \<Rightarrow> (char + string) list" where
  "tokens m [] = []"
| "tokens m (c # cs) =
     (case m (c # cs) of None \<Rightarrow> Inl c # tokens m cs | Some (k, n) \<Rightarrow> Inr k # tokens m (drop n cs))"
  by pat_completeness auto
termination
  by (relation "measure (\<lambda>(m, s). length s)") auto

text \<open>
  \<open>re.sub(f, s)\<close>: the replacements are joined at the end, which raises for one that is no string.
  A replacement \<open>None\<close> gives up and leaves the string as it was.
\<close>

type_synonym replacer = "string \<Rightarrow> varparse \<Rightarrow> (dval option \<times> varparse) sm"

definition sub_step :: "replacer \<Rightarrow> char + string \<Rightarrow> dval list option \<times> varparse \<Rightarrow> (dval list option \<times> varparse) sm" where
  "sub_step f tok st =
     (case st of
        (None, vp) \<Rightarrow> sret st
      | (Some out, vp) \<Rightarrow>
          (case tok of
             Inl c \<Rightarrow> sret (Some (out @ [Str [c]]), vp)
           | Inr k \<Rightarrow> sbind (f k vp) (\<lambda>(v, vp). sret (map_option (\<lambda>v. out @ [v]) v, vp))))"

definition str_of :: "dval \<Rightarrow> string res" where
  "str_of v = (case v of Str s \<Rightarrow> Inr s | _ \<Rightarrow> Inl TypeError)"

definition re_sub :: "(string \<Rightarrow> (string \<times> nat) option) \<Rightarrow> replacer \<Rightarrow> string \<Rightarrow> varparse \<Rightarrow> (string \<times> varparse) sm" where
  "re_sub m f s vp =
     sbind (sfold (sub_step f) (tokens m s) (Some [], vp)) (\<lambda>(out, vp).
       case out of
         None \<Rightarrow> sret (s, vp)
       | Some vs \<Rightarrow> sbind (slift (rmap str_of vs)) (\<lambda>ss. sret (concat ss, vp)))"

text \<open>The nested calls of \<open>getVarFlag\<close>: variable, flag, \<open>expand\<close>, \<open>noweakdefault\<close>, \<open>parsing\<close>.\<close>

type_synonym getter = "string \<Rightarrow> string \<Rightarrow> bool \<Rightarrow> bool \<Rightarrow> bool \<Rightarrow> dval sm"

text \<open>A variable that refers to itself raises a plain \<open>Exception\<close>; the caller wraps whatever is raised.\<close>

definition var_sub :: "getter \<Rightarrow> string \<Rightarrow> replacer" where
  "var_sub get varname key vp =
     (if varname \<noteq> [] \<and> varname = key then sraise RuntimeError
      else sbind (sget (\<lambda>d. dget (sd_expand_cache d) key)) (\<lambda>cached.
           sbind (case cached of Some varparse \<Rightarrow> sret (vp_value varparse) | None \<Rightarrow> get key ''_content'' True False False) (\<lambda>var.
             sret (Some (if var = PyNone then Str (''${'' @ key @ ''}'') else var),
                   vp\<lparr>vp_references := sadd key (vp_references vp)\<rparr>))))"

definition python_sub :: "pyenv \<Rightarrow> getter \<Rightarrow> string \<Rightarrow> replacer" where
  "python_sub py get varname code vp =
     (case py_parse py code of
        PyError e \<Rightarrow> sraise e
      | PyUnterminated \<Rightarrow> sret (None, vp)
      | PyParsed refs contains \<Rightarrow>
          sbind (if varname = [] then sret PyNone else get varname ''vardeps'' True False False) (\<lambda>_.
          sbind (py_eval py code) (\<lambda>value.
            sret (Some (Str value),
                  vp\<lparr>vp_references := sunion (vp_references vp) refs, vp_contains := sunion (vp_contains vp) contains\<rparr>))))"

fun expand_rounds :: "pyenv \<Rightarrow> getter \<Rightarrow> string \<Rightarrow> nat \<Rightarrow> string \<Rightarrow> varparse \<Rightarrow> (string \<times> varparse) sm" where
  "expand_rounds py get varname fuel s vp =
     (if \<not> py_contains ''${'' s then sret (s, vp)
      else (case fuel of
              0 \<Rightarrow> sraise OutOfFuel
            | Suc n \<Rightarrow>
                sbind (re_sub var_ref (var_sub get varname) s vp) (\<lambda>(t, vp).
                sbind (re_sub py_ref (python_sub py get varname) t vp) (\<lambda>(u, vp).
                  if u = s then sret (u, vp) else expand_rounds py get varname n u vp))))"

declare expand_rounds.simps [simp del]

definition expansion_error :: "exc \<Rightarrow> exc" where
  "expansion_error e = (if e = SkipRecipe \<or> e = OutOfFuel then e else ExpansionError)"

definition swrap :: "'a sm \<Rightarrow> 'a sm" where
  "swrap m d = (case m d of (Inl e, d) \<Rightarrow> (Inl (expansion_error e), d) | r \<Rightarrow> r)"

definition cache_put :: "string \<Rightarrow> varparse \<Rightarrow> smart \<Rightarrow> smart" where
  "cache_put name vp d = d\<lparr>sd_expand_cache := dset name vp (sd_expand_cache d)\<rparr>"

definition expandWithRefs :: "pyenv \<Rightarrow> getter \<Rightarrow> nat \<Rightarrow> dval \<Rightarrow> string \<Rightarrow> varparse sm" where
  "expandWithRefs py get fuel s varname =
     (case s of
        Str t \<Rightarrow>
          sbind (sget (\<lambda>d. if varname = [] then None else dget (sd_expand_cache d) varname)) (\<lambda>cached.
            case cached of
              Some vp \<Rightarrow> sret vp
            | None \<Rightarrow>
                sbind (swrap (expand_rounds py get varname fuel t \<lparr>vp_value = PyNone, vp_references = [], vp_contains = []\<rparr>)) (\<lambda>(u, vp).
                  let vp = vp\<lparr>vp_value := Str u\<rparr>
                  in sbind (smod (if varname = [] then id else cache_put varname vp)) (\<lambda>_. sret vp)))
      | v \<Rightarrow> sret \<lparr>vp_value = v, vp_references = [], vp_contains = []\<rparr>)"

section \<open>Overrides\<close>

definition override_list :: "getter \<Rightarrow> string list sm" where
  "override_list get =
     sbind (get ''OVERRIDES'' ''_content'' True False False) (\<lambda>v.
       slift (if \<not> is_true v then Inr [[]] else (case v of Str s \<Rightarrow> Inr (split_on colon s) | _ \<Rightarrow> Inl AttributeError)))"

definition set_overrides :: "string list \<Rightarrow> smart \<Rightarrow> smart" where
  "set_overrides ovs d = d\<lparr>sd_overrides := Some ovs, sd_overridesset := ovs\<rparr>"

text \<open>At most five attempts.\<close>

fun override_rounds :: "getter \<Rightarrow> nat \<Rightarrow> unit sm" where
  "override_rounds get 0 = sraise Fatal"
| "override_rounds get (Suc n) =
     sbind (smod (\<lambda>d. set_overrides [] (d\<lparr>sd_inoverride := True\<rparr>))) (\<lambda>_.
     sbind (override_list get) (\<lambda>ovs.
     sbind (smod (\<lambda>d. clear_cache (set_overrides ovs (d\<lparr>sd_inoverride := False\<rparr>)))) (\<lambda>_.
     sbind (override_list get) (\<lambda>newoverrides.
     sbind (sget sd_overrides) (\<lambda>ovs.
       if Some newoverrides = ovs then sret ()
       else sbind (smod (set_overrides newoverrides)) (\<lambda>_. override_rounds get n))))))"

definition need_overrides :: "getter \<Rightarrow> unit sm" where
  "need_overrides get =
     sbind (sget (\<lambda>d. sd_overrides d \<noteq> None \<or> sd_inoverride d)) (\<lambda>known.
       if known then sret () else override_rounds get 5)"

section \<open>Reading variables\<close>

definition find_override :: "getter \<Rightarrow> string \<Rightarrow> dval sm" where
  "find_override get var =
     sbind (need_overrides get) (\<lambda>_.
     sbind (sget (\<lambda>d. (dgetd (sd_overridedata d) var [], sd_overridesset d, sd_overrides d))) (\<lambda>(entries, ovset, ovs).
       let active = fold (\<lambda>(r, o1) act. if override_active ovset o1 then dset o1 r act else act) entries []
       in (case ovs of
             None \<Rightarrow> sraise TypeError
           | Some ovs \<Rightarrow>
               (case m_match (match_rounds ovs \<lparr>m_active = active, m_match = None, m_mod = False\<rparr>) of
                  None \<Rightarrow> sret PyNone
                | Some r \<Rightarrow> if r = [] then sret PyNone else get r ''_content'' False False False))))"

definition plain_value :: "smart \<Rightarrow> flags option \<Rightarrow> string \<Rightarrow> bool \<Rightarrow> dval \<Rightarrow> dval" where
  "plain_value d local_var flag noweakdefault value =
     (case local_var of
        None \<Rightarrow> value
      | Some fl \<Rightarrow>
          if value \<noteq> PyNone then value
          else (case dget fl flag of
                  Some v \<Rightarrow> copy_val d v
                | None \<Rightarrow>
                    if flag = ''_content'' \<and> \<not> noweakdefault
                    then (case dget fl ''_defaultval'' of Some v \<Rightarrow> copy_val d v | None \<Rightarrow> PyNone) else PyNone))"

text \<open>Does an operation with this override apply?\<close>

definition op_applies :: "string list option \<Rightarrow> string option \<Rightarrow> bool res" where
  "op_applies ovs o1 =
     (if o1 = None \<or> o1 = Some [] then Inr True
      else (case ovs of None \<Rightarrow> Inl TypeError | Some l \<Rightarrow> Inr (set (split_on uscore (the o1)) \<subseteq> set l)))"

definition op_step :: "(dval \<Rightarrow> dval \<Rightarrow> dval res) \<Rightarrow> string list option \<Rightarrow> dval \<times> string option \<Rightarrow> dval \<Rightarrow> dval res" where
  "op_step add ovs p value = rbind (op_applies ovs (snd p)) (\<lambda>b. if b then add value (fst p) else Inr value)"

definition op_flag :: "flags option \<Rightarrow> string \<Rightarrow> dval option" where
  "op_flag local_var keyword = (case local_var of None \<Rightarrow> None | Some fl \<Rightarrow> dget fl keyword)"

text \<open>The loops over \<open>_append\<close> and \<open>_prepend\<close>.\<close>

definition op_stage :: "getter \<Rightarrow> (dval \<Rightarrow> dval \<Rightarrow> dval res) \<Rightarrow> dval option \<Rightarrow> dval \<Rightarrow> dval sm" where
  "op_stage get add ops value =
     (case ops of
        None \<Rightarrow> sret value
      | Some l \<Rightarrow>
          sbind (need_overrides get) (\<lambda>_.
          sbind (sget sd_overrides) (\<lambda>ovs.
            slift (rbind (op_list l) (\<lambda>l. rfold (op_step add ovs) l (if is_true value then value else Str []))))))"

definition remove_step :: "pyenv \<Rightarrow> getter \<Rightarrow> nat \<Rightarrow> string list option \<Rightarrow> dval \<times> string option \<Rightarrow> string list \<Rightarrow> string list sm" where
  "remove_step py get fuel ovs p removes =
     sbind (slift (op_applies ovs (snd p))) (\<lambda>b.
       if \<not> b then sret removes
       else sbind (expandWithRefs py get fuel (fst p) []) (\<lambda>vp.
            sbind (slift (words_of (vp_value vp))) (\<lambda>ws. sret (removes @ ws))))"

definition remove_stage :: "pyenv \<Rightarrow> getter \<Rightarrow> nat \<Rightarrow> string \<Rightarrow> bool \<Rightarrow> dval \<Rightarrow> dval \<Rightarrow> dval sm" where
  "remove_stage py get fuel var expand l value =
     sbind (need_overrides get) (\<lambda>_.
     sbind (sget sd_overrides) (\<lambda>ovs.
     sbind (slift (op_list l)) (\<lambda>l.
     sbind (sfold (remove_step py get fuel ovs) l []) (\<lambda>removes.
     sbind (slift (words_of value)) (\<lambda>ws.
       let value = Str (join_with '' '' (filter (\<lambda>v. v \<notin> set removes) ws))
       in sbind (smod (\<lambda>d. case dget (sd_expand_cache d) var of
                    None \<Rightarrow> d
                  | Some vp \<Rightarrow> if expand then cache_put var (vp\<lparr>vp_value := value\<rparr>) d else d)) (\<lambda>_. sret value))))))"

definition get_flag :: "pyenv \<Rightarrow> getter \<Rightarrow> nat \<Rightarrow> getter" where
  "get_flag py get fuel var flag expand noweakdefault parsing =
     sbind (sget (\<lambda>d. (findVar d var, var \<in> set (dkeys (sd_overridedata d))))) (\<lambda>(local_var, overridden).
     sbind (if flag = ''_content'' \<and> overridden \<and> \<not> parsing then find_override get var else sret PyNone) (\<lambda>value.
     sbind (sget (\<lambda>d. plain_value d local_var flag noweakdefault value)) (\<lambda>value.
     let ops = (\<lambda>keyword. if flag = ''_content'' \<and> \<not> parsing then op_flag local_var keyword else None)
     in sbind (op_stage get py_add (ops ''_append'') value) (\<lambda>value.
        sbind (op_stage get (\<lambda>value r. py_add r value) (ops ''_prepend'') value) (\<lambda>value.
        sbind (if expand \<and> is_true value
               then sbind (expandWithRefs py get fuel value (if flag = ''_content'' then var else var @ ''['' @ flag @ '']''))
                      (\<lambda>vp. sret (vp_value vp))
               else sret value) (\<lambda>value.
          case (if is_true value \<and> flag = ''_content'' then op_flag local_var ''_remove'' else None) of
            None \<Rightarrow> sret value
          | Some l \<Rightarrow> remove_stage py get fuel var expand l value))))))"

text \<open>The first argument bounds the depth of nested calls, and with it the rounds of one expansion.\<close>

fun getVarFlag :: "nat \<Rightarrow> pyenv \<Rightarrow> getter" where
  "getVarFlag 0 py var flag expand noweakdefault parsing = sraise OutOfFuel"
| "getVarFlag (Suc n) py var flag expand noweakdefault parsing =
     get_flag py (getVarFlag n py) n var flag expand noweakdefault parsing"

definition getVar :: "nat \<Rightarrow> pyenv \<Rightarrow> string \<Rightarrow> bool \<Rightarrow> dval sm" where
  "getVar n py var expand = getVarFlag n py var ''_content'' expand False False"

definition expand_str :: "nat \<Rightarrow> pyenv \<Rightarrow> dval \<Rightarrow> string \<Rightarrow> dval sm" where
  "expand_str n py s varname = sbind (expandWithRefs py (getVarFlag n py) n s varname) (\<lambda>vp. sret (vp_value vp))"

section \<open>Writing variables\<close>

text \<open>\<open>internal_finalize\<close>.\<close>

definition forget_overrides :: "smart \<Rightarrow> smart" where
  "forget_overrides d = d\<lparr>sd_overrides := None\<rparr>"

text \<open>The loop of \<open>_setvar_update_overridevars\<close>: everything that the overrides refer to is watched as well.\<close>

fun watch_rounds :: "nat \<Rightarrow> pyenv \<Rightarrow> nat \<Rightarrow> string list \<Rightarrow> unit sm" where
  "watch_rounds n py fuel new =
     sbind (sget (\<lambda>d. set new \<subseteq> set (sd_overridevars d))) (\<lambda>known.
       if known then sret ()
       else (case fuel of
               0 \<Rightarrow> sraise OutOfFuel
             | Suc m \<Rightarrow>
                 sbind (smod (\<lambda>d. d\<lparr>sd_overridevars := sunion (sd_overridevars d) new\<rparr>)) (\<lambda>_.
                 sbind (sfold (\<lambda>i nextnew.
                     sbind (getVar n py i True) (\<lambda>v.
                     sbind (expandWithRefs py (getVarFlag n py) n v i) (\<lambda>vp.
                       sret (sunion nextnew (vp_references vp @ vp_contains vp))))) new []) (\<lambda>nextnew.
                   watch_rounds n py m nextnew))))"

declare watch_rounds.simps [simp del]

text \<open>\<open>new.update\<close> changes the set of references in the cached object.\<close>

definition setvar_update_overridevars :: "nat \<Rightarrow> pyenv \<Rightarrow> string \<Rightarrow> dval \<Rightarrow> unit sm" where
  "setvar_update_overridevars n py var value =
     sbind (expandWithRefs py (getVarFlag n py) n value var) (\<lambda>vp.
     let new = sunion (vp_references vp) (vp_contains vp)
     in sbind (smod (\<lambda>d. if var \<in> set (dkeys (sd_expand_cache d)) then cache_put var (vp\<lparr>vp_references := new\<rparr>) d else d)) (\<lambda>_.
        sbind (watch_rounds n py n new) (\<lambda>_. smod forget_overrides)))"

text \<open>The set of exported names is created once; copies of the variable share it.\<close>

definition export_name :: "string \<Rightarrow> unit sm" where
  "export_name var =
     sbind (smod (makeShadowCopy ''__exportlist'')) (\<lambda>_.
     sbind (smod (\<lambda>d. if ''_content'' \<in> set (dkeys (local_flags d ''__exportlist'')) then d
                      else set_flag ''__exportlist'' ''_content'' (SetObj (length (sd_sets d)))
                             (d\<lparr>sd_sets := sd_sets d @ [(length (sd_sets d), [])]\<rparr>))) (\<lambda>_.
     sbind (sget (\<lambda>d. dget (local_flags d ''__exportlist'') ''_content'')) (\<lambda>v.
       case v of
         Some (SetObj r) \<Rightarrow> smod (\<lambda>d. d\<lparr>sd_sets := dset r (sadd var (dgetd (sd_sets d) r [])) (sd_sets d)\<rparr>)
       | Some (PySet xs) \<Rightarrow> smod (set_flag ''__exportlist'' ''_content'' (PySet (sadd var xs)))
       | _ \<Rightarrow> sraise AttributeError)))"

definition setVarFlag :: "nat \<Rightarrow> pyenv \<Rightarrow> string \<Rightarrow> string \<Rightarrow> dval \<Rightarrow> unit sm" where
  "setVarFlag n py var flag value =
     sbind (smod (\<lambda>d. set_flag var flag value (makeShadowCopy var (clear_cache d)))) (\<lambda>_.
     sbind (smod (\<lambda>d. if flag = ''_defaultval'' \<and> uscore \<in> set var then setvar_update_overrides var d else d)) (\<lambda>_.
     sbind (sget (\<lambda>d. flag = ''_defaultval'' \<and> var \<in> set (sd_overridevars d))) (\<lambda>watched.
     sbind (if watched then setvar_update_overridevars n py var value else sret ()) (\<lambda>_.
       if flag = ''unexport'' \<or> flag = ''export'' then export_name var else sret ()))))"

text \<open>\<open>l.append([value, override])\<close>; a list of strings cannot occur as the value of an operation.\<close>

definition add_op :: "dval \<Rightarrow> string option \<Rightarrow> dval \<Rightarrow> dval res" where
  "add_op value override l =
     (case (if is_true l then l else Ops []) of Ops xs \<Rightarrow> Inr (Ops (xs @ [(value, override)])) | _ \<Rightarrow> Inl AttributeError)"

definition setVar_op :: "nat \<Rightarrow> pyenv \<Rightarrow> string \<Rightarrow> string \<Rightarrow> string \<Rightarrow> string option \<Rightarrow> dval \<Rightarrow> unit sm" where
  "setVar_op n py var base keyword override value =
     sbind (getVarFlag n py base keyword False False False) (\<lambda>l.
     sbind (slift (add_op value override l)) (\<lambda>l.
     sbind (setVarFlag n py base keyword l) (\<lambda>_.
     sbind (smod (setvar_update_overrides base)) (\<lambda>_.
     sbind (sget (\<lambda>d. base \<in> set (sd_overridevars d))) (\<lambda>watched.
       if watched then setvar_update_overridevars n py var value else sret ())))))"

text \<open>A value set by hand makes operations and active overrides disappear.\<close>

definition drop_overrides :: "nat \<Rightarrow> pyenv \<Rightarrow> string \<Rightarrow> unit sm" where
  "drop_overrides n py var =
     sbind (need_overrides (getVarFlag n py)) (\<lambda>_.
     sbind (sget (\<lambda>d. filter (\<lambda>(r, o1). override_active (sd_overridesset d) o1) (dgetd (sd_overridedata d) var []))) (\<lambda>active.
     sbind (smod (fold delVar (map fst active))) (\<lambda>_.
     sbind (sget (\<lambda>d. var \<in> set (dkeys (sd_overridedata d)))) (\<lambda>present.
       if present then smod (\<lambda>d. d\<lparr>sd_overridedata := ddel var (sd_overridedata d)\<rparr>) else sraise KeyError))))"

definition setVar_plain :: "nat \<Rightarrow> pyenv \<Rightarrow> bool \<Rightarrow> string \<Rightarrow> dval \<Rightarrow> unit sm" where
  "setVar_plain n py parsing var value =
     sbind (smod (makeShadowCopy var)) (\<lambda>_.
     sbind (smod (if parsing then id else del_flag var ''_prepend'' \<circ> del_flag var ''_append'')) (\<lambda>_.
     sbind (sget (\<lambda>d. \<not> parsing \<and> var \<in> set (dkeys (sd_overridedata d)))) (\<lambda>overridden.
     sbind (if overridden then drop_overrides n py var else sret ()) (\<lambda>_.
     sbind (smod (if uscore \<in> set var then setvar_update_overrides var else id)) (\<lambda>_.
     sbind (smod (set_flag var ''_content'' value)) (\<lambda>_.
     sbind (sget (\<lambda>d. var \<in> set (sd_overridevars d))) (\<lambda>watched.
       if watched then setvar_update_overridevars n py var value else sret ())))))))"

definition setVar :: "nat \<Rightarrow> pyenv \<Rightarrow> bool \<Rightarrow> string \<Rightarrow> dval \<Rightarrow> unit sm" where
  "setVar n py parsing var value =
     sbind (smod clear_cache) (\<lambda>_.
       case setvar_op var of
         Some (base, keyword, override) \<Rightarrow> setVar_op n py var base keyword override value
       | None \<Rightarrow> setVar_plain n py parsing var value)"

definition appendVar :: "nat \<Rightarrow> pyenv \<Rightarrow> string \<Rightarrow> dval \<Rightarrow> unit sm" where
  "appendVar n py var value = setVar n py True (var @ ''_append'') value"

definition prependVar :: "nat \<Rightarrow> pyenv \<Rightarrow> string \<Rightarrow> dval \<Rightarrow> unit sm" where
  "prependVar n py var value = setVar n py True (var @ ''_prepend'') value"

definition rename_op :: "nat \<Rightarrow> pyenv \<Rightarrow> string \<Rightarrow> string \<Rightarrow> string \<Rightarrow> unit sm" where
  "rename_op n py key newkey keyword =
     sbind (getVarFlag n py key keyword False False False) (\<lambda>src.
       if src = PyNone then sret ()
       else sbind (getVarFlag n py newkey keyword False False False) (\<lambda>dest.
            sbind (slift (py_add (if is_true dest then dest else Ops []) src)) (\<lambda>dest.
              setVarFlag n py newkey keyword dest)))"

text \<open>
  The body of \<open>renameVar\<close> over the nested calls, which rename the variables that override \<open>key\<close>.
\<close>

definition rename_override :: "(string \<Rightarrow> string \<Rightarrow> unit sm) \<Rightarrow> string \<Rightarrow> string \<Rightarrow> string \<times> string \<Rightarrow> unit sm" where
  "rename_override rename key newkey p =
     (let v' = py_replace key newkey (fst p)
      in sbind (sget (\<lambda>d. dget (sd_overridedata d) newkey)) (\<lambda>old.
         case old of
           None \<Rightarrow> sraise KeyError
         | Some old \<Rightarrow>
             sbind (smod (\<lambda>d. d\<lparr>sd_overridedata := dset newkey (old @ [(v', snd p)]) (sd_overridedata d)\<rparr>)) (\<lambda>_.
               rename (fst p) v')))"

definition rename_overrides :: "(string \<Rightarrow> string \<Rightarrow> unit sm) \<Rightarrow> string \<Rightarrow> string \<Rightarrow> unit sm" where
  "rename_overrides rename key newkey =
     sbind (sget (\<lambda>d. key \<in> set (dkeys (sd_overridedata d)))) (\<lambda>overridden.
       if \<not> overridden then sret ()
       else sbind (smod (\<lambda>d. d\<lparr>sd_overridedata := dset newkey [] (sd_overridedata d)\<rparr>)) (\<lambda>_.
            sbind (sget (\<lambda>d. dgetd (sd_overridedata d) key [])) (\<lambda>l.
              sfold (\<lambda>p _. rename_override rename key newkey p) l ())))"

definition rename_body :: "nat \<Rightarrow> pyenv \<Rightarrow> (string \<Rightarrow> string \<Rightarrow> unit sm) \<Rightarrow> string \<Rightarrow> string \<Rightarrow> unit sm" where
  "rename_body n py rename key newkey =
     sbind (getVarFlag n py key ''_content'' False False True) (\<lambda>val.
     sbind (if val = PyNone then sret () else setVar n py True newkey val) (\<lambda>_.
     sbind (sfold (\<lambda>i _. rename_op n py key newkey i) [''_append'', ''_prepend'', ''_remove''] ()) (\<lambda>_.
     sbind (rename_overrides rename key newkey) (\<lambda>_.
     sbind (smod (if uscore \<in> set newkey \<and> val = PyNone then setvar_update_overrides newkey else id)) (\<lambda>_.
       smod (delVar key))))))"

fun renameVar :: "nat \<Rightarrow> pyenv \<Rightarrow> nat \<Rightarrow> string \<Rightarrow> string \<Rightarrow> unit sm" where
  "renameVar n py 0 key newkey = sraise OutOfFuel"
| "renameVar n py (Suc fuel) key newkey = rename_body n py (renameVar n py fuel) key newkey"

section \<open>Flags\<close>

definition delVarFlag :: "string \<Rightarrow> string \<Rightarrow> smart \<Rightarrow> smart" where
  "delVarFlag var flag d =
     (let d = clear_cache d
      in (case findVar d var of
            None \<Rightarrow> d
          | Some fl \<Rightarrow> if fl = [] then d else del_flag var flag (makeShadowCopy var d)))"

definition appendVarFlag :: "nat \<Rightarrow> pyenv \<Rightarrow> string \<Rightarrow> string \<Rightarrow> dval \<Rightarrow> unit sm" where
  "appendVarFlag n py var flag value =
     sbind (getVarFlag n py var flag False False False) (\<lambda>v.
     sbind (slift (py_add (if is_true v then v else Str []) value)) (setVarFlag n py var flag))"

definition prependVarFlag :: "nat \<Rightarrow> pyenv \<Rightarrow> string \<Rightarrow> string \<Rightarrow> dval \<Rightarrow> unit sm" where
  "prependVarFlag n py var flag value =
     sbind (getVarFlag n py var flag False False False) (\<lambda>v.
     sbind (slift (py_add value (if is_true v then v else Str []))) (setVarFlag n py var flag))"

definition setVarFlags :: "string \<Rightarrow> flags \<Rightarrow> smart \<Rightarrow> smart" where
  "setVarFlags var fls d =
     fold (\<lambda>(i, v) d. if i = ''_content'' then d else set_flag var i v d) fls (makeShadowCopy var (clear_cache d))"

text \<open>\<open>expand\<close> is the list of the flags to expand.\<close>

definition getVarFlags :: "nat \<Rightarrow> pyenv \<Rightarrow> string \<Rightarrow> string list \<Rightarrow> bool \<Rightarrow> flags option sm" where
  "getVarFlags n py var expand internalflags =
     sbind (sget (\<lambda>d. findVar d var)) (\<lambda>local_var.
     sbind (sfold (\<lambda>(i, v) fls.
         if startswith i ''_'' \<and> \<not> internalflags then sret fls
         else if i \<in> set expand then sbind (expand_str n py v (var @ ''['' @ i @ '']'')) (\<lambda>v. sret (dset i v fls))
         else sret (dset i v fls)) (case local_var of None \<Rightarrow> [] | Some fl \<Rightarrow> fl) []) (\<lambda>fls.
       sret (if fls = [] then None else Some fls)))"

definition delVarFlags :: "string \<Rightarrow> smart \<Rightarrow> smart" where
  "delVarFlags var d =
     (let d = makeShadowCopy var (clear_cache d)
      in (case dget (local_flags d var) ''_content'' of
            Some content \<Rightarrow> d\<lparr>sd_dict := dset var [(''_content'', content)] (sd_dict d)\<rparr>
          | None \<Rightarrow> d\<lparr>sd_dict := ddel var (sd_dict d)\<rparr>))"

section \<open>Copies and iteration\<close>

definition createCopy :: "smart \<Rightarrow> smart" where
  "createCopy d =
     new_smart\<lparr>sd_data := sd_dict d # sd_data d, sd_sets := sd_sets d, sd_overridevars := sd_overridevars d,
               sd_overridedata := sd_overridedata d\<rparr>"

fun keylist :: "string list \<Rightarrow> string list \<Rightarrow> (string, flags) dict list \<Rightarrow> string list" where
  "keylist overrides deleted [] = []"
| "keylist overrides deleted (level # levels) =
     (let entries = filter (\<lambda>(key, fl). key \<notin> set deleted \<and> key \<notin> set overrides) level;
          deleted = deleted @ map fst (filter (\<lambda>(key, fl). fl = []) entries)
      in sunion (map fst (filter (\<lambda>(key, fl). fl \<noteq> []) entries)) (keylist overrides deleted levels))"

text \<open>\<open>__iter__\<close>.\<close>

definition smart_keys :: "nat \<Rightarrow> pyenv \<Rightarrow> string list sm" where
  "smart_keys n py =
     sbind (need_overrides (getVarFlag n py)) (\<lambda>_.
     sget (\<lambda>d. let overrides = map fst (filter (\<lambda>(var, l). list_ex (\<lambda>(r, o1). override_active (sd_overridesset d) o1) l)
                                         (sd_overridedata d))
                in keylist overrides [] (sd_dict d # sd_data d) @ overrides))"

definition smart_getitem :: "nat \<Rightarrow> pyenv \<Rightarrow> string \<Rightarrow> dval sm" where
  "smart_getitem n py item = sbind (getVar n py item False) (\<lambda>v. if v = PyNone then sraise KeyError else sret v)"

text \<open>
  \<open>expandVarref\<close>.  Without \<open>parents\<close> the loop runs over \<open>self.dict\<close> itself, and a write that adds a key makes the
  next step raise.
\<close>

definition refers_to :: "string \<Rightarrow> dval \<Rightarrow> bool res" where
  "refers_to ref v =
     (if \<not> is_true v then Inr False
      else (case v of
              Str s \<Rightarrow> Inr (py_contains ref s)
            | Lst xs \<Rightarrow> Inr (ref \<in> set xs)
            | PySet xs \<Rightarrow> Inr (ref \<in> set xs)
            | Ops l \<Rightarrow> Inr False
            | _ \<Rightarrow> Inl TypeError))"

definition replace_ref :: "string \<Rightarrow> dval \<Rightarrow> dval \<Rightarrow> dval res" where
  "replace_ref ref value v =
     (case v of
        Str s \<Rightarrow> (case value of Str t \<Rightarrow> Inr (Str (py_replace ref t s)) | _ \<Rightarrow> Inl TypeError)
      | _ \<Rightarrow> Inl AttributeError)"

definition expand_varref_step :: "nat \<Rightarrow> pyenv \<Rightarrow> string \<Rightarrow> dval \<Rightarrow> string \<Rightarrow> unit sm" where
  "expand_varref_step n py ref value key =
     sbind (getVar n py key False) (\<lambda>referrer.
     sbind (slift (refers_to ref referrer)) (\<lambda>found.
       if \<not> found then sret ()
       else sbind (slift (replace_ref ref value referrer)) (setVar n py False key)))"

definition expandVarref :: "nat \<Rightarrow> pyenv \<Rightarrow> string \<Rightarrow> bool \<Rightarrow> unit sm" where
  "expandVarref n py variable parents =
     sbind (getVar n py variable False) (\<lambda>value.
     let step = expand_varref_step n py (''${'' @ variable @ ''}'') value
     in if parents then sbind (smart_keys n py) (\<lambda>keys. sfold (\<lambda>key _. step key) keys ())
        else sbind (sget (\<lambda>d. dkeys (sd_dict d))) (\<lambda>keys.
             sfold (\<lambda>key _. sbind (step key) (\<lambda>_.
               sbind (sget (\<lambda>d. length (sd_dict d) = length keys)) (\<lambda>same. if same then sret () else sraise RuntimeError))) keys ()))"

text \<open>\<open>expandKeys\<close> of \<open>bb/data.py\<close> on one datastore.\<close>

definition expand_key :: "nat \<Rightarrow> pyenv \<Rightarrow> string \<Rightarrow> (string, string) dict \<Rightarrow> (string, string) dict sm" where
  "expand_key n py key todolist =
     (if \<not> py_contains ''${'' key then sret todolist
      else sbind (expand_str n py (Str key) []) (\<lambda>v.
           case v of Str ekey \<Rightarrow> sret (if key = ekey then todolist else dset key ekey todolist) | _ \<Rightarrow> sret todolist))"

definition expandKeys :: "nat \<Rightarrow> pyenv \<Rightarrow> nat \<Rightarrow> unit sm" where
  "expandKeys n py fuel =
     sbind (smart_keys n py) (\<lambda>keys.
     sbind (sfold (expand_key n py) keys []) (\<lambda>todolist.
       sfold (\<lambda>key _.
           let ekey = dgetd todolist key []
           in sbind (getVar n py ekey False) (\<lambda>newval.
              sbind (if newval = PyNone then sret PyNone else getVar n py key False) (\<lambda>_.
                renameVar n py fuel key ekey))) (sort (dkeys todolist)) ()))"

end
