(* ===== verification/DataSmartRuns.thy ===== *)
theory DataSmartRuns
  imports DataSmart
begin

text \<open>
  What the datastore promises.  Reading changes no variable; a value that was set is read back; the operations on a
  variable are applied in their order and the last active override wins; the overrides are
  stable when they have been determined; a copy cannot be told from its original and leaves it alone.  At the end
  there are runs in which the code does something else than it means to.

  The locale \<open>store_frame\<close> collects what is needed of a relation between the datastore before and after an operation;
  \<open>read_frame\<close> and \<open>write_frame\<close> add what reading and writing change.
\<close>

section \<open>Frames\<close>

definition frames :: "(smart \<Rightarrow> smart \<Rightarrow> bool) \<Rightarrow> 'a sm \<Rightarrow> bool" where
  "frames R m \<longleftrightarrow> (\<forall>d. R d (snd (m d)))"

lemma framesD: "frames R m \<Longrightarrow> m d = (r, d') \<Longrightarrow> R d d'"
  unfolding frames_def by (metis snd_conv)

locale store_frame =
  fixes R :: "smart \<Rightarrow> smart \<Rightarrow> bool"
  assumes refl: "R d d"
    and trans: "R d e \<Longrightarrow> R e f \<Longrightarrow> R d f"
begin

lemma simple: "frames R (sret x)" "frames R (sraise e)" "frames R (sget f)" "frames R (slift r)"
  by (simp_all add: frames_def refl)

lemma mod: "(\<And>d. R d (f d)) \<Longrightarrow> frames R (smod f)"
  by (simp add: frames_def)

lemma bind: "frames R m \<Longrightarrow> (\<And>x. frames R (f x)) \<Longrightarrow> frames R (sbind m f)"
  unfolding frames_def sbind_cases by (auto split: sum.split intro: trans)

lemma loop: "(\<And>x s. frames R (f x s)) \<Longrightarrow> frames R (sfold f xs s)"
  by (induction xs arbitrary: s) (auto simp: simple intro: bind simp del: sm_simps)

lemma wrap: "frames R m \<Longrightarrow> frames R (swrap m)"
  unfolding frames_def swrap_def by (auto split: prod.split sum.split) (metis snd_conv)+

lemma cond: "(b \<Longrightarrow> frames R m) \<Longrightarrow> (\<not> b \<Longrightarrow> frames R m') \<Longrightarrow> frames R (if b then m else m')"
  by simp

lemmas rules = simple mod bind loop wrap cond

text \<open>Everything that reads respects the relation if the nested reads and the Python code do.\<close>

lemma re_sub_frame: "(\<And>k vp. frames R (f k vp)) \<Longrightarrow> frames R (re_sub m f s vp)"
  unfolding re_sub_def sub_step_def
  by (intro bind loop) (auto simp: simple split: prod.split option.split sum.split simp del: sm_simps intro!: bind)

lemma var_sub_frame:
  assumes "\<And>v. frames R (get v ''_content'' True False False)"
  shows "frames R (var_sub get varname key vp)"
  unfolding var_sub_def by (intro rules) (auto simp: simple assms split: option.split simp del: sm_simps)

lemma python_sub_frame:
  assumes "\<And>v. frames R (get v ''vardeps'' True False False)" "\<And>code. frames R (py_eval py code)"
  shows "frames R (python_sub py get varname code vp)"
  unfolding python_sub_def
  by (auto simp: simple assms split: pyparse.split simp del: sm_simps intro!: bind)

end

text \<open>What reading changes itself: the cache, and the overrides once they are needed.\<close>

locale read_frame = store_frame +
  assumes cached: "R d (d\<lparr>sd_expand_cache := c\<rparr>)"
    and overrides: "(\<And>v f. frames R (get v f True False False)) \<Longrightarrow> frames R (need_overrides get)"
begin

lemma cache_put_frame: "R d (cache_put name vp d)"
  by (simp add: cache_put_def cached)

lemma expand_rounds_frame:
  assumes "\<And>v f. frames R (get v f True False False)" "\<And>code. frames R (py_eval py code)"
  shows "frames R (expand_rounds py get varname fuel s vp)"
proof (induction fuel arbitrary: s vp)
  case 0
  show ?case by (subst expand_rounds.simps) (simp add: simple del: sm_simps)
next
  case (Suc n)
  show ?case
    by (subst expand_rounds.simps)
      (auto simp: simple Suc assms simp del: sm_simps intro!: bind re_sub_frame var_sub_frame python_sub_frame split: prod.split)
qed

lemma expandWithRefs_frame:
  assumes "\<And>v f. frames R (get v f True False False)" "\<And>code. frames R (py_eval py code)"
  shows "frames R (expandWithRefs py get fuel s varname)"
  unfolding expandWithRefs_def
  by (auto simp: simple refl cache_put_frame Let_def assms simp del: sm_simps
      intro!: bind mod wrap expand_rounds_frame split: dval.split option.split prod.split)

lemma op_stage_frame:
  assumes "\<And>v f. frames R (get v f True False False)"
  shows "frames R (op_stage get add ops value)"
  unfolding op_stage_def
  by (auto simp: simple assms simp del: sm_simps intro!: bind overrides split: option.split)

lemma remove_stage_frame:
  assumes "\<And>v f. frames R (get v f True False False)" "\<And>code. frames R (py_eval py code)"
  shows "frames R (remove_stage py get fuel var expand l value)"
  unfolding remove_stage_def remove_step_def Let_def
  by (auto simp: simple refl cache_put_frame assms simp del: sm_simps
      intro!: bind mod loop overrides expandWithRefs_frame split: option.split)

lemma get_flag_frame:
  assumes "\<And>v f e n p. frames R (get v f e n p)" "\<And>code. frames R (py_eval py code)"
  shows "frames R (get_flag py get fuel var flag expand noweak parsing)"
  unfolding get_flag_def find_override_def Let_def
  by (auto simp: simple assms simp del: sm_simps
      intro!: bind overrides op_stage_frame expandWithRefs_frame remove_stage_frame split: option.split prod.split)

lemma getVarFlag_frame:
  assumes "\<And>code. frames R (py_eval py code)"
  shows "frames R (getVarFlag n py var flag expand noweak parsing)"
  by (induction n arbitrary: var flag expand noweak parsing) (simp_all add: simple get_flag_frame assms del: sm_simps)

end

text \<open>Relations that do not look at what reading changes: the cache and the overrides.\<close>

locale scratch_frame = store_frame +
  assumes scratch: "R d (d\<lparr>sd_expand_cache := c, sd_overrides := ovs, sd_overridesset := s, sd_inoverride := b\<rparr>)"
begin

lemma scratch_updates:
  "R d (clear_cache d)" "R d (cache_put name vp d)" "R d (set_overrides ovs d)" "R d (forget_overrides d)"
  "R d (set_overrides ovs (d\<lparr>sd_inoverride := b\<rparr>))" "R d (clear_cache (set_overrides ovs (d\<lparr>sd_inoverride := b\<rparr>)))"
proof -
  have eq: "clear_cache d = d\<lparr>sd_expand_cache := [], sd_overrides := sd_overrides d, sd_overridesset := sd_overridesset d, sd_inoverride := sd_inoverride d\<rparr>"
    "cache_put name vp d = d\<lparr>sd_expand_cache := dset name vp (sd_expand_cache d), sd_overrides := sd_overrides d,
       sd_overridesset := sd_overridesset d, sd_inoverride := sd_inoverride d\<rparr>"
    "set_overrides ovs d = d\<lparr>sd_expand_cache := sd_expand_cache d, sd_overrides := Some ovs, sd_overridesset := ovs, sd_inoverride := sd_inoverride d\<rparr>"
    "forget_overrides d = d\<lparr>sd_expand_cache := sd_expand_cache d, sd_overrides := None, sd_overridesset := sd_overridesset d, sd_inoverride := sd_inoverride d\<rparr>"
    "set_overrides ovs (d\<lparr>sd_inoverride := b\<rparr>) = d\<lparr>sd_expand_cache := sd_expand_cache d, sd_overrides := Some ovs, sd_overridesset := ovs, sd_inoverride := b\<rparr>"
    "clear_cache (set_overrides ovs (d\<lparr>sd_inoverride := b\<rparr>)) = d\<lparr>sd_expand_cache := [], sd_overrides := Some ovs, sd_overridesset := ovs, sd_inoverride := b\<rparr>"
    by (simp_all add: clear_cache_def cache_put_def set_overrides_def forget_overrides_def)
  show "R d (clear_cache d)" unfolding eq(1) by (rule scratch)
  show "R d (cache_put name vp d)" unfolding eq(2) by (rule scratch)
  show "R d (set_overrides ovs d)" unfolding eq(3) by (rule scratch)
  show "R d (forget_overrides d)" unfolding eq(4) by (rule scratch)
  show "R d (set_overrides ovs (d\<lparr>sd_inoverride := b\<rparr>))" unfolding eq(5) by (rule scratch)
  show "R d (clear_cache (set_overrides ovs (d\<lparr>sd_inoverride := b\<rparr>)))" unfolding eq(6) by (rule scratch)
qed

lemma need_overrides_frame:
  assumes "\<And>v f. frames R (get v f True False False)"
  shows "frames R (need_overrides get)"
proof -
  have list: "frames R (override_list get)"
    unfolding override_list_def by (intro bind) (simp_all add: simple assms del: sm_simps)
  have "frames R (override_rounds get n)" for n
    by (induction n) (auto simp: simple list scratch_updates simp del: sm_simps intro!: bind mod)
  then show ?thesis unfolding need_overrides_def by (auto simp: simple simp del: sm_simps intro!: bind)
qed

end

sublocale scratch_frame \<subseteq> read_frame R
proof
  show "R d (d\<lparr>sd_expand_cache := c\<rparr>)" for d c
    using scratch [where d = d and c = c and ovs = "sd_overrides d" and s = "sd_overridesset d" and b = "sd_inoverride d"] by simp
qed (rule need_overrides_frame)

text \<open>Setting a variable that the overrides depend on also changes which variables are watched.\<close>

locale watch_frame = scratch_frame +
  assumes overridevars: "R d (d\<lparr>sd_overridevars := ov\<rparr>)"
begin

lemma setvar_update_overridevars_frame:
  assumes "\<And>code. frames R (py_eval py code)"
  shows "frames R (setvar_update_overridevars n py var value)"
proof -
  note gets = getVarFlag_frame [OF assms]
  have "frames R (watch_rounds n py fuel new)" for fuel new
  proof (induction fuel arbitrary: new)
    case 0
    show ?case by (subst watch_rounds.simps) (auto simp: simple simp del: sm_simps intro!: bind)
  next
    case (Suc m)
    then show ?case
      by (subst watch_rounds.simps)
        (auto simp: simple overridevars getVar_def gets assms simp del: sm_simps intro!: bind mod loop expandWithRefs_frame)
  qed
  then show ?thesis
    unfolding setvar_update_overridevars_def Let_def
    by (auto simp: simple scratch_updates refl gets assms simp del: sm_simps intro!: bind mod expandWithRefs_frame)
qed

end

text \<open>Relations that do not look at the variables of the datastore itself either.\<close>

locale write_frame = watch_frame +
  assumes dict: "R d (d\<lparr>sd_dict := x\<rparr>)"
    and overridedata: "R d (d\<lparr>sd_overridedata := od\<rparr>)"
begin

lemma fold_frame: "(\<And>x d. R d (f x d)) \<Longrightarrow> R d (fold f xs d)"
  by (induction xs arbitrary: d) (auto intro: refl trans)

lemma writes:
  "R d (set_flag var flag v d)" "R d (del_flag var flag d)" "R d (makeShadowCopy var d)"
  "R d (setvar_update_overrides var d)" "R d (delVar var d)"
proof -
  show set: "R d (set_flag var flag v d)" and del: "R d (del_flag var flag d)" for d
    by (simp_all add: set_flag_def del_flag_def dict)
  show "R d (makeShadowCopy var d)"
    using trans [OF scratch_updates(1) dict] scratch_updates(1) refl dict
    by (auto simp: makeShadowCopy_def initVar_def Let_def split: option.split)
  have "R d (add_override var p d)" "R d (remove_override var p d)" for p d
    by (auto simp: add_override_def remove_override_def Let_def overridedata refl split: option.split)
  then have f: "R d (fold (add_override var) ps d)" "R d (fold (remove_override var) ps d)" for ps d
    by (auto intro: fold_frame)
  show "R d (setvar_update_overrides var d)" by (simp add: setvar_update_overrides_def f)
  have base: "R d ((clear_cache d)\<lparr>sd_dict := x, sd_overridedata := od\<rparr>)" for x od
    using trans [OF trans [OF scratch_updates(1) dict] overridedata] by simp
  show "R d (delVar var d)" using base trans [OF base f(2)] by (simp add: delVar_def Let_def)
qed

end

section \<open>An example\<close>

text \<open>A datastore with overrides, operations and a reference.  No value contains Python code.\<close>

definition no_python :: pyenv where
  "no_python = \<lparr>py_parse = (\<lambda>_. PyError ValueError), py_eval = (\<lambda>_ d. (Inl ValueError, d))\<rparr>"

definition sample :: smart where
  "sample = snd (sfold (\<lambda>(var, v) _. setVar 9 no_python True var (Str v))
     [(''OVERRIDES'', ''x:y''), (''A'', ''1''), (''A_x'', ''2''), (''A_y'', ''3''), (''B'', ''v''), (''B_append'', ''w''),
      (''B_prepend'', ''u''), (''B_append_z'', ''no''), (''C'', ''${B}!'')] () new_smart)"

text \<open>After a read the overrides are known.\<close>

definition sample_read :: smart where
  "sample_read = snd (getVar 9 no_python ''A'' False sample)"

section \<open>Reading changes no variable\<close>

definition untouched :: "smart \<Rightarrow> smart \<Rightarrow> bool" where
  "untouched d d' \<longleftrightarrow> sd_dict d' = sd_dict d \<and> sd_data d' = sd_data d \<and> sd_sets d' = sd_sets d \<and>
     sd_overridedata d' = sd_overridedata d \<and> sd_overridevars d' = sd_overridevars d"

interpretation ro: scratch_frame untouched
  by unfold_locales (simp_all add: untouched_def)

text \<open>
   Reading changes no variable, whatever is expanded on the way and also when it raises: what changes is the cache
  of expanded values and what is known about the overrides.  Python code in values must do the same.
\<close>
theorem reads_change_nothing:
  assumes "\<And>code. frames untouched (py_eval py code)"
    and "getVarFlag n py var flag expand noweakdefault parsing d = (r, d')"
  shows "findVar d' v = findVar d v \<and> sd_dict d' = sd_dict d \<and> sd_data d' = sd_data d \<and> sd_sets d' = sd_sets d \<and>
    sd_overridedata d' = sd_overridedata d \<and> sd_overridevars d' = sd_overridevars d"
  using framesD [OF ro.getVarFlag_frame [OF assms(1)] assms(2)] by (simp add: untouched_def findVar_def)

lemma no_python_frame: "(\<And>d. R d d) \<Longrightarrow> frames R (py_eval no_python code)"
  by (simp add: frames_def no_python_def)

lemma reads_change_nothing_witness:
  "fst (getVarFlag 9 no_python ''C'' ''_content'' True False False sample) = Inr (Str ''uvw!'') \<and>
   findVar (snd (getVarFlag 9 no_python ''C'' ''_content'' True False False sample)) ''C'' = Some [(''_content'', Str ''${B}!'')]"
proof -
  have 1: "fst (getVarFlag 9 no_python ''C'' ''_content'' True False False sample) = Inr (Str ''uvw!'')" by code_simp
  have 2: "findVar sample ''C'' = Some [(''_content'', Str ''${B}!'')]" by code_simp
  show ?thesis
    using reads_change_nothing [OF no_python_frame [OF ro.refl] prod.collapse [symmetric], of 9 "''C''" "''_content''" True False False sample "''C''"]
      1 2 by simp
qed

section \<open>A value that was set is read back\<close>

lemma findVar_set_flag [simp]:
  "findVar (set_flag var flag v d) x = (if x = var then Some (dset flag v (local_flags d var)) else findVar d x)"
  by (simp add: set_flag_def findVar_def)

lemma sbind_InrE:
  assumes "sbind m f d = (Inr y, d')"
  obtains x e where "m d = (Inr x, e)" "f x e = (Inr y, d')"
  using assms by (cases "m d"; cases "fst (m d)") (auto simp: sbind_def)

lemma override_next_shorter: "(s, o1) \<in> set (override_next var shortvar) \<Longrightarrow> length s < length shortvar"
proof (induction var shortvar rule: override_next.induct)
  case (1 var shortvar)
  show ?case
  proof (cases "rsplit1 uscore shortvar")
    case None
    then show ?thesis using "1.prems" by (simp add: override_next.simps [of var shortvar])
  next
    case (Some p)
    obtain u v where p: "p = (u, v)" by (cases p)
    have len: "length u < length shortvar" using Some p rsplit1_SomeD [of uscore shortvar u v] by simp
    show ?thesis
    proof (cases "u \<noteq> [] \<and> drop (Suc (length u)) var \<noteq> [] \<and> islower (drop (Suc (length u)) var)")
      case True
      then have "(s, o1) = (u, drop (Suc (length u)) var) \<or> (s, o1) \<in> set (override_next var u)"
        using "1.prems" Some p by (simp add: override_next.simps [of var shortvar] Let_def)
      then show ?thesis using "1.IH" [OF Some p [symmetric] refl] True len by fastforce
    next
      case False
      then show ?thesis using "1.prems" Some p by (simp add: override_next.simps [of var shortvar] Let_def split: if_splits)
    qed
  qed
qed

lemma override_pairs_shorter: "(s, o1) \<in> set (override_pairs var) \<Longrightarrow> length s < length var"
  using override_next_shorter [of s o1 var]
  by (fastforce simp: override_pairs_def Let_def dest: rsplit1_SomeD split: option.splits prod.splits if_splits)

lemma od_fold_add: "\<forall>p \<in> set ps. fst p \<noteq> v \<Longrightarrow>
    dget (sd_overridedata (fold (add_override var) ps d)) v = dget (sd_overridedata d) v"
  by (induction ps arbitrary: d) (auto simp: add_override_def Let_def)

lemma od_update_overrides:
  "dget (sd_overridedata (setvar_update_overrides var d)) var = dget (sd_overridedata d) var"
  unfolding setvar_update_overrides_def by (rule od_fold_add) (use override_pairs_shorter in fastforce)

lemma update_overrides_dict [simp]:
  "sd_dict (setvar_update_overrides var d) = sd_dict d" "sd_data (setvar_update_overrides var d) = sd_data d"
proof -
  have "sd_dict (fold (add_override var) ps d) = sd_dict d \<and> sd_data (fold (add_override var) ps d) = sd_data d" for ps
    by (induction ps arbitrary: d) (simp_all add: add_override_def Let_def)
  then show "sd_dict (setvar_update_overrides var d) = sd_dict d" "sd_data (setvar_update_overrides var d) = sd_data d"
    by (simp_all add: setvar_update_overrides_def)
qed

text \<open>What is set beside the dictionary of \<open>var\<close> while its overrides disappear: flags of \<open>var\<close> are never added.\<close>

definition fewer_flags :: "string \<Rightarrow> smart \<Rightarrow> smart \<Rightarrow> bool" where
  "fewer_flags var d d' \<longleftrightarrow> set (dkeys (local_flags d' var)) \<subseteq> set (dkeys (local_flags d var))"

lemma delVar_fewer: "fewer_flags var d (fold delVar vs d)"
proof (induction vs arbitrary: d)
  case Nil
  then show ?case by (simp add: fewer_flags_def)
next
  case (Cons v vs)
  have "sd_dict (fold (remove_override v) ps e) = sd_dict e" for ps e
    by (induction ps arbitrary: e) (simp_all add: remove_override_def split: option.split)
  then have "sd_dict (delVar v d) = dset v [] (sd_dict d)" by (simp add: delVar_def Let_def clear_cache_def)
  then have "fewer_flags var d (delVar v d)" by (simp add: fewer_flags_def local_flags_def)
  then show ?case using Cons.IH [of "delVar v d"] by (auto simp: fewer_flags_def)
qed

definition kept :: "smart \<Rightarrow> smart \<Rightarrow> bool" where
  "kept d d' \<longleftrightarrow> sd_dict d' = sd_dict d \<and> sd_data d' = sd_data d \<and> sd_overridedata d' = sd_overridedata d"

interpretation kp: watch_frame kept
  by unfold_locales (simp_all add: kept_def)

lemma untouched_kept: "frames untouched m \<Longrightarrow> frames kept m"
  by (simp add: frames_def untouched_def kept_def)

lemma drop_overrides_drops:
  assumes "\<And>code. frames untouched (py_eval py code)" and run: "drop_overrides n py var d = (Inr (), d')"
  shows "dget (sd_overridedata d') var = None" "fewer_flags var d d'"
proof -
  obtain x e where e: "need_overrides (getVarFlag n py) d = (Inr x, e)"
    and rest: "sbind (sget (\<lambda>d. filter (\<lambda>(r, o1). override_active (sd_overridesset d) o1) (dgetd (sd_overridedata d) var []))) (\<lambda>active.
     sbind (smod (fold delVar (map fst active))) (\<lambda>_.
     sbind (sget (\<lambda>d. var \<in> set (dkeys (sd_overridedata d)))) (\<lambda>present.
       if present then smod (\<lambda>d. d\<lparr>sd_overridedata := ddel var (sd_overridedata d)\<rparr>) else sraise KeyError))) e = (Inr (), d')"
    using run unfolding drop_overrides_def by (rule sbind_InrE)
  have "frames untouched (need_overrides (getVarFlag n py))" by (intro ro.need_overrides_frame ro.getVarFlag_frame assms)
  then have u: "untouched d e" using e by (rule framesD)
  obtain vs where d': "d' = (fold delVar vs e)\<lparr>sd_overridedata := ddel var (sd_overridedata (fold delVar vs e))\<rparr>"
    using rest by (auto simp: sbind_def split: if_splits)
  then show "dget (sd_overridedata d') var = None" by simp
  show "fewer_flags var d d'"
    using delVar_fewer [of var e vs] u d' by (simp add: fewer_flags_def local_flags_def untouched_def)
qed

lemma shadow_flags: "local_flags (makeShadowCopy var d) var = (case findVar d var of None \<Rightarrow> [] | Some fl \<Rightarrow> fl)"
proof (cases "dget (sd_dict d) var")
  case None
  then have "var \<notin> set (dkeys (sd_dict d))" by (simp add: dget_None_iff)
  then show ?thesis
    by (auto simp: makeShadowCopy_def local_flags_def initVar_def clear_cache_def dgetd_def Let_def split: option.split)
next
  case (Some fl)
  then have "var \<in> set (dkeys (sd_dict d))" by (rule dget_SomeD)
  then show ?thesis using Some by (simp add: makeShadowCopy_def local_flags_def findVar_def dgetd_def)
qed

text \<open>What a plain write leaves in the datastore.\<close>

lemma setVar_plain_state:
  assumes py: "\<And>code. frames untouched (py_eval py code)"
    and run: "setVar_plain n py False var value d = (Inr (), d')"
  shows "dget (sd_overridedata d') var = None"
    and "\<exists>fl. dget (sd_dict d') var = Some fl \<and> dget fl ''_content'' = Some value \<and> dget fl ''_append'' = None \<and>
      dget fl ''_prepend'' = None \<and> (op_flag (findVar d var) ''_remove'' = None \<longrightarrow> dget fl ''_remove'' = None)"
proof -
  define d1 where "d1 = del_flag var ''_prepend'' (del_flag var ''_append'' (makeShadowCopy var d))"
  obtain d2 where d2: "(if var \<in> set (dkeys (sd_overridedata d1)) then drop_overrides n py var else sret ()) d1 = (Inr (), d2)"
    and rest: "sbind (smod (if uscore \<in> set var then setvar_update_overrides var else id)) (\<lambda>_.
     sbind (smod (set_flag var ''_content'' value)) (\<lambda>_.
     sbind (sget (\<lambda>d. var \<in> set (sd_overridevars d))) (\<lambda>watched.
       if watched then setvar_update_overridevars n py var value else sret ()))) d2 = (Inr (), d')"
    using run unfolding setVar_plain_def d1_def
    by (auto simp: sbind_cases[of "smod _"] sbind_cases[of "sget _"] elim!: sbind_InrE)
  have gone: "dget (sd_overridedata d2) var = None \<and> fewer_flags var d1 d2"
  proof (cases "var \<in> set (dkeys (sd_overridedata d1))")
    case True
    then show ?thesis using drop_overrides_drops [OF py] d2 by simp
  next
    case False
    then show ?thesis using d2 by (simp add: dget_None_iff fewer_flags_def)
  qed
  define d3 where "d3 = set_flag var ''_content'' value ((if uscore \<in> set var then setvar_update_overrides var else id) d2)"
  have "frames kept (setvar_update_overridevars n py var value)"
    by (intro kp.setvar_update_overridevars_frame untouched_kept py)
  moreover have "(if var \<in> set (sd_overridevars d3) then setvar_update_overridevars n py var value else sret ()) d3 = (Inr (), d')"
    using rest unfolding d3_def by (simp add: sbind_cases)
  ultimately have k: "kept d3 d'" by (auto simp: kp.refl dest: framesD split: if_splits)
  then show "dget (sd_overridedata d') var = None"
    using gone by (simp add: kept_def d3_def set_flag_def od_update_overrides)
  let ?fl = "dset ''_content'' value (local_flags ((if uscore \<in> set var then setvar_update_overrides var else id) d2) var)"
  have fl: "dget (sd_dict d') var = Some ?fl" using k by (simp add: kept_def d3_def set_flag_def)
  have loc: "local_flags ((if uscore \<in> set var then setvar_update_overrides var else id) d2) var = local_flags d2 var"
    by (simp add: local_flags_def)
  have flags1: "local_flags d1 var = ddel ''_prepend'' (ddel ''_append'' (local_flags (makeShadowCopy var d) var))"
    by (simp add: d1_def del_flag_def local_flags_def)
  have no: "f \<notin> set (dkeys (local_flags d2 var))" if "f \<notin> set (dkeys (local_flags d1 var))" for f
    using gone that by (auto simp: fewer_flags_def)
  have "''_append'' \<notin> set (dkeys (local_flags d2 var))" "''_prepend'' \<notin> set (dkeys (local_flags d2 var))"
    by (rule no, simp add: flags1)+
  moreover have "''_remove'' \<notin> set (dkeys (local_flags d2 var))" if "op_flag (findVar d var) ''_remove'' = None"
    using that by (intro no) (auto simp: flags1 shadow_flags op_flag_def dget_None_iff split: option.splits)
  ultimately show "\<exists>fl. dget (sd_dict d') var = Some fl \<and> dget fl ''_content'' = Some value \<and> dget fl ''_append'' = None \<and>
      dget fl ''_prepend'' = None \<and> (op_flag (findVar d var) ''_remove'' = None \<longrightarrow> dget fl ''_remove'' = None)"
    using fl by (simp add: loc dget_None_iff)
qed

text \<open>When the overrides are known, setting a variable they do not depend on succeeds.\<close>

lemma setVar_succeeds:
  assumes "setvar_op var = None" "sd_overrides d \<noteq> None" "var \<notin> set (sd_overridevars d)"
    and "var \<notin> fst ` set (dgetd (sd_overridedata d) var [])"
  shows "fst (setVar n py False var v d) = Inr ()"
proof -
  let ?e = "del_flag var ''_prepend'' (del_flag var ''_append'' (makeShadowCopy var (clear_cache d)))"
  have e: "sd_overrides ?e = sd_overrides d" "sd_overridevars ?e = sd_overridevars d" "sd_overridedata ?e = sd_overridedata d"
    by (simp_all add: del_flag_def makeShadowCopy_def initVar_def clear_cache_def Let_def split: option.split)
  have upd: "sd_overridevars (setvar_update_overrides var f) = sd_overridevars f" for f
  proof -
    have "sd_overridevars (fold (add_override var) ps f) = sd_overridevars f" for ps
      by (induction ps arbitrary: f) (simp_all add: add_override_def Let_def)
    then show ?thesis by (simp add: setvar_update_overrides_def)
  qed
  have rem: "sd_overridevars (fold (remove_override w) ps f) = sd_overridevars f \<and>
      (var \<in> set (dkeys (sd_overridedata f)) \<longrightarrow> var \<in> set (dkeys (sd_overridedata (fold (remove_override w) ps f))))" for w ps f
    by (induction ps arbitrary: f) (auto simp: remove_override_def split: option.split)
  have "sd_overridevars (delVar w f) = sd_overridevars f \<and>
      (w \<noteq> var \<longrightarrow> var \<in> set (dkeys (sd_overridedata f)) \<longrightarrow> var \<in> set (dkeys (sd_overridedata (delVar w f))))" for w f
    using rem by (auto simp: delVar_def clear_cache_def Let_def)
  then have del: "var \<notin> set ws \<Longrightarrow> sd_overridevars (fold delVar ws f) = sd_overridevars f \<and>
      (var \<in> set (dkeys (sd_overridedata f)) \<longrightarrow> var \<in> set (dkeys (sd_overridedata (fold delVar ws f))))" for ws f
    by (induction ws arbitrary: f) auto
  have drop: "fst (drop_overrides n py var ?e) = Inr () \<and> sd_overridevars (snd (drop_overrides n py var ?e)) = sd_overridevars d"
    if "var \<in> set (dkeys (sd_overridedata ?e))"
  proof -
    let ?ws = "map fst (filter (\<lambda>(r, o1). override_active (sd_overridesset ?e) o1) (dgetd (sd_overridedata ?e) var []))"
    have "var \<notin> set ?ws" using assms(4) e(3) by force
    then have "var \<in> set (dkeys (sd_overridedata (fold delVar ?ws ?e)))" "sd_overridevars (fold delVar ?ws ?e) = sd_overridevars d"
      using del [of ?ws ?e] that e(2) by simp_all
    then show ?thesis using assms(2) e(1) by (simp add: drop_overrides_def need_overrides_def sbind_def)
  qed
  have last: "fst (sbind (smod (if uscore \<in> set var then setvar_update_overrides var else id)) (\<lambda>_.
     sbind (smod (set_flag var ''_content'' v)) (\<lambda>_.
     sbind (sget (\<lambda>d. var \<in> set (sd_overridevars d))) (\<lambda>watched.
       if watched then setvar_update_overridevars n py var v else sret ()))) f) = Inr ()" if "sd_overridevars f = sd_overridevars d" for f
    using assms(3) that upd by (simp add: sbind_def set_flag_def)
  have "fst (setVar_plain n py False var v (clear_cache d)) = Inr ()"
  proof (cases "var \<in> set (dkeys (sd_overridedata ?e))")
    case True
    have "drop_overrides n py var ?e = (Inr (), snd (drop_overrides n py var ?e))" using drop [OF True] by (metis prod.collapse)
    then show ?thesis using True last drop [OF True] unfolding setVar_plain_def
      by (simp add: sbind_cases del: id_apply)
  next
    case False
    then show ?thesis using last [of ?e] e(2) unfolding setVar_plain_def by (simp add: sbind_cases del: id_apply)
  qed
  then show ?thesis using assms(1) by (simp add: setVar_def sbind_def)
qed



section \<open>Operations in their order\<close>

definition applied :: "string list \<Rightarrow> (dval \<times> string option) list \<Rightarrow> string list \<Rightarrow> bool" where
  "applied ovs l ws \<longleftrightarrow> map fst (filter (\<lambda>(r, o1). op_applies (Some ovs) o1 = Inr True) l) = map Str ws"

lemma op_applies_some: "\<exists>b. op_applies (Some ovs) o1 = Inr b"
  by (auto simp: op_applies_def)

lemma append_steps:
  "applied ovs l ws \<Longrightarrow> rfold (op_step py_add (Some ovs)) l (Str s) = Inr (Str (s @ concat ws))"
proof (induction l arbitrary: s ws)
  case Nil
  then show ?case by (simp add: applied_def)
next
  case (Cons p l)
  obtain b where b: "op_applies (Some ovs) (snd p) = Inr b" using op_applies_some by blast
  show ?case
  proof (cases b)
    case False
    then show ?thesis using Cons.IH [of ws s] Cons.prems b by (simp add: applied_def op_step_def case_prod_beta)
  next
    case True
    then obtain w vs where "ws = w # vs" "fst p = Str w" "applied ovs l vs"
      using Cons.prems b by (cases ws) (auto simp: applied_def case_prod_beta)
    then show ?thesis using Cons.IH [of vs "s @ w"] b True by (simp add: op_step_def)
  qed
qed

lemma prepend_steps:
  "applied ovs l ws \<Longrightarrow> rfold (op_step (\<lambda>value r. py_add r value) (Some ovs)) l (Str s) = Inr (Str (concat (rev ws) @ s))"
proof (induction l arbitrary: s ws)
  case Nil
  then show ?case by (simp add: applied_def)
next
  case (Cons p l)
  obtain b where b: "op_applies (Some ovs) (snd p) = Inr b" using op_applies_some by blast
  show ?case
  proof (cases b)
    case False
    then show ?thesis using Cons.IH [of ws s] Cons.prems b by (simp add: applied_def op_step_def case_prod_beta)
  next
    case True
    then obtain w vs where "ws = w # vs" "fst p = Str w" "applied ovs l vs"
      using Cons.prems b by (cases ws) (auto simp: applied_def case_prod_beta)
    then show ?thesis using Cons.IH [of vs "w @ s"] b True by (simp add: op_step_def)
  qed
qed

text \<open>
  C23.  Reading applies the operations of a variable in the order in which they were made: the appended texts follow the
  value, the prepended texts precede it, the last one first; those whose override is not active do not show.
  This holds for whatever an active override puts in the place of the value.
\<close>
theorem operations_in_order:
  assumes "sd_overrides d = Some ovs" "findVar d var = Some fl" "dget fl ''_remove'' = None"
    and "dget fl ''_append'' = Some (Ops as)" "dget fl ''_prepend'' = Some (Ops ps)"
    and "applied ovs as ws" "applied ovs ps us"
    and "if var \<in> set (dkeys (sd_overridedata d)) then find_override (getVarFlag n py) var d = (Inr value, d) else value = PyNone"
    and "plain_value d (Some fl) ''_content'' False value = Str s"
  shows "getVar (Suc n) py var False d = (Inr (Str (concat (rev us) @ s @ concat ws)), d)"
proof -
  have none: "need_overrides get d = (Inr (), d)" for get using assms(1) by (simp add: need_overrides_def sbind_def)
  have str: "(if is_true (Str t) then Str t else Str []) = Str t" for t by simp
  have a: "op_stage get py_add (Some (Ops as)) (Str s) d = (Inr (Str (s @ concat ws)), d)" for get
    unfolding op_stage_def option.case str using none assms(1) append_steps [OF assms(6), of s] by (simp add: sbind_def)
  have p: "op_stage get (\<lambda>value r. py_add r value) (Some (Ops ps)) (Str t) d = (Inr (Str (concat (rev us) @ t)), d)" for get t
    unfolding op_stage_def option.case str using none assms(1) prepend_steps [OF assms(7), of t] by (simp add: sbind_def)
  have v: "(if ''_content'' = ''_content'' \<and> var \<in> set (dkeys (sd_overridedata d)) \<and> \<not> False
      then find_override (getVarFlag n py) var else sret PyNone) d = (Inr value, d)"
    using assms(8) by (cases "var \<in> set (dkeys (sd_overridedata d))") simp_all
  show ?thesis
    unfolding getVar_def getVarFlag.simps get_flag_def
    using v assms(2,3,4,5,9) a p by (simp add: sbind_def op_flag_def Let_def)
qed

lemma operations_in_order_witness:
  "getVar (Suc 8) no_python ''B'' False sample_read = (Inr (Str (concat (rev [''u'']) @ ''v'' @ concat [''w''])), sample_read)"
proof (rule operations_in_order)
  show "sd_overrides sample_read = Some [''x'', ''y'']" by code_simp
  show "findVar sample_read ''B'' = Some [(''_content'', Str ''v''), (''_append'', Ops [(Str ''w'', None), (Str ''no'', Some ''z'')]),
      (''_prepend'', Ops [(Str ''u'', None)])]" by code_simp
  show "applied [''x'', ''y''] [(Str ''w'', None), (Str ''no'', Some ''z'')] [''w'']" by code_simp
  show "applied [''x'', ''y''] [(Str ''u'', None)] [''u'']" by code_simp
  have "''B'' \<notin> set (dkeys (sd_overridedata sample_read))" by code_simp
  then show "if ''B'' \<in> set (dkeys (sd_overridedata sample_read))
    then find_override (getVarFlag 8 no_python) ''B'' sample_read = (Inr PyNone, sample_read) else PyNone = PyNone" by simp
qed (simp_all add: plain_value_def)

section \<open>The last override wins\<close>

lemma endswith_uscore: "endswith a (uscore # o1) \<Longrightarrow> uscore \<in> set a"
  by (auto simp: endswith_iff)

text \<open>Without underscores in the names a pass takes out the name of each override and remembers its variable.\<close>

definition take_override :: "string \<Rightarrow> matching \<Rightarrow> matching" where
  "take_override o1 s =
     (case dget (m_active s) o1 of None \<Rightarrow> s | Some t \<Rightarrow> s\<lparr>m_active := ddel o1 (m_active s), m_match := Some t\<rparr>)"

lemma match_fold_simple:
  assumes "\<forall>a \<in> set as. uscore \<notin> set a"
  shows "fold (match_step o1) as s = (if o1 \<in> set as then take_override o1 s else s)"
  using assms
proof (induction as arbitrary: s)
  case Nil
  then show ?case by simp
next
  case (Cons a as)
  have step: "match_step o1 a s = (if a = o1 then take_override o1 s else s)"
    using Cons.prems endswith_uscore [of a o1] by (auto simp: match_step_def take_override_def split: option.split)
  have twice: "take_override o1 (take_override o1 s) = take_override o1 s"
    by (simp add: take_override_def split: option.split)
  show ?case using Cons.IH Cons.prems step twice by simp
qed

definition plain_names :: "matching \<Rightarrow> bool" where
  "plain_names s \<longleftrightarrow> (\<forall>a \<in> set (dkeys (m_active s)). uscore \<notin> set a)"

lemma take_plain: "plain_names s \<Longrightarrow> plain_names (take_override o1 s)"
  by (auto simp: plain_names_def take_override_def split: option.split)

lemma match_pass_simple:
  assumes "plain_names s"
  shows "match_pass ovs s = fold take_override ovs (s\<lparr>m_mod := False\<rparr>)"
proof -
  have one: "fold (match_step o1) (dkeys (m_active s)) s = take_override o1 s" if "plain_names s" for s o1
  proof (cases "o1 \<in> set (dkeys (m_active s))")
    case True
    then show ?thesis using that match_fold_simple [of "dkeys (m_active s)" o1 s] by (simp add: plain_names_def)
  next
    case False
    then have "take_override o1 s = s" by (simp add: take_override_def dget_None_iff [symmetric])
    then show ?thesis using that match_fold_simple [of "dkeys (m_active s)" o1 s] by (simp add: plain_names_def)
  qed
  have "fold (\<lambda>o1 s. fold (match_step o1) (dkeys (m_active s)) s) ovs s = fold take_override ovs s" if "plain_names s" for s
    using that by (induction ovs arbitrary: s) (simp_all add: one take_plain)
  then show ?thesis using assms by (simp add: match_pass_def plain_names_def)
qed

lemma fold_take_absent:
  "\<forall>o1 \<in> set ovs. o1 \<notin> set (dkeys (m_active s)) \<Longrightarrow> fold take_override ovs s = s"
proof (induction ovs)
  case (Cons o1 ovs)
  then have "take_override o1 s = s" by (simp add: take_override_def dget_None_iff [symmetric])
  then show ?case using Cons by simp
qed simp

lemma fold_take_mod: "m_mod (fold take_override ovs s) = m_mod s"
  by (induction ovs arbitrary: s) (simp_all add: take_override_def split: option.split)

lemma fold_take_keeps:
  "o1 \<notin> set ovs \<Longrightarrow> dget (m_active (fold take_override ovs s)) o1 = dget (m_active s) o1"
  by (induction ovs arbitrary: s) (auto simp: take_override_def split: option.split)

lemma fold_take_keys: "set (dkeys (m_active (fold take_override ovs s))) \<subseteq> set (dkeys (m_active s))"
proof (induction ovs arbitrary: s)
  case (Cons o1 ovs)
  have "set (dkeys (m_active (take_override o1 s))) \<subseteq> set (dkeys (m_active s))"
    by (auto simp: take_override_def split: option.split)
  then show ?case using Cons.IH [of "take_override o1 s"] by (simp add: subset_trans)
qed simp

lemma match_rounds_last:
  assumes "plain_names s" "dget (m_active s) o1 = Some r" "o1 \<notin> set xs" "\<forall>o2 \<in> set ys. o2 \<notin> set (dkeys (m_active s))"
  shows "m_match (match_rounds (xs @ o1 # ys) s) = Some r"
proof -
  let ?s = "fold take_override xs (s\<lparr>m_mod := False\<rparr>)"
  have "dget (m_active ?s) o1 = Some r" using fold_take_keeps [OF assms(3)] assms(2) by simp
  then have t: "m_match (take_override o1 ?s) = Some r" by (simp add: take_override_def)
  have "set (dkeys (m_active (take_override o1 ?s))) \<subseteq> set (dkeys (m_active s))"
    using fold_take_keys [of "xs @ [o1]" "s\<lparr>m_mod := False\<rparr>"] by simp
  then have "fold take_override ys (take_override o1 ?s) = take_override o1 ?s"
    using assms(4) by (intro fold_take_absent) auto
  then have pass: "match_pass (xs @ o1 # ys) s = take_override o1 ?s" using match_pass_simple [OF assms(1)] by simp
  moreover have "\<not> m_mod (take_override o1 ?s)"
    using fold_take_mod [of "xs @ [o1]" "s\<lparr>m_mod := False\<rparr>"] by simp
  ultimately show ?thesis using t by (simp add: match_rounds.simps)
qed

lemma active_fold:
  "fold (\<lambda>(r, o1) act. if override_active ovset o1 then dset o1 r act else act) l act =
     fold (\<lambda>(r, o1) act. dset o1 r act) (filter (\<lambda>(r, o1). override_active ovset o1) l) act"
  by (induction l arbitrary: act) (auto simp: case_prod_beta)

lemma active_dget:
  assumes "\<And>r'. (r', o1) \<in> set l \<Longrightarrow> r' = r" "(r, o1) \<in> set l \<or> dget act o1 = Some r"
  shows "dget (fold (\<lambda>(r, o1) act. dset o1 r act) l act) o1 = Some r"
  using assms
proof (induction l arbitrary: act)
  case (Cons p l)
  obtain r' o2 where p: "p = (r', o2)" by (cases p)
  show ?case
    unfolding p using Cons.prems p by (simp, intro Cons.IH) auto
qed simp

lemma active_keys:
  "set (dkeys (fold (\<lambda>(r, o1) act. dset o1 r act) l act)) = snd ` set l \<union> set (dkeys act)"
  by (induction l arbitrary: act) (auto simp: case_prod_beta)



section \<open>The overrides are stable\<close>

text \<open>Overrides that are known stay as they are.\<close>

definition known :: "smart \<Rightarrow> smart \<Rightarrow> bool" where
  "known d d' \<longleftrightarrow> (sd_overrides d \<noteq> None \<longrightarrow> sd_overrides d' = sd_overrides d \<and> sd_overridesset d' = sd_overridesset d)"

interpretation kn: read_frame known
proof
  show "frames known (need_overrides get)" for get
    by (auto simp: frames_def known_def need_overrides_def sbind_cases)
qed (auto simp: known_def)

lemma override_rounds_stable:
  assumes "\<And>v f. frames known (get v f True False False)" "\<And>v f. frames untouched (get v f True False False)"
  shows "override_rounds get k d = (Inr (), d') \<Longrightarrow>
    \<exists>e ovs. untouched d e \<and> sd_overrides e = Some ovs \<and> sd_overridesset e = ovs \<and> sd_expand_cache e = [] \<and> \<not> sd_inoverride e \<and>
      override_list get e = (Inr ovs, d') \<and> sd_overrides d' = Some ovs \<and> sd_overridesset d' = ovs"
proof (induction k arbitrary: d)
  case 0
  then show ?case by simp
next
  case (Suc k)
  let ?d = "set_overrides [] (d\<lparr>sd_inoverride := True\<rparr>)"
  obtain ovs e0 where 0: "override_list get ?d = (Inr ovs, e0)"
    using Suc.prems by (auto simp: sbind_def split: prod.splits sum.splits)
  let ?e = "clear_cache (set_overrides ovs (e0\<lparr>sd_inoverride := False\<rparr>))"
  obtain new e1 where 1: "override_list get ?e = (Inr new, e1)"
    using Suc.prems 0 by (auto simp: sbind_def split: prod.splits sum.splits)
  have frames: "frames known (override_list get)" "frames untouched (override_list get)"
    unfolding override_list_def
    by (intro kn.bind ro.bind, simp_all add: kn.simple ro.simple assms del: sm_simps)+
  have e: "untouched d ?e" "untouched ?e e1"
    using framesD [OF frames(2) 0] framesD [OF frames(2) 1] by (simp_all add: untouched_def set_overrides_def clear_cache_def)
  from frames(1) have "known ?e e1" using 1 by (rule framesD)
  then have e1: "sd_overrides e1 = Some ovs" "sd_overridesset e1 = ovs" by (simp_all add: known_def set_overrides_def clear_cache_def)
  show ?case
  proof (cases "new = ovs")
    case True
    then have "d' = e1" using Suc.prems 0 1 e1 by (simp add: sbind_def)
    then show ?thesis using True 1 e1 e(1)
      by (intro exI [of _ ?e] exI [of _ ovs]) (simp add: set_overrides_def clear_cache_def)
  next
    case False
    then have "override_rounds get k (set_overrides new e1) = (Inr (), d')" using Suc.prems 0 1 e1 by (simp add: sbind_def)
    moreover have "untouched d (set_overrides new e1)"
      using ro.trans [OF e] by (simp add: untouched_def set_overrides_def)
    ultimately show ?thesis using Suc.IH ro.trans by blast
  qed
qed

text \<open>
  C24.  When the overrides have been determined, they are what \<open>OVERRIDES\<close> expands to under these very overrides, read
  with the same variables and an empty cache; otherwise the program ends after five attempts.
\<close>
theorem need_overrides_stable:
  assumes "\<And>code. frames known (py_eval py code)" "\<And>code. frames untouched (py_eval py code)"
    and "sd_overrides d = None" "\<not> sd_inoverride d" "need_overrides (getVarFlag n py) d = (Inr (), d')"
  shows "\<exists>e ovs. (sd_dict e, sd_data e, sd_sets e, sd_overridedata e) = (sd_dict d, sd_data d, sd_sets d, sd_overridedata d) \<and>
    sd_overrides e = Some ovs \<and> sd_overridesset e = ovs \<and> sd_expand_cache e = [] \<and>
    override_list (getVarFlag n py) e = (Inr ovs, d') \<and> sd_overrides d' = Some ovs \<and> sd_overridesset d' = ovs"
proof -
  have "override_rounds (getVarFlag n py) 5 d = (Inr (), d')"
    using assms(3-5) by (simp add: need_overrides_def sbind_def)
  from override_rounds_stable [OF kn.getVarFlag_frame [OF assms(1)] ro.getVarFlag_frame [OF assms(2)] this]
  show ?thesis unfolding untouched_def by blast
qed

lemma need_overrides_stable_witness:
  "\<exists>e ovs. (sd_dict e, sd_data e, sd_sets e, sd_overridedata e) =
      (sd_dict sample, sd_data sample, sd_sets sample, sd_overridedata sample) \<and>
    sd_overrides e = Some ovs \<and> sd_overridesset e = ovs \<and> sd_expand_cache e = [] \<and>
    override_list (getVarFlag 8 no_python) e = (Inr ovs, snd (need_overrides (getVarFlag 8 no_python) sample)) \<and>
    sd_overrides (snd (need_overrides (getVarFlag 8 no_python) sample)) = Some ovs \<and>
    sd_overridesset (snd (need_overrides (getVarFlag 8 no_python) sample)) = ovs"
proof (rule need_overrides_stable)
  show "frames known (py_eval no_python code)" for code by (rule no_python_frame) (rule kn.refl)
  show "frames untouched (py_eval no_python code)" for code by (rule no_python_frame) (rule ro.refl)
  show "sd_overrides sample = None" "\<not> sd_inoverride sample" by code_simp+
  have "fst (need_overrides (getVarFlag 8 no_python) sample) = Inr ()" by code_simp
  then show "need_overrides (getVarFlag 8 no_python) sample = (Inr (), snd (need_overrides (getVarFlag 8 no_python) sample))"
    by (metis prod.collapse)
qed

section \<open>A copy behaves like its original\<close>

text \<open>Two datastores with the same variables, wherever in the chain of parents they are stored.\<close>

definition alike :: "smart \<Rightarrow> smart \<Rightarrow> bool" where
  "alike d e \<longleftrightarrow> (\<forall>v. findVar d v = findVar e v) \<and> sd_sets d = sd_sets e \<and> sd_expand_cache d = sd_expand_cache e \<and>
     sd_overridedata d = sd_overridedata e \<and> sd_overrides d = sd_overrides e \<and> sd_overridesset d = sd_overridesset e \<and>
     sd_overridevars d = sd_overridevars e \<and> sd_inoverride d = sd_inoverride e"

text \<open>An operation that treats them alike.\<close>

definition agrees :: "'a sm \<Rightarrow> bool" where
  "agrees m \<longleftrightarrow> (\<forall>d e. alike d e \<longrightarrow> fst (m d) = fst (m e) \<and> alike (snd (m d)) (snd (m e)))"

named_theorems agrees_intros

lemma agrees_simple [agrees_intros]: "agrees (sret x)" "agrees (sraise e)" "agrees (slift r)"
  by (simp_all add: agrees_def)

lemma agrees_get: "(\<And>d e. alike d e \<Longrightarrow> f d = f e) \<Longrightarrow> agrees (sget f)"
  by (simp add: agrees_def)

lemma agrees_mod: "(\<And>d e. alike d e \<Longrightarrow> alike (f d) (f e)) \<Longrightarrow> agrees (smod f)"
  by (simp add: agrees_def)

lemma agrees_bind [agrees_intros]: "agrees m \<Longrightarrow> (\<And>x. agrees (f x)) \<Longrightarrow> agrees (sbind m f)"
  unfolding agrees_def sbind_cases by (auto split: sum.split)

lemma agrees_fold [agrees_intros]: "(\<And>x s. agrees (f x s)) \<Longrightarrow> agrees (sfold f xs s)"
  by (induction xs arbitrary: s) (auto intro!: agrees_intros simp del: sm_simps)

lemma agrees_wrap [agrees_intros]: "agrees m \<Longrightarrow> agrees (swrap m)"
  unfolding agrees_def swrap_def by (auto split: prod.split sum.split) (metis fst_conv snd_conv sum.inject Inl_Inr_False)+

lemma agrees_choice [agrees_intros]: "agrees m \<Longrightarrow> agrees m' \<Longrightarrow> agrees (if b then m else m')"
  by simp

lemma findVar_upd [simp]:
  "findVar (d\<lparr>sd_expand_cache := c\<rparr>) v = findVar d v"
  "findVar (d\<lparr>sd_sets := s\<rparr>) v = findVar d v"
  "findVar (d\<lparr>sd_overridedata := od\<rparr>) v = findVar d v"
  "findVar (d\<lparr>sd_overrides := o1\<rparr>) v = findVar d v"
  "findVar (d\<lparr>sd_overridesset := os\<rparr>) v = findVar d v"
  "findVar (d\<lparr>sd_overridevars := os\<rparr>) v = findVar d v"
  "findVar (d\<lparr>sd_inoverride := b\<rparr>) v = findVar d v"
  "findVar (clear_cache d) v = findVar d v"
  by (simp_all add: findVar_def clear_cache_def)

lemma alikeD:
  assumes "alike d e"
  shows "findVar d = findVar e" "sd_sets d = sd_sets e" "sd_expand_cache d = sd_expand_cache e"
    "sd_overridedata d = sd_overridedata e" "sd_overrides d = sd_overrides e" "sd_overridesset d = sd_overridesset e"
    "sd_overridevars d = sd_overridevars e" "sd_inoverride d = sd_inoverride e"
  using assms by (auto simp: alike_def)

lemma alike_upd:
  assumes "alike d e"
  shows "alike (d\<lparr>sd_expand_cache := c\<rparr>) (e\<lparr>sd_expand_cache := c\<rparr>)"
    "alike (d\<lparr>sd_overridedata := od\<rparr>) (e\<lparr>sd_overridedata := od\<rparr>)"
    "alike (d\<lparr>sd_sets := s\<rparr>) (e\<lparr>sd_sets := s\<rparr>)"
    "alike (d\<lparr>sd_overridevars := s'\<rparr>) (e\<lparr>sd_overridevars := s'\<rparr>)"
    "alike (d\<lparr>sd_inoverride := b\<rparr>) (e\<lparr>sd_inoverride := b\<rparr>)"
    "alike (set_overrides ovs d) (set_overrides ovs e)" "alike (forget_overrides d) (forget_overrides e)"
    "alike (clear_cache d) (clear_cache e)" "alike (cache_put name vp d) (cache_put name vp e)"
  using assms by (simp_all add: alike_def set_overrides_def forget_overrides_def clear_cache_def cache_put_def)

lemma alike_refl [simp]: "alike d d"
  by (simp add: alike_def)

definition agreeing :: "getter \<Rightarrow> bool" where
  "agreeing get \<longleftrightarrow> (\<forall>v f e n p. agrees (get v f e n p))"

lemma agreeingD: "agreeing get \<Longrightarrow> agrees (get v f e n p)"
  by (simp add: agreeing_def)

lemma agrees_re_sub [agrees_intros]: "(\<And>k vp. agrees (f k vp)) \<Longrightarrow> agrees (re_sub m f s vp)"
  unfolding re_sub_def sub_step_def
  by (intro agrees_bind agrees_fold) (auto split: prod.split option.split sum.split simp del: sm_simps intro!: agrees_intros)

lemma agrees_expand_rounds:
  assumes "agreeing get" "\<And>code. agrees (py_eval py code)"
  shows "agrees (expand_rounds py get varname fuel s vp)"
proof (induction fuel arbitrary: s vp)
  case 0
  show ?case by (subst expand_rounds.simps) (simp add: agrees_simple del: sm_simps)
next
  case (Suc n)
  have v: "agrees (var_sub get varname k vp)" for k vp
    unfolding var_sub_def using agreeingD [OF assms(1)]
    by (auto split: option.split simp del: sm_simps intro!: agrees_intros agrees_get dest: alikeD(3))
  have p: "agrees (python_sub py get varname k vp)" for k vp
    unfolding python_sub_def using agreeingD [OF assms(1)] assms(2)
    by (auto split: pyparse.split simp del: sm_simps intro!: agrees_intros)
  show ?case
    by (subst expand_rounds.simps) (auto simp: Suc v p simp del: sm_simps intro!: agrees_intros split: prod.split)
qed

lemma agrees_expandWithRefs:
  assumes "agreeing get" "\<And>code. agrees (py_eval py code)"
  shows "agrees (expandWithRefs py get fuel s varname)"
  unfolding expandWithRefs_def
  by (auto simp: Let_def alike_upd alikeD(3) simp del: sm_simps split: dval.split option.split prod.split
      intro!: agrees_intros agrees_get agrees_mod agrees_expand_rounds assms)

lemma agrees_need_overrides:
  assumes "agreeing get"
  shows "agrees (need_overrides get)"
proof -
  have list: "agrees (override_list get)"
    unfolding override_list_def using agreeingD [OF assms] by (intro agrees_intros) 
  have "agrees (override_rounds get n)" for n
    by (induction n)
      (auto simp: list alike_upd alikeD simp del: sm_simps intro!: agrees_intros agrees_get agrees_mod)
  then show ?thesis
    unfolding need_overrides_def by (auto simp: alikeD simp del: sm_simps intro!: agrees_intros agrees_get)
qed

lemma agrees_get_flag:
  assumes "agreeing get" "\<And>code. agrees (py_eval py code)"
  shows "agrees (get_flag py get fuel var flag expand noweak parsing)"
proof -
  note get = agreeingD [OF assms(1)] and need = agrees_need_overrides [OF assms(1)]
    and expand = agrees_expandWithRefs [OF assms]
  have find: "agrees (find_override get var)"
    unfolding find_override_def Let_def
    by (auto simp: get need alikeD simp del: sm_simps split: option.split prod.split intro!: agrees_intros agrees_get)
  have op: "agrees (op_stage get add ops val)" for add ops val
    unfolding op_stage_def
    by (auto simp: need alikeD simp del: sm_simps split: option.split intro!: agrees_intros agrees_get)
  have rem: "agrees (remove_stage py get fuel var expand l val)" for l val
    unfolding remove_stage_def remove_step_def Let_def
    by (auto simp: need expand alikeD alike_upd simp del: sm_simps split: option.split
        intro!: agrees_intros agrees_get agrees_mod)
  have plain: "plain_value d l flag noweak val = plain_value e l flag noweak val" if "alike d e" for d e l val
  proof -
    have eq: "copy_val d = copy_val e"
    proof
      show "copy_val d v = copy_val e v" for v using alikeD(2) [OF that] by (cases v) simp_all
    qed
    show ?thesis unfolding plain_value_def eq by (rule refl)
  qed
  show ?thesis
    unfolding get_flag_def Let_def
    by (auto simp: find op rem expand alikeD dest: plain simp del: sm_simps split: option.split prod.split
        intro!: agrees_intros agrees_get)
qed

lemma agrees_getVarFlag:
  assumes "\<And>code. agrees (py_eval py code)"
  shows "agreeing (getVarFlag n py)"
proof (induction n)
  case 0
  show ?case by (simp add: agreeing_def agrees_simple del: sm_simps)
next
  case (Suc n)
  have "agrees (getVarFlag (Suc n) py v f e w p)" for v f e w p
    unfolding getVarFlag.simps by (rule agrees_get_flag [OF Suc.IH assms])
  then show ?case by (simp add: agreeing_def)
qed

text \<open>A write goes to the dictionary of the datastore itself, where the shadow copy has put the variable.\<close>

definition keys_grow :: "smart \<Rightarrow> smart \<Rightarrow> bool" where
  "keys_grow d d' \<longleftrightarrow> set (dkeys (sd_dict d)) \<subseteq> set (dkeys (sd_dict d'))"

interpretation gw: watch_frame keys_grow
  by unfold_locales (auto simp: keys_grow_def)

definition agrees_at :: "string \<Rightarrow> 'a sm \<Rightarrow> bool" where
  "agrees_at var m \<longleftrightarrow> (\<forall>d e. alike d e \<longrightarrow> var \<in> set (dkeys (sd_dict d)) \<longrightarrow> var \<in> set (dkeys (sd_dict e)) \<longrightarrow>
     fst (m d) = fst (m e) \<and> alike (snd (m d)) (snd (m e)))"

lemma agrees_at_agrees: "agrees m \<Longrightarrow> agrees_at var m"
  by (simp add: agrees_def agrees_at_def)

lemma agrees_at_mod:
  "(\<And>d e. alike d e \<Longrightarrow> var \<in> set (dkeys (sd_dict d)) \<Longrightarrow> var \<in> set (dkeys (sd_dict e)) \<Longrightarrow> alike (f d) (f e)) \<Longrightarrow>
    agrees_at var (smod f)"
  by (simp add: agrees_at_def)

lemma agrees_at_bind:
  assumes "agrees_at var m" "frames keys_grow m" "\<And>x. agrees_at var (f x)"
  shows "agrees_at var (sbind m f)"
  unfolding agrees_at_def
proof (intro allI impI)
  fix d e assume de: "alike d e" "var \<in> set (dkeys (sd_dict d))" "var \<in> set (dkeys (sd_dict e))"
  then have m: "fst (m d) = fst (m e)" "alike (snd (m d)) (snd (m e))" using assms(1) by (auto simp: agrees_at_def)
  have "keys_grow d (snd (m d))" "keys_grow e (snd (m e))" using assms(2) by (simp_all add: frames_def)
  then have "var \<in> set (dkeys (sd_dict (snd (m d))))" "var \<in> set (dkeys (sd_dict (snd (m e))))"
    using de by (auto simp: keys_grow_def)
  then have "fst (f x (snd (m d))) = fst (f x (snd (m e))) \<and> alike (snd (f x (snd (m d)))) (snd (f x (snd (m e))))" for x
    using assms(3) m(2) by (auto simp: agrees_at_def)
  then show "fst (sbind m f d) = fst (sbind m f e) \<and> alike (snd (sbind m f d)) (snd (sbind m f e))"
    using m by (simp add: sbind_cases split: sum.split)
qed

lemma local_flags_present: "var \<in> set (dkeys (sd_dict d)) \<Longrightarrow> findVar d var = Some (local_flags d var)"
  by (auto simp: findVar_def local_flags_def dgetd_def elim!: dget_keyE)

lemma alike_local:
  assumes "alike d e" "var \<in> set (dkeys (sd_dict d))" "var \<in> set (dkeys (sd_dict e))"
  shows "local_flags d var = local_flags e var"
  using alikeD(1) [OF assms(1)] local_flags_present [OF assms(2)] local_flags_present [OF assms(3)]
  by (metis option.inject)

lemma alike_dict:
  "alike d e \<Longrightarrow> alike (d\<lparr>sd_dict := dset var fl (sd_dict d)\<rparr>) (e\<lparr>sd_dict := dset var fl (sd_dict e)\<rparr>)"
  by (auto simp: alike_def findVar_def)

lemma alike_flags:
  assumes "alike d e" "var \<in> set (dkeys (sd_dict d))" "var \<in> set (dkeys (sd_dict e))"
  shows "alike (set_flag var flag v d) (set_flag var flag v e)" "alike (del_flag var flag d) (del_flag var flag e)"
  using alike_dict [OF assms(1)] alike_local [OF assms] by (simp_all add: set_flag_def del_flag_def)

lemma del_flag_present: "var \<in> set (dkeys (sd_dict (del_flag var flag d)))"
  by (simp add: del_flag_def)

lemma grow_flags: "keys_grow d (set_flag var flag v d)" "keys_grow d (del_flag var flag d)"
  by (auto simp: keys_grow_def set_flag_def del_flag_def)

lemma shadow_present: "var \<in> set (dkeys (sd_dict (makeShadowCopy var d)))"
  by (auto simp: makeShadowCopy_def initVar_def clear_cache_def Let_def split: option.split)

lemma shadow_view:
  assumes "sd_expand_cache d = []"
  shows "findVar (makeShadowCopy var d) v =
      (if v = var then Some (case findVar d var of None \<Rightarrow> [] | Some fl \<Rightarrow> fl) else findVar d v)"
    "makeShadowCopy var d = d\<lparr>sd_dict := sd_dict (makeShadowCopy var d)\<rparr>"
proof -
  show "makeShadowCopy var d = d\<lparr>sd_dict := sd_dict (makeShadowCopy var d)\<rparr>"
    using assms by (simp add: makeShadowCopy_def initVar_def clear_cache_def Let_def split: option.split)
  show "findVar (makeShadowCopy var d) v =
      (if v = var then Some (case findVar d var of None \<Rightarrow> [] | Some fl \<Rightarrow> fl) else findVar d v)"
  proof (cases "v = var")
    case True
    then show ?thesis using local_flags_present [OF shadow_present] shadow_flags by simp
  next
    case False
    then show ?thesis
      by (auto simp: makeShadowCopy_def initVar_def clear_cache_def findVar_def Let_def split: option.split)
  qed
qed

lemma alike_shadow:
  assumes "alike d e" "sd_expand_cache d = []"
  shows "alike (makeShadowCopy var d) (makeShadowCopy var e)"
proof -
  have e: "sd_expand_cache e = []" using assms alikeD(3) by simp
  have "findVar (makeShadowCopy var d) v = findVar (makeShadowCopy var e) v" for v
    using shadow_view(1) [OF assms(2)] shadow_view(1) [OF e] alikeD(1) [OF assms(1)] by simp
  moreover have "alike d e \<Longrightarrow> (\<forall>v. findVar (d\<lparr>sd_dict := x\<rparr>) v = findVar (e\<lparr>sd_dict := y\<rparr>) v) \<Longrightarrow>
      alike (d\<lparr>sd_dict := x\<rparr>) (e\<lparr>sd_dict := y\<rparr>)" for x y
    by (simp add: alike_def)
  ultimately show ?thesis using assms(1) shadow_view(2) [OF assms(2)] shadow_view(2) [OF e] by metis
qed

text \<open>An operation that starts with a shadow copy on an empty cache.\<close>

lemma shadow_agrees:
  assumes "agrees_at var m" "alike d e" "sd_expand_cache d = []"
  shows "fst (sbind (smod (makeShadowCopy var)) (\<lambda>_. m) d) = fst (sbind (smod (makeShadowCopy var)) (\<lambda>_. m) e) \<and>
    alike (snd (sbind (smod (makeShadowCopy var)) (\<lambda>_. m) d)) (snd (sbind (smod (makeShadowCopy var)) (\<lambda>_. m) e))"
  using assms(1) alike_shadow [OF assms(2,3)] shadow_present by (simp add: sbind_def agrees_at_def)

section \<open>Writes to a copy\<close>

lemma alike_update_overrides:
  assumes "alike d e"
  shows "alike (setvar_update_overrides var d) (setvar_update_overrides var e)"
proof -
  have "alike d e \<Longrightarrow> alike (fold (add_override var) ps d) (fold (add_override var) ps e)" for ps d e
    by (induction ps arbitrary: d e) (simp_all add: add_override_def alike_upd alikeD(4) Let_def)
  then show ?thesis using assms by (simp add: setvar_update_overrides_def)
qed

lemma alike_delVar:
  assumes "alike d e"
  shows "alike (delVar var d) (delVar var e)"
proof -
  have "alike (remove_override var p d) (remove_override var p e)" if "alike d e" for p d e
    using alike_upd(2) [OF that] alikeD(4) [OF that] that by (simp add: remove_override_def split: option.split)
  then have fold: "alike d e \<Longrightarrow> alike (fold (remove_override var) ps d) (fold (remove_override var) ps e)" for ps d e
    by (induction ps arbitrary: d e) simp_all
  have "alike ((clear_cache d)\<lparr>sd_dict := dset var [] (sd_dict d), sd_overridedata := od\<rparr>)
      ((clear_cache e)\<lparr>sd_dict := dset var [] (sd_dict e), sd_overridedata := od\<rparr>)" for od
    using alike_upd(2) [OF alike_dict [OF alike_upd(8) [OF assms]]] by (simp add: clear_cache_def)
  then show ?thesis using fold alikeD(4) [OF assms] by (simp add: delVar_def Let_def clear_cache_def)
qed

lemma alike_fold_delVar: "alike d e \<Longrightarrow> alike (fold delVar vs d) (fold delVar vs e)"
  by (induction vs arbitrary: d e) (simp_all add: alike_delVar)

lemma grow_delVar: "keys_grow d (fold delVar vs d)"
proof (induction vs arbitrary: d)
  case (Cons v vs)
  have "sd_dict (fold (remove_override v) ps e) = sd_dict e" for ps e
    by (induction ps arbitrary: e) (simp_all add: remove_override_def split: option.split)
  then have "keys_grow d (delVar v d)" by (auto simp: keys_grow_def delVar_def Let_def clear_cache_def)
  then show ?case using Cons.IH [of "delVar v d"] gw.trans by auto
qed (simp add: gw.refl)

lemma grow_update_overrides: "keys_grow d (setvar_update_overrides var d)"
  by (simp add: keys_grow_def)

text \<open>From here on Python code in values reads only, and it treats datastores alike.\<close>

definition well_behaved :: "pyenv \<Rightarrow> bool" where
  "well_behaved py \<longleftrightarrow> (\<forall>code. agrees (py_eval py code) \<and> frames untouched (py_eval py code))"

lemma well_behavedD:
  assumes "well_behaved py"
  shows "agrees (py_eval py code)" "frames untouched (py_eval py code)" "frames keys_grow (py_eval py code)"
  using assms by (auto simp: well_behaved_def frames_def untouched_def keys_grow_def)

lemma no_python_behaved: "well_behaved no_python"
  by (simp add: well_behaved_def no_python_def agrees_def frames_def untouched_def)

lemma agrees_update_overridevars:
  assumes "well_behaved py"
  shows "agrees (setvar_update_overridevars n py var value)"
proof -
  note get = agrees_getVarFlag [of py n, OF well_behavedD(1) [OF assms]]
  note expand = agrees_expandWithRefs [OF get well_behavedD(1) [OF assms]]
  have "agrees (watch_rounds n py fuel new)" for fuel new
  proof (induction fuel arbitrary: new)
    case 0
    show ?case
      by (subst watch_rounds.simps) (auto simp: alikeD simp del: sm_simps intro!: agrees_intros agrees_get)
  next
    case (Suc m)
    then show ?case
      by (subst watch_rounds.simps)
        (auto simp: alikeD alike_upd expand getVar_def agreeingD [OF get] simp del: sm_simps
          intro!: agrees_intros agrees_get agrees_mod)
  qed
  then show ?thesis
    unfolding setvar_update_overridevars_def Let_def
    by (auto simp: expand alikeD alike_upd simp del: sm_simps intro!: agrees_intros agrees_mod)
qed

lemma agrees_drop_overrides:
  assumes "well_behaved py"
  shows "agrees (drop_overrides n py var)" "frames keys_grow (drop_overrides n py var)"
proof -
  note get = agrees_getVarFlag [of py n, OF well_behavedD(1) [OF assms]]
  show "agrees (drop_overrides n py var)"
    unfolding drop_overrides_def
    by (auto simp: agrees_need_overrides [OF get] alikeD alike_upd alike_fold_delVar simp del: sm_simps
        intro!: agrees_intros agrees_get agrees_mod)
  show "frames keys_grow (drop_overrides n py var)"
    unfolding drop_overrides_def
    by (auto simp: gw.simple grow_delVar keys_grow_def [of _ "_\<lparr>sd_overridedata := _\<rparr>"] simp del: sm_simps
        intro!: gw.bind gw.mod gw.need_overrides_frame gw.getVarFlag_frame well_behavedD(3) [OF assms])
qed

lemma setVar_plain_agrees:
  assumes py: "well_behaved py" and de: "alike d e" "sd_expand_cache d = []"
  shows "fst (setVar_plain n py parsing var value d) = fst (setVar_plain n py parsing var value e) \<and>
    alike (snd (setVar_plain n py parsing var value d)) (snd (setVar_plain n py parsing var value e))"
  unfolding setVar_plain_def
proof (rule shadow_agrees [OF _ de])
  have last: "agrees (if watched then setvar_update_overridevars n py var value else sret ())" for watched
    by (simp add: agrees_update_overridevars [OF py] agrees_simple del: sm_simps)
  have drop: "agrees (if overridden then drop_overrides n py var else sret ())"
    "frames keys_grow (if overridden then drop_overrides n py var else sret ())" for overridden
    by (simp_all add: agrees_drop_overrides [OF py] agrees_simple gw.simple del: sm_simps)
  have ops: "agrees_at var (smod (if parsing then id else del_flag var ''_prepend'' \<circ> del_flag var ''_append''))"
    by (rule agrees_at_mod) (simp add: alike_flags del_flag_present)
  have ops2: "frames keys_grow (smod (if parsing then id else del_flag var ''_prepend'' \<circ> del_flag var ''_append''))"
    by (rule gw.mod) (auto simp: gw.refl intro: gw.trans grow_flags)
  have upd: "agrees (smod (if uscore \<in> set var then setvar_update_overrides var else id))"
    by (rule agrees_mod) (simp add: alike_update_overrides)
  have upd2: "frames keys_grow (smod (if uscore \<in> set var then setvar_update_overrides var else id))"
    by (rule gw.mod) (simp add: gw.refl grow_update_overrides)
  have set: "agrees_at var (smod (set_flag var ''_content'' value))" "frames keys_grow (smod (set_flag var ''_content'' value))"
    by (auto intro!: agrees_at_mod gw.mod alike_flags grow_flags simp del: sm_simps)
  have gets: "agrees (sget (\<lambda>d. \<not> parsing \<and> var \<in> set (dkeys (sd_overridedata d))))"
    "agrees (sget (\<lambda>d. var \<in> set (sd_overridevars d)))"
    by (auto intro!: agrees_get simp: alikeD)
  show "agrees_at var (sbind (smod (if parsing then id else del_flag var ''_prepend'' \<circ> del_flag var ''_append'')) (\<lambda>_.
     sbind (sget (\<lambda>d. \<not> parsing \<and> var \<in> set (dkeys (sd_overridedata d)))) (\<lambda>overridden.
     sbind (if overridden then drop_overrides n py var else sret ()) (\<lambda>_.
     sbind (smod (if uscore \<in> set var then setvar_update_overrides var else id)) (\<lambda>_.
     sbind (smod (set_flag var ''_content'' value)) (\<lambda>_.
     sbind (sget (\<lambda>d. var \<in> set (sd_overridevars d))) (\<lambda>watched.
       if watched then setvar_update_overridevars n py var value else sret ())))))))"
    by (intro agrees_at_bind ops ops2 drop(2) upd2 set gw.simple agrees_at_agrees gets drop(1) upd agrees_bind last)
qed

lemma agrees_clear:
  assumes "\<And>d e. alike d e \<Longrightarrow> sd_expand_cache d = [] \<Longrightarrow> fst (m d) = fst (m e) \<and> alike (snd (m d)) (snd (m e))"
  shows "agrees (sbind (smod clear_cache) (\<lambda>_. m))"
  using assms alike_upd(8) by (simp add: agrees_def sbind_def clear_cache_def)

lemma alike_write:
  assumes "alike d e"
  shows "alike (set_flag var flag v (makeShadowCopy var (clear_cache d))) (set_flag var flag v (makeShadowCopy var (clear_cache e)))"
  using assms by (intro alike_flags shadow_present alike_shadow alike_upd) (simp_all add: clear_cache_def)

lemma export_name_agrees:
  assumes "alike d e" "sd_expand_cache d = []"
  shows "fst (export_name var d) = fst (export_name var e) \<and> alike (snd (export_name var d)) (snd (export_name var e))"
  unfolding export_name_def
proof (rule shadow_agrees [OF _ assms])
  let ?l = "''__exportlist''" and ?new = "\<lambda>d. if ''_content'' \<in> set (dkeys (local_flags d ''__exportlist'')) then d
                      else set_flag ''__exportlist'' ''_content'' (SetObj (length (sd_sets d)))
                             (d\<lparr>sd_sets := sd_sets d @ [(length (sd_sets d), [])]\<rparr>)"
  have present: "?l \<in> set (dkeys (sd_dict (d\<lparr>sd_sets := s\<rparr>)))" if "?l \<in> set (dkeys (sd_dict d))" for d s using that by simp
  have "agrees_at ?l (smod ?new)"
  proof (rule agrees_at_mod)
    fix d e assume de: "alike d e" "?l \<in> set (dkeys (sd_dict d))" "?l \<in> set (dkeys (sd_dict e))"
    have "alike (set_flag ?l ''_content'' (SetObj (length (sd_sets d))) (d\<lparr>sd_sets := s\<rparr>))
        (set_flag ?l ''_content'' (SetObj (length (sd_sets d))) (e\<lparr>sd_sets := s\<rparr>))" for s
      by (intro alike_flags(1) alike_upd(3) present de)
    then show "alike (?new d) (?new e)" using alike_local [OF de] alikeD(2) [OF de(1)] de(1) by simp
  qed
  moreover have "frames keys_grow (smod ?new)"
    by (rule gw.mod) (auto simp: keys_grow_def set_flag_def)
  moreover have "agrees_at ?l (sbind (sget (\<lambda>d. dget (local_flags d ?l) ''_content'')) (\<lambda>v.
       case v of
         Some (SetObj r) \<Rightarrow> smod (\<lambda>d. d\<lparr>sd_sets := dset r (sadd var (dgetd (sd_sets d) r [])) (sd_sets d)\<rparr>)
       | Some (PySet xs) \<Rightarrow> smod (set_flag ?l ''_content'' (PySet (sadd var xs)))
       | _ \<Rightarrow> sraise AttributeError))"
  proof (rule agrees_at_bind)
    show "agrees_at ?l (sget (\<lambda>d. dget (local_flags d ?l) ''_content''))"
      using alike_local by (auto simp: agrees_at_def)
    show "agrees_at ?l (case v of
         Some (SetObj r) \<Rightarrow> smod (\<lambda>d. d\<lparr>sd_sets := dset r (sadd var (dgetd (sd_sets d) r [])) (sd_sets d)\<rparr>)
       | Some (PySet xs) \<Rightarrow> smod (set_flag ?l ''_content'' (PySet (sadd var xs)))
       | _ \<Rightarrow> sraise AttributeError)" for v
      by (auto simp: agrees_at_agrees [OF agrees_simple(2)] alike_flags alike_upd alikeD(2) simp del: sm_simps
          intro!: agrees_at_mod split: option.split dval.split)
  qed (rule gw.simple)
  ultimately show "agrees_at ?l (sbind (smod ?new) (\<lambda>_.
     sbind (sget (\<lambda>d. dget (local_flags d ?l) ''_content'')) (\<lambda>v.
       case v of
         Some (SetObj r) \<Rightarrow> smod (\<lambda>d. d\<lparr>sd_sets := dset r (sadd var (dgetd (sd_sets d) r [])) (sd_sets d)\<rparr>)
       | Some (PySet xs) \<Rightarrow> smod (set_flag ?l ''_content'' (PySet (sadd var xs)))
       | _ \<Rightarrow> sraise AttributeError)))"
    by (rule agrees_at_bind)
qed

lemma setVarFlag_agrees:
  assumes "well_behaved py"
  shows "agrees (setVarFlag n py var flag value)"
proof (cases "flag = ''unexport'' \<or> flag = ''export''")
  case False
  then show ?thesis
    unfolding setVarFlag_def
    by (auto simp: alike_write alike_update_overrides alikeD agrees_update_overridevars [OF assms] simp del: sm_simps
        intro!: agrees_intros agrees_get agrees_mod)
next
  case True
  then have nd: "flag \<noteq> ''_defaultval''" by auto
  have eq: "setVarFlag n py var flag value d = export_name var (set_flag var flag value (makeShadowCopy var (clear_cache d)))" for d
    using True nd by (simp add: setVarFlag_def sbind_def)
  have "sd_expand_cache (set_flag var flag value (makeShadowCopy var (clear_cache d))) = []" for d
    by (simp add: set_flag_def makeShadowCopy_def initVar_def clear_cache_def Let_def split: option.split)
  then show ?thesis using export_name_agrees [OF alike_write] by (simp add: agrees_def eq)
qed

lemma setVar_agrees:
  assumes "well_behaved py"
  shows "agrees (setVar n py parsing var value)"
  unfolding setVar_def
proof (rule agrees_clear)
  fix d e assume de: "alike d e" "sd_expand_cache d = []"
  note get = agrees_getVarFlag [of py n, OF well_behavedD(1) [OF assms]]
  show "fst ((case setvar_op var of Some (base, keyword, override) \<Rightarrow> setVar_op n py var base keyword override value
       | None \<Rightarrow> setVar_plain n py parsing var value) d) =
     fst ((case setvar_op var of Some (base, keyword, override) \<Rightarrow> setVar_op n py var base keyword override value
       | None \<Rightarrow> setVar_plain n py parsing var value) e) \<and>
    alike (snd ((case setvar_op var of Some (base, keyword, override) \<Rightarrow> setVar_op n py var base keyword override value
       | None \<Rightarrow> setVar_plain n py parsing var value) d))
     (snd ((case setvar_op var of Some (base, keyword, override) \<Rightarrow> setVar_op n py var base keyword override value
       | None \<Rightarrow> setVar_plain n py parsing var value) e))"
  proof (cases "setvar_op var")
    case None
    then show ?thesis using setVar_plain_agrees [OF assms de] by simp
  next
    case (Some p)
    obtain base keyword override where p: "p = (base, keyword, override)" by (cases p)
    have "agrees (setVar_op n py var base keyword override value)"
      unfolding setVar_op_def
      by (auto simp: agreeingD [OF get] setVarFlag_agrees [OF assms] alike_update_overrides alikeD
          agrees_update_overridevars [OF assms] simp del: sm_simps intro!: agrees_intros agrees_get agrees_mod)
    then show ?thesis using de(1) Some p by (simp add: agrees_def)
  qed
qed

lemma renameVar_agrees:
  assumes "well_behaved py"
  shows "agrees (renameVar n py fuel key newkey)"
proof (induction fuel arbitrary: key newkey)
  case 0
  show ?case by (simp add: agrees_simple del: sm_simps)
next
  case (Suc fuel)
  note get = agreeingD [OF agrees_getVarFlag [of py n, OF well_behavedD(1) [OF assms]]]
  have op: "agrees (rename_op n py key newkey i)" for i
    unfolding rename_op_def
    by (auto simp: get setVarFlag_agrees [OF assms] simp del: sm_simps intro!: agrees_intros)
  have ov: "agrees (rename_overrides (renameVar n py fuel) key newkey)"
    unfolding rename_overrides_def rename_override_def Let_def
    by (auto simp: Suc.IH alikeD alike_upd simp del: sm_simps renameVar.simps split: option.split
        intro!: agrees_intros agrees_get agrees_mod)
  show ?case
    unfolding renameVar.simps rename_body_def
    by (auto simp: get op ov setVar_agrees [OF assms] alike_update_overrides alike_delVar simp del: sm_simps sfold.simps
        intro!: agrees_intros agrees_mod)
qed

section \<open>Programs on a datastore\<close>

text \<open>
  The operations of a datastore and what they return.  Left out are \<open>delVarFlags\<close>, for which the statement below
  is false, and iteration, whose order is that of a set.
\<close>

datatype sop =
    GetFlag string string bool bool bool
  | GetFlags string "string list" bool
  | SetVar bool string dval
  | DelVar string
  | SetFlag string string dval
  | SetFlags string flags
  | DelFlag string string
  | AppendFlag string string dval
  | PrependFlag string string dval
  | RenameVar string string

datatype sout = Done | Value dval | Flags "flags option"

fun sop_run :: "nat \<Rightarrow> pyenv \<Rightarrow> sop \<Rightarrow> sout sm" where
  "sop_run n py (GetFlag var flag expand noweak parsing) =
     sbind (getVarFlag n py var flag expand noweak parsing) (\<lambda>v. sret (Value v))"
| "sop_run n py (GetFlags var expand internal) = sbind (getVarFlags n py var expand internal) (\<lambda>fl. sret (Flags fl))"
| "sop_run n py (SetVar parsing var v) = sbind (setVar n py parsing var v) (\<lambda>_. sret Done)"
| "sop_run n py (DelVar var) = sbind (smod (delVar var)) (\<lambda>_. sret Done)"
| "sop_run n py (SetFlag var flag v) = sbind (setVarFlag n py var flag v) (\<lambda>_. sret Done)"
| "sop_run n py (SetFlags var fls) = sbind (smod (setVarFlags var fls)) (\<lambda>_. sret Done)"
| "sop_run n py (DelFlag var flag) = sbind (smod (delVarFlag var flag)) (\<lambda>_. sret Done)"
| "sop_run n py (AppendFlag var flag v) = sbind (appendVarFlag n py var flag v) (\<lambda>_. sret Done)"
| "sop_run n py (PrependFlag var flag v) = sbind (prependVarFlag n py var flag v) (\<lambda>_. sret Done)"
| "sop_run n py (RenameVar key newkey) = sbind (renameVar n py n key newkey) (\<lambda>_. sret Done)"

text \<open>A program goes on after an exception.\<close>

fun run_sops :: "nat \<Rightarrow> pyenv \<Rightarrow> sop list \<Rightarrow> smart \<Rightarrow> sout res list \<times> smart" where
  "run_sops n py [] d = ([], d)"
| "run_sops n py (op # ops) d =
     (case sop_run n py op d of (r, d) \<Rightarrow> (case run_sops n py ops d of (rs, d) \<Rightarrow> (r # rs, d)))"

lemma alike_setVarFlags: "alike d e \<Longrightarrow> alike (setVarFlags var fls d) (setVarFlags var fls e)"
proof -
  assume de: "alike d e"
  let ?f = "\<lambda>(i, v) d. if i = ''_content'' then d else set_flag var i v d"
  have "alike (fold ?f fls d) (fold ?f fls e)"
    if "alike d e" "var \<in> set (dkeys (sd_dict d))" "var \<in> set (dkeys (sd_dict e))" for d e
    using that
  proof (induction fls arbitrary: d e)
    case (Cons p fls)
    obtain i v where p: "p = (i, v)" by (cases p)
    have "alike (?f p d) (?f p e)" "var \<in> set (dkeys (sd_dict (?f p d)))" "var \<in> set (dkeys (sd_dict (?f p e)))"
      unfolding p using Cons.prems alike_flags(1) by (simp_all add: set_flag_def)
    from Cons.IH [OF this] show ?case by simp
  qed simp
  moreover have "alike (makeShadowCopy var (clear_cache d)) (makeShadowCopy var (clear_cache e))"
    using de by (intro alike_shadow alike_upd) (simp_all add: clear_cache_def)
  ultimately show ?thesis unfolding setVarFlags_def by (simp add: shadow_present)
qed

lemma alike_delVarFlag:
  assumes "alike d e"
  shows "alike (delVarFlag var flag d) (delVarFlag var flag e)"
proof -
  have "alike (del_flag var flag (makeShadowCopy var (clear_cache d))) (del_flag var flag (makeShadowCopy var (clear_cache e)))"
    using assms by (intro alike_flags shadow_present alike_shadow alike_upd) (simp_all add: clear_cache_def)
  then show ?thesis
    using alikeD(1) [OF assms] alike_upd(8) [OF assms] by (simp add: delVarFlag_def Let_def split: option.split)
qed

lemma sop_run_agrees:
  assumes "well_behaved py"
  shows "agrees (sop_run n py op)"
proof -
  note get = agrees_getVarFlag [of py n, OF well_behavedD(1) [OF assms]]
  have "agrees (getVarFlags n py var expand internal)" for var expand internal
    unfolding getVarFlags_def expand_str_def
    by (auto simp: alikeD agrees_expandWithRefs [OF get well_behavedD(1) [OF assms]] simp del: sm_simps
        split: prod.split intro!: agrees_intros agrees_get)
  then show ?thesis
    by (cases op) (auto simp: agreeingD [OF get] setVar_agrees [OF assms] setVarFlag_agrees [OF assms]
        renameVar_agrees [OF assms] alike_delVar alike_setVarFlags alike_delVarFlag appendVarFlag_def prependVarFlag_def
        simp del: sm_simps intro!: agrees_intros agrees_mod)
qed

lemma run_sops_agree:
  assumes "well_behaved py"
  shows "alike d e \<Longrightarrow> fst (run_sops n py ops d) = fst (run_sops n py ops e) \<and>
    alike (snd (run_sops n py ops d)) (snd (run_sops n py ops e))"
proof (induction ops arbitrary: d e)
  case (Cons op ops)
  have "fst (sop_run n py op d) = fst (sop_run n py op e)" "alike (snd (sop_run n py op d)) (snd (sop_run n py op e))"
    using sop_run_agrees [OF assms] Cons.prems by (auto simp: agrees_def)
  then show ?case using Cons.IH [of "snd (sop_run n py op d)" "snd (sop_run n py op e)"] by (simp add: case_prod_beta)
qed simp

text \<open>The original, with what reading has left behind forgotten.\<close>

definition rested :: "smart \<Rightarrow> smart" where
  "rested d = d\<lparr>sd_expand_cache := [], sd_overrides := None, sd_overridesset := [], sd_inoverride := False\<rparr>"

lemma copy_alike: "alike (createCopy d) (rested d)"
  by (simp add: alike_def createCopy_def rested_def new_smart_def findVar_def)



section \<open>Copies leave their original alone\<close>

definition same_parents :: "smart \<Rightarrow> smart \<Rightarrow> bool" where
  "same_parents d d' \<longleftrightarrow> sd_data d' = sd_data d \<and> sd_sets d' = sd_sets d"

interpretation sb: write_frame same_parents
  by unfold_locales (auto simp: same_parents_def)

fun exports :: "sop \<Rightarrow> bool" where
  "exports (SetFlag var flag v) = (flag = ''export'' \<or> flag = ''unexport'')"
| "exports (AppendFlag var flag v) = (flag = ''export'' \<or> flag = ''unexport'')"
| "exports (PrependFlag var flag v) = (flag = ''export'' \<or> flag = ''unexport'')"
| "exports op = False"

lemma same_parents_eval: "frames untouched m \<Longrightarrow> frames same_parents m"
  by (simp add: frames_def untouched_def same_parents_def)

lemma setVarFlag_parents:
  assumes "well_behaved py" "\<not> (flag = ''export'' \<or> flag = ''unexport'')"
  shows "frames same_parents (setVarFlag n py var flag value)"
proof -
  have "same_parents d (set_flag var flag value (makeShadowCopy var (clear_cache d)))" for d
    using sb.trans [OF sb.trans [OF sb.scratch_updates(1) sb.writes(3)] sb.writes(1)] by blast
  then show ?thesis
    unfolding setVarFlag_def using assms(2)
    by (auto simp: sb.simple sb.writes sb.refl simp del: sm_simps
        intro!: sb.bind sb.mod sb.setvar_update_overridevars_frame same_parents_eval [OF well_behavedD(2) [OF assms(1)]])
qed

lemma setVar_parents:
  assumes "well_behaved py"
  shows "frames same_parents (setVar n py parsing var value)"
proof -
  note py = same_parents_eval [OF well_behavedD(2) [OF assms]]
  have "same_parents d (fold delVar vs d)" for vs d by (rule sb.fold_frame) (rule sb.writes)
  then have drop: "frames same_parents (drop_overrides n py var)"
    unfolding drop_overrides_def
    by (auto simp: sb.simple sb.overridedata simp del: sm_simps
        intro!: sb.bind sb.mod sb.need_overrides_frame sb.getVarFlag_frame py)
  have del: "same_parents d ((del_flag var f \<circ> del_flag var g) d)" for d f g
    using sb.trans [OF sb.writes(2) sb.writes(2)] by simp
  have plain: "frames same_parents (setVar_plain n py parsing var value)"
    unfolding setVar_plain_def
    by (auto simp: sb.simple sb.writes sb.refl drop del simp del: sm_simps o_apply
        intro!: sb.bind sb.mod sb.setvar_update_overridevars_frame py)
  have "keyword \<in> {''_append'', ''_prepend'', ''_remove''}" if "setvar_op var = Some (base, keyword, o1)" for base keyword o1
  proof -
    have at: "keyword_at s = Some (k, add) \<Longrightarrow> k \<in> {''_append'', ''_prepend'', ''_remove''}" for s k add
      by (auto simp: keyword_at_def split: list.splits if_splits)
    have "split_op b s = Some (base, keyword, o1) \<Longrightarrow> keyword \<in> {''_append'', ''_prepend'', ''_remove''}" for b s
      by (induction b s rule: split_op.induct) (auto dest: at split: option.splits if_splits)
    then show ?thesis using that by (simp add: setvar_op_def)
  qed
  then have "frames same_parents (setVar_op n py var base keyword o1 value)" if "setvar_op var = Some (base, keyword, o1)" for base keyword o1
    unfolding setVar_op_def using that
    by (fastforce simp: sb.simple sb.writes simp del: sm_simps
        intro!: sb.bind sb.mod sb.getVarFlag_frame setVarFlag_parents assms sb.setvar_update_overridevars_frame py)
  then show ?thesis
    unfolding setVar_def using plain
    by (auto simp: sb.scratch_updates simp del: sm_simps intro!: sb.bind sb.mod split: option.split)
qed

lemma renameVar_parents:
  assumes "well_behaved py"
  shows "frames same_parents (renameVar n py fuel key newkey)"
proof (induction fuel arbitrary: key newkey)
  case 0
  show ?case by (simp add: sb.simple del: sm_simps)
next
  case (Suc fuel)
  note gets = sb.getVarFlag_frame [OF same_parents_eval [OF well_behavedD(2) [OF assms]]]
  have op: "frames same_parents (rename_op n py key newkey i)" if "i \<in> set [''_append'', ''_prepend'', ''_remove'']" for i
    unfolding rename_op_def using that
    by (fastforce simp: sb.simple gets simp del: sm_simps intro!: sb.bind setVarFlag_parents assms)
  have ops: "frames same_parents (sfold (\<lambda>i _. rename_op n py key newkey i) [''_append'', ''_prepend'', ''_remove''] ())"
    unfolding sfold.simps by (intro sb.bind op sb.simple) simp_all
  have ov: "frames same_parents (rename_overrides (renameVar n py fuel) key newkey)"
    unfolding rename_overrides_def rename_override_def Let_def
    by (auto simp: sb.simple sb.overridedata Suc.IH simp del: sm_simps renameVar.simps
        intro!: sb.bind sb.mod sb.loop split: option.split)
  show ?case
    unfolding renameVar.simps rename_body_def
    by (auto simp: sb.simple sb.writes sb.refl gets ops ov setVar_parents [OF assms] simp del: sm_simps sfold.simps
        intro!: sb.bind sb.mod)
qed

lemma flags_parents:
  "same_parents d (setVarFlags var fls d)" "same_parents d (delVarFlag var flag d)"
proof -
  have "same_parents d (fold (\<lambda>(i, v) d. if i = ''_content'' then d else set_flag var i v d) fls d)" for d
    by (rule sb.fold_frame) (auto simp: sb.writes sb.refl split: prod.split)
  moreover have shadow: "same_parents d (makeShadowCopy var (clear_cache d))" for d
    using sb.trans [OF sb.scratch_updates(1) sb.writes(3)] by blast
  ultimately show "same_parents d (setVarFlags var fls d)"
    unfolding setVarFlags_def using sb.trans by blast
  show "same_parents d (delVarFlag var flag d)"
    using sb.trans [OF shadow sb.writes(2)] sb.scratch_updates(1)
    by (simp add: delVarFlag_def Let_def split: option.split)
qed

lemma sop_run_parents:
  assumes "well_behaved py" "\<not> exports op"
  shows "frames same_parents (sop_run n py op)"
proof -
  note py = same_parents_eval [OF well_behavedD(2) [OF assms(1)]]
  note gets = sb.getVarFlag_frame [OF py]
  have fls: "frames same_parents (getVarFlags n py var expand internal)" for var expand internal
    unfolding getVarFlags_def expand_str_def
    by (auto simp: sb.simple gets simp del: sm_simps split: prod.split
        intro!: sb.bind sb.loop sb.cond sb.expandWithRefs_frame py)
  show ?thesis
    using assms(2)
    by (cases op) (auto simp: sb.simple sb.writes gets fls flags_parents setVar_parents [OF assms(1)]
        setVarFlag_parents [OF assms(1)] renameVar_parents [OF assms(1)] appendVarFlag_def prependVarFlag_def
        simp del: sm_simps intro!: sb.bind sb.mod)
qed



section \<open>Where the code differs\<close>

text \<open>The set of exported names is shared: a copy that exports a variable exports it in the original.\<close>

lemma export_leaks:
  "sd_sets (snd (run_sops 9 no_python [SetFlag ''X'' ''export'' (Str ''1'')]
      (createCopy (snd (run_sops 9 no_python [SetFlag ''Y'' ''export'' (Str ''1'')] new_smart))))) = [(0, [''Y'', ''X''])]"
  by code_simp

text \<open>Flags that come from the parent survive their deletion when the variable has no value.\<close>

lemma delVarFlags_inherited:
  assumes "dget (sd_dict d) var = None" "find_in (sd_data d) var = Some fl" "dget fl ''_content'' = None"
  shows "findVar (delVarFlags var d) var = Some fl"
proof -
  have "dget m var = None \<Longrightarrow> ddel var (dset var fl m) = m" for m :: "(string, flags) dict"
    by (induction m) (auto split: if_splits)
  then show ?thesis using assms by (auto simp: delVarFlags_def makeShadowCopy_def initVar_def clear_cache_def findVar_def
      local_flags_def dgetd_def Let_def split: option.split)
qed

text \<open>An operation on a variable without an underscore enters it as an override of the name without its last character.\<close>

lemma append_registers_override:
  "sd_overridedata (snd (setVar 9 no_python False ''foo_append'' (Str ''x'') new_smart)) = [(''fo'', [(''foo'', ''foo'')])]"
  by code_simp

text \<open>Renaming a variable replaces its name everywhere in the names that override it, in the override as well.\<close>

lemma rename_replaces_override:
  "dkeys (sd_dict (snd (run_sops 9 no_python [SetVar True ''a_a'' (Str ''x''), RenameVar ''a'' ''b''] new_smart))) =
     [''a_a'', ''b_b'', ''a'']"
  by code_simp

text \<open>
  An exception while the overrides are determined leaves \<open>inoverride\<close> set.  Later \<open>OVERRIDES\<close> can be corrected, but
  the overrides are never determined again and every read of a variable with overrides fails.
\<close>

lemma failed_overrides_stick:
  "fst (run_sops 9 no_python
     [SetVar True ''A_x'' (Str ''2''), SetVar False ''OVERRIDES'' (Str ''${@y}''), GetFlag ''A'' ''_content'' False False False,
      SetVar False ''OVERRIDES'' (Str ''x''), GetFlag ''A'' ''_content'' False False False] new_smart) =
   [Inr Done, Inl ExpansionError, Inl ExpansionError, Inr Done, Inl TypeError]"
  by code_simp

end
