(* ===== verification/DiskMonitor.thy ===== *)
theory DiskMonitor
  imports Prelude
begin

text \<open>
  The disk space monitor, \<open>bitbake/lib/bb/monitordisk.py\<close>: sizes with a unit, the directories to watch,
  and \<open>diskMonitor.check\<close>, which stops the run queue when space or inodes run low.

  What the system says of paths (\<open>realpath\<close>, the mounted device, \<open>statvfs\<close>) is a parameter.  The run
  queue is a type of its own here; the monitor only calls its \<open>finish_runqueue\<close>.

  The main lemmas: a size is at least one and is the number times the unit; for every directory that
  is watched the run queue is stopped at most once, over any number of checks.
\<close>

section \<open>Sizes\<close>

text \<open>\<open>\s?$\<close>: one white space may follow, and \<open>$\<close> also matches before a line feed at the end.\<close>

definition size_end :: "string \<Rightarrow> bool" where
  "size_end s =
     (let t = (if s \<noteq> [] \<and> last s = CHR 0x0A then butlast s else s)
      in s = [] \<or> (length s = 1 \<and> char_ws (hd s)) \<or> t = [] \<or> (length t = 1 \<and> char_ws (hd t)))"

definition convertGMK :: "string \<Rightarrow> int option" where
  "convertGMK unit =
     (let ds = takeWhile char_digit unit; rest = dropWhile char_digit unit; n = int (digits_val 0 ds)
      in if ds = [] \<or> hd ds = CHR ''0'' then None
         else if size_end rest then Some n
         else (case rest of
                 [] \<Rightarrow> None
               | c # cs \<Rightarrow>
                   if \<not> size_end cs then None
                   else if c \<in> set ''gG'' then Some (n * 1024 ^ 3)
                   else if c \<in> set ''mM'' then Some (n * 1024 ^ 2)
                   else if c \<in> set ''kK'' then Some (n * 1024)
                   else None))"

section \<open>The directories to watch\<close>

text \<open>\<open>os.path.join\<close> for a name without slash, \<open>os.path.dirname\<close> and \<open>os.path.basename\<close>.\<close>

definition slash :: char where
  "slash = CHR ''/''"

definition path_join :: "string \<Rightarrow> string \<Rightarrow> string" where
  "path_join path name = (if path = [] \<or> last path = slash then path @ name else path @ [slash] @ name)"

definition path_base :: "string \<Rightarrow> string" where
  "path_base p = rev (takeWhile (\<lambda>c. c \<noteq> slash) (rev p))"

definition path_dir :: "string \<Rightarrow> string" where
  "path_dir p =
     (let head = rev (dropWhile (\<lambda>c. c \<noteq> slash) (rev p))
      in if list_all (\<lambda>c. c = slash) head then head else rstrip_by (\<lambda>c. c = slash) head)"

text \<open>
  An entry is \<open>action,path,space,inodes\<close>, the last part optional.  The result is the device with the two
  limits, \<open>None\<close> for an invalid value.
\<close>

type_synonym limits = "string option \<times> int option \<times> int option"

definition split_entry :: "string \<Rightarrow> (string \<times> string \<times> string \<times> string) option" where
  "split_entry s =
     (let isc = (\<lambda>c. c \<noteq> CHR '','')
      in case dropWhile isc s of
           [] \<Rightarrow> None
         | _ # s1 \<Rightarrow>
             (case dropWhile isc s1 of
                [] \<Rightarrow> None
              | _ # s2 \<Rightarrow> Some (takeWhile isc s, takeWhile isc s1, takeWhile isc s2, tl (dropWhile isc s2))))"

definition size_limit :: "string \<Rightarrow> int option option" where
  "size_limit s = (if s = [] then Some None else map_option Some (convertGMK s))"

definition disk_entry ::
  "(string \<Rightarrow> string) \<Rightarrow> (string \<Rightarrow> string option) \<Rightarrow> string \<Rightarrow> (string \<times> limits) option" where
  "disk_entry realpath getMountedDev s =
     (case split_entry s of
        None \<Rightarrow> None
      | Some (action, dir, space, inodes) \<Rightarrow>
          let path = realpath dir
          in if action \<notin> set [''ABORT'', ''STOPTASKS'', ''WARN''] \<or> path = [] then None
             else (case (size_limit space, size_limit inodes) of
                     (Some minSpace, Some minInode) \<Rightarrow>
                       if minSpace = None \<and> minInode = None then None
                       else Some (path_join path action, getMountedDev path, minSpace, minInode)
                   | _ \<Rightarrow> None))"

fun getDiskData ::
  "(string \<Rightarrow> string) \<Rightarrow> (string \<Rightarrow> string option) \<Rightarrow> string list \<Rightarrow> (string, limits) dict \<Rightarrow>
   (string, limits) dict option" where
  "getDiskData realpath getMountedDev [] devDict = Some devDict"
| "getDiskData realpath getMountedDev (s # ss) devDict =
     (case disk_entry realpath getMountedDev s of
        None \<Rightarrow> None
      | Some (k, limits) \<Rightarrow> getDiskData realpath getMountedDev ss (dset k limits devDict))"

text \<open>\<open>([^,]*),?\s*(.*)\<close> matches every text; \<open>.\<close> does not match a line feed.\<close>

definition split_interval :: "string \<Rightarrow> string \<times> string" where
  "split_interval s =
     (let isc = (\<lambda>c. c \<noteq> CHR '','')
      in (takeWhile isc s, takeWhile (\<lambda>c. c \<noteq> CHR 0x0A) (dropWhile char_ws (tl (dropWhile isc s)))))"

definition space_default :: int where
  "space_default = 50 * 1024 * 1024"

definition inode_default :: int where
  "inode_default = 5 * 1024"

definition getInterval :: "string option \<Rightarrow> (int \<times> int) option" where
  "getInterval interval =
     (case interval of
        None \<Rightarrow> Some (space_default, inode_default)
      | Some [] \<Rightarrow> Some (space_default, inode_default)
      | Some s \<Rightarrow>
          (case split_interval s of (space, inode) \<Rightarrow>
            (case (size_limit space, size_limit inode) of
               (Some sp, Some ino) \<Rightarrow>
                 Some (case sp of None \<Rightarrow> space_default | Some n \<Rightarrow> n, case ino of None \<Rightarrow> inode_default | Some n \<Rightarrow> n)
             | _ \<Rightarrow> None)))"

section \<open>diskMonitor\<close>

record diskmon =
  m_enabled :: bool
  m_dev :: "(string, limits) dict"
  m_space :: int
  m_inode :: int
  m_free_space :: "(string, int) dict"
  m_free_inode :: "(string, int) dict"
  m_checked :: "(string, bool) dict"

definition no_monitor :: diskmon where
  "no_monitor = \<lparr>m_enabled = False, m_dev = [], m_space = 0, m_inode = 0, m_free_space = [], m_free_inode = [], m_checked = []\<rparr>"

definition disk_monitor ::
  "(string \<Rightarrow> string) \<Rightarrow> (string \<Rightarrow> string option) \<Rightarrow> string option \<Rightarrow> string option \<Rightarrow> diskmon" where
  "disk_monitor realpath getMountedDev dirs interval =
     (case dirs of
        None \<Rightarrow> no_monitor
      | Some ds \<Rightarrow>
          (case getDiskData realpath getMountedDev (split_ws ds) [] of
             None \<Rightarrow> no_monitor
           | Some [] \<Rightarrow> no_monitor
           | Some dev \<Rightarrow>
               (case getInterval interval of
                  None \<Rightarrow> no_monitor\<lparr>m_dev := dev\<rparr>
                | Some (space, inode) \<Rightarrow>
                    \<lparr>m_enabled = True, m_dev = dev, m_space = space, m_inode = inode,
                     m_free_space = map (\<lambda>(k, l). (k, 0)) dev, m_free_inode = map (\<lambda>(k, l). (k, 0)) dev,
                     m_checked = map (\<lambda>(k, l). (k, False)) dev\<rparr>)))"

text \<open>\<open>f_bavail * f_frsize\<close>, \<open>f_favail\<close> and \<open>f_files\<close> of a path.\<close>

type_synonym statvfs = "string \<Rightarrow> int \<times> int \<times> int"

text \<open>
  What the monitor has done with the run queue \<open>'r\<close>: the directories for which it called
  \<open>finish_runqueue\<close>, with the argument, and the warnings are logged.
\<close>

datatype diskevent = DiskWarn string bool | DiskFinish string bool

type_synonym 'r watched = "diskmon \<times> diskevent list \<times> 'r"

definition disk_act :: "(bool \<Rightarrow> 'r \<Rightarrow> 'r res) \<Rightarrow> string \<Rightarrow> 'r watched \<Rightarrow> 'r watched res" where
  "disk_act finish k w =
     (case w of (m, log, r) \<Rightarrow>
       rbind (dlookup (m_checked m) k) (\<lambda>checked.
         if path_base k \<in> set [''STOPTASKS'', ''ABORT''] \<and> \<not> checked
         then rbind (finish (path_base k = ''ABORT'') r) (\<lambda>r.
                Inr (m\<lparr>m_checked := dset k True (m_checked m)\<rparr>, log @ [DiskFinish k (path_base k = ''ABORT'')], r))
         else Inr w))"

definition disk_warn ::
  "bool \<Rightarrow> string \<Rightarrow> int \<Rightarrow> 'r watched \<Rightarrow> 'r watched res" where
  "disk_warn inodes k free w =
     (case w of (m, log, r) \<Rightarrow>
       rbind (dlookup (if inodes then m_free_inode m else m_free_space m) k) (\<lambda>pre.
       rbind (dlookup (m_checked m) k) (\<lambda>checked.
         if pre = 0 \<or> pre - free > (if inodes then m_inode m else m_space m) \<and> \<not> checked
         then Inr (if inodes then m\<lparr>m_free_inode := dset k free (m_free_inode m)\<rparr>
                   else m\<lparr>m_free_space := dset k free (m_free_space m)\<rparr>, log @ [DiskWarn k inodes], r)
         else Inr w)))"

definition check_space :: "(bool \<Rightarrow> 'r \<Rightarrow> 'r res) \<Rightarrow> string \<Rightarrow> int option \<Rightarrow> int \<Rightarrow> 'r watched \<Rightarrow> 'r watched res" where
  "check_space finish k minSpace free w =
     (case minSpace of
        None \<Rightarrow> Inr w
      | Some n \<Rightarrow>
          if n \<noteq> 0 \<and> free < n then rbind (disk_warn False k free w) (disk_act finish k) else Inr w)"

definition check_inode ::
  "(bool \<Rightarrow> 'r \<Rightarrow> 'r res) \<Rightarrow> string \<Rightarrow> string option \<Rightarrow> int option \<Rightarrow> int option \<Rightarrow> int \<Rightarrow> int \<Rightarrow> 'r watched \<Rightarrow>
   'r watched res" where
  "check_inode finish k dev minSpace minInode free files w =
     (case minInode of
        None \<Rightarrow> Inr w
      | Some n \<Rightarrow>
          if n \<noteq> 0 \<and> free < n
          then if files = 0 then Inr ((fst w)\<lparr>m_dev := dset k (dev, minSpace, None) (m_dev (fst w))\<rparr>, snd w)
               else rbind (disk_warn True k free w) (disk_act finish k)
          else Inr w)"

definition disk_check_one ::
  "(bool \<Rightarrow> 'r \<Rightarrow> 'r res) \<Rightarrow> statvfs \<Rightarrow> string \<Rightarrow> 'r watched \<Rightarrow> 'r watched res" where
  "disk_check_one finish vfs k w =
     rbind (dlookup (m_dev (fst w)) k) (\<lambda>(dev, minSpace, minInode).
       case vfs (path_dir k) of (freeSpace, freeInode, files) \<Rightarrow>
         rbind (check_space finish k minSpace freeSpace w)
           (check_inode finish k dev minSpace minInode freeInode files))"

definition disk_check :: "(bool \<Rightarrow> 'r \<Rightarrow> 'r res) \<Rightarrow> statvfs \<Rightarrow> 'r watched \<Rightarrow> 'r watched res" where
  "disk_check finish vfs w =
     (if m_enabled (fst w) then rfold (disk_check_one finish vfs) (dkeys (m_dev (fst w))) w else Inr w)"

fun disk_checks :: "(bool \<Rightarrow> 'r \<Rightarrow> 'r res) \<Rightarrow> statvfs list \<Rightarrow> 'r watched \<Rightarrow> 'r watched res" where
  "disk_checks finish [] w = Inr w"
| "disk_checks finish (vfs # rest) w = rbind (disk_check finish vfs w) (disk_checks finish rest)"

section \<open>Stopped at most once\<close>

fun finished_dirs :: "diskevent list \<Rightarrow> string list" where
  "finished_dirs [] = []"
| "finished_dirs (DiskFinish k now # es) = k # finished_dirs es"
| "finished_dirs (DiskWarn k i # es) = finished_dirs es"

lemma finished_append [simp]: "finished_dirs (es @ fs) = finished_dirs es @ finished_dirs fs"
  by (induction es rule: finished_dirs.induct) simp_all

text \<open>The directories the monitor has acted for are exactly those marked as checked.\<close>

definition acted :: "'r watched \<Rightarrow> bool" where
  "acted w \<longleftrightarrow> (case w of (m, log, r) \<Rightarrow>
     distinct (finished_dirs log) \<and> (\<forall>k. k \<in> set (finished_dirs log) \<longleftrightarrow> dget (m_checked m) k = Some True))"

lemma disk_act_acted: "disk_act finish k w = Inr w' \<Longrightarrow> acted w \<Longrightarrow> acted w'"
  by (auto simp: disk_act_def acted_def elim!: rbind_InrE split: prod.splits if_splits)

lemma disk_warn_acted: "disk_warn i k free w = Inr w' \<Longrightarrow> acted w \<Longrightarrow> acted w'"
  by (auto simp: disk_warn_def acted_def elim!: rbind_InrE split: prod.splits if_splits)

lemma check_space_acted: "check_space finish k n free w = Inr w' \<Longrightarrow> acted w \<Longrightarrow> acted w'"
  by (auto simp: check_space_def elim!: rbind_InrE split: option.splits if_splits dest: disk_warn_acted disk_act_acted)

lemma check_inode_acted: "check_inode finish k dev s n free files w = Inr w' \<Longrightarrow> acted w \<Longrightarrow> acted w'"
proof -
  have "acted ((fst w)\<lparr>m_dev := d\<rparr>, snd w) = acted w" for d by (cases w) (simp add: acted_def)
  then show "check_inode finish k dev s n free files w = Inr w' \<Longrightarrow> acted w \<Longrightarrow> acted w'"
    by (auto simp: check_inode_def elim!: rbind_InrE split: option.splits if_splits dest: disk_warn_acted disk_act_acted)
qed

lemma disk_check_one_parts:
  assumes "disk_check_one finish vfs k w = Inr w'"
  obtains dev sp ino fs fi files w1 where "check_space finish k sp fs w = Inr w1"
    "check_inode finish k dev sp ino fi files w1 = Inr w'"
proof -
  obtain dev sp ino where d: "dlookup (m_dev (fst w)) k = Inr (dev, sp, ino)"
    using assms by (auto simp: disk_check_one_def elim!: rbind_InrE)
  obtain fs fi files where v: "vfs (path_dir k) = (fs, fi, files)" by (metis prod_cases3)
  have "rbind (check_space finish k sp fs w) (check_inode finish k dev sp ino fi files) = Inr w'"
    using assms unfolding disk_check_one_def d v by simp
  then show ?thesis by (rule rbind_InrE) (rule that)
qed

lemma disk_check_one_acted:
  assumes "disk_check_one finish vfs k w = Inr w'" "acted w"
  shows "acted w'"
  using assms(1)
proof (rule disk_check_one_parts)
  fix dev sp ino fs fi files w1
  assume "check_space finish k sp fs w = Inr w1" "check_inode finish k dev sp ino fi files w1 = Inr w'"
  then show ?thesis using assms(2) check_space_acted check_inode_acted by metis
qed

lemma disk_check_acted:
  assumes "disk_check finish vfs w = Inr w'" "acted w"
  shows "acted w'"
proof (cases "m_enabled (fst w)")
  case True
  then have r: "rfold (disk_check_one finish vfs) (dkeys (m_dev (fst w))) w = Inr w'" using assms(1) by (simp add: disk_check_def)
  show ?thesis by (rule rfold_inv [OF r, of acted]) (use assms(2) disk_check_one_acted in \<open>blast+\<close>)
next
  case False
  then show ?thesis using assms by (simp add: disk_check_def)
qed

lemma disk_checks_acted: "disk_checks finish vs w = Inr w' \<Longrightarrow> acted w \<Longrightarrow> acted w'"
  by (induction vs arbitrary: w) (auto elim!: rbind_InrE dest: disk_check_acted)

section \<open>What the monitor relies on\<close>

text \<open>Since the log \<open>before\<close> and the queue \<open>r0\<close> nothing was done, or the queue is halted.\<close>

definition fine :: "('r \<Rightarrow> bool) \<Rightarrow> ('r \<Rightarrow> bool) \<Rightarrow> string list \<Rightarrow> 'r \<Rightarrow> 'r watched \<Rightarrow> bool" where
  "fine good halted before r0 w \<longleftrightarrow> (case w of (m, log, r) \<Rightarrow>
     good r \<and> (finished_dirs log = before \<and> r = r0 \<or> length before < length (finished_dirs log) \<and> halted r))"

text \<open>
  A queue that can be watched: \<open>finish_runqueue\<close> keeps its invariant and stops it.  Then a check keeps the
  invariant too, and a check that has acted leaves the queue stopped.
\<close>

locale watched_queue =
  fixes finish :: "bool \<Rightarrow> 'r \<Rightarrow> 'r res"
    and good :: "'r \<Rightarrow> bool"
    and halted :: "'r \<Rightarrow> bool"
  assumes finish_good: "good r \<Longrightarrow> finish now r = Inr r' \<Longrightarrow> good r'"
    and finish_halted: "good r \<Longrightarrow> finish now r = Inr r' \<Longrightarrow> halted r'"
begin

lemma act_fine: "disk_act finish k w = Inr w' \<Longrightarrow> fine good halted before r0 w \<Longrightarrow> fine good halted before r0 w'"
  by (auto simp: disk_act_def fine_def elim!: rbind_InrE split: prod.splits if_splits dest: finish_good finish_halted)

lemma warn_fine: "disk_warn i k free w = Inr w' \<Longrightarrow> fine good halted before r0 w \<Longrightarrow> fine good halted before r0 w'"
  by (auto simp: disk_warn_def fine_def elim!: rbind_InrE split: prod.splits if_splits)

lemma space_fine: "check_space finish k n free w = Inr w' \<Longrightarrow> fine good halted before r0 w \<Longrightarrow> fine good halted before r0 w'"
  by (auto simp: check_space_def elim!: rbind_InrE split: option.splits if_splits dest: warn_fine act_fine)

lemma inode_fine: "check_inode finish k dev s n free files w = Inr w' \<Longrightarrow> fine good halted before r0 w \<Longrightarrow> fine good halted before r0 w'"
proof -
  have "fine good halted before r0 ((fst w)\<lparr>m_dev := d\<rparr>, snd w) = fine good halted before r0 w" for d by (cases w) (simp add: fine_def)
  then show "check_inode finish k dev s n free files w = Inr w' \<Longrightarrow> fine good halted before r0 w \<Longrightarrow> fine good halted before r0 w'"
    by (auto simp: check_inode_def elim!: rbind_InrE split: option.splits if_splits dest: warn_fine act_fine)
qed

lemma one_fine:
  assumes "disk_check_one finish vfs k w = Inr w'" "fine good halted before r0 w"
  shows "fine good halted before r0 w'"
  using assms(1)
proof (rule disk_check_one_parts)
  fix dev sp ino fs fi files w1
  assume "check_space finish k sp fs w = Inr w1" "check_inode finish k dev sp ino fi files w1 = Inr w'"
  then show ?thesis using assms(2) space_fine inode_fine by metis
qed

lemma check_fine:
  assumes "disk_check finish vfs w = Inr w'" "fine good halted before r0 w"
  shows "fine good halted before r0 w'"
proof (cases "m_enabled (fst w)")
  case True
  then have r: "rfold (disk_check_one finish vfs) (dkeys (m_dev (fst w))) w = Inr w'" using assms(1) by (simp add: disk_check_def)
  show ?thesis by (rule rfold_inv [OF r, of "fine good halted before r0"]) (use assms(2) one_fine in \<open>blast+\<close>)
next
  case False
  then show ?thesis using assms by (simp add: disk_check_def)
qed

lemma check_good_halted:
  assumes "disk_check finish vfs (m, log, r) = Inr (m', log', r')" "good r"
  shows "good r'" "if finished_dirs log' = finished_dirs log then r' = r else halted r'"
proof -
  have "fine good halted (finished_dirs log) r (m, log, r)" using assms(2) by (simp add: fine_def)
  then have f: "fine good halted (finished_dirs log) r (m', log', r')" by (rule check_fine [OF assms(1)])
  show "good r'" "if finished_dirs log' = finished_dirs log then r' = r else halted r'"
    using f by (auto simp: fine_def)
qed

end

section \<open>Sizes are positive\<close>

lemma digits_val_ge: "n \<le> digits_val n ds"
  by (induction n ds rule: digits_val.induct) (auto intro: order_trans [rotated])

lemma digits_val_positive:
  assumes "ds \<noteq> []" "hd ds \<noteq> CHR ''0''" "list_all char_digit ds"
  shows "1 \<le> digits_val 0 ds"
proof -
  obtain c cs where ds: "ds = c # cs" using assms(1) by (cases ds) auto
  have "digit_val c \<noteq> 0" using assms(2,3) by (auto simp: ds char_digit_def digit_val_def)
  then show ?thesis using digits_val_ge [of "digit_val c" cs] by (simp add: ds)
qed

lemma convertGMK_shape:
  assumes "convertGMK s = Some n"
  obtains u where "takeWhile char_digit s \<noteq> []" "hd (takeWhile char_digit s) \<noteq> CHR ''0''"
    "n = int (digits_val 0 (takeWhile char_digit s)) * u" "u \<in> {1, 1024, 1024 ^ 2, 1024 ^ 3}"
  using assms by (simp add: convertGMK_def Let_def split: if_splits list.splits) fastforce+

lemma convertGMK_positive:
  assumes "convertGMK s = Some n"
  shows "1 \<le> n"
proof -
  obtain u where u: "takeWhile char_digit s \<noteq> []" "hd (takeWhile char_digit s) \<noteq> CHR ''0''"
    "n = int (digits_val 0 (takeWhile char_digit s)) * u" "u \<in> {1, 1024, 1024 ^ 2, 1024 ^ 3}"
    using assms by (rule convertGMK_shape)
  have "list_all char_digit (takeWhile char_digit s)" by (auto simp: list_all_iff dest: set_takeWhileD)
  then show ?thesis using digits_val_positive [OF u(1,2)] u(3,4) by auto
qed

lemma size_limit_positive: "size_limit s = Some (Some n) \<Longrightarrow> 1 \<le> n"
  by (auto simp: size_limit_def convertGMK_positive split: if_splits)

definition limits_ok :: "limits \<Rightarrow> bool" where
  "limits_ok l \<longleftrightarrow> (case l of (dev, sp, ino) \<Rightarrow>
     (sp \<noteq> None \<or> ino \<noteq> None) \<and> (sp \<noteq> None \<longrightarrow> 1 \<le> the sp) \<and> (ino \<noteq> None \<longrightarrow> 1 \<le> the ino))"

lemma disk_entry_ok: "disk_entry rp md s = Some (k, l) \<Longrightarrow> limits_ok l"
  by (auto simp: disk_entry_def limits_ok_def Let_def dest: size_limit_positive split: option.splits if_splits)

lemma getDiskData_ok:
  assumes "getDiskData rp md ss d = Some d'" "\<And>k l. dget d k = Some l \<Longrightarrow> limits_ok l" "dget d' k = Some l"
  shows "limits_ok l"
  using assms
proof (induction rp md ss d rule: getDiskData.induct)
  case (2 rp md s ss d)
  from 2(2) obtain k' l' where kl: "disk_entry rp md s = Some (k', l')" "getDiskData rp md ss (dset k' l' d) = Some d'"
    by (auto split: option.splits)
  have "limits_ok l0" if "dget (dset k' l' d) k0 = Some l0" for k0 l0
    using that 2(3) disk_entry_ok [OF kl(1)] by (simp split: if_splits)
  from 2(1) [OF kl(1) refl kl(2) this 2(4)] show ?case .
qed simp

lemma getInterval_positive: "getInterval i = Some (sp, ino) \<Longrightarrow> 1 \<le> sp \<and> 1 \<le> ino"
  by (auto simp: getInterval_def space_default_def inode_default_def Let_def dest: size_limit_positive
      split: option.splits list.splits prod.splits)

section \<open>The properties\<close>

text \<open>
  Over any number of checks the monitor stops the run queue at most once for every directory it watches.
\<close>
theorem disk_stops_once:
  assumes "disk_checks finish vs (disk_monitor realpath getMountedDev dirs interval, [], r) = Inr (m, log, r')"
  shows "distinct (finished_dirs log)"
proof -
  have "dget (m_checked (disk_monitor realpath getMountedDev dirs interval)) k \<noteq> Some True" for k
    by (auto simp: disk_monitor_def no_monitor_def split: option.splits list.splits prod.splits dest!: map_of_SomeD)
  then have "acted (disk_monitor realpath getMountedDev dirs interval, [], r)" by (simp add: acted_def)
  from disk_checks_acted [OF assms this] show ?thesis by (simp add: acted_def)
qed

text \<open>
  C30. Every limit and every interval a monitor that is enabled works with is a size of at least one, and
  every directory has a limit of space or of inodes; so the tests \<open>if minSpace\<close> and \<open>if minInode\<close>
  of \<open>check\<close> only skip a limit that was not given.
\<close>
theorem disk_monitor_bounds:
  assumes m: "disk_monitor realpath getMountedDev dirs interval = m" "m_enabled m"
    and k: "dget (m_dev m) k = Some (dev, sp, ino)"
  shows "1 \<le> m_space m \<and> 1 \<le> m_inode m \<and> (sp \<noteq> None \<or> ino \<noteq> None)
    \<and> (sp \<noteq> None \<longrightarrow> 1 \<le> the sp) \<and> (ino \<noteq> None \<longrightarrow> 1 \<le> the ino)"
proof -
  obtain ds d space inode where d: "getDiskData realpath getMountedDev ds [] = Some d" "m_dev m = d"
    and i: "getInterval interval = Some (space, inode)" "m_space m = space" "m_inode m = inode"
    using m by (auto simp: disk_monitor_def no_monitor_def split: option.splits list.splits prod.splits)
  have "limits_ok (dev, sp, ino)" using getDiskData_ok [OF d(1)] k d(2) by simp
  then show ?thesis using getInterval_positive [OF i(1)] i(2,3) by (simp add: limits_ok_def)
qed

text \<open>A monitor of one directory, with a limit of one gigabyte and of one thousand inodes.\<close>

definition example_monitor :: diskmon where
  "example_monitor = disk_monitor id (\<lambda>p. Some ''dev'') (Some ''STOPTASKS,/tmp,1G,1K'') None"

lemma disk_monitor_bounds_witness:
  "1 \<le> m_space example_monitor \<and> (1::int) \<le> the (Some (1024 ^ 3))"
proof -
  have e: "m_enabled example_monitor"
    "dget (m_dev example_monitor) ''/tmp/STOPTASKS'' = Some (Some ''dev'', Some (1024 ^ 3), Some 1024)"
    by code_simp+
  from disk_monitor_bounds [OF example_monitor_def [symmetric] e] show ?thesis by simp
qed

definition example_disk_run :: "nat watched res" where
  "example_disk_run = disk_checks (\<lambda>now r. Inr (Suc r)) [\<lambda>p. (0, 2000, 1), \<lambda>p. (1, 5, 1)]
     (disk_monitor id (\<lambda>p. Some ''dev'') (Some ''STOPTASKS,/tmp,1G,1K'') None, [], 0)"

definition example_disk_log :: "diskevent list" where
  "example_disk_log = [DiskWarn ''/tmp/STOPTASKS'' False, DiskFinish ''/tmp/STOPTASKS'' False,
     DiskWarn ''/tmp/STOPTASKS'' False, DiskWarn ''/tmp/STOPTASKS'' True]"

lemma disk_stops_once_witness: "distinct (finished_dirs example_disk_log)"
proof -
  have log: "(case example_disk_run of Inl e \<Rightarrow> None | Inr w \<Rightarrow> Some (fst (snd w))) = Some example_disk_log" by code_simp
  obtain m log r where w: "example_disk_run = Inr (m, log, r)" using log by (auto split: sum.splits)
  then have "example_disk_run = Inr (m, example_disk_log, r)" using log unfolding w by simp
  from disk_stops_once [OF this [unfolded example_disk_run_def]] show ?thesis .
qed

end
