(* ===== verification/Scheduler.thy ===== *)
theory Scheduler
  imports Stamps "HOL-Library.Multiset"
begin

text \<open>
  \<open>RunQueueScheduler\<close>, \<open>RunQueueSchedulerSpeed\<close> and \<open>RunQueueSchedulerCompletion\<close> of
  \<open>bitbake/lib/bb/runqueue.py\<close>.  The three share \<open>next_buildable_task\<close> and differ in the priority map.
  The locale \<open>priority_map\<close> states what the shared code needs of the map; the speed and completion
  schedulers are its interpretations.  The basic scheduler is none: its map is a list whose only member is
  the view of all keys, and looking up the position of a task in it raises \<open>ValueError\<close>.
\<close>

section \<open>Priority maps\<close>

definition collate_weights :: "'t graph \<Rightarrow> (int, 't list) dict" where
  "collate_weights g = fold (\<lambda>(tid, e) weights. dappend (rt_weight e) tid weights) g []"

definition speed_prio :: "'t graph \<Rightarrow> 't list" where
  "speed_prio g =
     (let weights = collate_weights g
      in rev (concat (map (\<lambda>weight. dgetd weights weight []) (py_sorted (dkeys weights)))))"

text \<open>The entries of \<open>basemap\<close> are distinct, so deleting by their first positions is filtering.\<close>

function completion_order :: "string list \<Rightarrow> string list" where
  "completion_order [] = []"
| "completion_order (entry # basemap) =
     entry # filter (\<lambda>e. fn_from_tid e = fn_from_tid entry) basemap @
     completion_order (filter (\<lambda>e. fn_from_tid e \<noteq> fn_from_tid entry) basemap)"
  by pat_completeness auto
termination
  by (relation "measure length") (auto simp: less_Suc_eq_le)

datatype scheduler = Basic | Speed | Completion

text \<open>The priority map; \<open>None\<close> stands for the view of the keys, which is no task.\<close>

definition prio_map :: "scheduler \<Rightarrow> string graph \<Rightarrow> string option list" where
  "prio_map kind g =
     (case kind of
        Basic \<Rightarrow> [None]
      | Speed \<Rightarrow> map Some (speed_prio g)
      | Completion \<Rightarrow> map Some (completion_order (speed_prio g)))"

fun index_of :: "'a option list \<Rightarrow> 'a \<Rightarrow> nat res" where
  "index_of [] x = Inl ValueError"
| "index_of (y # ys) x = (if y = Some x then Inr 0 else rbind (index_of ys x) (\<lambda>i. Inr (Suc i)))"

section \<open>Choosing the next task\<close>

record ('t, 's) sched =
  sc_buildable :: "'t list"
  sc_stamps :: "('t, 's) dict"
  sc_prio :: "'t option list"
  sc_rev :: "('t, nat) dict"

definition sched_init :: "scheduler \<Rightarrow> string graph \<Rightarrow> (string, 's) dict \<Rightarrow> string list \<Rightarrow> (string, 's) sched" where
  "sched_init kind g stamps buildable =
     \<lparr>sc_buildable = filter (\<lambda>tid. tid \<in> set buildable) (dkeys g), sc_stamps = stamps, sc_prio = prio_map kind g, sc_rev = []\<rparr>"

definition newbuilable :: "'t \<Rightarrow> ('t, 's) sched \<Rightarrow> ('t, 's) sched" where
  "newbuilable task s = s\<lparr>sc_buildable := sc_buildable s @ [task]\<rparr>"

text \<open>\<open>rev_prio_map\<close> is computed when it is first needed; \<open>[]\<close> stands for its initial \<open>None\<close>.\<close>

definition rev_prio :: "'t list \<Rightarrow> ('t, 's) sched \<Rightarrow> ('t, nat) dict res" where
  "rev_prio tids s =
     (if sc_rev s \<noteq> [] then Inr (sc_rev s)
      else rfold (\<lambda>tid m. rbind (index_of (sc_prio s) tid) (\<lambda>i. Inr (dset tid i m))) tids [])"

definition best_step ::
  "('t, nat) dict \<Rightarrow> ('t, 's) dict \<Rightarrow> 's list \<Rightarrow> 't \<Rightarrow> ('t \<times> nat) option \<Rightarrow> ('t \<times> nat) option res" where
  "best_step revmap stamps in_use tid best =
     rbind (dlookup revmap tid) (\<lambda>prio.
       if (case best of None \<Rightarrow> True | Some (_, bestprio) \<Rightarrow> bestprio > prio)
       then rbind (dlookup stamps tid) (\<lambda>stamp. Inr (if stamp \<in> set in_use then best else Some (tid, prio)))
       else Inr best)"

definition waiting :: "'t list \<Rightarrow> ('t, 's) sched \<Rightarrow> 't list" where
  "waiting running s = filter (\<lambda>x. x \<notin> set running) (sc_buildable s)"

definition next_buildable_task ::
  "'t list \<Rightarrow> 't list \<Rightarrow> 's list \<Rightarrow> ('t, 's) sched \<Rightarrow> ('t option \<times> ('t, 's) sched) res" where
  "next_buildable_task tids running in_use s =
     (let b = waiting running s; s = s\<lparr>sc_buildable := b\<rparr>
      in if b = [] then Inr (None, s)
         else rbind (if length b = 1 then rbind (dlookup (sc_stamps s) (hd b)) (\<lambda>stamp. Inr (stamp \<notin> set in_use))
                     else Inr False) (\<lambda>sole.
              if sole then Inr (Some (hd b), s)
              else rbind (rev_prio tids s) (\<lambda>revmap.
                   rbind (rfold (best_step revmap (sc_stamps s) in_use) b None) (\<lambda>best.
                     Inr (map_option fst best, s\<lparr>sc_rev := revmap\<rparr>)))))"

definition sched_next ::
  "'t list \<Rightarrow> int \<Rightarrow> int \<Rightarrow> 't list \<Rightarrow> 's list \<Rightarrow> ('t, 's) sched \<Rightarrow> ('t option \<times> ('t, 's) sched) res" where
  "sched_next tids active number_tasks running in_use s =
     (if active < number_tasks then next_buildable_task tids running in_use s else Inr (None, s))"

section \<open>What the shared code does on a good map\<close>

definition sched_wf :: "'t list \<Rightarrow> 't list \<Rightarrow> ('t, 's) sched \<Rightarrow> bool" where
  "sched_wf tids prio s \<longleftrightarrow>
     set (sc_buildable s) \<subseteq> set tids \<and> set tids \<subseteq> set (dkeys (sc_stamps s)) \<and> sc_prio s = map Some prio \<and>
     (sc_rev s \<noteq> [] \<longrightarrow> (\<forall>t \<in> set tids. \<exists>i. dget (sc_rev s) t = Some i \<and> index_of (map Some prio) t = Inr i))"

locale priority_map =
  fixes tids :: "'t list" and prio :: "'t list"
  assumes prio_set: "set prio = set tids"
begin

definition pos :: "'t \<Rightarrow> nat" where
  "pos t = length (takeWhile (\<lambda>u. u \<noteq> t) prio)"

lemma index_pos: "t \<in> set tids \<Longrightarrow> index_of (map Some prio) t = Inr (pos t)"
proof -
  have "t \<in> set xs \<Longrightarrow> index_of (map Some xs) t = Inr (length (takeWhile (\<lambda>u. u \<noteq> t) xs))" for xs
    by (induction xs) auto
  then show "t \<in> set tids \<Longrightarrow> index_of (map Some prio) t = Inr (pos t)" using prio_set by (simp add: pos_def)
qed

lemma rev_prio_pos:
  assumes "sched_wf tids prio s"
  obtains m where "rev_prio tids s = Inr m" "\<And>t. t \<in> set tids \<Longrightarrow> dget m t = Some (pos t)"
proof (cases "sc_rev s = []")
  case False
  then show ?thesis using that [of "sc_rev s"] assms index_pos by (fastforce simp: rev_prio_def sched_wf_def)
next
  case True
  let ?f = "\<lambda>tid m. rbind (index_of (sc_prio s) tid) (\<lambda>i. Inr (dset tid i m))"
  have "set ts \<subseteq> set tids \<Longrightarrow>
      \<exists>m'. rfold ?f ts m = Inr m' \<and> (\<forall>t. dget m' t = (if t \<in> set ts then Some (pos t) else dget m t))" for ts m
  proof (induction ts arbitrary: m)
    case Nil
    then show ?case by simp
  next
    case (Cons t ts)
    have "?f t m = Inr (dset t (pos t) m)" using Cons.prems assms index_pos by (simp add: sched_wf_def)
    then show ?case using Cons.IH [of "dset t (pos t) m"] Cons.prems by auto
  qed
  from this [of tids "[]"] show ?thesis using that True by (auto simp: rev_prio_def)
qed

text \<open>The best of the tasks seen, among those whose stamp is free.\<close>

definition best_of :: "('t \<Rightarrow> bool) \<Rightarrow> 't set \<Rightarrow> 't option \<Rightarrow> bool" where
  "best_of free S best \<longleftrightarrow>
     (case best of
        None \<Rightarrow> \<forall>t \<in> S. \<not> free t
      | Some b \<Rightarrow> b \<in> S \<and> free b \<and> (\<forall>t \<in> S. free t \<longrightarrow> pos b \<le> pos t))"

lemma best_fold:
  assumes "\<And>t. t \<in> set tids \<Longrightarrow> dget m t = Some (pos t)" "set tids \<subseteq> set (dkeys stamps)"
    and "set ts \<subseteq> set tids" "best_of (\<lambda>t. the (dget stamps t) \<notin> set in_use) S (map_option fst best)"
    "\<And>b i. best = Some (b, i) \<Longrightarrow> i = pos b"
  shows "\<exists>best'. rfold (best_step m stamps in_use) ts best = Inr best' \<and>
    best_of (\<lambda>t. the (dget stamps t) \<notin> set in_use) (S \<union> set ts) (map_option fst best')"
  using assms(3-5)
proof (induction ts arbitrary: S best)
  case Nil
  then show ?case by auto
next
  case (Cons t ts)
  let ?free = "\<lambda>t. the (dget stamps t) \<notin> set in_use"
  have t: "dget m t = Some (pos t)" using Cons.prems(1) assms(1) by simp
  obtain st where st: "dget stamps t = Some st" using Cons.prems(1) assms(2) by (meson dget_keyE list.set_intros(1) subsetD)
  obtain best1 where b: "best_step m stamps in_use t best = Inr best1"
    "best_of ?free (insert t S) (map_option fst best1)" "\<And>b i. best1 = Some (b, i) \<Longrightarrow> i = pos b"
    using Cons.prems(2,3) t st
    by (cases best) (fastforce simp: best_step_def best_of_def dlookup_def split: if_splits)+
  have "set ts \<subseteq> set tids" using Cons.prems(1) by simp
  from Cons.IH [OF this b(2,3)] show ?case using b(1) by simp
qed

lemma next_spec:
  assumes "sched_wf tids prio s"
  shows "\<exists>best s'. next_buildable_task tids running in_use s = Inr (best, s') \<and> sched_wf tids prio s' \<and>
    sc_buildable s' = waiting running s \<and> sc_stamps s' = sc_stamps s \<and>
    best_of (\<lambda>t. the (dget (sc_stamps s) t) \<notin> set in_use) (set (waiting running s)) best"
proof -
  define b where "b = waiting running s"
  let ?s = "s\<lparr>sc_buildable := b\<rparr>"
  have wf: "sched_wf tids prio ?s" using assms(1) by (auto simp: sched_wf_def b_def waiting_def)
  have sub: "set b \<subseteq> set tids" using wf by (auto simp: sched_wf_def)
  have stamps: "set tids \<subseteq> set (dkeys (sc_stamps s))" using assms(1) by (auto simp: sched_wf_def)
  obtain m where m: "rev_prio tids ?s = Inr m" "\<And>t. t \<in> set tids \<Longrightarrow> dget m t = Some (pos t)"
    by (rule rev_prio_pos [OF wf]) blast
  obtain best where best: "rfold (best_step m (sc_stamps s) in_use) b None = Inr best"
    "best_of (\<lambda>t. the (dget (sc_stamps s) t) \<notin> set in_use) (set b) (map_option fst best)"
    using best_fold [OF m(2) stamps sub, where S = "{}" and best = None and in_use = in_use]
    by (auto simp: best_of_def [of _ "{}"])
  have wf': "sched_wf tids prio (?s\<lparr>sc_rev := m\<rparr>)" using wf m(2) index_pos by (auto simp: sched_wf_def)
  show ?thesis
  proof (cases "length b = 1")
    case True
    then obtain t where t: "b = [t]" by (auto simp: length_Suc_conv)
    obtain st where st: "dget (sc_stamps s) t = Some st"
      using sub stamps t by (meson dget_keyE list.set_intros(1) subsetD)
    show ?thesis
    proof (cases "st \<in> set in_use")
      case True
      then show ?thesis using t st m(1) best wf'
        by (auto simp: next_buildable_task_def Let_def b_def [symmetric] dlookup_def simp del: rfold.simps)
    next
      case False
      then show ?thesis using t st wf
        by (auto simp: next_buildable_task_def Let_def b_def [symmetric] dlookup_def best_of_def)
    qed
  next
    case False
    then show ?thesis using m(1) best wf wf'
      by (cases b) (auto simp: next_buildable_task_def Let_def b_def [symmetric] best_of_def simp del: rfold.simps)
  qed
qed

end

section \<open>The two good maps\<close>

lemma dgetd_dappend: "dgetd (dappend k v d) k' [] = dgetd d k' [] @ (if k' = k then [v] else [])"
  by (simp add: dappend_def)

lemma collate_weights_spec:
  "dgetd (collate_weights g) w [] = map fst (filter (\<lambda>(t, e). rt_weight e = w) g)"
  "set (dkeys (collate_weights g)) = rt_weight ` snd ` set g" "distinct (dkeys (collate_weights g))"
proof -
  let ?f = "\<lambda>(tid, e) weights. dappend (rt_weight e) tid weights"
  have "dgetd (fold ?f g d) w [] = dgetd d w [] @ map fst (filter (\<lambda>(t, e). rt_weight e = w) g) \<and>
      set (dkeys (fold ?f g d)) = set (dkeys d) \<union> rt_weight ` snd ` set g \<and> (dwf d \<longrightarrow> dwf (fold ?f g d))" for d
    by (induction g arbitrary: d) (auto simp: dgetd_dappend dappend_def)
  from this [of "[]"] show "dgetd (collate_weights g) w [] = map fst (filter (\<lambda>(t, e). rt_weight e = w) g)"
    "set (dkeys (collate_weights g)) = rt_weight ` snd ` set g" "distinct (dkeys (collate_weights g))"
    by (simp_all add: collate_weights_def dwf_def dgetd_def)
qed

lemma mset_by_key:
  "distinct ks \<Longrightarrow> f ` set xs \<subseteq> set ks \<Longrightarrow> mset (concat (map (\<lambda>k. filter (\<lambda>x. f x = k) xs) ks)) = mset xs"
proof (induction ks arbitrary: xs)
  case Nil
  then show ?case by simp
next
  case (Cons k ks)
  let ?ys = "filter (\<lambda>x. f x \<noteq> k) xs"
  have "filter (\<lambda>x. f x = j) ?ys = filter (\<lambda>x. f x = j) xs" if "j \<in> set ks" for j
    using that Cons.prems(1) by (auto intro!: filter_cong)
  then have "concat (map (\<lambda>j. filter (\<lambda>x. f x = j) ?ys) ks) = concat (map (\<lambda>j. filter (\<lambda>x. f x = j) xs) ks)"
    by (metis (no_types, lifting) map_eq_conv)
  moreover have "mset (concat (map (\<lambda>j. filter (\<lambda>x. f x = j) ?ys) ks)) = mset ?ys"
    by (rule Cons.IH) (use Cons.prems in auto)
  ultimately show ?case by (simp add: multiset_partition [of "mset xs" "\<lambda>x. f x = k", symmetric] union_commute)
qed

lemma speed_prio_mset: "mset (speed_prio g) = mset (dkeys g)"
proof -
  let ?ks = "py_sorted (dkeys (collate_weights g))"
  have "mset (concat (map (\<lambda>w. filter (\<lambda>p. rt_weight (snd p) = w) g) ?ks)) = mset g"
    by (rule mset_by_key) (auto simp: py_sorted_def collate_weights_spec)
  then have "mset (map fst (concat (map (\<lambda>w. filter (\<lambda>p. rt_weight (snd p) = w) g) ?ks))) = mset (map fst g)"
    by simp
  then show ?thesis
    by (simp add: speed_prio_def Let_def collate_weights_spec(1) dkeys_def map_concat comp_def case_prod_unfold)
qed

lemma completion_order_mset: "mset (completion_order xs) = mset xs"
proof (induction xs rule: completion_order.induct)
  case (2 entry basemap)
  have "mset basemap = mset (filter (\<lambda>e. fn_from_tid e = fn_from_tid entry) basemap) +
      mset (filter (\<lambda>e. fn_from_tid e \<noteq> fn_from_tid entry) basemap)"
    by (simp add: multiset_partition [symmetric])
  then show ?case using 2 by simp
qed simp

interpretation speed: priority_map "dkeys g" "speed_prio g" for g :: "string graph"
  by unfold_locales (metis mset_eq_setD speed_prio_mset)

interpretation completion: priority_map "dkeys g" "completion_order (speed_prio g)" for g :: "string graph"
  by unfold_locales (metis mset_eq_setD speed_prio_mset completion_order_mset)

lemma sched_init_wf:
  assumes "dkeys stamps = dkeys g"
  shows "sched_wf (dkeys g) (speed_prio g) (sched_init Speed g stamps b)"
    "sched_wf (dkeys g) (completion_order (speed_prio g)) (sched_init Completion g stamps b)"
  using assms by (auto simp: sched_wf_def sched_init_def prio_map_def)

section \<open>Properties\<close>

text \<open>
  The priority map of the speed scheduler lists every task once, heavier tasks before lighter ones.
\<close>
theorem speed_prio_order:
  assumes "dwf g"
  shows "mset (speed_prio g) = mset (dkeys g) \<and> sorted_wrt (\<lambda>t u. rweight g u \<le> rweight g t) (speed_prio g)"
proof -
  have "sorted_wrt (\<lambda>t u. rweight g t \<le> rweight g u) (concat (map (\<lambda>w. map fst (filter (\<lambda>(t, e). rt_weight e = w) g)) ws))"
    if "sorted ws" for ws
  proof -
    have w: "rweight g t = w" if "t \<in> set (map fst (filter (\<lambda>(t, e). rt_weight e = w) g))" for t w
      using that dwf_dget [OF assms] by (auto simp: rweight_def)
    show ?thesis
      using that
    proof (induction ws)
      case Nil
      then show ?case by simp
    next
      case (Cons w ws)
      have "sorted_wrt (\<lambda>t u. rweight g t \<le> rweight g u) ts" if "\<forall>t \<in> set ts. rweight g t = w" for ts
        using that by (induction ts) auto
      then have "sorted_wrt (\<lambda>t u. rweight g t \<le> rweight g u) (map fst (filter (\<lambda>(t, e). rt_weight e = w) g))"
        using w by blast
      moreover have "rweight g t \<le> rweight g u"
        if t: "t \<in> set (map fst (filter (\<lambda>(t, e). rt_weight e = w) g))"
          and u: "u \<in> set (concat (map (\<lambda>w. map fst (filter (\<lambda>(t, e). rt_weight e = w) g)) ws))" for t u
      proof -
        obtain v where "v \<in> set ws" "u \<in> set (map fst (filter (\<lambda>(t, e). rt_weight e = v) g))" using u by auto
        then show ?thesis using w [OF t] w [of u v] Cons.prems by simp
      qed
      ultimately show ?case using Cons by (simp add: sorted_wrt_append)
    qed
  qed
  then have "sorted_wrt (\<lambda>t u. rweight g u \<le> rweight g t) (speed_prio g)"
    by (simp add: speed_prio_def Let_def collate_weights_spec(1) sorted_wrt_rev py_sorted_def)
  then show ?thesis using speed_prio_mset by blast
qed

lemma speed_prio_order_witness:
  "speed_prio example_graph = [''a.bb:x'', ''a.bb:y''] \<and>
   sorted_wrt (\<lambda>t u. rweight example_graph u \<le> rweight example_graph t) [''a.bb:x'', ''a.bb:y'']"
proof -
  have p: "speed_prio example_graph = [''a.bb:x'', ''a.bb:y'']" by code_simp
  have "dwf example_graph" using example_graph_ok(1) by (simp add: graph_wf_def)
  from speed_prio_order [OF this] show ?thesis unfolding p by blast
qed

text \<open>
  The completion scheduler keeps the tasks of a file together: between two tasks of the same file its
  priority map has only tasks of that file.  The map still lists every task of the speed scheduler once.
\<close>
theorem completion_order_groups:
  "mset (completion_order prio) = mset prio \<and>
   (\<forall>xs a ys b zs. completion_order prio = xs @ a # ys @ b # zs \<longrightarrow> fn_from_tid a = fn_from_tid b \<longrightarrow>
      (\<forall>y \<in> set ys. fn_from_tid y = fn_from_tid a))"
proof -
  have "completion_order prio = xs @ a # ys @ b # zs \<Longrightarrow> fn_from_tid a = fn_from_tid b \<Longrightarrow>
      \<forall>y \<in> set ys. fn_from_tid y = fn_from_tid a" for xs a ys b zs
  proof (induction prio arbitrary: xs rule: completion_order.induct)
    case 1
    then show ?case by simp
  next
    case (2 entry basemap)
    define same where "same = entry # filter (\<lambda>e. fn_from_tid e = fn_from_tid entry) basemap"
    define rest where "rest = completion_order (filter (\<lambda>e. fn_from_tid e \<noteq> fn_from_tid entry) basemap)"
    have in_rest: "fn_from_tid e \<noteq> fn_from_tid entry" if "e \<in> set rest" for e
      using that mset_eq_setD [OF completion_order_mset] unfolding rest_def by fastforce
    have in_same: "fn_from_tid e = fn_from_tid entry" if "e \<in> set same" for e
      using that by (auto simp: same_def)
    have split: "same @ rest = xs @ (a # ys @ b # zs)" using 2(2) by (simp add: same_def rest_def)
    show ?case
    proof (cases "length same \<le> length xs")
      case True
      then have "rest = drop (length same) xs @ a # ys @ b # zs"
        using split by (simp add: append_eq_append_conv_if)
      then show ?thesis using 2(1) 2(3) unfolding rest_def by blast
    next
      case False
      define us where "us = drop (length xs) same"
      have us: "set us \<subseteq> set same" "us \<noteq> []" "us @ rest = a # ys @ b # zs"
        using split False by (auto simp: us_def append_eq_append_conv_if set_drop_subset dest: in_set_dropD)
      then obtain us' where u: "us = a # us'" "us' @ rest = ys @ b # zs" by (cases us) auto
      have same: "fn_from_tid e = fn_from_tid a" if "e \<in> set us'" for e
        using that us(1) u(1) in_same by auto
      have "b \<notin> set rest" using in_rest in_same [of a] us(1) u(1) 2(3) by fastforce
      have "length ys < length us'"
      proof (rule ccontr)
        assume "\<not> length ys < length us'"
        then have "rest = drop (length us') ys @ b # zs" using u(2) by (simp add: append_eq_append_conv_if)
        then show False using \<open>b \<notin> set rest\<close> by simp
      qed
      then have "ys = take (length ys) us'" using u(2) by (simp add: append_eq_append_conv_if split: if_splits)
      then show ?thesis using same by (metis in_set_takeD)
    qed
  qed
  then show ?thesis using completion_order_mset by blast
qed

text \<open>
  With the basic scheduler the choice between two or more waiting tasks always raises \<open>ValueError\<close>:
  its priority map is a list that holds the view of all the keys as its only element.
\<close>
theorem basic_scheduler_raises:
  assumes "2 \<le> length (waiting running s)" "sc_prio s = prio_map Basic g" "sc_rev s = []" "tids \<noteq> []"
  shows "next_buildable_task tids running in_use s = Inl ValueError"
proof -
  obtain t ts where "tids = t # ts" using assms(4) by (cases tids) auto
  then have "rev_prio tids (s\<lparr>sc_buildable := waiting running s\<rparr>) = Inl ValueError"
    using assms(2,3) by (simp add: rev_prio_def prio_map_def)
  then show ?thesis using assms(1) by (auto simp: next_buildable_task_def Let_def)
qed

lemma basic_scheduler_raises_witness:
  "next_buildable_task [''a'', ''b''] [] [] (sched_init Basic [(''a'', new_rte), (''b'', new_rte)]
     [(''a'', ''s''), (''b'', ''t'')] [''a'', ''b'']) = Inl ValueError"
  by (rule basic_scheduler_raises [of _ _ "[(''a'', new_rte), (''b'', new_rte)]"])
    (simp_all add: waiting_def sched_init_def dkeys_def)

lemma completion_order_groups_witness:
  "mset (completion_order [''a.bb:z'', ''b.bb:y'', ''a.bb:x'']) = mset [''a.bb:z'', ''b.bb:y'', ''a.bb:x''] \<and>
   fn_from_tid ''a.bb:z'' = fn_from_tid ''a.bb:x'' \<and> completion_order [''a.bb:z'', ''b.bb:y'', ''a.bb:x''] = [''a.bb:z'', ''a.bb:x'', ''b.bb:y'']"
proof -
  have "fn_from_tid ''a.bb:z'' = fn_from_tid ''a.bb:x''"
    "completion_order [''a.bb:z'', ''b.bb:y'', ''a.bb:x''] = [''a.bb:z'', ''a.bb:x'', ''b.bb:y'']" by code_simp+
  then show ?thesis using completion_order_groups [of "[''a.bb:z'', ''b.bb:y'', ''a.bb:x'']"] by blast
qed

end
