(* ===== verification/TaskExecutor.thy ===== *)
theory TaskExecutor
  imports Scheduler
begin

text \<open>
  \<open>RunQueueExecute\<close> and \<open>RunQueueExecuteTasks\<close> of \<open>bitbake/lib/bb/runqueue.py\<close>: the state machine that
  runs the tasks of the graph.  \<open>execute\<close> does one step: it reads what the workers report, asks the
  scheduler for a task and skips it, completes it without running it, or sends it to a worker.

  The surroundings of a step are its arguments: the reports that arrive at the two points where the
  workers are read, and the file times.  What a step does to the outside is appended to a log: tasks
  sent to workers, stamps made and deleted.  Events for the user interface are left out.
\<close>

section \<open>State\<close>

datatype rstate =
  RPrepare | RSceneInit | RSceneRun | RRunInit | RRunning | RFailed | RCleanUp | RComplete

text \<open>What is known of a task and of everything it depends on: recipe name, task, file, dependencies, provided names.\<close>

type_synonym taskinfo = "string \<times> string \<times> string \<times> string list \<times> string list"

datatype effect =
    RunTask bool string string string bool "(string, taskinfo) dict"
  | MakeStamp string string string
  | DelStamp string string string

text \<open>A worker reports the exit status of a task, or it has died.\<close>

datatype report = Exited string int | Died

text \<open>What \<open>execute\<close> returns: call again at once, or wait for the workers.\<close>

datatype retval = Again | Wait

record exec =
  x_state :: rstate
  x_covered :: "string list"
  x_notcovered :: "string list"
  x_entries :: "string graph"
  x_buildable :: "string list"
  x_running :: "string list"
  x_stamps :: "(string, string option) dict"
  x_stamps2 :: "string option list"
  x_failed :: "string list"
  x_stats :: stats
  x_cache :: stampcache
  x_fakeworkers :: "string list"
  x_log :: "effect list"

record texec = exec +
  x_complete :: "string list"
  x_sched :: "(string, string option) sched"
  x_checked :: bool

text \<open>
  The fixed surroundings: \<open>ec_abort\<close> is \<open>taskData[''''].abort\<close>, \<open>None\<close> when there is no such
  configuration; \<open>ec_spawn\<close> tells whether a fakeroot worker can be started; \<open>ec_verify\<close> is the
  function named by \<open>BB_SETSCENE_VERIFY_FUNCTION2\<close>; \<open>ec_depvalid\<close> and \<open>ec_hashvalidate\<close> are those
  of \<open>BB_SETSCENE_DEPVALID\<close> and \<open>BB_HASHCHECK_FUNCTION\<close>.
\<close>

record execcfg =
  ec_number_tasks :: int
  ec_scheduler :: string
  ec_abort :: "bool option"
  ec_dry_run :: bool
  ec_force :: bool
  ec_whitelist :: "string list option"
  ec_fnmatch :: "string \<Rightarrow> string \<Rightarrow> bool"
  ec_setscene_tids :: "string list"
  ec_target_tids :: "string list"
  ec_spawn :: "string \<Rightarrow> bool"
  ec_verify :: "(string list \<Rightarrow> (string, string) dict \<Rightarrow> (string, string) dict \<Rightarrow> string list \<Rightarrow> string list) option"
  ec_depvalid :: "(string \<Rightarrow> (string, string \<times> string \<times> string) dict \<Rightarrow> string list \<Rightarrow> bool) option"
  ec_hashvalidate :: "((string \<times> string \<times> string option \<times> string) list \<Rightarrow> nat list) option"

definition number_tasks_of :: "config \<Rightarrow> int res" where
  "number_tasks_of cfg =
     rbind (case or_else (cfg ''BB_NUMBER_THREADS'') None of None \<Rightarrow> Inr 1 | Some v \<Rightarrow> py_int v) (\<lambda>n.
       if n \<le> 0 then Inl Fatal else Inr n)"

definition noexec :: "taskdeps \<Rightarrow> string \<Rightarrow> bool" where
  "noexec td taskname = (task_flag td ''noexec'' taskname \<noteq> None)"

definition log_effect :: "effect \<Rightarrow> ('a exec_scheme) \<Rightarrow> ('a exec_scheme)" where
  "log_effect e x = x\<lparr>x_log := x_log x @ [e]\<rparr>"

definition on_stats :: "(stats \<Rightarrow> stats) \<Rightarrow> ('a exec_scheme) \<Rightarrow> ('a exec_scheme)" where
  "on_stats f x = x\<lparr>x_stats := f (x_stats x)\<rparr>"

section \<open>RunQueueExecute\<close>

text \<open>The first part of \<open>runqueue_process_waitpid\<close>: the stamp of the task is free again.\<close>

definition release_stamp :: "string \<Rightarrow> ('a exec_scheme) \<Rightarrow> ('a exec_scheme)" where
  "release_stamp task x =
     (case dget (x_stamps x) task of
        None \<Rightarrow> x
      | Some stamp \<Rightarrow> x\<lparr>x_stamps2 := remove1 stamp (x_stamps2 x), x_stamps := ddel task (x_stamps x)\<rparr>)"

definition finish_now :: "('a exec_scheme) \<Rightarrow> ('a exec_scheme)" where
  "finish_now x = (if x_failed x \<noteq> [] then x\<lparr>x_state := RFailed\<rparr> else x\<lparr>x_state := RComplete\<rparr>)"

text \<open>The task sent to a worker is registered as running; the stamp is computed without its extra part.\<close>

definition register_running :: "stampview \<Rightarrow> string \<Rightarrow> string \<Rightarrow> string \<Rightarrow> string \<Rightarrow> ('a exec_scheme) \<Rightarrow> ('a exec_scheme) res" where
  "register_running v task mc taskname taskfn x =
     rbind (dlookup (sv_dcs v) mc) (\<lambda>dc.
     rbind (stampfile (sv_sig v) taskname dc taskfn True) (\<lambda>stamp.
       Inr (on_stats taskActive (x\<lparr>x_stamps := dset task stamp (x_stamps x), x_stamps2 := x_stamps2 x @ [stamp],
              x_running := sadd task (x_running x)\<rparr>))))"

section \<open>What a task needs to know\<close>

definition note_taskdep ::
  "mcdc \<Rightarrow> string graph \<Rightarrow> string \<Rightarrow> (string, taskinfo) dict \<times> string list \<Rightarrow>
   ((string, taskinfo) dict \<times> string list) res" where
  "note_taskdep dcs g revdep st =
     rbind (split_tid_mcfn revdep) (\<lambda>(mc, fn, taskname, taskfn).
     rbind (dlookup dcs mc) (\<lambda>dc.
     rbind (dlookup (c_pkg_fn dc) taskfn) (\<lambda>pn.
     rbind (dlookup g revdep) (\<lambda>e.
     rbind (dlookup (c_fn_provides dc) taskfn) (\<lambda>provides.
       let taskdepdata = dset revdep (pn, taskname, fn, rt_depends e, provides) (fst st)
       in Inr (taskdepdata, snd st @ filter (\<lambda>d. d \<notin> set (dkeys taskdepdata)) (rt_depends e)))))))"

lemma note_taskdeps_effect:
  "rfold (note_taskdep dcs g) next st = Inr st' \<Longrightarrow>
     set (dkeys (fst st')) = set (dkeys (fst st)) \<union> set next \<and> set next \<subseteq> set (dkeys g) \<and>
     (set next \<subseteq> set (dkeys (fst st)) \<longrightarrow> set (snd st') \<inter> set (dkeys (fst st)) \<subseteq> set (snd st))"
proof (induction "next" arbitrary: st)
  case Nil
  then show ?case by auto
next
  case (Cons t ts)
  then obtain st1 where st1: "note_taskdep dcs g t st = Inr st1" "rfold (note_taskdep dcs g) ts st1 = Inr st'"
    by (auto elim: rbind_InrE)
  have "set (dkeys (fst st1)) = insert t (set (dkeys (fst st))) \<and> t \<in> set (dkeys g) \<and>
      set (snd st1) \<inter> set (dkeys (fst st1)) \<subseteq> set (snd st)"
    using st1(1) by (auto simp: note_taskdep_def res_simps Let_def dest: dget_SomeD)
  then show ?case using Cons.IH [OF st1(2)] by auto
qed

text \<open>Rounds over the tasks found in the round before; each task is a task of the graph, so the rounds end.\<close>

function taskdeps_loop ::
  "mcdc \<Rightarrow> string graph \<Rightarrow> string list \<Rightarrow> (string, taskinfo) dict \<Rightarrow> (string, taskinfo) dict res" where
  "taskdeps_loop dcs g next taskdepdata =
     (if next = [] then Inr taskdepdata
      else rbind (rfold (note_taskdep dcs g) next (taskdepdata, [])) (\<lambda>(taskdepdata, additional).
             taskdeps_loop dcs g additional taskdepdata))"
  by pat_completeness auto
termination
proof (relation "inv_image (less_than <*lex*> less_than)
    (\<lambda>(dcs, g, next, d). (card (set (dkeys g) - set (dkeys d)),
       if next = [] then 0 else if set next \<subseteq> set (dkeys d) then 2 else 1 :: nat))", goal_cases)
  case 1
  then show ?case by auto
next
  case (2 dcs g "next" d st d' add)
  then have e: "set (dkeys d') = set (dkeys d) \<union> set next" "set next \<subseteq> set (dkeys g)"
    "set next \<subseteq> set (dkeys d) \<Longrightarrow> set add \<inter> set (dkeys d) = {}"
    using note_taskdeps_effect [of dcs g "next" "(d, [])" "(d', add)"] by auto
  show ?case
  proof (cases "set next \<subseteq> set (dkeys d)")
    case True
    then have "set (dkeys d') = set (dkeys d)" "set add \<inter> set (dkeys d) = {}" using e by auto
    moreover from this have "set add \<subseteq> set (dkeys d) \<Longrightarrow> add = []" by (cases add) auto
    ultimately show ?thesis using True 2(1) by auto
  next
    case False
    then have "set (dkeys g) - set (dkeys d') \<subset> set (dkeys g) - set (dkeys d)" using e by auto
    then have "card (set (dkeys g) - set (dkeys d')) < card (set (dkeys g) - set (dkeys d))"
      by (simp add: psubset_card_mono)
    then show ?thesis by simp
  qed
qed

declare taskdeps_loop.simps [simp del]

text \<open>\<open>next = depends; next.add(task)\<close> changes the dependencies of the task in the graph.\<close>

definition build_taskdepdata :: "mcdc \<Rightarrow> string \<Rightarrow> string graph \<Rightarrow> ((string, taskinfo) dict \<times> string graph) res" where
  "build_taskdepdata dcs task g =
     rbind (dlookup g task) (\<lambda>e.
       let depends = sadd task (rt_depends e); g = dset task (e\<lparr>rt_depends := depends\<rparr>) g
       in rbind (taskdeps_loop dcs g depends []) (\<lambda>taskdepdata. Inr (taskdepdata, g)))"

section \<open>RunQueueExecuteTasks\<close>

definition setbuildable :: "string \<Rightarrow> texec \<Rightarrow> texec" where
  "setbuildable task x = x\<lparr>x_buildable := sadd task (x_buildable x), x_sched := newbuilable task (x_sched x)\<rparr>"

definition release_revdep :: "string \<Rightarrow> texec \<Rightarrow> texec res" where
  "release_revdep revdep x =
     (if revdep \<in> set (x_running x) \<or> revdep \<in> set (x_buildable x) then Inr x
      else rbind (dlookup (x_entries x) revdep) (\<lambda>e.
             Inr (if list_all (\<lambda>dep. dep \<in> set (x_complete x)) (rt_depends e) then setbuildable revdep x else x)))"

definition task_completeoutright :: "string \<Rightarrow> texec \<Rightarrow> texec res" where
  "task_completeoutright task x =
     rbind (dlookup (x_entries x) task) (\<lambda>e.
       rfold release_revdep (rt_revdeps e) (x\<lparr>x_complete := sadd task (x_complete x)\<rparr>))"

definition task_complete :: "string \<Rightarrow> texec \<Rightarrow> texec res" where
  "task_complete task x = task_completeoutright task (on_stats (taskCompleted 1) x)"

definition task_fail :: "execcfg \<Rightarrow> string \<Rightarrow> texec \<Rightarrow> texec res" where
  "task_fail c task x =
     rbind (dlookup (x_entries x) task) (\<lambda>_.
     rbind (case ec_abort c of None \<Rightarrow> Inl KeyError | Some a \<Rightarrow> Inr a) (\<lambda>abort.
       let x = (on_stats taskFailed x)\<lparr>x_failed := x_failed x @ [task]\<rparr>
       in Inr (if abort then x\<lparr>x_state := RCleanUp\<rparr> else x)))"

definition task_skip :: "string \<Rightarrow> texec \<Rightarrow> texec res" where
  "task_skip task x =
     rbind (task_completeoutright task (setbuildable task (x\<lparr>x_running := sadd task (x_running x)\<rparr>))) (\<lambda>x.
       Inr (on_stats (taskSkipped 1) (on_stats (taskCompleted 1) x)))"

definition process_report :: "execcfg \<Rightarrow> report \<Rightarrow> texec \<Rightarrow> texec res" where
  "process_report c r x =
     (case r of
        Exited task status \<Rightarrow>
          let x = release_stamp task x in if status \<noteq> 0 then task_fail c task x else task_complete task x
      | Died \<Rightarrow> Inr (finish_now x))"

definition read_workers :: "execcfg \<Rightarrow> report list \<Rightarrow> texec \<Rightarrow> texec res" where
  "read_workers c rs x = rfold (process_report c) rs x"

definition ask_scheduler :: "execcfg \<Rightarrow> texec \<Rightarrow> (string option \<times> texec) res" where
  "ask_scheduler c x =
     rbind (sched_next (dkeys (x_entries x)) (st_active (x_stats x)) (ec_number_tasks c) (x_running x)
              (map snd (x_stamps x)) (x_sched x)) (\<lambda>(task, s).
       Inr (task, x\<lparr>x_sched := s\<rparr>))"

definition stamp_fuel :: "('a exec_scheme) \<Rightarrow> nat" where
  "stamp_fuel x = Suc (length (x_entries x))"

definition check_task ::
  "stampview \<Rightarrow> string \<Rightarrow> string \<Rightarrow> bool \<Rightarrow> ('a exec_scheme) \<Rightarrow> (bool \<times> ('a exec_scheme)) res" where
  "check_task v tid name recurse x =
     rbind (check_stamp_task (stamp_fuel x) v (x_entries x) tid (Some name) recurse (x_cache x)) (\<lambda>(b, cache).
       Inr (b, x\<lparr>x_cache := cache\<rparr>))"

section \<open>The check against the setscene white list\<close>

definition check_norun_task :: "execcfg \<Rightarrow> stampview \<Rightarrow> texec \<Rightarrow> string \<Rightarrow> bool res" where
  "check_norun_task c v x tid =
     rbind (split_tid_mcfn tid) (\<lambda>(mc, fn, taskname, taskfn).
       if tid \<in> set (x_covered x) then Inr False
       else rbind (check_task v tid taskname False x) (\<lambda>(current, _).
         if current then Inr False
         else rbind (dlookup (sv_dcs v) mc) (\<lambda>dc.
              rbind (dlookup (c_task_deps dc) taskfn) (\<lambda>taskdep.
                if noexec taskdep taskname then Inr False
                else rbind (dlookup (c_pkg_fn dc) taskfn) (\<lambda>pn.
                  Inr (\<not> check_setscene_enforce_whitelist (ec_fnmatch c) pn taskname (ec_whitelist c)))))))"

text \<open>All tasks are skipped in the order of the scheduler; each one is running afterwards, so the fuel is enough.\<close>

fun skip_all :: "nat \<Rightarrow> execcfg \<Rightarrow> stampview \<Rightarrow> texec \<Rightarrow> texec res" where
  "skip_all 0 c v x = Inl OutOfFuel"
| "skip_all (Suc n) c v x =
     rbind (ask_scheduler c x) (\<lambda>(task, x).
       case task of
         None \<Rightarrow> Inr x
       | Some t \<Rightarrow> rbind (check_norun_task c v x t) (\<lambda>_. rbind (task_skip t x) (skip_all n c v)))"

definition enforce_whitelist :: "execcfg \<Rightarrow> stampview \<Rightarrow> texec \<Rightarrow> (bool \<times> texec) res" where
  "enforce_whitelist c v x =
     (if x_checked x \<or> ec_whitelist c = None \<or> ec_whitelist c = Some [] then Inr (False, x)
      else let x = x\<lparr>x_checked := True\<rparr>
        in rbind (rany (check_norun_task c v x) (dkeys (x_entries x))) (\<lambda>unexpected.
             if \<not> unexpected then Inr (False, x)
             else rbind (skip_all (Suc (length (x_entries x))) c v x) (\<lambda>x. Inr (True, x\<lparr>x_state := RCleanUp\<rparr>))))"

section \<open>execute\<close>

text \<open>The task is sent to a worker; \<open>False\<close> when the fakeroot worker could not be started.\<close>

definition start_task ::
  "execcfg \<Rightarrow> stampview \<Rightarrow> string \<Rightarrow> string \<Rightarrow> string \<Rightarrow> string \<Rightarrow> taskdeps \<Rightarrow> texec \<Rightarrow> (bool \<times> texec) res" where
  "start_task c v task mc taskname taskfn taskdep x =
     rbind (build_taskdepdata (sv_dcs v) task (x_entries x)) (\<lambda>(taskdepdata, g).
       let fake = (task_flag taskdep ''fakeroot'' taskname \<noteq> None \<and> \<not> ec_dry_run c);
           fakeworkers = (if fake then sadd mc (x_fakeworkers x) else x_fakeworkers x); x = x\<lparr>x_entries := g\<rparr>
       in if fake \<and> mc \<notin> set (x_fakeworkers x) \<and> \<not> ec_spawn c mc
          then Inr (False, on_stats taskFailed (x\<lparr>x_state := RFailed\<rparr>))
          else let x = log_effect (RunTask fake taskfn task taskname False taskdepdata) (x\<lparr>x_fakeworkers := fakeworkers\<rparr>)
            in rbind (register_running v task mc taskname taskfn x) (\<lambda>x. Inr (True, x)))"

text \<open>What happens to the task the scheduler chose; \<open>True\<close> when \<open>execute\<close> returns at once.\<close>

definition run_task :: "execcfg \<Rightarrow> stampview \<Rightarrow> string \<Rightarrow> texec \<Rightarrow> (bool \<times> texec) res" where
  "run_task c v task x =
     rbind (split_tid_mcfn task) (\<lambda>(mc, fn, taskname, taskfn).
       if task \<in> set (x_covered x) then rbind (task_skip task x) (\<lambda>x. Inr (True, x))
       else rbind (check_task v task taskname False x) (\<lambda>(current, x).
         if current then rbind (task_skip task x) (\<lambda>x. Inr (True, x))
         else rbind (dlookup (sv_dcs v) mc) (\<lambda>dc.
              rbind (dlookup (c_task_deps dc) taskfn) (\<lambda>taskdep.
                if noexec taskdep taskname then
                  let x = on_stats taskActive (x\<lparr>x_running := sadd task (x_running x)\<rparr>);
                      x = (if ec_dry_run c then x else log_effect (MakeStamp taskname mc taskfn) x)
                  in rbind (task_complete task x) (\<lambda>x. Inr (True, x))
                else rbind (start_task c v task mc taskname taskfn taskdep x) (\<lambda>(started, x).
                  Inr (\<not> started \<or> st_active (x_stats x) < ec_number_tasks c, x))))))"

text \<open>Nothing left to start: wait for running tasks, or finish.  The sanity checks only print.\<close>

definition never_done :: "texec \<Rightarrow> string list" where
  "never_done x = filter (\<lambda>t. t \<notin> set (x_buildable x) \<or> t \<notin> set (x_running x) \<or> t \<notin> set (x_complete x)) (dkeys (x_entries x))"

definition wind_up :: "execcfg \<Rightarrow> report list \<Rightarrow> texec \<Rightarrow> (retval \<times> texec) res" where
  "wind_up c rs x =
     (if st_active (x_stats x) > 0 then rbind (read_workers c rs x) (\<lambda>x. Inr (Wait, x))
      else if x_failed x \<noteq> [] then Inr (Again, x\<lparr>x_state := RFailed\<rparr>)
      else Inr (Again, x\<lparr>x_state := RComplete\<rparr>))"

text \<open>The part up to the point where nothing more can be started; \<open>True\<close> when \<open>execute\<close> has returned.\<close>

definition execute_body :: "execcfg \<Rightarrow> stampview \<Rightarrow> report list \<Rightarrow> texec \<Rightarrow> (bool \<times> texec) res" where
  "execute_body c v rs x =
     rbind (enforce_whitelist c v x) (\<lambda>(stopped, x).
       if stopped then Inr (True, x)
       else rbind (read_workers c rs x) (\<lambda>x.
            let x = (if st_total (x_stats x) = 0 then x\<lparr>x_state := RCleanUp\<rparr> else x)
            in rbind (ask_scheduler c x) (\<lambda>(task, x).
               case task of None \<Rightarrow> Inr (False, x) | Some t \<Rightarrow> run_task c v t x)))"

definition execute :: "execcfg \<Rightarrow> stampview \<Rightarrow> report list \<Rightarrow> report list \<Rightarrow> texec \<Rightarrow> (retval \<times> texec) res" where
  "execute c v rs1 rs2 x =
     rbind (execute_body c v rs1 x) (\<lambda>(return, x). if return then Inr (Again, x) else wind_up c rs2 x)"

text \<open>\<open>finish\<close>, called in the state \<open>runQueueCleanUp\<close>.\<close>

definition finish :: "execcfg \<Rightarrow> report list \<Rightarrow> texec \<Rightarrow> (retval \<times> texec) res" where
  "finish c rs x =
     (let x = x\<lparr>x_state := RCleanUp\<rparr>
      in if st_active (x_stats x) > 0 then rbind (read_workers c rs x) (\<lambda>x. Inr (Wait, x))
         else if x_failed x \<noteq> [] then Inr (Again, x\<lparr>x_state := RFailed\<rparr>)
         else Inr (Again, x\<lparr>x_state := RComplete\<rparr>))"

section \<open>The initial state\<close>

text \<open>
  A task all of whose reverse dependencies are covered by setscene tasks is covered too.  The first
  loop takes the tasks once and does not look at the tasks that could not be covered; the second one
  repeats until nothing changes.
\<close>

definition covers :: "string graph \<Rightarrow> string list \<Rightarrow> string \<Rightarrow> bool" where
  "covers g covered tid = (revs g tid \<noteq> [] \<and> set (revs g tid) \<subseteq> set covered)"

definition cover_once :: "string graph \<Rightarrow> string list \<Rightarrow> string list" where
  "cover_once g covered = fold (\<lambda>tid covered. if covers g covered tid then sadd tid covered else covered) (dkeys g) covered"

definition cover_round :: "string graph \<Rightarrow> string list \<Rightarrow> string list \<Rightarrow> string list \<times> bool" where
  "cover_round g notcovered covered =
     fold (\<lambda>tid (covered, found).
        if tid \<in> set covered \<or> \<not> covers g covered tid \<or> tid \<in> set notcovered then (covered, found)
        else (covered @ [tid], True)) (dkeys g) (covered, False)"

lemma cover_round_grows:
  assumes "cover_round g notcovered covered = (covered', found)"
  shows "set covered \<subseteq> set covered' \<and> (found \<longrightarrow> \<not> set (dkeys g) - set covered \<subseteq> set (dkeys g) - set covered')"
proof -
  let ?f = "\<lambda>tid (covered, found).
        if tid \<in> set covered \<or> \<not> covers g covered tid \<or> tid \<in> set notcovered then (covered, found)
        else (covered @ [tid], True)"
  have "set ts \<subseteq> set (dkeys g) \<Longrightarrow> fold ?f ts (c, b) = (c', b') \<Longrightarrow>
      set c \<subseteq> set c' \<and> (b' \<longrightarrow> b \<or> \<not> set (dkeys g) - set c \<subseteq> set (dkeys g) - set c')" for ts c b c' b'
  proof (induction ts arbitrary: c b)
    case Nil
    then show ?case by simp
  next
    case (Cons t ts)
    show ?case
    proof (cases "t \<in> set c \<or> \<not> covers g c t \<or> t \<in> set notcovered")
      case True
      then show ?thesis using Cons.IH [of c b] Cons.prems by simp
    next
      case False
      then have "fold ?f ts (c @ [t], True) = (c', b')" using Cons.prems(2) by simp
      then have "set (c @ [t]) \<subseteq> set c'" using Cons.IH [of "c @ [t]" True] Cons.prems(1) by simp
      then show ?thesis using False Cons.prems(1) by auto
    qed
  qed
  from this [OF subset_refl assms [unfolded cover_round_def]] show ?thesis by blast
qed

function cover_loop :: "string graph \<Rightarrow> string list \<Rightarrow> string list \<Rightarrow> string list" where
  "cover_loop g notcovered covered =
     (case cover_round g notcovered covered of
        (covered', found) \<Rightarrow> if found then cover_loop g notcovered covered' else covered')"
  by pat_completeness auto
termination
proof (relation "measure (\<lambda>(g, notcovered, covered). card (set (dkeys g) - set covered))", goal_cases)
  case 1
  then show ?case by simp
next
  case (2 g notcovered covered covered' found)
  then have "set (dkeys g) - set covered' \<subset> set (dkeys g) - set covered"
    using cover_round_grows [of g notcovered covered covered' found] by auto
  then show ?case by (simp add: psubset_card_mono)
qed

declare cover_loop.simps [simp del]

text \<open>The metadata may ask that covered tasks run after all: their setscene stamps are deleted.\<close>

definition invalid_step :: "stampview \<Rightarrow> string \<Rightarrow> texec \<times> string list \<Rightarrow> (texec \<times> string list) res" where
  "invalid_step v tid xs =
     rbind (split_tid_mcfn tid) (\<lambda>(mc, fn, taskname, taskfn).
     rbind (dlookup (sv_dcs v) mc) (\<lambda>dc.
     rbind (dlookup (c_task_deps dc) taskfn) (\<lambda>taskdep.
       if noexec taskdep taskname then Inr xs
       else rbind (check_task v tid (taskname @ ''_setscene'') False (fst xs)) (\<lambda>(current, x).
         if current then Inr (x, snd xs)
         else rbind (check_task v tid taskname True x) (\<lambda>(current, x).
           Inr (x, if current then snd xs else snd xs @ [tid]))))))"

definition tasks_to_run ::
  "(string list \<Rightarrow> (string, string) dict \<Rightarrow> (string, string) dict \<Rightarrow> string list \<Rightarrow> string list) option \<Rightarrow> stampview \<Rightarrow> texec \<Rightarrow>
   (texec \<times> string list) res" where
  "tasks_to_run verify v x =
     (case verify of
        None \<Rightarrow> Inr (x, [])
      | Some f \<Rightarrow>
          rbind (rfold (invalid_step v) (dkeys (x_entries x)) (x, [])) (\<lambda>(x, invalidtasks).
          rbind (rmap (\<lambda>tid. rbind (split_tid_mcfn tid) (\<lambda>(mc, fn, taskname, taskfn). Inr (tid, taskname, taskfn)))
                   (dkeys (x_entries x))) (\<lambda>names.
            Inr (x, f (x_covered x) (map (\<lambda>(tid, n, f). (tid, n)) names) (map (\<lambda>(tid, n, f). (tid, f)) names) invalidtasks))))"

definition remove_covered :: "stampview \<Rightarrow> string list \<Rightarrow> string list \<Rightarrow> string \<Rightarrow> texec \<times> string list \<Rightarrow> (texec \<times> string list) res" where
  "remove_covered v initial toremove task st =
     rbind (split_tid_mcfn task) (\<lambda>(mc, fn, taskname, taskfn).
     rbind (stamp_of v mc (taskname @ ''_setscene'') taskfn) (\<lambda>_.
       let x = log_effect (DelStamp (taskname @ ''_setscene'') mc taskfn) (fst st)
       in if task \<notin> set (x_covered x) then Inl KeyError
          else let x = x\<lparr>x_covered := removeAll task (x_covered x)\<rparr>
            in rbind (dlookup (x_entries x) task) (\<lambda>e.
                 Inr (x, fold (\<lambda>d rest.
                    if d \<notin> set (x_covered x) \<or> d \<in> set toremove \<or> d \<in> set rest \<or> d \<in> set initial then rest
                    else rest @ [d]) (rt_depends e) (snd st)))))"

lemma remove_covered_shrinks:
  "rfold (remove_covered v initial toremove) ts st = Inr st' \<Longrightarrow>
     length (x_covered (fst st')) \<le> length (x_covered (fst st)) \<and>
     (ts \<noteq> [] \<longrightarrow> length (x_covered (fst st')) < length (x_covered (fst st)))"
proof (induction ts arbitrary: st)
  case Nil
  then show ?case by simp
next
  case (Cons t ts)
  then obtain st1 where st1: "remove_covered v initial toremove t st = Inr st1"
    "rfold (remove_covered v initial toremove) ts st1 = Inr st'"
    by (auto elim: rbind_InrE)
  have "t \<in> set (x_covered (fst st))" "x_covered (fst st1) = removeAll t (x_covered (fst st))"
    using st1(1) by (auto simp: remove_covered_def res_simps Let_def log_effect_def split: if_splits)
  then have "length (x_covered (fst st1)) < length (x_covered (fst st))" by (simp add: length_removeAll_less)
  then show ?case using Cons.IH [OF st1(2)] by simp
qed

function uncover_loop :: "stampview \<Rightarrow> string list \<Rightarrow> texec \<Rightarrow> string list \<Rightarrow> texec res" where
  "uncover_loop v initial x toremove =
     (if toremove = [] then Inr x
      else rbind (rfold (remove_covered v initial toremove) toremove (x, [])) (\<lambda>(x, toremove).
             uncover_loop v initial x toremove))"
  by pat_completeness auto
termination
  by (relation "measure (\<lambda>(v, initial, x, toremove). length (x_covered x))")
    (auto dest!: remove_covered_shrinks)

declare uncover_loop.simps [simp del]

definition scheduler_of :: "string \<Rightarrow> scheduler res" where
  "scheduler_of name =
     (if name = ''basic'' then Inr Basic
      else if name = ''speed'' then Inr Speed
      else if name = ''completion'' then Inr Completion
      else Inl Fatal)"

definition sched_stamps :: "stampview \<Rightarrow> string list \<Rightarrow> (string, string option) dict res" where
  "sched_stamps v tids =
     rmap (\<lambda>tid. rbind (split_tid_mcfn tid) (\<lambda>(mc, fn, taskname, taskfn).
       rbind (dlookup (sv_dcs v) mc) (\<lambda>dc.
       rbind (stampfile (sv_sig v) taskname dc taskfn True) (\<lambda>stamp. Inr (tid, stamp))))) tids"

text \<open>\<open>covered\<close> and \<open>notcovered\<close> are what the setscene queue has left in the run queue.\<close>

definition new_exec :: "string graph \<Rightarrow> string list \<Rightarrow> string list \<Rightarrow> string list \<Rightarrow> bool \<Rightarrow> texec" where
  "new_exec g covered notcovered fakeworkers checked =
     \<lparr>x_state = RRunning, x_covered = covered, x_notcovered = notcovered, x_entries = g,
      x_buildable = map fst (filter (\<lambda>(tid, e). rt_depends e = []) g), x_running = [], x_stamps = [], x_stamps2 = [],
      x_failed = [], x_stats = stats_init (int (length g)), x_cache = [], x_fakeworkers = fakeworkers, x_log = [],
      x_complete = [], x_sched = \<lparr>sc_buildable = [], sc_stamps = [], sc_prio = [], sc_rev = []\<rparr>, x_checked = checked\<rparr>"

definition tasks_init ::
  "execcfg \<Rightarrow> stampview \<Rightarrow> string graph \<Rightarrow> string list \<Rightarrow> string list \<Rightarrow> string list \<Rightarrow> bool \<Rightarrow> texec res" where
  "tasks_init c v g covered notcovered fakeworkers checked =
     rbind (tasks_to_run (ec_verify c) v
              (new_exec g (cover_loop g notcovered (cover_once g covered)) notcovered fakeworkers checked)) (\<lambda>(x, toremove).
     rbind (uncover_loop v covered x toremove) (\<lambda>x.
     rbind (scheduler_of (ec_scheduler c)) (\<lambda>kind.
     rbind (sched_stamps v (dkeys g)) (\<lambda>stamps.
       Inr (x\<lparr>x_sched := sched_init kind g stamps (x_buildable x)\<rparr>)))))"

end
