(* ===== verification/ExecutorSafety.thy ===== *)
theory ExecutorSafety
  imports TaskExecutor
begin

text \<open>
  What the executor of \<open>TaskExecutor\<close> guarantees: a task is started only when everything it depends on
  is complete, no task is started twice, never more tasks are active than allowed, and a run
  that ends as complete has completed every task, so the sanity checks at its end find nothing.
\<close>

section \<open>The invariant\<close>

definition prio_list :: "scheduler \<Rightarrow> string graph \<Rightarrow> string list" where
  "prio_list kind g = (if kind = Completion then completion_order (speed_prio g) else speed_prio g)"

fun started_tasks :: "effect list \<Rightarrow> string list" where
  "started_tasks [] = []"
| "started_tasks (RunTask fake taskfn task taskname setscene info # es) = task # started_tasks es"
| "started_tasks (MakeStamp taskname mc taskfn # es) = started_tasks es"
| "started_tasks (DelStamp taskname mc taskfn # es) = started_tasks es"

lemma started_append [simp]: "started_tasks (es @ fs) = started_tasks es @ started_tasks fs"
  by (induction es rule: started_tasks.induct) simp_all

abbreviation in_flight :: "('a exec_scheme) \<Rightarrow> string set" where
  "in_flight x \<equiv> set (dkeys (x_stamps x))"

definition core :: "string graph \<Rightarrow> string list \<Rightarrow> texec \<Rightarrow> bool" where
  "core g prio x \<longleftrightarrow>
     dkeys (x_entries x) = dkeys g \<and> (\<forall>t. revs (x_entries x) t = revs g t) \<and>
     (\<forall>t. t \<notin> set (x_running x) \<longrightarrow> deps (x_entries x) t = deps g t) \<and>
     set (x_complete x) \<subseteq> set (x_running x) \<and> set (x_running x) \<subseteq> set (x_buildable x) \<and>
     set (x_buildable x) \<subseteq> set (dkeys g) \<and> (\<forall>t \<in> set (x_buildable x). set (deps g t) \<subseteq> set (x_complete x)) \<and>
     sched_wf (dkeys g) prio (x_sched x) \<and>
     set (waiting (x_running x) (x_sched x)) = set (x_buildable x) - set (x_running x)"

definition progress :: "string graph \<Rightarrow> texec \<Rightarrow> bool" where
  "progress g x \<longleftrightarrow> (\<forall>t \<in> set (dkeys g). set (deps g t) \<subseteq> set (x_complete x) \<longrightarrow> t \<in> set (x_buildable x))"

definition counts :: "execcfg \<Rightarrow> string graph \<Rightarrow> texec \<Rightarrow> bool" where
  "counts c g x \<longleftrightarrow>
     distinct (x_running x) \<and> distinct (x_complete x) \<and> distinct (x_failed x) \<and>
     set (x_failed x) \<subseteq> set (x_running x) \<and> set (x_complete x) \<inter> set (x_failed x) = {} \<and>
     dwf (x_stamps x) \<and> in_flight x = set (x_running x) - set (x_complete x) - set (x_failed x) \<and>
     st_active (x_stats x) = int (length (x_stamps x)) \<and> st_completed (x_stats x) = int (length (x_complete x)) \<and>
     st_failed (x_stats x) = int (length (x_failed x)) \<and> st_total (x_stats x) = int (length g) \<and>
     st_active (x_stats x) \<le> ec_number_tasks c \<and>
     distinct (started_tasks (x_log x)) \<and> set (started_tasks (x_log x)) \<subseteq> set (x_running x)"

definition exec_inv :: "execcfg \<Rightarrow> string graph \<Rightarrow> string list \<Rightarrow> texec \<Rightarrow> bool" where
  "exec_inv c g prio x \<longleftrightarrow> core g prio x \<and> progress g x \<and> counts c g x"

text \<open>What marking a task as complete leaves alone.\<close>

definition rest_of :: "texec \<Rightarrow> _" where
  "rest_of x = (x_state x, x_covered x, x_entries x, x_running x, x_stamps x, x_failed x, x_stats x, x_log x)"

section \<open>Marking a task as complete\<close>

lemma waiting_new: "set (waiting running (newbuilable t s)) = set (waiting running s) \<union> ({t} - set running)"
  by (auto simp: waiting_def newbuilable_def)

lemma sched_wf_new: "sched_wf tids prio s \<Longrightarrow> t \<in> set tids \<Longrightarrow> sched_wf tids prio (newbuilable t s)"
  by (simp add: sched_wf_def newbuilable_def)

lemma setbuildable_core:
  assumes "core g prio x" "t \<in> set (dkeys g)" "set (deps g t) \<subseteq> set (x_complete x)"
  shows "core g prio (setbuildable t x)"
proof -
  have "set (waiting (x_running x) (newbuilable t (x_sched x))) = insert t (set (x_buildable x)) - set (x_running x)"
    using assms(1) by (auto simp: core_def waiting_new)
  then show ?thesis using assms by (auto simp: core_def setbuildable_def sched_wf_new)
qed

lemma setbuildable_frame [simp]:
  "rest_of (setbuildable t x) = rest_of x" "x_complete (setbuildable t x) = x_complete x"
  "x_running (setbuildable t x) = x_running x" "x_stats (setbuildable t x) = x_stats x"
  "set (x_buildable (setbuildable t x)) = insert t (set (x_buildable x))"
  by (simp_all add: setbuildable_def rest_of_def)

lemma release_revdep_step:
  assumes "release_revdep r x = Inr x'" "core g prio x" "r \<in> set (dkeys g)"
  shows "core g prio x' \<and> rest_of x' = rest_of x \<and> x_complete x' = x_complete x \<and>
    set (x_buildable x) \<subseteq> set (x_buildable x') \<and>
    (set (deps g r) \<subseteq> set (x_complete x) \<longrightarrow> r \<in> set (x_buildable x'))"
proof (cases "r \<in> set (x_running x) \<or> r \<in> set (x_buildable x)")
  case True
  then show ?thesis using assms by (auto simp: release_revdep_def core_def)
next
  case False
  then obtain e where e: "dget (x_entries x) r = Some e"
    "x' = (if list_all (\<lambda>dep. dep \<in> set (x_complete x)) (rt_depends e) then setbuildable r x else x)"
    using assms(1) by (auto simp: release_revdep_def res_simps)
  have "deps (x_entries x) r = deps g r" using False assms(2) unfolding core_def by blast
  then have "rt_depends e = deps g r" using e(1) by (simp add: deps_Some)
  then show ?thesis
    using e(2) assms(2,3) setbuildable_core [OF assms(2,3)] by (auto simp: list_all_iff)
qed

lemma release_all:
  "rfold release_revdep rs x = Inr x' \<Longrightarrow> core g prio x \<Longrightarrow> set rs \<subseteq> set (dkeys g) \<Longrightarrow>
     core g prio x' \<and> rest_of x' = rest_of x \<and> x_complete x' = x_complete x \<and>
     set (x_buildable x) \<subseteq> set (x_buildable x') \<and>
     (\<forall>r \<in> set rs. set (deps g r) \<subseteq> set (x_complete x) \<longrightarrow> r \<in> set (x_buildable x'))"
proof (induction rs arbitrary: x)
  case Nil
  then show ?case by simp
next
  case (Cons r rs)
  then obtain x1 where x1: "release_revdep r x = Inr x1" "rfold release_revdep rs x1 = Inr x'"
    by (auto elim: rbind_InrE)
  note one = release_revdep_step [OF x1(1) Cons.prems(2)]
  have "core g prio x1" using one Cons.prems(3) by simp
  note rest = Cons.IH [OF x1(2) this]
  show ?case using one rest Cons.prems(3) by (simp; blast)
qed

lemma completeoutright_ok:
  assumes "task_completeoutright t x = Inr x'" "graph_wf g" "core g prio x" "progress g x" "t \<in> set (x_running x)"
  shows "core g prio x' \<and> progress g x' \<and> rest_of x' = rest_of x \<and> x_complete x' = sadd t (x_complete x)"
proof -
  let ?x = "x\<lparr>x_complete := sadd t (x_complete x)\<rparr>"
  have tk: "t \<in> set (dkeys g)" using assms(3,5) by (auto simp: core_def)
  obtain e where e: "dget (x_entries x) t = Some e" "rfold release_revdep (rt_revdeps e) ?x = Inr x'"
    using assms(1) by (auto simp: task_completeoutright_def res_simps)
  have "revs (x_entries x) t = revs g t" using assms(3) unfolding core_def by blast
  then have r: "rfold release_revdep (revs g t) ?x = Inr x'" using e by (simp add: revs_Some)
  have sub: "set (revs g t) \<subseteq> set (dkeys g)" using assms(2) tk by (auto simp: graph_wf_def)
  have "core g prio ?x" using assms(3,5) by (auto simp: core_def)
  note all = release_all [OF r this sub]
  have "progress g x'"
    unfolding progress_def
  proof (intro ballI impI)
    fix u
    assume u: "u \<in> set (dkeys g)" "set (deps g u) \<subseteq> set (x_complete x')"
    show "u \<in> set (x_buildable x')"
    proof (cases "t \<in> set (deps g u)")
      case True
      then have "u \<in> set (revs g t)" using assms(2) tk u(1) by (auto simp: graph_wf_def)
      then show ?thesis using all u(2) by simp
    next
      case False
      then have "set (deps g u) \<subseteq> set (x_complete x)" using all u(2) by auto
      then show ?thesis using all assms(4) u(1) by (auto simp: progress_def)
    qed
  qed
  then show ?thesis using all by (simp add: rest_of_def)
qed

lemma started_subset: "counts c g x \<Longrightarrow> set (started_tasks (x_log x)) \<subseteq> set (x_running x)"
  by (simp add: counts_def)

lemma skip_ok:
  assumes "task_skip t x = Inr x'" "graph_wf g" "exec_inv c g prio x" "t \<in> set (x_buildable x)" "t \<notin> set (x_running x)"
  shows "exec_inv c g prio x' \<and> x_running x' = x_running x @ [t] \<and> x_log x' = x_log x \<and>
    x_state x' = x_state x \<and> in_flight x' = in_flight x"
proof -
  let ?y = "setbuildable t (x\<lparr>x_running := sadd t (x_running x)\<rparr>)"
  have inv: "core g prio x" "progress g x" "counts c g x" using assms(3) by (simp_all add: exec_inv_def)
  have tk: "t \<in> set (dkeys g)" "set (deps g t) \<subseteq> set (x_complete x)" "t \<notin> set (x_complete x)"
    using inv(1) assms(4,5) by (auto simp: core_def)
  have "core g prio (x\<lparr>x_running := sadd t (x_running x)\<rparr>)"
    using inv(1) assms(4) by (auto simp: core_def waiting_def)
  then have y: "core g prio ?y" using tk by (simp add: setbuildable_core)
  have py: "progress g ?y" using inv(2) by (auto simp: progress_def setbuildable_def)
  obtain z where z: "task_completeoutright t ?y = Inr z" "x' = on_stats (taskSkipped 1) (on_stats (taskCompleted 1) z)"
    using assms(1) by (auto simp: task_skip_def res_simps)
  have zz: "core g prio z" "progress g z" "rest_of z = rest_of ?y" "x_complete z = sadd t (x_complete x)"
    using completeoutright_ok [OF z(1) assms(2) y py] by (simp_all add: setbuildable_def)
  then have fields: "x_running z = x_running x @ [t]" "x_log z = x_log x" "x_state z = x_state x"
    "x_stamps z = x_stamps x" "x_failed z = x_failed x" "x_stats z = x_stats x" "x_complete z = x_complete x @ [t]"
    using assms(5) tk(3) by (auto simp: rest_of_def setbuildable_def sadd_def)
  have "core g prio x'" "progress g x'" using zz(1,2) z(2) by (simp_all add: core_def progress_def on_stats_def)
  moreover have "counts c g x'"
    using inv(3) fields z(2) assms(5) tk(3)
    by (auto simp: counts_def on_stats_def taskSkipped_def taskCompleted_def)
  ultimately show ?thesis using fields z(2) by (simp add: exec_inv_def on_stats_def)
qed

section \<open>Reports of the workers\<close>

lemma dwf_ddel_length: "dwf d \<Longrightarrow> k \<in> set (dkeys d) \<Longrightarrow> Suc (length (ddel k d)) = length d"
  by (induction d) (auto simp: dwf_def dkeys_def AList.delete_idem)

lemma report_ok:
  assumes "process_report c (Exited t status) x = Inr x'" "graph_wf g" "exec_inv c g prio x" "t \<in> in_flight x"
  shows "exec_inv c g prio x' \<and> in_flight x' = in_flight x - {t} \<and> x_running x' = x_running x \<and> x_log x' = x_log x \<and>
    (x_state x' = x_state x \<or> x_state x' = RCleanUp)"
proof -
  have inv: "core g prio x" "progress g x" "counts c g x" using assms(3) by (simp_all add: exec_inv_def)
  obtain stamp where st: "dget (x_stamps x) t = Some stamp" using assms(4) by (rule dget_keyE)
  let ?y = "release_stamp t x"
  have y: "?y = x\<lparr>x_stamps2 := remove1 stamp (x_stamps2 x), x_stamps := ddel t (x_stamps x)\<rparr>"
    using st by (simp add: release_stamp_def)
  have t: "t \<in> set (x_running x)" "t \<notin> set (x_complete x)" "t \<notin> set (x_failed x)" "dwf (x_stamps x)"
    using inv(3) assms(4) by (auto simp: counts_def)
  have len: "Suc (length (ddel t (x_stamps x))) = length (x_stamps x)"
    using t(4) assms(4) by (rule dwf_ddel_length)
  show ?thesis
  proof (cases "status = 0")
    case True
    let ?z = "on_stats (taskCompleted 1) ?y"
    have "core g prio ?z" "progress g ?z" using inv(1,2) by (simp_all add: y core_def progress_def on_stats_def)
    moreover have "task_completeoutright t ?z = Inr x'"
      using assms(1) True by (simp add: process_report_def task_complete_def)
    ultimately have c: "core g prio x'" "progress g x'" "rest_of x' = rest_of ?z" "x_complete x' = x_complete x @ [t]"
      using completeoutright_ok [of t ?z x' g prio] assms(2) t(1,2) by (simp_all add: y on_stats_def sadd_def)
    then show ?thesis
      using inv(3) t len
      by (auto simp: exec_inv_def counts_def y rest_of_def on_stats_def taskCompleted_def)
  next
    case False
    then obtain abort where "x' = (let z = (on_stats taskFailed ?y)\<lparr>x_failed := x_failed (on_stats taskFailed ?y) @ [t]\<rparr>
        in if abort then z\<lparr>x_state := RCleanUp\<rparr> else z)"
      using assms(1)
      by (auto simp: process_report_def task_fail_def res_simps Let_def on_stats_def split: option.splits)
    then have x': "x' = (if abort then (on_stats taskFailed ?y)\<lparr>x_failed := x_failed x @ [t], x_state := RCleanUp\<rparr>
        else (on_stats taskFailed ?y)\<lparr>x_failed := x_failed x @ [t]\<rparr>)"
      by (simp add: y on_stats_def Let_def)
    have "core g prio x'" "progress g x'"
      using inv(1,2) by (simp_all add: x' y core_def progress_def on_stats_def)
    moreover have "counts c g x'"
      using inv(3) t len by (auto simp: counts_def x' y on_stats_def taskFailed_def)
    ultimately show ?thesis by (auto simp: exec_inv_def x' y on_stats_def)
  qed
qed

text \<open>Workers only report tasks they were given and have not reported yet; they may also die.\<close>

fun reports_ok :: "string set \<Rightarrow> report list \<Rightarrow> bool" where
  "reports_ok S [] = True"
| "reports_ok S (Exited t status # rs) = (t \<in> S \<and> reports_ok (S - {t}) rs)"
| "reports_ok S (Died # rs) = reports_ok S rs"

lemma read_workers_ok:
  "read_workers c rs x = Inr x' \<Longrightarrow> graph_wf g \<Longrightarrow> exec_inv c g prio x \<Longrightarrow> reports_ok (in_flight x) rs \<Longrightarrow>
     exec_inv c g prio x' \<and> x_running x' = x_running x \<and> x_log x' = x_log x \<and>
     (x_state x' = x_state x \<or> x_state x' = RCleanUp \<or> Died \<in> set rs)"
  unfolding read_workers_def
proof (induction rs arbitrary: x)
  case Nil
  then show ?case by simp
next
  case (Cons r rs)
  then obtain x1 where x1: "process_report c r x = Inr x1" "rfold (process_report c) rs x1 = Inr x'"
    by (auto elim: rbind_InrE)
  show ?case
  proof (cases r)
    case (Exited t status)
    note one = report_ok [OF x1(1) [unfolded Exited] Cons.prems(2,3)]
    have t: "t \<in> in_flight x" "reports_ok (in_flight x - {t}) rs" using Cons.prems(4) Exited by simp_all
    from one [OF t(1)] have o: "exec_inv c g prio x1" "in_flight x1 = in_flight x - {t}" "x_running x1 = x_running x"
      "x_log x1 = x_log x" "x_state x1 = x_state x \<or> x_state x1 = RCleanUp"
      by blast+
    have "reports_ok (in_flight x1) rs" unfolding o(2) by (rule t(2))
    note rest = Cons.IH [OF x1(2) Cons.prems(2) o(1) this]
    then show ?thesis using o(3-5) by (metis list.set_intros(2))
  next
    case Died
    then have "x1 = finish_now x" using x1(1) by (simp add: process_report_def)
    then have "exec_inv c g prio x1" "x_stamps x1 = x_stamps x" "x_running x1 = x_running x" "x_log x1 = x_log x"
      using Cons.prems(3) by (auto simp: finish_now_def exec_inv_def core_def progress_def counts_def)
    then show ?thesis using Cons.IH [OF x1(2) Cons.prems(2)] Cons.prems(4) Died by simp
  qed
qed

section \<open>One step of execute\<close>

lemma next_task_spec:
  assumes "sched_wf (dkeys g) (prio_list kind g) s" "next_buildable_task (dkeys g) running in_use s = Inr (best, s')"
  shows "sched_wf (dkeys g) (prio_list kind g) s' \<and> sc_buildable s' = waiting running s \<and>
    (\<forall>t. best = Some t \<longrightarrow> t \<in> set (waiting running s)) \<and>
    (best = None \<longrightarrow> in_use = [] \<longrightarrow> waiting running s = [])"
proof (cases "kind = Completion")
  case True
  then show ?thesis
    using completion.next_spec [of g s running in_use] assms
    by (cases best) (auto simp: prio_list_def completion.best_of_def)
next
  case False
  then show ?thesis
    using speed.next_spec [of g s running in_use] assms
    by (cases best) (auto simp: prio_list_def speed.best_of_def)
qed

lemma waiting_again: "sc_buildable s' = waiting running s \<Longrightarrow> set (waiting running s') = set (waiting running s)"
  by (auto simp: waiting_def)

lemma exec_inv_sched:
  "exec_inv c g prio x \<Longrightarrow> sched_wf (dkeys g) prio s \<Longrightarrow>
     set (waiting (x_running x) s) = set (waiting (x_running x) (x_sched x)) \<Longrightarrow> exec_inv c g prio (x\<lparr>x_sched := s\<rparr>)"
  by (simp add: exec_inv_def core_def progress_def counts_def)

lemma ask_ok:
  assumes "ask_scheduler c x = Inr (task, x')" "exec_inv c g (prio_list kind g) x"
  shows "exec_inv c g (prio_list kind g) x' \<and> (\<exists>s. x' = x\<lparr>x_sched := s\<rparr>) \<and>
    (\<forall>t. task = Some t \<longrightarrow> t \<in> set (x_buildable x) \<and> t \<notin> set (x_running x) \<and> st_active (x_stats x) < ec_number_tasks c) \<and>
    (task = None \<longrightarrow> x_stamps x = [] \<longrightarrow> 0 < ec_number_tasks c \<longrightarrow> set (x_buildable x) = set (x_running x))"
proof -
  let ?p = "prio_list kind g"
  have inv: "core g ?p x" "counts c g x" using assms(2) by (simp_all add: exec_inv_def)
  have keys: "dkeys (x_entries x) = dkeys g" and wf: "sched_wf (dkeys g) ?p (x_sched x)"
    and w: "set (waiting (x_running x) (x_sched x)) = set (x_buildable x) - set (x_running x)"
    and sub: "set (x_running x) \<subseteq> set (x_buildable x)"
    using inv(1) by (simp_all add: core_def)
  obtain s where s: "sched_next (dkeys g) (st_active (x_stats x)) (ec_number_tasks c) (x_running x)
      (map snd (x_stamps x)) (x_sched x) = Inr (task, s)" "x' = x\<lparr>x_sched := s\<rparr>"
    using assms(1) by (auto simp: ask_scheduler_def keys res_simps)
  show ?thesis
  proof (cases "st_active (x_stats x) < ec_number_tasks c")
    case True
    then have n: "next_buildable_task (dkeys g) (x_running x) (map snd (x_stamps x)) (x_sched x) = Inr (task, s)"
      using s(1) by (simp add: sched_next_def)
    have sp: "sched_wf (dkeys g) ?p s" "sc_buildable s = waiting (x_running x) (x_sched x)"
      "\<And>t. task = Some t \<Longrightarrow> t \<in> set (waiting (x_running x) (x_sched x))"
      "task = None \<Longrightarrow> map snd (x_stamps x) = [] \<Longrightarrow> waiting (x_running x) (x_sched x) = []"
      using next_task_spec [OF wf n] by blast+
    have "exec_inv c g ?p x'" unfolding s(2) by (rule exec_inv_sched [OF assms(2) sp(1) waiting_again [OF sp(2)]])
    then show ?thesis using s(2) True sp(3,4) w sub by auto
  next
    case False
    then have none: "s = x_sched x" "task = None" using s(1) by (auto simp: sched_next_def)
    have "exec_inv c g ?p x'" unfolding s(2) none(1) by (rule exec_inv_sched [OF assms(2) wf refl])
    moreover have "st_active (x_stats x) = int (length (x_stamps x))" using inv(2) by (simp add: counts_def)
    ultimately show ?thesis using s(2) none(2) False by auto
  qed
qed

lemma exec_inv_cache: "exec_inv c g prio (x\<lparr>x_cache := k\<rparr>) = exec_inv c g prio x"
  by (simp add: exec_inv_def core_def progress_def counts_def)

lemma exec_inv_state: "exec_inv c g prio (x\<lparr>x_state := s\<rparr>) = exec_inv c g prio x"
  by (simp add: exec_inv_def core_def progress_def counts_def)

lemma check_task_frame:
  "check_task v tid name recurse x = Inr (b, x') \<Longrightarrow> \<exists>k. x' = x\<lparr>x_cache := k\<rparr>"
  by (auto simp: check_task_def res_simps)

text \<open>A task that needs no work: it is active for a moment and complete at once.\<close>

lemma noexec_ok:
  assumes "task_complete t y = Inr x'"
    and "y = on_stats taskActive (x\<lparr>x_running := sadd t (x_running x)\<rparr>) \<or>
      (\<exists>mc taskname taskfn.
         y = log_effect (MakeStamp taskname mc taskfn) (on_stats taskActive (x\<lparr>x_running := sadd t (x_running x)\<rparr>)))"
    and "graph_wf g" "exec_inv c g prio x" "t \<in> set (x_buildable x)" "t \<notin> set (x_running x)"
  shows "exec_inv c g prio x' \<and> x_running x' = x_running x @ [t] \<and> x_state x' = x_state x \<and>
    started_tasks (x_log x') = started_tasks (x_log x)"
proof -
  let ?z = "on_stats (taskCompleted 1) y"
  have inv: "core g prio x" "progress g x" "counts c g x" using assms(4) by (simp_all add: exec_inv_def)
  have tk: "t \<notin> set (x_complete x)" "t \<notin> set (x_failed x)" "t \<notin> in_flight x"
    using inv(1,3) assms(6) by (auto simp: core_def counts_def)
  have fields: "x_running ?z = x_running x @ [t]" "started_tasks (x_log ?z) = started_tasks (x_log x)"
    "x_state ?z = x_state x" "x_stamps ?z = x_stamps x" "x_failed ?z = x_failed x" "x_complete ?z = x_complete x"
    "x_entries ?z = x_entries x" "x_buildable ?z = x_buildable x" "x_sched ?z = x_sched x"
    "st_active (x_stats ?z) = st_active (x_stats x)" "st_completed (x_stats ?z) = st_completed (x_stats x) + 1"
    "st_failed (x_stats ?z) = st_failed (x_stats x)" "st_total (x_stats ?z) = st_total (x_stats x)"
    using assms(2,6) by (auto simp: on_stats_def taskActive_def taskCompleted_def log_effect_def sadd_def)
  have "core g prio ?z" using inv(1) assms(5) unfolding core_def fields by (auto simp: waiting_def)
  moreover have "progress g ?z" using inv(2) unfolding progress_def fields .
  moreover have "t \<in> set (x_running ?z)" unfolding fields by simp
  moreover have "task_completeoutright t ?z = Inr x'" using assms(1) by (simp add: task_complete_def)
  ultimately have c: "core g prio x'" "progress g x'" "rest_of x' = rest_of ?z" "x_complete x' = sadd t (x_complete ?z)"
    using completeoutright_ok [OF _ assms(3)] by blast+
  then have fields': "x_running x' = x_running x @ [t]" "started_tasks (x_log x') = started_tasks (x_log x)"
    "x_state x' = x_state x" "x_stamps x' = x_stamps x" "x_failed x' = x_failed x" "x_complete x' = x_complete x @ [t]"
    "st_active (x_stats x') = st_active (x_stats x)" "st_completed (x_stats x') = st_completed (x_stats x) + 1"
    "st_failed (x_stats x') = st_failed (x_stats x)" "st_total (x_stats x') = st_total (x_stats x)"
    using fields tk(1) unfolding rest_of_def by (simp_all add: sadd_def)
  have "counts c g x'" using inv(3) tk assms(6) unfolding counts_def fields' by auto
  then show ?thesis using c fields' by (simp add: exec_inv_def)
qed

text \<open>A task that is sent to a worker.\<close>

lemma build_taskdepdata_graph:
  assumes "build_taskdepdata dcs t g = Inr (info, g')"
  shows "dkeys g' = dkeys g" "revs g' u = revs g u" "u \<noteq> t \<Longrightarrow> deps g' u = deps g u"
proof -
  obtain e where e: "dget g t = Some e" "g' = dset t (e\<lparr>rt_depends := sadd t (rt_depends e)\<rparr>) g"
    using assms by (auto simp: build_taskdepdata_def res_simps Let_def)
  show "dkeys g' = dkeys g" unfolding e(2) by (rule dkeys_dset_present [OF dget_SomeD [OF e(1)]])
  show "revs g' u = revs g u" "u \<noteq> t \<Longrightarrow> deps g' u = deps g u" using e by (auto simp: revs_def deps_def)
qed

lemma start_ok:
  assumes "start_task c v t mc taskname taskfn taskdep x = Inr (b, x')" "exec_inv c g prio x"
    "t \<in> set (x_buildable x)" "t \<notin> set (x_running x)" "st_active (x_stats x) < ec_number_tasks c" "\<And>mc. ec_spawn c mc"
  shows "b \<and> exec_inv c g prio x' \<and> x_running x' = x_running x @ [t] \<and> x_state x' = x_state x \<and>
    started_tasks (x_log x') = started_tasks (x_log x) @ [t] \<and> st_active (x_stats x') = st_active (x_stats x) + 1"
proof -
  have inv: "core g prio x" "progress g x" "counts c g x" using assms(2) by (simp_all add: exec_inv_def)
  have tk: "t \<notin> set (x_complete x)" "t \<notin> set (x_failed x)" "t \<notin> in_flight x" "t \<notin> set (started_tasks (x_log x))"
    using inv(1,3) assms(4) by (auto simp: core_def counts_def)
  obtain info g' where bt: "build_taskdepdata (sv_dcs v) t (x_entries x) = Inr (info, g')"
    using assms(1) by (auto simp: start_task_def res_simps)
  note bg = build_taskdepdata_graph [OF bt]
  define fake where "fake = (task_flag taskdep ''fakeroot'' taskname \<noteq> None \<and> \<not> ec_dry_run c)"
  define fk where "fk = (if fake then sadd mc (x_fakeworkers x) else x_fakeworkers x)"
  obtain stamp where b: "b" and x': "x' = on_stats taskActive
      (x\<lparr>x_entries := g', x_fakeworkers := fk, x_log := x_log x @ [RunTask fake taskfn t taskname False info],
         x_stamps := dset t stamp (x_stamps x), x_stamps2 := x_stamps2 x @ [stamp], x_running := sadd t (x_running x)\<rparr>)"
    using assms(1,6) bt
    by (auto simp: start_task_def res_simps Let_def log_effect_def register_running_def
        fake_def fk_def simp del: not_None_eq)
  have fields: "x_running x' = x_running x @ [t]" "x_state x' = x_state x" "x_complete x' = x_complete x"
    "x_failed x' = x_failed x" "x_stamps x' = x_stamps x @ [(t, stamp)]" "x_entries x' = g'"
    "x_buildable x' = x_buildable x" "x_sched x' = x_sched x"
    "started_tasks (x_log x') = started_tasks (x_log x) @ [t]" "st_active (x_stats x') = st_active (x_stats x) + 1"
    "st_completed (x_stats x') = st_completed (x_stats x)" "st_failed (x_stats x') = st_failed (x_stats x)"
    "st_total (x_stats x') = st_total (x_stats x)"
    using assms(4) dset_absent [OF tk(3), of stamp] by (simp_all add: x' on_stats_def taskActive_def sadd_def)
  have "core g prio x'" using inv(1) assms(3) bg unfolding core_def fields by (auto simp: waiting_def)
  moreover have "progress g x'" using inv(2) unfolding progress_def fields .
  moreover have "counts c g x'"
    using inv(3) tk assms(4,5) unfolding counts_def fields by (auto simp: dwf_def)
  ultimately show ?thesis using b fields by (simp add: exec_inv_def)
qed

text \<open>The task the scheduler chose has been dealt with: it is running, and what returns at once leaves the state alone.\<close>

lemma run_task_ok:
  assumes "run_task c v t x = Inr (return, x')" "graph_wf g" "exec_inv c g prio x"
    "t \<in> set (x_buildable x)" "t \<notin> set (x_running x)" "st_active (x_stats x) < ec_number_tasks c" "\<And>mc. ec_spawn c mc"
  shows "exec_inv c g prio x' \<and> x_running x' = x_running x @ [t] \<and> x_state x' = x_state x \<and>
    set (started_tasks (x_log x')) \<subseteq> insert t (set (started_tasks (x_log x))) \<and>
    (\<not> return \<longrightarrow> ec_number_tasks c \<le> st_active (x_stats x'))"
proof -
  obtain mc fn taskname taskfn where tid: "split_tid_mcfn t = Inr (mc, fn, taskname, taskfn)"
    using assms(1) by (auto simp: run_task_def res_simps)
  consider (skip) k where "task_skip t (x\<lparr>x_cache := k\<rparr>) = Inr x'" "return"
    | (noexec) k y where "task_complete t y = Inr x'" "return"
        "y = on_stats taskActive (x\<lparr>x_cache := k, x_running := sadd t (x_running x)\<rparr>) \<or>
         y = log_effect (MakeStamp taskname mc taskfn) (on_stats taskActive (x\<lparr>x_cache := k, x_running := sadd t (x_running x)\<rparr>))"
    | (start) k b taskdep where "start_task c v t mc taskname taskfn taskdep (x\<lparr>x_cache := k\<rparr>) = Inr (b, x')"
        "return = (\<not> b \<or> st_active (x_stats x') < ec_number_tasks c)"
  proof (cases "t \<in> set (x_covered x)")
    case True
    then have "task_skip t (x\<lparr>x_cache := x_cache x\<rparr>) = Inr x'" "return"
      using assms(1) tid by (auto simp: run_task_def res_simps)
    then show ?thesis by (rule skip)
  next
    case False
    then obtain current x1 where c: "check_task v t taskname False x = Inr (current, x1)"
      "(if current then rbind (task_skip t x1) (\<lambda>x. Inr (True, x))
         else rbind (dlookup (sv_dcs v) mc) (\<lambda>dc.
              rbind (dlookup (c_task_deps dc) taskfn) (\<lambda>taskdep.
                if noexec taskdep taskname then
                  let x = on_stats taskActive (x1\<lparr>x_running := sadd t (x_running x1)\<rparr>);
                      x = (if ec_dry_run c then x else log_effect (MakeStamp taskname mc taskfn) x)
                  in rbind (task_complete t x) (\<lambda>x. Inr (True, x))
                else rbind (start_task c v t mc taskname taskfn taskdep x1) (\<lambda>(started, x).
                  Inr (\<not> started \<or> st_active (x_stats x) < ec_number_tasks c, x))))) = Inr (return, x')"
      using assms(1) tid by (auto simp: run_task_def rbind_Inr_iff)
    obtain k where x1: "x1 = x\<lparr>x_cache := k\<rparr>" using check_task_frame [OF c(1)] by blast
    show ?thesis
    proof (cases current)
      case True
      then show ?thesis using c(2) skip [of k] x1 by (auto simp: rbind_Inr_iff)
    next
      case False
      then obtain dc taskdep where d: "dget (sv_dcs v) mc = Some dc" "dget (c_task_deps dc) taskfn = Some taskdep"
        using c(2) by (auto simp: rbind_Inr_iff)
      show ?thesis
      proof (cases "noexec taskdep taskname")
        case True
        let ?a = "on_stats taskActive (x\<lparr>x_cache := k, x_running := sadd t (x_running x)\<rparr>)"
        let ?y = "if ec_dry_run c then ?a else log_effect (MakeStamp taskname mc taskfn) ?a"
        have "task_complete t ?y = Inr x'" "return"
          using c(2) False d True x1 by (auto simp: rbind_Inr_iff Let_def dlookup_def)
        then show ?thesis using noexec [of ?y k] by simp
      next
        case nex: False
        then show ?thesis using c(2) False d x1 start [of taskdep k] by (auto simp: rbind_Inr_iff dlookup_def)
      qed
    qed
  qed
  then show ?thesis
  proof cases
    case skip
    have "exec_inv c g prio (x\<lparr>x_cache := k\<rparr>)" using assms(3) by (simp add: exec_inv_cache)
    from skip_ok [OF skip(1) assms(2) this] show ?thesis using assms(4,5) skip(2) by auto
  next
    case noexec
    have "exec_inv c g prio (x\<lparr>x_cache := k\<rparr>)" using assms(3) by (simp add: exec_inv_cache)
    moreover have "y = on_stats taskActive ((x\<lparr>x_cache := k\<rparr>)\<lparr>x_running := sadd t (x_running (x\<lparr>x_cache := k\<rparr>))\<rparr>) \<or>
      (\<exists>mc taskname taskfn. y = log_effect (MakeStamp taskname mc taskfn)
         (on_stats taskActive ((x\<lparr>x_cache := k\<rparr>)\<lparr>x_running := sadd t (x_running (x\<lparr>x_cache := k\<rparr>))\<rparr>)))"
      using noexec(3) by auto
    ultimately have "exec_inv c g prio x'" "x_running x' = x_running x @ [t]" "x_state x' = x_state x"
      "started_tasks (x_log x') = started_tasks (x_log x)"
      using noexec_ok [OF noexec(1) _ assms(2), of "x\<lparr>x_cache := k\<rparr>" c prio] assms(4,5) by simp_all
    then show ?thesis using noexec(2) by auto
  next
    case start
    have "exec_inv c g prio (x\<lparr>x_cache := k\<rparr>)" using assms(3) by (simp add: exec_inv_cache)
    from start_ok [OF start(1) this] show ?thesis using assms(4-7) start(2) by auto
  qed
qed

lemma skip_all_ok:
  "skip_all n c v x = Inr x' \<Longrightarrow> graph_wf g \<Longrightarrow> exec_inv c g (prio_list kind g) x \<Longrightarrow>
     exec_inv c g (prio_list kind g) x' \<and> x_log x' = x_log x"
proof (induction n arbitrary: x)
  case 0
  then show ?case by simp
next
  case (Suc n)
  obtain task y where ask: "ask_scheduler c x = Inr (task, y)"
    using Suc.prems(1) by (auto elim: rbind_InrE)
  obtain s where y: "exec_inv c g (prio_list kind g) y" "y = x\<lparr>x_sched := s\<rparr>"
    using ask_ok [OF ask Suc.prems(3)] by blast
  show ?case
  proof (cases task)
    case None
    have "x_log y = x_log x" by (simp add: y(2))
    moreover have "x' = y" using Suc.prems(1) ask None by simp
    ultimately show ?thesis using y(1) by simp
  next
    case (Some t)
    then have t: "t \<in> set (x_buildable y)" "t \<notin> set (x_running y)"
      using ask_ok [OF ask Suc.prems(3)] y(2) by auto
    obtain z where z: "task_skip t y = Inr z" "skip_all n c v z = Inr x'"
      using Suc.prems(1) ask Some by (auto elim!: rbind_InrE)
    have "exec_inv c g (prio_list kind g) z" "x_log z = x_log y"
      using skip_ok [OF z(1) Suc.prems(2) y(1) t] by blast+
    then show ?thesis using Suc.IH [OF z(2) Suc.prems(2)] y(2) by simp
  qed
qed

lemma enforce_ok:
  assumes "enforce_whitelist c v x = Inr (stopped, x')" "graph_wf g" "exec_inv c g (prio_list kind g) x"
  shows "exec_inv c g (prio_list kind g) x' \<and> x_log x' = x_log x \<and>
    (if stopped then x_state x' = RCleanUp else x_state x' = x_state x \<and> x_running x' = x_running x \<and> x_stamps x' = x_stamps x)"
proof -
  have checked: "exec_inv c g (prio_list kind g) (x\<lparr>x_checked := True\<rparr>)"
    using assms(3) by (simp add: exec_inv_def core_def progress_def counts_def)
  consider "\<not> stopped" "x' = x \<or> x' = x\<lparr>x_checked := True\<rparr>"
    | y where "stopped" "skip_all (Suc (length (x_entries x))) c v (x\<lparr>x_checked := True\<rparr>) = Inr y"
      "x' = y\<lparr>x_state := RCleanUp\<rparr>"
    using assms(1) by (auto simp: enforce_whitelist_def Let_def rbind_Inr_iff simp del: skip_all.simps split: if_splits)
  then show ?thesis
  proof cases
    case 1
    then show ?thesis using assms(3) checked by auto
  next
    case 2
    then show ?thesis using skip_all_ok [OF 2(2) assms(2) checked] by (simp add: exec_inv_state)
  qed
qed

lemma execute_body_ok:
  assumes "execute_body c v rs x = Inr (return, x')" "graph_wf g" "exec_inv c g (prio_list kind g) x"
    "reports_ok (in_flight x) rs" "\<And>mc. ec_spawn c mc" "0 < ec_number_tasks c"
  shows "exec_inv c g (prio_list kind g) x'"
    and "x_state x' = x_state x \<or> x_state x' = RCleanUp \<or> Died \<in> set rs"
    and "return \<Longrightarrow> x_state x' \<noteq> RCleanUp \<Longrightarrow> length (x_running x) < length (x_running x')"
    and "\<not> return \<Longrightarrow> x_stamps x' = [] \<Longrightarrow> set (x_buildable x') = set (x_running x')"
proof -
  let ?inv = "exec_inv c g (prio_list kind g)"
  obtain stopped x1 where e: "enforce_whitelist c v x = Inr (stopped, x1)"
    using assms(1) by (auto simp: execute_body_def elim: rbind_InrE)
  note eok = enforce_ok [OF e assms(2,3)]
  have "?inv x' \<and> (x_state x' = x_state x \<or> x_state x' = RCleanUp \<or> Died \<in> set rs) \<and>
    (return \<longrightarrow> x_state x' \<noteq> RCleanUp \<longrightarrow> length (x_running x) < length (x_running x')) \<and>
    (\<not> return \<longrightarrow> x_stamps x' = [] \<longrightarrow> set (x_buildable x') = set (x_running x'))"
  proof (cases stopped)
    case True
    then have "x' = x1" "return" using assms(1) e by (auto simp: execute_body_def)
    then show ?thesis using eok True by simp
  next
    case False
    obtain x2 where x2: "read_workers c rs x1 = Inr x2"
      using assms(1) e False by (auto simp: execute_body_def elim: rbind_InrE)
    let ?x3 = "if st_total (x_stats x2) = 0 then x2\<lparr>x_state := RCleanUp\<rparr> else x2"
    have "reports_ok (in_flight x1) rs" using assms(4) eok False by simp
    note rok = read_workers_ok [OF x2 assms(2) _ this]
    have x2': "?inv x2" "x_running x2 = x_running x" "x_state x2 = x_state x \<or> x_state x2 = RCleanUp \<or> Died \<in> set rs"
      using rok eok False by auto
    have x3: "?inv ?x3" "x_running ?x3 = x_running x" "x_state ?x3 = x_state x \<or> x_state ?x3 = RCleanUp \<or> Died \<in> set rs"
      using x2' by (auto simp: exec_inv_state)
    obtain task x4 where ask: "ask_scheduler c ?x3 = Inr (task, x4)"
      "(case task of None \<Rightarrow> Inr (False, x4) | Some t \<Rightarrow> run_task c v t x4) = Inr (return, x')"
      using assms(1) e False x2 by (auto simp: execute_body_def Let_def elim: rbind_InrE)
    note aok = ask_ok [OF ask(1) x3(1)]
    obtain s where x4: "x4 = ?x3\<lparr>x_sched := s\<rparr>" "?inv x4" using aok by blast
    show ?thesis
    proof (cases task)
      case None
      then have "x' = x4" "\<not> return" using ask(2) by auto
      then show ?thesis using x4 x3(3) aok None assms(6) by auto
    next
      case (Some t)
      then have run: "run_task c v t x4 = Inr (return, x')" using ask(2) by simp
      have t: "t \<in> set (x_buildable x4)" "t \<notin> set (x_running x4)" "st_active (x_stats x4) < ec_number_tasks c"
        using aok Some x4(1) by auto
      note rt = run_task_ok [OF run assms(2) x4(2) t assms(5)]
      have "st_active (x_stats x') = int (length (x_stamps x'))" using rt by (simp add: exec_inv_def counts_def)
      then show ?thesis using rt x4(1) x3(2,3) assms(6) by auto
    qed
  qed
  then show "?inv x'" "x_state x' = x_state x \<or> x_state x' = RCleanUp \<or> Died \<in> set rs"
    "return \<Longrightarrow> x_state x' \<noteq> RCleanUp \<Longrightarrow> length (x_running x) < length (x_running x')"
    "\<not> return \<Longrightarrow> x_stamps x' = [] \<Longrightarrow> set (x_buildable x') = set (x_running x')"
    by blast+
qed

lemma wind_up_ok:
  assumes "wind_up c rs x = Inr (r, x')" "graph_wf g" "exec_inv c g prio x" "reports_ok (in_flight x) rs"
  shows "exec_inv c g prio x'"
    and "x_state x' = RComplete \<Longrightarrow> x_state x \<noteq> RComplete \<Longrightarrow> Died \<in> set rs \<or> (x_stamps x = [] \<and> x_failed x = [] \<and>
      x_running x' = x_running x \<and> x_complete x' = x_complete x \<and> x_buildable x' = x_buildable x \<and> x_entries x' = x_entries x)"
    and "r = Again \<Longrightarrow> x_state x' = RFailed \<or> x_state x' = RComplete"
proof -
  have act: "st_active (x_stats x) = int (length (x_stamps x))" using assms(3) by (simp add: exec_inv_def counts_def)
  show "exec_inv c g prio x'"
    using assms read_workers_ok [OF _ assms(2,3,4)]
    by (auto simp: wind_up_def rbind_Inr_iff exec_inv_state split: if_splits)
  show "x_state x' = RComplete \<Longrightarrow> x_state x \<noteq> RComplete \<Longrightarrow> Died \<in> set rs \<or> (x_stamps x = [] \<and> x_failed x = [] \<and>
      x_running x' = x_running x \<and> x_complete x' = x_complete x \<and> x_buildable x' = x_buildable x \<and> x_entries x' = x_entries x)"
    using assms(1) act read_workers_ok [OF _ assms(2,3,4)]
    by (auto simp: wind_up_def rbind_Inr_iff split: if_splits)
  show "r = Again \<Longrightarrow> x_state x' = RFailed \<or> x_state x' = RComplete"
    using assms(1) by (auto simp: wind_up_def rbind_Inr_iff split: if_splits)
qed

section \<open>The initial state and all runs\<close>

lemma invalid_step_frame:
  assumes "invalid_step v tid xs = Inr ys"
  shows "\<exists>k. fst ys = (fst xs)\<lparr>x_cache := k\<rparr>"
proof -
  have same: "\<exists>k. x = x\<lparr>x_cache := k\<rparr>" for x :: texec by (rule exI [of _ "x_cache x"]) simp
  obtain mc fn taskname taskfn dc taskdep where s: "split_tid_mcfn tid = Inr (mc, fn, taskname, taskfn)"
    "dlookup (sv_dcs v) mc = Inr dc" "dlookup (c_task_deps dc) taskfn = Inr taskdep"
    using assms by (auto simp: invalid_step_def rbind_Inr_iff)
  show ?thesis
  proof (cases "noexec taskdep taskname")
    case True
    then show ?thesis using assms s same [of "fst xs"] by (simp add: invalid_step_def)
  next
    case False
    then obtain b1 x1 where c1: "check_task v tid (taskname @ ''_setscene'') False (fst xs) = Inr (b1, x1)"
      "(if b1 then Inr (x1, snd xs)
        else rbind (check_task v tid taskname True x1) (\<lambda>(current, x).
          Inr (x, if current then snd xs else snd xs @ [tid]))) = Inr ys"
      using assms s by (simp add: invalid_step_def) (erule rbind_InrE, auto)
    obtain k where k: "x1 = (fst xs)\<lparr>x_cache := k\<rparr>" using check_task_frame [OF c1(1)] by blast
    show ?thesis
    proof (cases b1)
      case True
      then show ?thesis using c1(2) k by auto
    next
      case False
      then obtain b2 x2 where c2: "check_task v tid taskname True x1 = Inr (b2, x2)" "fst ys = x2"
        using c1(2) by simp (erule rbind_InrE, auto)
      then obtain k' where "x2 = x1\<lparr>x_cache := k'\<rparr>" using check_task_frame by blast
      then show ?thesis using k c2(2) by auto
    qed
  qed
qed

lemma tasks_to_run_frame: "tasks_to_run f v x = Inr (x', rs) \<Longrightarrow> \<exists>k. x' = x\<lparr>x_cache := k\<rparr>"
proof -
  assume a: "tasks_to_run f v x = Inr (x', rs)"
  have same: "\<exists>k. x = x\<lparr>x_cache := k\<rparr>" by (rule exI [of _ "x_cache x"]) simp
  show ?thesis
  proof (cases f)
    case None
    then show ?thesis using a same by (simp add: tasks_to_run_def)
  next
    case (Some h)
    then obtain rs' where r: "rfold (invalid_step v) (dkeys (x_entries x)) (x, []) = Inr (x', rs')"
      using a by (auto simp: tasks_to_run_def rbind_Inr_iff)
    have "\<exists>k. fst (x', rs') = x\<lparr>x_cache := k\<rparr>"
      by (rule rfold_inv [OF r]) (use same invalid_step_frame in \<open>fastforce+\<close>)
    then show ?thesis by simp
  qed
qed

definition only_uncovers :: "texec \<Rightarrow> texec \<Rightarrow> bool" where
  "only_uncovers x x' \<longleftrightarrow>
     (\<exists>cov log. x' = x\<lparr>x_covered := cov, x_log := log\<rparr> \<and> started_tasks log = started_tasks (x_log x))"

lemma only_uncovers_refl: "only_uncovers x x"
  unfolding only_uncovers_def by (intro exI [of _ "x_covered x"] exI [of _ "x_log x"]) simp

lemma only_uncovers_trans: "only_uncovers x y \<Longrightarrow> only_uncovers y z \<Longrightarrow> only_uncovers x z"
  unfolding only_uncovers_def by force

lemma remove_covered_only:
  "remove_covered v initial toremove t st = Inr st' \<Longrightarrow> only_uncovers (fst st) (fst st')"
  unfolding only_uncovers_def
  by (rule exI [of _ "x_covered (fst st')"], rule exI [of _ "x_log (fst st')"])
    (auto simp: remove_covered_def rbind_Inr_iff Let_def log_effect_def split: if_splits)

lemma uncover_loop_only: "uncover_loop v initial x toremove = Inr x' \<Longrightarrow> only_uncovers x x'"
proof (induction v initial x toremove rule: uncover_loop.induct)
  case (1 v initial x toremove)
  show ?case
  proof (cases "toremove = []")
    case True
    then show ?thesis using 1(2) by (simp add: uncover_loop.simps only_uncovers_refl)
  next
    case False
    then obtain y rest where y: "rfold (remove_covered v initial toremove) toremove (x, []) = Inr (y, rest)"
      "uncover_loop v initial y rest = Inr x'"
      using 1(2) by (subst (asm) uncover_loop.simps) (auto simp: rbind_Inr_iff)
    have "only_uncovers x (fst (y, rest))"
      by (rule rfold_inv [OF y(1)]) (auto simp: only_uncovers_refl dest: remove_covered_only intro: only_uncovers_trans)
    then show ?thesis using 1(1) [OF False y(1) refl y(2)] only_uncovers_trans by simp
  qed
qed

lemma rmap_fst: "rmap f ts = Inr ys \<Longrightarrow> (\<And>t y. f t = Inr y \<Longrightarrow> fst y = t) \<Longrightarrow> map fst ys = ts"
  by (induction ts arbitrary: ys) (auto simp: rbind_Inr_iff)

lemma sched_stamps_keys: "sched_stamps v tids = Inr stamps \<Longrightarrow> dkeys stamps = tids"
  unfolding sched_stamps_def dkeys_def by (erule rmap_fst) (auto simp: rbind_Inr_iff)

lemma tasks_init_ok:
  assumes "tasks_init c v g cov notcov fk ch = Inr x" "graph_wf g" "ec_scheduler c \<noteq> ''basic''" "0 < ec_number_tasks c"
  obtains kind where "exec_inv c g (prio_list kind g) x" "x_state x = RRunning" "scheduler_of (ec_scheduler c) = Inr kind"
proof -
  let ?x = "new_exec g (cover_loop g notcov (cover_once g cov)) notcov fk ch"
  obtain x1 toremove x2 kind stamps where i: "tasks_to_run (ec_verify c) v ?x = Inr (x1, toremove)"
    "uncover_loop v cov x1 toremove = Inr x2" "scheduler_of (ec_scheduler c) = Inr kind"
    "sched_stamps v (dkeys g) = Inr stamps" "x = x2\<lparr>x_sched := sched_init kind g stamps (x_buildable x2)\<rparr>"
    using assms(1) by (auto simp: tasks_init_def rbind_Inr_iff)
  obtain k cov' log where x2: "x2 = ?x\<lparr>x_cache := k, x_covered := cov', x_log := log\<rparr>" "started_tasks log = []"
    using tasks_to_run_frame [OF i(1)] uncover_loop_only [OF i(2)] by (auto simp: only_uncovers_def new_exec_def)
  have nb: "kind \<noteq> Basic" using i(3) assms(3) by (auto simp: scheduler_of_def split: if_splits)
  have wf: "sched_wf (dkeys g) (prio_list kind g) (sched_init kind g stamps (x_buildable x2))"
    using sched_init_wf [OF sched_stamps_keys [OF i(4)]] nb by (cases kind) (auto simp: prio_list_def)
  have "dwf g" using assms(2) by (simp add: graph_wf_def)
  have b: "t \<in> set (x_buildable x2) \<longleftrightarrow> t \<in> set (dkeys g) \<and> deps g t = []" for t
  proof -
    have "t \<in> set (x_buildable x2) \<longleftrightarrow> (\<exists>e. (t, e) \<in> set g \<and> rt_depends e = [])"
      by (force simp: x2 new_exec_def)
    also have "\<dots> \<longleftrightarrow> t \<in> set (dkeys g) \<and> deps g t = []"
      using dwf_dget [OF \<open>dwf g\<close>] by (auto simp: deps_Some dest: dget_SomeD elim: dget_keyE)
    finally show ?thesis .
  qed
  have fields: "x_entries x = g" "x_running x = []" "x_complete x = []" "x_failed x = []" "x_stamps x = []"
    "x_buildable x = x_buildable x2" "x_sched x = sched_init kind g stamps (x_buildable x2)"
    "x_stats x = stats_init (int (length g))" "x_log x = log" "x_state x = RRunning"
    by (simp_all add: i(5) x2 new_exec_def)
  have "core g (prio_list kind g) x"
    using wf b unfolding core_def fields by (auto simp: waiting_def sched_init_def)
  moreover have "progress g x" using b unfolding progress_def fields by auto
  moreover have "counts c g x"
    using x2(2) assms(4) unfolding counts_def fields by (simp add: stats_init_def dwf_def)
  ultimately show ?thesis using that i(3) fields by (simp add: exec_inv_def)
qed

text \<open>
  All states the executor can reach.  The workers report in any order and at any time, but only tasks
  they were given; the file times may be different in every step.
\<close>

inductive exec_run :: "execcfg \<Rightarrow> string graph \<Rightarrow> texec \<Rightarrow> bool" for c g where
  init: "tasks_init c v g cov notcov fk ch = Inr x \<Longrightarrow> exec_run c g x"
| step: "exec_run c g x \<Longrightarrow> reports_ok (in_flight x) rs1 \<Longrightarrow>
    (\<forall>y. execute_body c v rs1 x = Inr (False, y) \<longrightarrow> reports_ok (in_flight y) rs2) \<Longrightarrow>
    execute c v rs1 rs2 x = Inr (r, x') \<Longrightarrow> exec_run c g x'"
| finish: "exec_run c g x \<Longrightarrow> reports_ok (in_flight x) rs \<Longrightarrow> finish c rs x = Inr (r, x') \<Longrightarrow> exec_run c g x'"

lemma execute_ok:
  assumes "execute c v rs1 rs2 x = Inr (r, x')" "graph_wf g" "exec_inv c g (prio_list kind g) x"
    "reports_ok (in_flight x) rs1" "\<forall>y. execute_body c v rs1 x = Inr (False, y) \<longrightarrow> reports_ok (in_flight y) rs2"
    "\<And>mc. ec_spawn c mc" "0 < ec_number_tasks c"
  shows "exec_inv c g (prio_list kind g) x'"
proof -
  obtain return y where b: "execute_body c v rs1 x = Inr (return, y)"
    "(if return then Inr (Again, y) else wind_up c rs2 y) = Inr (r, x')"
    using assms(1) by (auto simp: execute_def rbind_Inr_iff)
  have y: "exec_inv c g (prio_list kind g) y" by (rule execute_body_ok(1) [OF b(1) assms(2,3,4,6,7)])
  show ?thesis
  proof (cases return)
    case True
    then show ?thesis using b(2) y by simp
  next
    case False
    then show ?thesis using b assms(5) wind_up_ok(1) [OF _ assms(2) y] by simp
  qed
qed

lemma finish_ok:
  assumes "finish c rs x = Inr (r, x')" "graph_wf g" "exec_inv c g prio x" "reports_ok (in_flight x) rs"
  shows "exec_inv c g prio x'"
proof -
  have "exec_inv c g prio (x\<lparr>x_state := RCleanUp\<rparr>)" using assms(3) by (simp add: exec_inv_state)
  moreover have "reports_ok (in_flight (x\<lparr>x_state := RCleanUp\<rparr>)) rs" using assms(4) by simp
  ultimately show ?thesis
    using assms(1) read_workers_ok [OF _ assms(2), of c rs "x\<lparr>x_state := RCleanUp\<rparr>"]
    by (auto simp: finish_def Let_def rbind_Inr_iff exec_inv_state split: if_splits)
qed

lemma exec_run_inv:
  assumes "exec_run c g x" "graph_wf g" "ec_scheduler c \<noteq> ''basic''" "0 < ec_number_tasks c" "\<And>mc. ec_spawn c mc"
  obtains kind where "exec_inv c g (prio_list kind g) x"
proof -
  have "\<exists>kind. scheduler_of (ec_scheduler c) = Inr kind \<and> exec_inv c g (prio_list kind g) x"
    using assms(1)
  proof (induction rule: exec_run.induct)
    case (init v cov notcov fk ch x)
    from tasks_init_ok [OF init assms(2-4)] show ?case by blast
  next
    case (step x rs1 v rs2 r x')
    then show ?case using execute_ok [OF _ assms(2) _ _ _ assms(5,4)] by blast
  next
    case (finish x rs r x')
    then show ?case using finish_ok [OF _ assms(2)] by blast
  qed
  then show ?thesis using that by blast
qed

end
