(* ===== verification/ExecutorRuns.thy ===== *)
theory ExecutorRuns
  imports ExecutorSafety
begin

text \<open>
  The properties of the runs of the executor: safety of every reachable state, completeness of a run that
  ends as complete, progress.
\<close>

section \<open>Reports never complete a run\<close>

lemma release_revdep_state: "release_revdep t x = Inr y \<Longrightarrow> x_state y = x_state x"
  by (auto simp: release_revdep_def rbind_Inr_iff setbuildable_def split: if_splits)

lemma completeoutright_state: "task_completeoutright t x = Inr y \<Longrightarrow> x_state y = x_state x"
proof -
  assume a: "task_completeoutright t x = Inr y"
  obtain e :: "string rte" where r: "rfold release_revdep (rt_revdeps e) (x\<lparr>x_complete := sadd t (x_complete x)\<rparr>) = Inr y"
    using a unfolding task_completeoutright_def by (elim rbind_InrE) blast
  show ?thesis
    by (rule rfold_inv [OF r, of "\<lambda>z. x_state z = x_state x"]) (simp_all add: release_revdep_state)
qed

lemma process_report_state:
  assumes "process_report c r x = Inr y"
  shows "x_state y = x_state x \<or> x_state y = RCleanUp \<or> r = Died"
proof (cases r)
  case (Exited task status)
  show ?thesis
  proof (cases "status = 0")
    case True
    then have "task_complete task (release_stamp task x) = Inr y"
      using assms Exited by (simp add: process_report_def)
    then show ?thesis
      by (auto simp: task_complete_def release_stamp_def on_stats_def dest!: completeoutright_state split: option.splits)
  next
    case False
    then show ?thesis using assms Exited
      by (auto simp: process_report_def task_fail_def release_stamp_def on_stats_def Let_def elim!: rbind_InrE split: option.splits)
  qed
qed simp

lemma read_workers_state:
  "read_workers c rs x = Inr y \<Longrightarrow> x_state y = x_state x \<or> x_state y = RCleanUp \<or> Died \<in> set rs"
  unfolding read_workers_def
proof (induction rs arbitrary: x)
  case (Cons r rs)
  then obtain z where "process_report c r x = Inr z" "rfold (process_report c) rs z = Inr y" by (auto elim: rbind_InrE)
  then show ?case using Cons.IH process_report_state by fastforce
qed simp

section \<open>Runs as computations\<close>

text \<open>
  One call of \<open>execute\<close> in a run: the file times it sees and what the workers report before and after
  it has found that nothing can be started.
\<close>

fun run_steps :: "execcfg \<Rightarrow> (stampview \<times> report list \<times> report list) list \<Rightarrow> texec \<Rightarrow> texec res" where
  "run_steps c [] x = Inr x"
| "run_steps c ((v, rs1, rs2) # steps) x =
     (if \<not> reports_ok (in_flight x) rs1 then Inl KeyError
      else rbind (execute_body c v rs1 x) (\<lambda>(return, y).
        if \<not> return \<and> \<not> reports_ok (in_flight y) rs2 then Inl KeyError
        else rbind (execute c v rs1 rs2 x) (\<lambda>(r, z). run_steps c steps z)))"

lemma run_steps_reach: "run_steps c steps x = Inr y \<Longrightarrow> exec_run c g x \<Longrightarrow> exec_run c g y"
proof (induction c steps x rule: run_steps.induct)
  case (2 c v rs1 rs2 steps x)
  then have ok: "reports_ok (in_flight x) rs1" by (auto split: if_splits)
  obtain return z where b: "execute_body c v rs1 x = Inr (return, z)"
    using 2(2,3) ok by (auto elim: rbind_InrE)
  have ok2: "return \<or> reports_ok (in_flight z) rs2" using 2(2,3) ok b by (auto split: if_splits)
  obtain r w where e: "execute c v rs1 rs2 x = Inr (r, w)" "run_steps c steps w = Inr y"
    using 2(2,3) ok b ok2 by (auto elim: rbind_InrE split: if_splits)
  have "exec_run c g w" by (rule exec_run.step [OF 2(3) ok _ e(1)]) (use b ok2 in auto)
  then show ?case using 2(1) ok b ok2 e by auto
qed simp

section \<open>The properties of the executor\<close>

lemma exec_inv_safe:
  assumes "exec_inv c g prio x"
  shows "distinct (started_tasks (x_log x)) \<and> set (started_tasks (x_log x)) \<subseteq> set (x_running x) \<and>
    (\<forall>t \<in> set (x_running x). set (deps g t) \<subseteq> set (x_complete x)) \<and>
    in_flight x = set (x_running x) - set (x_complete x) - set (x_failed x) \<and>
    st_active (x_stats x) = int (card (in_flight x)) \<and> st_active (x_stats x) \<le> ec_number_tasks c \<and>
    st_completed (x_stats x) + st_failed (x_stats x) + st_active (x_stats x) = int (length (x_running x))"
proof -
  have c: "core g prio x" "counts c g x" using assms by (simp_all add: exec_inv_def)
  have len: "card (in_flight x) = length (x_stamps x)"
    using c(2) distinct_card [of "dkeys (x_stamps x)"] by (simp add: counts_def dwf_def dkeys_def)
  let ?R = "set (x_running x)" and ?C = "set (x_complete x)" and ?F = "set (x_failed x)"
  have sub: "?C \<subseteq> ?R" "?F \<subseteq> ?R" "?C \<inter> ?F = {}" "in_flight x = ?R - ?C - ?F"
    using c unfolding core_def counts_def by blast+
  then have "?R = ?C \<union> ?F \<union> in_flight x" by blast
  then have "card ?R = card (?C \<union> ?F) + card (in_flight x)"
    using card_Un_disjoint [of "?C \<union> ?F" "in_flight x"] sub(4) by auto
  moreover have "card (?C \<union> ?F) = card ?C + card ?F" using sub(3) by (simp add: card_Un_disjoint)
  moreover have "card ?R = length (x_running x)" "card ?C = length (x_complete x)" "card ?F = length (x_failed x)"
    using c(2) by (simp_all add: counts_def distinct_card)
  moreover have "\<forall>t \<in> ?R. set (deps g t) \<subseteq> ?C" using c(1) unfolding core_def by blast
  ultimately show ?thesis using c(2) len unfolding counts_def by simp
qed


lemma execute_complete:
  assumes "exec_inv c g (prio_list kind g) x" "graph_wf g" "acyclic (dep_edges g)" "0 < ec_number_tasks c"
    "\<forall>mc. ec_spawn c mc" "x_state x = RRunning" "reports_ok (in_flight x) rs1" "Died \<notin> set (rs1 @ rs2)"
    "execute c v rs1 rs2 x = Inr (r, x')" "x_state x' = RComplete"
  shows "never_done x' = [] \<and> set (x_complete x') = set (dkeys g) \<and> st_completed (x_stats x') = int (length g)"
proof -
  obtain return y where b: "execute_body c v rs1 x = Inr (return, y)"
    "(if return then Inr (Again, y) else wind_up c rs2 y) = Inr (r, x')"
    using assms(9) by (auto simp: execute_def rbind_Inr_iff)
  note bok = execute_body_ok [OF b(1) assms(2,1) assms(7) assms(5) [THEN spec] assms(4)]
  have y: "x_state y \<noteq> RComplete" using bok(2) assms(6,8) by auto
  then have w: "\<not> return" "wind_up c rs2 y = Inr (r, x')" using b(2) assms(10) by (auto split: if_splits)
  have act: "st_active (x_stats y) = 0" "x_failed y = []" "x' = y\<lparr>x_state := RComplete\<rparr>"
  proof -
    have c: "core g (prio_list kind g) y" "counts c g y" using bok(1) by (simp_all add: exec_inv_def)
    have "\<not> 0 < st_active (x_stats y)"
    proof
      assume "0 < st_active (x_stats y)"
      then obtain z where "read_workers c rs2 y = Inr x'" using w(2) by (auto simp: wind_up_def rbind_Inr_iff)
      then show False using read_workers_state y assms(8,10) by fastforce
    qed
    then show "st_active (x_stats y) = 0" "x_failed y = []" "x' = y\<lparr>x_state := RComplete\<rparr>"
      using w(2) assms(10) c(2) by (auto simp: wind_up_def counts_def split: if_splits)
  qed
  have c: "core g (prio_list kind g) y" "progress g y" "counts c g y" using bok(1) by (simp_all add: exec_inv_def)
  have "x_stamps y = []" using c(3) act(1) by (simp add: counts_def)
  then have bu: "set (x_buildable y) = set (x_running y)" "set (x_running y) \<subseteq> set (x_complete y)"
    using bok(4) w(1) c(3) act(2) by (auto simp: counts_def dkeys_def)
  have all: "set (dkeys g) \<subseteq> set (x_complete y)"
  proof (rule ccontr)
    assume "\<not> set (dkeys g) \<subseteq> set (x_complete y)"
    then obtain t where "t \<in> set (dkeys g) - set (x_complete y)" "set (deps g t) \<inter> (set (dkeys g) - set (x_complete y)) = {}"
      using acyclic_minimal [OF assms(3,2), of "set (dkeys g) - set (x_complete y)"] by auto
    moreover from this have "set (deps g t) \<subseteq> set (dkeys g)" using assms(2) by (auto simp: graph_wf_def)
    ultimately show False using c(2) bu unfolding progress_def by blast
  qed
  moreover have "set (x_complete y) \<subseteq> set (dkeys g)" "dkeys (x_entries y) = dkeys g" using c(1) unfolding core_def by auto
  ultimately have eq: "set (x_complete y) = set (dkeys g)" by blast
  have "length (x_complete y) = length g"
    using c(3) assms(2) eq distinct_card [of "x_complete y"] distinct_card [of "dkeys g"]
    by (simp add: counts_def graph_wf_def dwf_def dkeys_def)
  moreover have "never_done x' = []"
    using all bu \<open>dkeys (x_entries y) = dkeys g\<close> c(1) act(3) unfolding core_def by (auto simp: never_done_def)
  ultimately show ?thesis using c(3) eq act(3) by (simp add: counts_def)
qed


text \<open>
  C6. The executor makes progress: a call of \<open>execute\<close> that asks to be called again at once and stays in
  the state \<open>runQueueRunning\<close> has started or skipped another task, which can happen at most once
  for each task of the graph.
\<close>
theorem executor_progress:
  assumes "exec_run c g x" "graph_wf g" "ec_scheduler c \<noteq> ''basic''" "0 < ec_number_tasks c" "\<forall>mc. ec_spawn c mc"
    "reports_ok (in_flight x) rs1" "execute c v rs1 rs2 x = Inr (Again, x')" "x_state x' = RRunning"
  shows "length (x_running x) < length (x_running x') \<and> length (x_running x') \<le> length g"
proof -
  obtain kind where i: "exec_inv c g (prio_list kind g) x" using exec_run_inv [OF assms(1-4)] assms(5) by blast
  obtain return y where b: "execute_body c v rs1 x = Inr (return, y)"
    "(if return then Inr (Again, y) else wind_up c rs2 y) = Inr (Again, x')"
    using assms(7) by (auto simp: execute_def rbind_Inr_iff)
  note bok = execute_body_ok [OF b(1) assms(2) i assms(6) assms(5) [THEN spec] assms(4)]
  have "return"
  proof (rule ccontr)
    assume "\<not> return"
    then have "wind_up c rs2 y = Inr (Again, x')" using b(2) by simp
    then show False using assms(8) by (auto simp: wind_up_def rbind_Inr_iff split: if_splits)
  qed
  then have "x' = y" using b(2) by simp
  moreover have "set (x_running y) \<subseteq> set (dkeys g)" "distinct (x_running y)"
    using bok(1) unfolding exec_inv_def core_def counts_def by blast+
  then have "length (x_running y) \<le> length g"
    using distinct_card [of "x_running y"] card_mono [of "set (dkeys g)"] card_length [of "dkeys g"]
    by (simp add: dkeys_def) (metis List.finite_set card_mono card_length distinct_card le_trans length_map)
  ultimately show ?thesis using bok(3) \<open>return\<close> assms(8) by simp
qed

section \<open>An example run\<close>

text \<open>Two tasks, \<open>y\<close> after \<open>x\<close>; no stamp exists, so both have to run.\<close>

definition example_cfg :: execcfg where
  "example_cfg = \<lparr>ec_number_tasks = 2, ec_scheduler = ''speed'', ec_abort = Some True, ec_dry_run = False, ec_force = False,
     ec_whitelist = None, ec_fnmatch = (=), ec_setscene_tids = [], ec_target_tids = [''a.bb:y''], ec_spawn = (\<lambda>mc. True),
     ec_verify = None, ec_depvalid = None, ec_hashvalidate = None\<rparr>"

definition example_times :: stampview where
  "example_times = example_view\<lparr>sv_time := \<lambda>p. None,
     sv_dcs := map (map_prod id (\<lambda>dc. dc\<lparr>c_pkg_fn := [(''a.bb'', ''a'')], c_fn_provides := [(''a.bb'', [''a''])]\<rparr>))
       (sv_dcs example_view)\<rparr>"

definition example_start :: "texec res" where
  "example_start = tasks_init example_cfg example_times example_graph [] [] [] False"

definition example_state :: "(report list \<times> report list) list \<Rightarrow> texec res" where
  "example_state steps = rbind example_start (run_steps example_cfg (map (Pair example_times) steps))"

lemma example_state_reach: "example_state steps = Inr x \<Longrightarrow> exec_run example_cfg example_graph x"
  unfolding example_state_def example_start_def by (erule rbind_InrE) (blast intro: exec_run.init run_steps_reach)

lemma example_cfg_ok: "ec_scheduler example_cfg \<noteq> ''basic''" "0 < ec_number_tasks example_cfg" "\<forall>mc. ec_spawn example_cfg mc"
  by (simp_all add: example_cfg_def)

lemma example_running:
  "map_sum id (\<lambda>x. (x_state x, x_log x = [], in_flight x, x_running x))
     (example_state [([], []), ([], [Exited ''a.bb:x'' 0]), ([], [])]) =
   Inr (RRunning, False, {''a.bb:y''}, [''a.bb:x'', ''a.bb:y''])"
  by code_simp



lemma executor_progress_witness:
  "\<exists>x x'. exec_run example_cfg example_graph x \<and> execute example_cfg example_times [] [] x = Inr (Again, x') \<and>
     length (x_running x) < length (x_running x') \<and> length (x_running x') \<le> 2"
proof -
  let ?s = "example_state [([], []), ([], [Exited ''a.bb:x'' 0])]"
  have "rbind ?s (\<lambda>x. rbind (execute example_cfg example_times [] [] x) (\<lambda>(r, x').
      Inr (r, x_state x'))) = Inr (Again, RRunning)"
    by code_simp
  then obtain x x' where x: "?s = Inr x" "execute example_cfg example_times [] [] x = Inr (Again, x')" "x_state x' = RRunning"
    by (auto elim!: rbind_InrE)
  have "exec_run example_cfg example_graph x" by (rule example_state_reach [OF x(1)])
  then show ?thesis
    using executor_progress [OF _ example_graph_ok(1) example_cfg_ok _ x(2,3)] x by (auto simp: example_graph_def)
qed

end
