(* ===== verification/PRTables.thy ===== *)
theory PRTables
  imports Prelude
begin

text \<open>
  The tables of the PR service, \<open>bitbake/lib/prserv/db.py\<close>: \<open>PRTable\<close> and \<open>PRData\<close>.  A table of the
  data base is a dictionary from the primary key (version, architecture, checksum) to the value, in the order
  of insertion; what the SQL statements of the code select and change is written out on it.

  The main lemmas: without history the value given for a version and an architecture never decreases,
  whatever is asked or imported in between; with history an answer once given never changes, and a new checksum gets
  a higher value than all before.  \<open>NotFoundError\<close> is never raised.
\<close>

section \<open>The data base\<close>

type_synonym prkey = "string \<times> string \<times> string"
type_synonym prrows = "(prkey, int) dict"

text \<open>\<open>select value from T where version=? and pkgarch=?\<close>, its maximum, and \<open>ifnull(max(value)+1,0)\<close>.\<close>

definition values_of :: "prrows \<Rightarrow> string \<Rightarrow> string \<Rightarrow> int list" where
  "values_of rows version pkgarch = map snd (filter (\<lambda>((v, a, c), n). v = version \<and> a = pkgarch) rows)"

definition max_value :: "prrows \<Rightarrow> string \<Rightarrow> string \<Rightarrow> int option" where
  "max_value rows version pkgarch =
     (case values_of rows version pkgarch of [] \<Rightarrow> None | n # ns \<Rightarrow> Some (fold max ns n))"

definition next_value :: "prrows \<Rightarrow> string \<Rightarrow> string \<Rightarrow> int" where
  "next_value rows version pkgarch = (case max_value rows version pkgarch of None \<Rightarrow> 0 | Some m \<Rightarrow> m + 1)"

text \<open>\<open>INSERT\<close> fails on a key that is there; \<open>INSERT OR REPLACE\<close> takes the old row away first.\<close>

definition sql_insert :: "prkey \<Rightarrow> int \<Rightarrow> prrows \<Rightarrow> prrows option" where
  "sql_insert k n rows = (if k \<in> set (dkeys rows) then None else Some (rows @ [(k, n)]))"

definition sql_replace :: "prkey \<Rightarrow> int \<Rightarrow> prrows \<Rightarrow> prrows" where
  "sql_replace k n rows = ddel k rows @ [(k, n)]"

definition sql_update_less :: "prkey \<Rightarrow> int \<Rightarrow> prrows \<Rightarrow> prrows" where
  "sql_update_less k n rows = map (\<lambda>(k', m). (k', if k' = k \<and> m < n then n else m)) rows"

section \<open>PRTable\<close>

record prtable =
  pt_nohist :: bool
  pt_dirty :: bool
  pt_rows :: prrows

definition fetch_value :: "prkey \<Rightarrow> prrows \<Rightarrow> int res" where
  "fetch_value k rows = (case dget rows k of None \<Rightarrow> Inl NotFoundError | Some n \<Rightarrow> Inr n)"

definition getValueHist :: "string \<Rightarrow> string \<Rightarrow> string \<Rightarrow> prtable \<Rightarrow> (int \<times> prtable) res" where
  "getValueHist version pkgarch checksum t =
     (let k = (version, pkgarch, checksum); rows = pt_rows t
      in case dget rows k of
           Some n \<Rightarrow> Inr (n, t)
         | None \<Rightarrow>
             let rows = (case sql_insert k (next_value rows version pkgarch) rows of None \<Rightarrow> rows | Some r \<Rightarrow> r);
                 t = t\<lparr>pt_rows := rows, pt_dirty := True\<rparr>
             in rbind (fetch_value k rows) (\<lambda>n. Inr (n, t)))"

text \<open>The first statement only finds a row that holds the highest value of its version and architecture.\<close>

definition select_top :: "prkey \<Rightarrow> prrows \<Rightarrow> int option" where
  "select_top k rows =
     (case (dget rows k, max_value rows (fst k) (fst (snd k))) of
        (Some n, Some m) \<Rightarrow> if n \<ge> m then Some n else None
      | _ \<Rightarrow> None)"

definition getValueNohist :: "string \<Rightarrow> string \<Rightarrow> string \<Rightarrow> prtable \<Rightarrow> (int \<times> prtable) res" where
  "getValueNohist version pkgarch checksum t =
     (let k = (version, pkgarch, checksum); rows = pt_rows t
      in case select_top k rows of
           Some n \<Rightarrow> Inr (n, t)
         | None \<Rightarrow>
             let rows = sql_replace k (next_value rows version pkgarch) rows
             in rbind (fetch_value k rows) (\<lambda>n. Inr (n, t\<lparr>pt_rows := rows, pt_dirty := True\<rparr>)))"

definition getValue :: "string \<Rightarrow> string \<Rightarrow> string \<Rightarrow> prtable \<Rightarrow> (int \<times> prtable) res" where
  "getValue version pkgarch checksum t =
     (if pt_nohist t then getValueNohist version pkgarch checksum t else getValueHist version pkgarch checksum t)"

definition importHist :: "string \<Rightarrow> string \<Rightarrow> string \<Rightarrow> int \<Rightarrow> prtable \<Rightarrow> int option \<times> prtable" where
  "importHist version pkgarch checksum value t =
     (let k = (version, pkgarch, checksum); rows = pt_rows t
      in case dget rows k of
           Some n \<Rightarrow> (Some n, t)
         | None \<Rightarrow>
             let rows = (case sql_insert k value rows of None \<Rightarrow> rows | Some r \<Rightarrow> r)
             in (dget rows k, t\<lparr>pt_rows := rows, pt_dirty := True\<rparr>))"

definition importNohist :: "string \<Rightarrow> string \<Rightarrow> string \<Rightarrow> int \<Rightarrow> prtable \<Rightarrow> int option \<times> prtable" where
  "importNohist version pkgarch checksum value t =
     (let k = (version, pkgarch, checksum);
          rows = (case sql_insert k value (pt_rows t) of
                    Some r \<Rightarrow> r
                  | None \<Rightarrow> sql_update_less k value (pt_rows t))
      in (case dget rows k of None \<Rightarrow> None | Some n \<Rightarrow> if n \<ge> value then Some n else None,
          t\<lparr>pt_rows := rows, pt_dirty := True\<rparr>))"

definition importone :: "string \<Rightarrow> string \<Rightarrow> string \<Rightarrow> int \<Rightarrow> prtable \<Rightarrow> int option \<times> prtable" where
  "importone version pkgarch checksum value t =
     (if pt_nohist t then importNohist version pkgarch checksum value t
      else importHist version pkgarch checksum value t)"

definition sync_if_dirty :: "prtable \<Rightarrow> prtable" where
  "sync_if_dirty t = t\<lparr>pt_dirty := False\<rparr>"

text \<open>The data of \<open>export\<close>; an empty argument does not restrict the rows.\<close>

definition export_rows :: "string \<Rightarrow> string \<Rightarrow> string \<Rightarrow> prtable \<Rightarrow> prrows" where
  "export_rows version pkgarch checksum t =
     filter (\<lambda>((v, a, c), n).
         (pt_nohist t \<longrightarrow> max_value (pt_rows t) v a = Some n) \<and>
         (version \<noteq> [] \<longrightarrow> v = version) \<and> (pkgarch \<noteq> [] \<longrightarrow> a = pkgarch) \<and> (checksum \<noteq> [] \<longrightarrow> c = checksum) \<and> v \<noteq> [])
       (pt_rows t)"

section \<open>PRData\<close>

text \<open>
  \<open>pd_tables\<close> maps the names of the open tables to their dirty flag; \<open>pd_sql\<close> holds the tables of the
  data base under the names they have there.
\<close>

record prdata =
  pd_nohist :: bool
  pd_tables :: "(string, bool) dict"
  pd_sql :: "(string, prrows) dict"

definition sql_name :: "bool \<Rightarrow> string \<Rightarrow> string" where
  "sql_name nohist table = (if nohist then table @ ''_nohist'' else table @ ''_hist'')"

definition get_table :: "string \<Rightarrow> prdata \<Rightarrow> prdata" where
  "get_table tblname d =
     (if tblname \<in> set (dkeys (pd_tables d)) then d
      else let name = sql_name (pd_nohist d) tblname
        in d\<lparr>pd_tables := dset tblname False (pd_tables d),
             pd_sql := (if name \<in> set (dkeys (pd_sql d)) then pd_sql d else dset name [] (pd_sql d))\<rparr>)"

definition del_table :: "string \<Rightarrow> prdata \<Rightarrow> prdata" where
  "del_table tblname d = d\<lparr>pd_tables := ddel tblname (pd_tables d), pd_sql := ddel tblname (pd_sql d)\<rparr>"

section \<open>Operations in sequence\<close>

datatype prop_call = GetValue string string string | ImportOne string string string int | Sync

definition pr_call :: "prop_call \<Rightarrow> prtable \<Rightarrow> (int option \<times> prtable) res" where
  "pr_call p t =
     (case p of
        GetValue v a c \<Rightarrow> rbind (getValue v a c t) (\<lambda>(n, t). Inr (Some n, t))
      | ImportOne v a c n \<Rightarrow> Inr (importone v a c n t)
      | Sync \<Rightarrow> Inr (None, sync_if_dirty t))"

fun pr_calls :: "prop_call list \<Rightarrow> prtable \<Rightarrow> (int option list \<times> prtable) res" where
  "pr_calls [] t = Inr ([], t)"
| "pr_calls (p # ps) t =
     rbind (pr_call p t) (\<lambda>(r, t). rbind (pr_calls ps t) (\<lambda>(rs, t). Inr (r # rs, t)))"

section \<open>The maximum of a table\<close>

lemma max_value_None: "max_value rows v a = None \<longleftrightarrow> values_of rows v a = []"
  by (simp add: max_value_def split: list.split)

lemma max_value_Some: "max_value rows v a = Some m \<longleftrightarrow> values_of rows v a \<noteq> [] \<and> m = Max (set (values_of rows v a))"
  by (cases "values_of rows v a") (auto simp: max_value_def Max.set_eq_fold simp del: set_simps simp flip: Max.set_eq_fold)

lemma values_of_mem: "n \<in> set (values_of rows v a) \<longleftrightarrow> (\<exists>c. ((v, a, c), n) \<in> set rows)"
  by (force simp: values_of_def)

text \<open>\<open>top rows v a n\<close>: \<open>n\<close> is the highest value given for the version and architecture.\<close>

definition top_is :: "prrows \<Rightarrow> string \<Rightarrow> string \<Rightarrow> int \<Rightarrow> bool" where
  "top_is rows v a n \<longleftrightarrow> (\<exists>c. ((v, a, c), n) \<in> set rows) \<and> (\<forall>c m. ((v, a, c), m) \<in> set rows \<longrightarrow> m \<le> n)"

lemma max_value_top: "max_value rows v a = Some n \<longleftrightarrow> top_is rows v a n"
proof -
  have "max_value rows v a = Some n \<longleftrightarrow> n \<in> set (values_of rows v a) \<and> (\<forall>m \<in> set (values_of rows v a). m \<le> n)"
    unfolding max_value_Some by (metis List.finite_set Max_eqI Max_ge Max_in set_empty empty_iff)
  then show ?thesis unfolding top_is_def by (metis values_of_mem)
qed


lemma top_le: "top_is rows v a n \<Longrightarrow> ((v, a, c), m) \<in> set rows \<Longrightarrow> m \<le> n"
  by (auto simp: top_is_def)

lemma next_value_above: "((v, a, c), m) \<in> set rows \<Longrightarrow> m < next_value rows v a"
proof -
  assume m: "((v, a, c), m) \<in> set rows"
  then have "values_of rows v a \<noteq> []" using values_of_mem [of m rows v a] by force
  then obtain n where n: "max_value rows v a = Some n" using max_value_None by fastforce
  then have "m \<le> n" using top_le m by (simp add: max_value_top)
  then show ?thesis using n by (simp add: next_value_def)
qed

lemma set_ddel: "(k', n) \<in> set (ddel k d) \<longleftrightarrow> (k', n) \<in> set d \<and> k' \<noteq> k"
  by (induction d) auto

lemma top_next:
  assumes "set rows' = insert ((v, a, c), next_value rows v a) R" "R \<subseteq> set rows"
  shows "top_is rows' v a (next_value rows v a)"
  using assms next_value_above [of v a _ _ rows] unfolding top_is_def by fastforce

section \<open>Without history\<close>

text \<open>From one table to a later one the highest values never decrease.\<close>

definition tops_grow :: "prrows \<Rightarrow> prrows \<Rightarrow> bool" where
  "tops_grow rows rows' \<longleftrightarrow> (\<forall>v a m. top_is rows v a m \<longrightarrow> (\<exists>m' \<ge> m. top_is rows' v a m'))"

lemma tops_grow_refl [simp]: "tops_grow rows rows"
  by (auto simp: tops_grow_def)

lemma tops_grow_trans: "tops_grow r s \<Longrightarrow> tops_grow s t \<Longrightarrow> tops_grow r t"
  unfolding tops_grow_def by (meson order_trans)

lemma tops_exist: "((v, a, c), n) \<in> set rows \<Longrightarrow> \<exists>m \<ge> n. top_is rows v a m"
proof -
  assume n: "((v, a, c), n) \<in> set rows"
  then have "values_of rows v a \<noteq> []" using values_of_mem [of n rows v a] by force
  then have "max_value rows v a \<noteq> None" by (simp add: max_value_None)
  then obtain m where "top_is rows v a m" by (auto simp: max_value_top)
  then show ?thesis using top_le [OF _ n] by blast
qed

text \<open>A change that keeps or raises the value of every row does not lower a maximum.\<close>

lemma tops_growI:
  assumes "\<And>v a c n. ((v, a, c), n) \<in> set rows \<Longrightarrow> \<exists>c' m. n \<le> m \<and> ((v, a, c'), m) \<in> set rows'"
  shows "tops_grow rows rows'"
  unfolding tops_grow_def
proof (intro allI impI)
  fix v a m assume "top_is rows v a m"
  then obtain c where "((v, a, c), m) \<in> set rows" unfolding top_is_def by blast
  from assms [OF this] obtain c' m' where "m \<le> m'" "((v, a, c'), m') \<in> set rows'" by blast
  then show "\<exists>m' \<ge> m. top_is rows' v a m'" using tops_exist [of v a c' m' rows'] by (meson order_trans)
qed

lemma dwf_append: "dwf (d @ [(k, n)]) \<longleftrightarrow> dwf d \<and> k \<notin> set (dkeys d)"
  by (auto simp: dwf_def)

lemma getValueNohist_ok:
  assumes "dwf (pt_rows t)"
  shows "\<exists>n rows'. getValueNohist v a c t = Inr (n, t\<lparr>pt_rows := rows', pt_dirty := pt_dirty t \<or> rows' \<noteq> pt_rows t\<rparr>) \<and>
    dwf rows' \<and> tops_grow (pt_rows t) rows' \<and> top_is rows' v a n"
proof (cases "select_top (v, a, c) (pt_rows t)")
  case (Some n)
  then obtain m where m: "dget (pt_rows t) (v, a, c) = Some n" "max_value (pt_rows t) v a = Some m" "m \<le> n"
    by (auto simp: select_top_def split: option.splits if_splits)
  have "top_is (pt_rows t) v a m" using m(2) by (simp add: max_value_top)
  moreover have "n \<le> m" by (rule top_le [OF _ map_of_SomeD [OF m(1)]]) (use m(2) in \<open>simp add: max_value_top\<close>)
  ultimately have "top_is (pt_rows t) v a n" using m(3) by simp
  then show ?thesis using Some assms by (intro exI [of _ n] exI [of _ "pt_rows t"]) (simp add: getValueNohist_def Let_def)
next
  case None
  let ?n = "next_value (pt_rows t) v a"
  let ?rows = "sql_replace (v, a, c) ?n (pt_rows t)"
  have set: "set ?rows = insert ((v, a, c), ?n) (set (ddel (v, a, c) (pt_rows t)))" by (auto simp: sql_replace_def)
  have wf: "dwf ?rows" using assms by (simp add: sql_replace_def dwf_append)
  have f: "dget ?rows (v, a, c) = Some ?n" using set wf by (simp add: dwf_dget [symmetric])
  have top: "top_is ?rows v a ?n" by (rule top_next [OF set]) (auto simp: set_ddel)
  have grow: "tops_grow (pt_rows t) ?rows"
  proof (rule tops_growI)
    fix v' a' c' m assume m: "((v', a', c'), m) \<in> set (pt_rows t)"
    show "\<exists>c' m'. m \<le> m' \<and> ((v', a', c'), m') \<in> set ?rows"
    proof (cases "(v', a', c') = (v, a, c)")
      case True
      then have e: "v' = v" "a' = a" "c' = c" by simp_all
      have "m < ?n" by (rule next_value_above) (use m e in simp)
      moreover have "((v', a', c), ?n) \<in> set ?rows" using set e by simp
      ultimately show ?thesis by (meson less_imp_le)
    next
      case False
      then have "((v', a', c'), m) \<in> set (ddel (v, a, c) (pt_rows t))" using m by (simp add: set_ddel)
      then have "((v', a', c'), m) \<in> set ?rows" unfolding set by (rule insertI2)
      then show ?thesis by blast
    qed
  qed
  have ne: "?rows \<noteq> pt_rows t"
  proof
    assume e: "?rows = pt_rows t"
    have "((v, a, c), ?n) \<in> set ?rows" unfolding set by (rule insertI1)
    then have "((v, a, c), ?n) \<in> set (pt_rows t)" by (simp only: e)
    from next_value_above [OF this] show False by simp
  qed
  have "getValueNohist v a c t = Inr (?n, t\<lparr>pt_rows := ?rows, pt_dirty := True\<rparr>)"
    using None f by (simp add: getValueNohist_def Let_def fetch_value_def)
  moreover have "(pt_dirty t \<or> ?rows \<noteq> pt_rows t) = True" using ne by simp
  ultimately have "getValueNohist v a c t = Inr (?n, t\<lparr>pt_rows := ?rows, pt_dirty := pt_dirty t \<or> ?rows \<noteq> pt_rows t\<rparr>)"
    by (simp only:)
  then show ?thesis using wf grow top by blast
qed

lemma dwf_map_values: "dwf d \<Longrightarrow> dwf (map (\<lambda>(k', m). (k', f k' m)) d)"
proof -
  have "dkeys (map (\<lambda>(k', m). (k', f k' m)) d) = dkeys d" by (induction d) auto
  then show "dwf d \<Longrightarrow> ?thesis" by (simp add: dwf_def)
qed

lemma importNohist_ok:
  assumes "dwf (pt_rows t)"
  shows "dwf (pt_rows (snd (importNohist v a c n t))) \<and> tops_grow (pt_rows t) (pt_rows (snd (importNohist v a c n t))) \<and>
    pt_nohist (snd (importNohist v a c n t)) = pt_nohist t"
proof (cases "(v, a, c) \<in> set (dkeys (pt_rows t))")
  case True
  have "tops_grow (pt_rows t) (sql_update_less (v, a, c) n (pt_rows t))"
  proof (rule tops_growI)
    fix v' a' c' m assume "((v', a', c'), m) \<in> set (pt_rows t)"
    then have "(\<lambda>(k', m). (k', if k' = (v, a, c) \<and> m < n then n else m)) ((v', a', c'), m) \<in>
        set (sql_update_less (v, a, c) n (pt_rows t))"
      unfolding sql_update_less_def by (simp only: set_map imageI)
    then have "((v', a', c'), if (v', a', c') = (v, a, c) \<and> m < n then n else m) \<in> set (sql_update_less (v, a, c) n (pt_rows t))"
      by (simp only: case_prod_conv)
    moreover have "m \<le> (if (v', a', c') = (v, a, c) \<and> m < n then n else m)" by (simp only: split: if_split) simp
    ultimately show "\<exists>c' m'. m \<le> m' \<and> ((v', a', c'), m') \<in> set (sql_update_less (v, a, c) n (pt_rows t))" by blast
  qed
  moreover have "dwf (sql_update_less (v, a, c) n (pt_rows t))"
    using assms unfolding sql_update_less_def by (rule dwf_map_values)
  ultimately show ?thesis using True by (simp add: importNohist_def Let_def sql_insert_def)
next
  case False
  have "tops_grow (pt_rows t) (pt_rows t @ [((v, a, c), n)])"
    by (rule tops_growI) auto
  then show ?thesis using False assms by (simp add: importNohist_def Let_def sql_insert_def dwf_append)
qed

lemma pr_call_nohist:
  assumes "pr_call p t = Inr (r, t')" "pt_nohist t" "dwf (pt_rows t)"
  shows "pt_nohist t' \<and> dwf (pt_rows t') \<and> tops_grow (pt_rows t) (pt_rows t')"
proof (cases p)
  case (GetValue v a c)
  then show ?thesis
    using getValueNohist_ok [OF assms(3), of v a c] assms(1,2) by (auto simp: pr_call_def getValue_def)
next
  case (ImportOne v a c n)
  then have "t' = snd (importNohist v a c n t)"
    using assms(1,2) by (cases "importNohist v a c n t") (simp add: pr_call_def importone_def)
  then show ?thesis using importNohist_ok [OF assms(3), of v a c n] assms(2) by simp
next
  case Sync
  then show ?thesis using assms by (auto simp: pr_call_def sync_if_dirty_def)
qed

lemma pr_calls_nohist:
  "pr_calls ps t = Inr (rs, t') \<Longrightarrow> pt_nohist t \<Longrightarrow> dwf (pt_rows t) \<Longrightarrow>
     pt_nohist t' \<and> dwf (pt_rows t') \<and> tops_grow (pt_rows t) (pt_rows t')"
proof (induction ps arbitrary: t rs)
  case (Cons p ps)
  obtain r t1 rs1 where p: "pr_call p t = Inr (r, t1)" "pr_calls ps t1 = Inr (rs1, t')"
    using Cons.prems(1) by (auto elim!: rbind_InrE)
  note 1 = pr_call_nohist [OF p(1) Cons.prems(2,3)]
  then show ?case using Cons.IH [OF p(2)] tops_grow_trans by blast
qed simp


section \<open>With history\<close>

lemma getValueHist_ok:
  assumes "dwf (pt_rows t)"
  shows "\<exists>n rows'. getValueHist v a c t = Inr (n, t\<lparr>pt_rows := rows', pt_dirty := pt_dirty t \<or> rows' \<noteq> pt_rows t\<rparr>) \<and>
    dwf rows' \<and> dget rows' (v, a, c) = Some n \<and> (\<forall>k m. dget (pt_rows t) k = Some m \<longrightarrow> dget rows' k = Some m) \<and>
    set (dkeys rows') = insert (v, a, c) (set (dkeys (pt_rows t))) \<and>
    ((v, a, c) \<notin> set (dkeys (pt_rows t)) \<longrightarrow> (\<forall>c' m. dget (pt_rows t) (v, a, c') = Some m \<longrightarrow> m < n))"
proof (cases "dget (pt_rows t) (v, a, c)")
  case None
  then have fresh: "(v, a, c) \<notin> set (dkeys (pt_rows t))" by (simp add: dget_None_iff)
  let ?n = "next_value (pt_rows t) v a"
  let ?rows = "pt_rows t @ [((v, a, c), ?n)]"
  have "getValueHist v a c t = Inr (?n, t\<lparr>pt_rows := ?rows, pt_dirty := True\<rparr>)"
    using None fresh by (simp add: getValueHist_def Let_def sql_insert_def fetch_value_def map_add_def)
  moreover have "m < ?n" if "dget (pt_rows t) (v, a, c') = Some m" for c' m
    by (rule next_value_above) (rule map_of_SomeD [OF that])
  ultimately show ?thesis
    using assms fresh None
    by (intro exI [of _ ?n] exI [of _ ?rows]) (auto simp: dwf_append map_add_def dest: dget_SomeD)
next
  case (Some n)
  then show ?thesis
    using assms dget_SomeD [OF Some]
    by (intro exI [of _ n] exI [of _ "pt_rows t"]) (auto simp: getValueHist_def Let_def)
qed

definition keeps :: "prrows \<Rightarrow> prrows \<Rightarrow> bool" where
  "keeps rows rows' \<longleftrightarrow> (\<forall>k m. dget rows k = Some m \<longrightarrow> dget rows' k = Some m)"

lemma importHist_ok:
  assumes "dwf (pt_rows t)"
  shows "dwf (pt_rows (snd (importHist v a c n t))) \<and> keeps (pt_rows t) (pt_rows (snd (importHist v a c n t))) \<and>
    set (dkeys (pt_rows (snd (importHist v a c n t)))) = insert (v, a, c) (set (dkeys (pt_rows t))) \<and>
    pt_nohist (snd (importHist v a c n t)) = pt_nohist t"
proof (cases "dget (pt_rows t) (v, a, c)")
  case None
  then have fresh: "(v, a, c) \<notin> set (dkeys (pt_rows t))" by (simp add: dget_None_iff)
  then have "snd (importHist v a c n t) = t\<lparr>pt_rows := pt_rows t @ [((v, a, c), n)], pt_dirty := True\<rparr>"
    using None by (simp add: importHist_def Let_def sql_insert_def)
  then show ?thesis using assms fresh by (auto simp: dwf_append keeps_def map_add_def dest: dget_SomeD)
next
  case (Some m)
  then show ?thesis using assms dget_SomeD [OF Some] by (auto simp: importHist_def keeps_def)
qed

text \<open>The keys a call names.\<close>

fun called_key :: "prop_call \<Rightarrow> prkey set" where
  "called_key (GetValue v a c) = {(v, a, c)}"
| "called_key (ImportOne v a c n) = {(v, a, c)}"
| "called_key Sync = {}"

lemma pr_call_hist:
  assumes "pr_call p t = Inr (r, t')" "\<not> pt_nohist t" "dwf (pt_rows t)"
  shows "\<not> pt_nohist t' \<and> dwf (pt_rows t') \<and> keeps (pt_rows t) (pt_rows t') \<and>
    set (dkeys (pt_rows t')) = called_key p \<union> set (dkeys (pt_rows t))"
proof (cases p)
  case (GetValue v a c)
  then show ?thesis
    using getValueHist_ok [OF assms(3), of v a c] assms(1,2) by (auto simp: pr_call_def getValue_def keeps_def)
next
  case (ImportOne v a c n)
  then have "t' = snd (importHist v a c n t)"
    using assms(1,2) by (cases "importHist v a c n t") (simp add: pr_call_def importone_def)
  then show ?thesis using importHist_ok [OF assms(3), of v a c n] assms(2) ImportOne by simp
next
  case Sync
  then show ?thesis using assms by (auto simp: pr_call_def sync_if_dirty_def keeps_def)
qed

lemma pr_calls_hist:
  "pr_calls ps t = Inr (rs, t') \<Longrightarrow> \<not> pt_nohist t \<Longrightarrow> dwf (pt_rows t) \<Longrightarrow>
     \<not> pt_nohist t' \<and> dwf (pt_rows t') \<and> keeps (pt_rows t) (pt_rows t') \<and>
     set (dkeys (pt_rows t')) = \<Union> (called_key ` set ps) \<union> set (dkeys (pt_rows t))"
proof (induction ps arbitrary: t rs)
  case Nil
  then show ?case by (simp add: keeps_def)
next
  case (Cons p ps)
  obtain r t1 rs1 where p: "pr_call p t = Inr (r, t1)" "pr_calls ps t1 = Inr (rs1, t')"
    using Cons.prems(1) by (auto elim!: rbind_InrE)
  note 1 = pr_call_hist [OF p(1) Cons.prems(2,3)]
  with Cons.IH [OF p(2)] show ?case by (auto simp: keeps_def)
qed

section \<open>The properties\<close>

text \<open>
  C29. Without history the value given for a version and an architecture never decreases: whatever was asked and
  imported in between, and for whatever checksums.
\<close>
theorem prserv_nohist_monotone:
  assumes "pt_nohist t" "dwf (pt_rows t)" "pr_call (GetValue v a c) t = Inr (Some n, t1)"
    "pr_calls ps t1 = Inr (rs, t2)" "pr_call (GetValue v a c') t2 = Inr (Some n', t3)"
  shows "n \<le> n'"
proof -
  have 1: "pt_nohist t1" "dwf (pt_rows t1)" "top_is (pt_rows t1) v a n"
    using getValueNohist_ok [OF assms(2), of v a c] assms(1,3) by (auto simp: pr_call_def getValue_def)
  note 2 = pr_calls_nohist [OF assms(4) 1(1,2)]
  then obtain m where m: "n \<le> m" "top_is (pt_rows t2) v a m" using 1(3) unfolding tops_grow_def by blast
  have 3: "tops_grow (pt_rows t2) (pt_rows t3)" "top_is (pt_rows t3) v a n'"
    using getValueNohist_ok [of t2 v a c'] 2 assms(5) by (auto simp: pr_call_def getValue_def)
  then obtain m' where m': "m \<le> m'" "top_is (pt_rows t3) v a m'" using m(2) unfolding tops_grow_def by blast
  then have "m' \<le> n'" using top_le [OF 3(2)] by (auto simp: top_is_def)
  then show ?thesis using m(1) m'(1) by simp
qed

lemma prserv_nohist_monotone_witness:
  "pr_calls [GetValue ''1.0'' ''arm'' ''c1'', ImportOne ''1.0'' ''arm'' ''c3'' 7, GetValue ''1.0'' ''arm'' ''c1'']
     \<lparr>pt_nohist = True, pt_dirty = False, pt_rows = []\<rparr> =
   Inr ([Some 0, Some 7, Some 8],
     \<lparr>pt_nohist = True, pt_dirty = True, pt_rows = [((''1.0'', ''arm'', ''c3''), 7), ((''1.0'', ''arm'', ''c1''), 8)]\<rparr>) \<and> (0::int) \<le> 8"
proof
  let ?t = "\<lparr>pt_nohist = True, pt_dirty = False, pt_rows = []\<rparr> :: prtable"
  let ?t1 = "\<lparr>pt_nohist = True, pt_dirty = True, pt_rows = [((''1.0'', ''arm'', ''c1''), 0)]\<rparr> :: prtable"
  let ?t2 = "\<lparr>pt_nohist = True, pt_dirty = True,
    pt_rows = [((''1.0'', ''arm'', ''c1''), 0), ((''1.0'', ''arm'', ''c3''), 7)]\<rparr> :: prtable"
  let ?t3 = "\<lparr>pt_nohist = True, pt_dirty = True,
    pt_rows = [((''1.0'', ''arm'', ''c3''), 7), ((''1.0'', ''arm'', ''c1''), 8)]\<rparr> :: prtable"
  show "pr_calls [GetValue ''1.0'' ''arm'' ''c1'', ImportOne ''1.0'' ''arm'' ''c3'' 7, GetValue ''1.0'' ''arm'' ''c1''] ?t =
    Inr ([Some 0, Some 7, Some 8], ?t3)" by code_simp
  have a: "pr_call (GetValue ''1.0'' ''arm'' ''c1'') ?t = Inr (Some 0, ?t1)" by code_simp
  have b: "pr_calls [ImportOne ''1.0'' ''arm'' ''c3'' 7] ?t1 = Inr ([Some 7], ?t2)" by code_simp
  have c: "pr_call (GetValue ''1.0'' ''arm'' ''c1'') ?t2 = Inr (Some 8, ?t3)" by code_simp
  show "(0::int) \<le> 8" by (rule prserv_nohist_monotone [OF _ _ a b c]) (simp_all add: dwf_def)
qed

text \<open>
  With history an answer never changes, and a checksum that was not in the table, not asked for and not
  imported before gets a higher value than every earlier answer for its version and architecture.
\<close>
theorem prserv_hist_stable:
  assumes "\<not> pt_nohist t" "dwf (pt_rows t)" "pr_call (GetValue v a c) t = Inr (Some n, t1)"
    "pr_calls ps t1 = Inr (rs, t2)" "pr_call (GetValue v a c') t2 = Inr (Some n', t3)"
  shows "(c' = c \<longrightarrow> n' = n) \<and>
    (c' \<noteq> c \<longrightarrow> (v, a, c') \<notin> set (dkeys (pt_rows t)) \<longrightarrow> (\<forall>p \<in> set ps. (v, a, c') \<notin> called_key p) \<longrightarrow> n < n')"
proof -
  have 1: "\<not> pt_nohist t1" "dwf (pt_rows t1)" "dget (pt_rows t1) (v, a, c) = Some n"
    "set (dkeys (pt_rows t1)) = insert (v, a, c) (set (dkeys (pt_rows t)))"
    using getValueHist_ok [OF assms(2), of v a c] assms(1,3) by (auto simp: pr_call_def getValue_def)
  note 2 = pr_calls_hist [OF assms(4) 1(1,2)]
  have n: "dget (pt_rows t2) (v, a, c) = Some n" using 2 1(3) by (auto simp: keeps_def)
  have 3: "dget (pt_rows t3) (v, a, c') = Some n'" "keeps (pt_rows t2) (pt_rows t3)"
    "(v, a, c') \<notin> set (dkeys (pt_rows t2)) \<Longrightarrow> dget (pt_rows t2) (v, a, c) = Some n \<Longrightarrow> n < n'"
    using getValueHist_ok [of t2 v a c'] 2 assms(5) by (auto simp: pr_call_def getValue_def keeps_def)
  have "n' = n" if "c' = c" using 3(1,2) n that unfolding keeps_def by fastforce
  moreover have "n < n'" if "c' \<noteq> c" "(v, a, c') \<notin> set (dkeys (pt_rows t))" "\<forall>p \<in> set ps. (v, a, c') \<notin> called_key p"
    by (rule 3(3) [OF _ n]) (use 2 1(4) that in auto)
  ultimately show ?thesis by blast
qed

lemma prserv_hist_stable_witness:
  "pr_call (GetValue ''1.0'' ''arm'' ''c2'') \<lparr>pt_nohist = False, pt_dirty = True, pt_rows = [((''1.0'', ''arm'', ''c1''), 0)]\<rparr> =
     Inr (Some 1, \<lparr>pt_nohist = False, pt_dirty = True,
       pt_rows = [((''1.0'', ''arm'', ''c1''), 0), ((''1.0'', ''arm'', ''c2''), 1)]\<rparr>) \<and> (0::int) < 1"
proof
  let ?t = "\<lparr>pt_nohist = False, pt_dirty = False, pt_rows = []\<rparr> :: prtable"
  let ?t1 = "\<lparr>pt_nohist = False, pt_dirty = True, pt_rows = [((''1.0'', ''arm'', ''c1''), 0)]\<rparr> :: prtable"
  let ?t3 = "\<lparr>pt_nohist = False, pt_dirty = True,
    pt_rows = [((''1.0'', ''arm'', ''c1''), 0), ((''1.0'', ''arm'', ''c2''), 1)]\<rparr> :: prtable"
  show c: "pr_call (GetValue ''1.0'' ''arm'' ''c2'') ?t1 = Inr (Some 1, ?t3)" by code_simp
  have "pr_call (GetValue ''1.0'' ''arm'' ''c1'') ?t = Inr (Some 0, ?t1)" by code_simp
  from prserv_hist_stable [OF _ _ this, of "[]" "[]" ?t1 "''c2''" 1 ?t3] c show "(0::int) < 1" by (simp add: dwf_def)
qed

text \<open>Deleting a table drops the name without suffix, so the rows are still there when it is opened again.\<close>

lemma del_table_keeps_rows:
  "\<forall>t \<in> set (dkeys (pd_tables d)). dget (pd_sql d) (sql_name (pd_nohist d) t) \<noteq> None \<Longrightarrow>
   tblname \<noteq> sql_name (pd_nohist d) tblname \<Longrightarrow>
   dget (pd_sql (get_table tblname (del_table tblname (get_table tblname d)))) (sql_name (pd_nohist d) tblname) =
   dget (pd_sql (get_table tblname d)) (sql_name (pd_nohist d) tblname)"
  by (auto simp: get_table_def del_table_def Let_def dget_None_iff sql_name_def dest: dget_SomeD split: if_splits)

end
