(* ===== verification/SceneSquash.thy ===== *)
theory SceneSquash
  imports TaskGraph
begin

text \<open>
  How \<open>RunQueueExecuteScenequeue.__init__\<close> of \<open>bitbake/lib/bb/runqueue.py\<close> collapses the task graph to
  the setscene tasks: \<open>process_endpoints\<close> carries the setscene tasks down the dependencies to the next
  setscene tasks, \<open>process_endpoints2\<close> finds the setscene tasks that a target reaches without passing
  another one.

  The main lemmas: on a graph without cycles both walks end and do not raise; the first one
  leaves with every setscene task exactly the setscene tasks that need it directly, through tasks
  without setscene variant, and nothing with the other tasks; the second one marks exactly the setscene
  tasks below an end of the graph.  Both follow from one invariant, stated for the walk with and without
  the point itself among what it carries.
\<close>

section \<open>The walk\<close>

text \<open>\<open>sq_revdeps\<close>, \<open>sq_revdeps_new\<close> and \<open>newendpoints\<close>.\<close>

record 't squash =
  q_rev :: "('t, 't list) dict"
  q_new :: "('t, 't list) dict"
  q_next :: "('t, 't list) dict"

text \<open>
  With \<open>own\<close> the walk is \<open>process_endpoints2\<close>, which carries the point itself as well and hands all it
  carries to the next round; there the points are never setscene tasks, so no set is shared.
\<close>

definition squash_dep :: "bool \<Rightarrow> 't list \<Rightarrow> 't \<Rightarrow> 't list \<Rightarrow> 't list \<Rightarrow> 't \<Rightarrow> 't squash \<Rightarrow> 't squash res" where
  "squash_dep own scene point task tasks dep s =
     rbind (dlookup (q_rev s) dep) (\<lambda>r.
     rbind (dlookup (q_new s) dep) (\<lambda>n.
       let r = remove1 point r; n = sunion n tasks
       in Inr (s\<lparr>q_rev := dset dep r (q_rev s), q_new := dset dep n (q_new s),
                 q_next := if (r = [] \<or> n \<noteq> []) \<and> dep \<notin> set scene
                           then dset dep (if own then tasks else task) (q_next s) else q_next s\<rparr>)))"

definition squash_point :: "bool \<Rightarrow> 't list \<Rightarrow> 't graph \<Rightarrow> 't \<times> 't list \<Rightarrow> 't squash \<Rightarrow> 't squash res" where
  "squash_point own scene g pt s =
     (case pt of (point, task) \<Rightarrow>
       rbind (dlookup (q_new s) point) (\<lambda>n.
         let tasks = sunion (sunion (if own then [point] else []) task) n;
             in_scene = (point \<in> set scene);
             s = s\<lparr>q_new := dset point (if in_scene then tasks else []) (q_new s)\<rparr>;
             tasks = (if in_scene \<and> \<not> own then [] else tasks)
         in rbind (dlookup g point) (\<lambda>e. rfold (squash_dep own scene point task tasks) (rt_depends e) s)))"

primrec process_points ::
  "nat \<Rightarrow> bool \<Rightarrow> 't list \<Rightarrow> 't graph \<Rightarrow> ('t, 't list) dict \<Rightarrow> 't squash \<Rightarrow> 't squash res" where
  "process_points 0 own scene g endpoints s = Inl OutOfFuel"
| "process_points (Suc fuel) own scene g endpoints s =
     rbind (rfold (squash_point own scene g) endpoints (s\<lparr>q_next := []\<rparr>)) (\<lambda>s.
       if q_next s \<noteq> [] then process_points fuel own scene g (q_next s) s else Inr s)"

definition squash_start :: "'t graph \<Rightarrow> 't squash" where
  "squash_start g = \<lparr>q_rev = map (\<lambda>(tid, e). (tid, rt_revdeps e)) g, q_new = map (\<lambda>(tid, e). (tid, [])) g, q_next = []\<rparr>"

definition bare_endpoints :: "'t graph \<Rightarrow> 't list \<Rightarrow> ('t, 't list) dict" where
  "bare_endpoints g scene = map (\<lambda>(tid, e). (tid, [])) (filter (\<lambda>(tid, e). rt_revdeps e = [] \<and> tid \<notin> set scene) g)"

definition scene_endpoints :: "'t graph \<Rightarrow> 't list \<Rightarrow> ('t, 't list) dict \<Rightarrow> ('t, 't list) dict res" where
  "scene_endpoints g scene endpoints =
     rfold (\<lambda>tid endpoints. rbind (dlookup g tid) (\<lambda>e.
       Inr (fold (\<lambda>dep ends. dset dep (sadd tid (dgetd ends dep [])) ends) (rt_depends e) endpoints))) scene endpoints"

text \<open>As many rounds as there are tasks, and one more, are enough on a graph without cycles.\<close>

definition squash_fuel :: "'t graph \<Rightarrow> nat" where
  "squash_fuel g = Suc (length g)"

definition process_endpoints :: "'t graph \<Rightarrow> 't list \<Rightarrow> 't squash res" where
  "process_endpoints g scene =
     rbind (scene_endpoints g scene (bare_endpoints g scene)) (\<lambda>endpoints.
       process_points (squash_fuel g) False scene g endpoints (squash_start g))"

definition process_endpoints2 :: "'t graph \<Rightarrow> 't list \<Rightarrow> 't squash res" where
  "process_endpoints2 g scene = process_points (squash_fuel g) True scene g (bare_endpoints g scene) (squash_start g)"

definition unskippable :: "'t graph \<Rightarrow> 't list \<Rightarrow> 't list res" where
  "unskippable g scene =
     rbind (process_endpoints2 g scene) (\<lambda>s.
     rbind (rmap (\<lambda>tid. rbind (dlookup (q_new s) tid) (\<lambda>n. Inr (tid, n))) scene) (\<lambda>ns.
       Inr (map fst (filter (\<lambda>(tid, n). n \<noteq> []) ns))))"

text \<open>\<open>sq_revdeps_squash\<close>: a task without setscene variant must not be left with anything.\<close>

definition squash_result :: "'t graph \<Rightarrow> 't list \<Rightarrow> ('t, 't list) dict \<Rightarrow> ('t, 't list) dict res" where
  "squash_result g scene new =
     rfold (\<lambda>tid squash. rbind (dlookup new tid) (\<lambda>n.
       if tid \<in> set scene then Inr (dset tid n squash)
       else if n \<noteq> [] then Inl Fatal else Inr squash)) (dkeys g) []"

definition scene_squash :: "'t graph \<Rightarrow> 't list \<Rightarrow> ('t, 't list) dict res" where
  "scene_squash g scene = rbind (process_endpoints g scene) (\<lambda>s. squash_result g scene (q_new s))"

section \<open>What is carried where\<close>

abbreviation held :: "'t squash \<Rightarrow> 't \<Rightarrow> 't set" where
  "held s x \<equiv> set (dgetd (q_new s) x [])"

definition pend :: "bool \<Rightarrow> ('t, 't list) dict \<Rightarrow> 't \<Rightarrow> 't set" where
  "pend own cur x = {t. \<exists>task. (x, task) \<in> set cur \<and> (t \<in> set task \<or> own \<and> t = x)}"

lemma pend_Nil: "pend own [] x = {}"
  by (simp add: pend_def)

lemma pend_simps:
  "pend own ((p, task) # cur) x = pend own cur x \<union> (if x = p then set task \<union> (if own then {p} else {}) else {})"
  by (auto simp: pend_def)

text \<open>\<open>t\<close> has arrived at \<open>x\<close>, is on its way there, or has been passed on to everything below \<open>x\<close>.\<close>

inductive arrived :: "'t list \<Rightarrow> 't graph \<Rightarrow> ('t \<Rightarrow> 't set) \<Rightarrow> ('t \<Rightarrow> 't set) \<Rightarrow> 't \<Rightarrow> 't \<Rightarrow> bool"
  for scene g new p where
  here: "t \<in> new x \<Longrightarrow> arrived scene g new p t x"
| pending: "t \<in> p x \<Longrightarrow> arrived scene g new p t x"
| through: "x \<notin> set scene \<Longrightarrow> (\<And>d. d \<in> set (deps g x) \<Longrightarrow> arrived scene g new p t d) \<Longrightarrow> arrived scene g new p t x"

lemma arrived_mono:
  assumes "arrived scene g new p t x" "\<And>t x. t \<in> new x \<union> p x \<Longrightarrow> arrived scene g new' p' t x"
  shows "arrived scene g new' p' t x"
  using assms(1) by (induction rule: arrived.induct) (auto intro: assms(2) arrived.through)

definition squash_ok :: "'t list \<Rightarrow> 't graph \<Rightarrow> ('t, 't list) dict \<Rightarrow> 't squash \<Rightarrow> bool" where
  "squash_ok scene g cur s \<longleftrightarrow>
     set (dkeys (q_rev s)) = set (dkeys g) \<and> set (dkeys (q_new s)) = set (dkeys g) \<and> set (dkeys cur) \<subseteq> set (dkeys g) \<and>
     set (dkeys (q_next s)) \<subseteq> set (dkeys g) - set scene \<and>
     (\<forall>x. x \<notin> set scene \<longrightarrow> held s x \<noteq> {} \<longrightarrow> x \<in> set (dkeys cur) \<union> set (dkeys (q_next s)))"

lemma sunion_Nil [simp]: "sunion xs ys = [] \<longleftrightarrow> xs = [] \<and> ys = []"
  by (metis Un_empty set_empty set_sunion)

lemma squash_deps_effect:
  assumes "set (dkeys (q_rev s)) = K" "set (dkeys (q_new s)) = K" "set ds \<subseteq> K"
  shows "\<exists>s'. rfold (squash_dep own scene point task tasks) ds s = Inr s' \<and>
    set (dkeys (q_rev s')) = K \<and> set (dkeys (q_new s')) = K \<and>
    (\<forall>x. held s' x = held s x \<union> (if x \<in> set ds then set tasks else {})) \<and>
    set (dkeys (q_next s)) \<subseteq> set (dkeys (q_next s')) \<and>
    set (dkeys (q_next s')) \<subseteq> set (dkeys (q_next s)) \<union> (set ds - set scene) \<and>
    (\<forall>x \<in> set ds - set scene. held s' x \<noteq> {} \<longrightarrow> x \<in> set (dkeys (q_next s'))) \<and>
    (\<forall>x k. dget (q_next s') x = Some k \<longrightarrow>
       x \<in> set ds \<and> k = (if own then tasks else task) \<or> dget (q_next s) x = Some k)"
  using assms
proof (induction ds arbitrary: s)
  case Nil
  then show ?case by simp
next
  case (Cons d ds)
  have "d \<in> set (dkeys (q_rev s))" "d \<in> set (dkeys (q_new s))" using Cons.prems by auto
  then obtain r n where rn: "dget (q_rev s) d = Some r" "dget (q_new s) d = Some n" by (meson dget_keyE)
  define s1 where "s1 = s\<lparr>q_rev := dset d (remove1 point r) (q_rev s), q_new := dset d (sunion n tasks) (q_new s),
    q_next := if (remove1 point r = [] \<or> sunion n tasks \<noteq> []) \<and> d \<notin> set scene
              then dset d (if own then tasks else task) (q_next s) else q_next s\<rparr>"
  have step: "squash_dep own scene point task tasks d s = Inr s1"
    using rn by (simp add: squash_dep_def s1_def Let_def dlookup_def)
  have k: "set (dkeys (q_rev s1)) = K" "set (dkeys (q_new s1)) = K" "set ds \<subseteq> K"
    using Cons.prems by (auto simp: s1_def)
  have h: "held s1 x = held s x \<union> (if x = d then set tasks else {})" for x
    using rn(2) by (auto simp: s1_def dgetd_def)
  have n: "set (dkeys (q_next s1)) = set (dkeys (q_next s)) \<union>
      (if (remove1 point r = [] \<or> sunion n tasks \<noteq> []) \<and> d \<notin> set scene then {d} else {})"
    by (auto simp: s1_def)
  have hd: "held s1 d = set (sunion n tasks)" using rn(2) by (simp add: s1_def dgetd_def)
  from Cons.IH [OF k] obtain s' where s': "rfold (squash_dep own scene point task tasks) ds s1 = Inr s'"
    "set (dkeys (q_rev s')) = K" "set (dkeys (q_new s')) = K"
    "\<forall>x. held s' x = held s1 x \<union> (if x \<in> set ds then set tasks else {})"
    "set (dkeys (q_next s1)) \<subseteq> set (dkeys (q_next s'))"
    "set (dkeys (q_next s')) \<subseteq> set (dkeys (q_next s1)) \<union> (set ds - set scene)"
    "\<forall>x \<in> set ds - set scene. held s' x \<noteq> {} \<longrightarrow> x \<in> set (dkeys (q_next s'))"
    "\<forall>x k. dget (q_next s') x = Some k \<longrightarrow>
       x \<in> set ds \<and> k = (if own then tasks else task) \<or> dget (q_next s1) x = Some k"
    by (elim exE conjE) (rule that; assumption)
  have d: "d \<in> set (dkeys (q_next s'))" if "d \<notin> set scene" "held s' d \<noteq> {}"
  proof (cases "d \<in> set ds")
    case True
    then show ?thesis using s'(7) that by blast
  next
    case False
    then have "sunion n tasks \<noteq> []" using that(2) s'(4) hd by auto
    then show ?thesis using that(1) n s'(5) by auto
  qed
  have "\<forall>x. held s' x = held s x \<union> (if x \<in> set (d # ds) then set tasks else {})" using s'(4) h by auto
  moreover have "set (dkeys (q_next s)) \<subseteq> set (dkeys (q_next s'))" using s'(5) n by blast
  moreover have "set (dkeys (q_next s')) \<subseteq> set (dkeys (q_next s)) \<union> (set (d # ds) - set scene)"
    using s'(6) n by (auto split: if_splits)
  moreover have "\<forall>x \<in> set (d # ds) - set scene. held s' x \<noteq> {} \<longrightarrow> x \<in> set (dkeys (q_next s'))"
    using s'(7) d by auto
  moreover have "\<forall>x k. dget (q_next s') x = Some k \<longrightarrow>
      x \<in> set (d # ds) \<and> k = (if own then tasks else task) \<or> dget (q_next s) x = Some k"
    using s'(8) by (fastforce simp: s1_def split: if_splits)
  ultimately show ?case using step s'(1-3) by (intro exI [of _ s']) simp
qed

text \<open>One point: it passes on all it holds, or keeps it.\<close>

lemma squash_point_effect:
  assumes "graph_wf g" "squash_ok scene g ((point, task) # cur) s"
  shows "\<exists>s'. squash_point own scene g (point, task) s = Inr s' \<and> squash_ok scene g cur s' \<and>
    (\<forall>t x. arrived scene g (held s) (pend own ((point, task) # cur)) t x \<longrightarrow>
       arrived scene g (held s') (pend own cur) t x) \<and>
    (\<forall>x k. dget (q_next s') x = Some k \<longrightarrow> x \<in> set (deps g point) \<or> dget (q_next s) x = Some k)"
proof -
  define tasks where "tasks = sunion (sunion (if own then [point] else []) task) (dgetd (q_new s) point [])"
  define s1 where "s1 = s\<lparr>q_new := dset point (if point \<in> set scene then tasks else []) (q_new s)\<rparr>"
  define push where "push = (if point \<in> set scene \<and> \<not> own then [] else tasks)"
  have ok: "set (dkeys (q_rev s)) = set (dkeys g)" "set (dkeys (q_new s)) = set (dkeys g)"
    "point \<in> set (dkeys g)" "set (dkeys cur) \<subseteq> set (dkeys g)" "set (dkeys (q_next s)) \<subseteq> set (dkeys g) - set scene"
    "\<And>x. x \<notin> set scene \<Longrightarrow> held s x \<noteq> {} \<Longrightarrow> x = point \<or> x \<in> set (dkeys cur) \<union> set (dkeys (q_next s))"
    using assms(2) by (auto simp: squash_ok_def)
  obtain n where n: "dget (q_new s) point = Some n" using ok(2,3) by (auto elim: dget_keyE)
  obtain e where e: "dget g point = Some e" using ok(3) by (rule dget_keyE)
  have ds: "rt_depends e = deps g point" using e by (simp add: deps_def)
  have sub: "set (deps g point) \<subseteq> set (dkeys g)" using assms(1) ok(3) by (auto simp: graph_wf_def)
  have "set (dkeys (q_rev s1)) = set (dkeys g)" "set (dkeys (q_new s1)) = set (dkeys g)"
    using ok by (auto simp: s1_def)
  from squash_deps_effect [OF this sub, of own scene point task push]
  obtain s' where s': "rfold (squash_dep own scene point task push) (deps g point) s1 = Inr s'"
    "set (dkeys (q_rev s')) = set (dkeys g)" "set (dkeys (q_new s')) = set (dkeys g)"
    "\<forall>x. held s' x = held s1 x \<union> (if x \<in> set (deps g point) then set push else {})"
    "set (dkeys (q_next s1)) \<subseteq> set (dkeys (q_next s'))"
    "set (dkeys (q_next s')) \<subseteq> set (dkeys (q_next s1)) \<union> (set (deps g point) - set scene)"
    "\<forall>x \<in> set (deps g point) - set scene. held s' x \<noteq> {} \<longrightarrow> x \<in> set (dkeys (q_next s'))"
    "\<forall>x k. dget (q_next s') x = Some k \<longrightarrow>
       x \<in> set (deps g point) \<and> k = (if own then push else task) \<or> dget (q_next s1) x = Some k"
    by (elim exE conjE) (rule that; assumption)
  have tasks_n: "tasks = sunion (sunion (if own then [point] else []) task) n" by (simp add: tasks_def dgetd_def n)
  have run: "squash_point own scene g (point, task) s = Inr s'"
    using s'(1) unfolding s1_def push_def tasks_n
    by (simp add: squash_point_def Let_def n e ds dlookup_def split del: if_split)
  have h1: "held s1 x = (if x = point then (if point \<in> set scene then set tasks else {}) else held s x)" for x
    by (simp add: s1_def)
  have nxt: "q_next s1 = q_next s" by (simp add: s1_def)
  have "squash_ok scene g cur s'"
    unfolding squash_ok_def
  proof (intro conjI allI impI)
    fix x assume x: "x \<notin> set scene" "held s' x \<noteq> {}"
    show "x \<in> set (dkeys cur) \<union> set (dkeys (q_next s'))"
    proof (cases "x \<in> set (deps g point)")
      case True
      then show ?thesis using s'(7) x by blast
    next
      case False
      then have "held s1 x \<noteq> {}" using s'(4) x(2) by simp
      then have "x \<noteq> point" "held s x \<noteq> {}" using h1 [of x] x(1) by (auto split: if_splits)
      then show ?thesis using ok(6) [OF x(1)] s'(5) nxt by auto
    qed
  qed (use s' ok sub nxt in auto)
  moreover have "arrived scene g (held s') (pend own cur) t x"
    if "arrived scene g (held s) (pend own ((point, task) # cur)) t x" for t x
    using that
  proof (rule arrived_mono)
    fix t x assume t: "t \<in> held s x \<union> pend own ((point, task) # cur) x"
    show "arrived scene g (held s') (pend own cur) t x"
    proof (cases "x = point \<and> t \<in> set tasks")
      case True
      show ?thesis
      proof (cases "point \<in> set scene")
        case True
        then show ?thesis using \<open>x = point \<and> t \<in> set tasks\<close> s'(4) h1 [of x] by (intro arrived.here) simp
      next
        case False
        then have "t \<in> set push" using \<open>x = point \<and> t \<in> set tasks\<close> by (simp add: push_def)
        then have "arrived scene g (held s') (pend own cur) t d" if "d \<in> set (deps g x)" for d
          using that \<open>x = point \<and> t \<in> set tasks\<close> s'(4) by (intro arrived.here) simp
        moreover have "x \<notin> set scene" using False \<open>x = point \<and> t \<in> set tasks\<close> by simp
        ultimately show ?thesis by (rule arrived.through [rotated])
      qed
    next
      case False
      then have "x \<noteq> point \<and> t \<in> held s x \<or> t \<in> pend own cur x"
        using t by (auto simp: tasks_def pend_simps split: if_splits)
      then show ?thesis
      proof
        assume "x \<noteq> point \<and> t \<in> held s x"
        then show ?thesis using s'(4) h1 [of x] by (intro arrived.here) simp
      qed (rule arrived.pending)
    qed
  qed
  ultimately show ?thesis using run s'(8) nxt by auto
qed

lemma squash_round_effect:
  assumes "graph_wf g" "squash_ok scene g cur s"
  shows "\<exists>s'. rfold (squash_point own scene g) cur s = Inr s' \<and> squash_ok scene g [] s' \<and>
    (\<forall>t x. arrived scene g (held s) (pend own cur) t x \<longrightarrow> arrived scene g (held s') (pend own []) t x) \<and>
    (\<forall>x \<in> set (dkeys (q_next s')) - set (dkeys (q_next s)). \<exists>p \<in> set (dkeys cur). x \<in> set (deps g p))"
  using assms(2)
proof (induction cur arbitrary: s)
  case Nil
  then show ?case by simp
next
  case (Cons pt cur)
  obtain point task where pt: "pt = (point, task)" by (cases pt)
  from squash_point_effect [OF assms(1) Cons.prems [unfolded pt], of own] obtain s1 where
    s1: "squash_point own scene g pt s = Inr s1" "squash_ok scene g cur s1"
    "\<forall>t x. arrived scene g (held s) (pend own ((point, task) # cur)) t x \<longrightarrow> arrived scene g (held s1) (pend own cur) t x"
    "\<forall>x k. dget (q_next s1) x = Some k \<longrightarrow> x \<in> set (deps g point) \<or> dget (q_next s) x = Some k"
    unfolding pt by blast
  from Cons.IH [OF s1(2)] obtain s' where
    s': "rfold (squash_point own scene g) cur s1 = Inr s'" "squash_ok scene g [] s'"
    "\<forall>t x. arrived scene g (held s1) (pend own cur) t x \<longrightarrow> arrived scene g (held s') (pend own []) t x"
    "\<forall>x \<in> set (dkeys (q_next s')) - set (dkeys (q_next s1)). \<exists>p \<in> set (dkeys cur). x \<in> set (deps g p)"
    by blast
  have "\<exists>p \<in> set (dkeys (pt # cur)). x \<in> set (deps g p)"
    if "x \<in> set (dkeys (q_next s'))" "x \<notin> set (dkeys (q_next s))" for x
  proof (cases "x \<in> set (dkeys (q_next s1))")
    case True
    then obtain k where "dget (q_next s1) x = Some k" by (rule dget_keyE)
    then show ?thesis using s1(4) that(2) pt by (auto dest: dget_SomeD)
  next
    case False
    then show ?thesis using s'(4) that(1) pt by auto
  qed
  then show ?case using s1 s' pt by auto
qed

text \<open>With enough fuel for the longest way down the walk ends, and all that was on its way has arrived.\<close>

lemma process_points_ends:
  assumes "graph_wf g" "acyclic (dep_edges g)"
  shows "squash_ok scene g cur (s\<lparr>q_next := []\<rparr>) \<Longrightarrow> (\<forall>p \<in> set (dkeys cur). below g p < fuel) \<Longrightarrow> 0 < fuel \<Longrightarrow>
    \<exists>s'. process_points fuel own scene g cur s = Inr s' \<and> squash_ok scene g [] s' \<and> q_next s' = [] \<and>
      (\<forall>t x. arrived scene g (held s) (pend own cur) t x \<longrightarrow> arrived scene g (held s') (pend own []) t x)"
proof (induction fuel arbitrary: cur s)
  case 0
  then show ?case by simp
next
  case (Suc fuel)
  from squash_round_effect [OF assms(1) Suc.prems(1), of own] obtain s1 where
    s1: "rfold (squash_point own scene g) cur (s\<lparr>q_next := []\<rparr>) = Inr s1" "squash_ok scene g [] s1"
    "\<forall>t x. arrived scene g (held s) (pend own cur) t x \<longrightarrow> arrived scene g (held s1) (pend own []) t x"
    "\<forall>x \<in> set (dkeys (q_next s1)). \<exists>p \<in> set (dkeys cur). x \<in> set (deps g p)"
    by auto
  show ?case
  proof (cases "q_next s1 = []")
    case True
    then show ?thesis using s1 by simp
  next
    case False
    have b: "below g x < fuel" if x: "x \<in> set (dkeys (q_next s1))" for x
    proof -
      obtain p where p: "p \<in> set (dkeys cur)" "x \<in> set (deps g p)" using s1(4) x by blast
      have "below g x < below g p" by (rule below_less [OF assms(2) deps_edge [OF p(2)]])
      then show ?thesis using Suc.prems(2) p(1) by fastforce
    qed
    have "squash_ok scene g (q_next s1) (s1\<lparr>q_next := []\<rparr>)"
      using s1(2) by (auto simp: squash_ok_def)
    moreover have "\<forall>p \<in> set (dkeys (q_next s1)). below g p < fuel" using b by blast
    moreover from this have "0 < fuel" using False by (cases "q_next s1") auto
    ultimately obtain s' where
      s': "process_points fuel own scene g (q_next s1) s1 = Inr s'" "squash_ok scene g [] s'" "q_next s' = []"
      "\<forall>t x. arrived scene g (held s1) (pend own (q_next s1)) t x \<longrightarrow> arrived scene g (held s') (pend own []) t x"
      using Suc.IH by blast
    have "arrived scene g (held s1) (pend own (q_next s1)) t x" if "arrived scene g (held s1) (pend own []) t x" for t x
      using that by (rule arrived_mono) (simp add: arrived.here pend_Nil)
    then show ?thesis using s1 s' False by auto
  qed
qed

text \<open>At the end whatever has arrived at a setscene task is held there, the rest has been passed on.\<close>

lemma arrived_end:
  assumes "squash_ok scene g [] s" "q_next s = []" "arrived scene g (held s) (pend own []) t x"
  shows "if x \<in> set scene then t \<in> held s x else (\<forall>d \<in> set (deps g x). arrived scene g (held s) (pend own []) t d)"
proof -
  have "held s x = {}" if "x \<notin> set scene" using assms(1,2) that unfolding squash_ok_def by fastforce
  moreover have "t \<in> held s x \<or> x \<notin> set scene \<and> (\<forall>d \<in> set (deps g x). arrived scene g (held s) (pend own []) t d)"
    using assms(3) by (rule arrived.cases) (simp_all add: pend_Nil)
  ultimately show ?thesis by auto
qed

section \<open>What the walks compute\<close>

text \<open>\<open>t\<close> needs \<open>x\<close> directly: all tasks between them have no setscene variant.\<close>

inductive needs_directly :: "'t list \<Rightarrow> 't graph \<Rightarrow> 't \<Rightarrow> 't \<Rightarrow> bool" for scene g where
  first: "t \<in> set scene \<Longrightarrow> d \<in> set (deps g t) \<Longrightarrow> needs_directly scene g t d"
| further: "needs_directly scene g t x \<Longrightarrow> x \<notin> set scene \<Longrightarrow> d \<in> set (deps g x) \<Longrightarrow> needs_directly scene g t d"

text \<open>An end of the graph reaches \<open>x\<close> through tasks without setscene variant.\<close>

inductive below_end :: "'t list \<Rightarrow> 't graph \<Rightarrow> 't \<Rightarrow> bool" for scene g where
  endpoint: "t \<in> set (dkeys g) \<Longrightarrow> revs g t = [] \<Longrightarrow> t \<notin> set scene \<Longrightarrow> d \<in> set (deps g t) \<Longrightarrow> below_end scene g d"
| deeper: "below_end scene g x \<Longrightarrow> x \<notin> set scene \<Longrightarrow> d \<in> set (deps g x) \<Longrightarrow> below_end scene g d"

text \<open>Nothing is carried to a place where it does not belong, for any notion of belonging the graph respects.\<close>

lemma set_dset: "(x, k) \<in> set (dset y v d) \<Longrightarrow> (x, k) = (y, v) \<or> (x, k) \<in> set d"
  by (induction d) (auto split: if_splits)

definition belongs_all :: "bool \<Rightarrow> 't list \<Rightarrow> ('t \<Rightarrow> 't \<Rightarrow> bool) \<Rightarrow> ('t, 't list) dict \<Rightarrow> bool" where
  "belongs_all own scene P cur \<longleftrightarrow>
     (\<forall>(x, k) \<in> set cur. (\<forall>t \<in> set k. P t x) \<and> (own \<longrightarrow> x \<notin> set scene \<and> P x x))"

definition closed_down :: "bool \<Rightarrow> 't list \<Rightarrow> 't graph \<Rightarrow> ('t \<Rightarrow> 't \<Rightarrow> bool) \<Rightarrow> bool" where
  "closed_down own scene g P \<longleftrightarrow>
     (\<forall>t x d. P t x \<longrightarrow> (own \<longrightarrow> x \<notin> set scene) \<longrightarrow> d \<in> set (deps g x) \<longrightarrow> P t d) \<and> (\<forall>t x. own \<longrightarrow> P t x \<longrightarrow> P x x)"

lemma squash_point_sound:
  assumes "squash_point own scene g pt s = Inr s'" "closed_down own scene g P"
    and "belongs_all own scene P [pt]" "\<forall>x. \<forall>t \<in> held s x. P t x" "belongs_all own scene P (q_next s)"
  shows "(\<forall>x. \<forall>t \<in> held s' x. P t x) \<and> belongs_all own scene P (q_next s')"
proof -
  obtain point task where pt: "pt = (point, task)" by (cases pt)
  obtain n e where n: "dget (q_new s) point = Some n" "dget g point = Some e"
    using assms(1) by (auto simp: squash_point_def pt Let_def elim!: rbind_InrE)
  define tasks where "tasks = sunion (sunion (if own then [point] else []) task) n"
  define push where "push = (if point \<in> set scene \<and> \<not> own then [] else tasks)"
  define s1 where "s1 = s\<lparr>q_new := dset point (if point \<in> set scene then tasks else []) (q_new s)\<rparr>"
  have run: "rfold (squash_dep own scene point task push) (rt_depends e) s1 = Inr s'"
    using assms(1) unfolding s1_def push_def tasks_def
    by (simp add: squash_point_def pt Let_def n dlookup_def split del: if_split)
  have here: "P t point" if "t \<in> set tasks \<union> set task" for t
    using that assms(3,4) n(1) by (force simp: tasks_def pt belongs_all_def dgetd_def split: if_splits)
  have below: "P t d" if "t \<in> set tasks \<union> set task" "d \<in> set (rt_depends e)" for t d
    using here [OF that(1)] that(2) assms(2,3) n(2) by (auto simp: closed_down_def pt belongs_all_def deps_def)
  have own: "P d d" if "own" "d \<in> set (rt_depends e)" for d
  proof -
    have "P point d" by (rule below) (use that in \<open>simp_all add: tasks_def\<close>)
    then show ?thesis using assms(2) that(1) unfolding closed_down_def by blast
  qed
  have start: "(\<forall>x. \<forall>t \<in> held s1 x. P t x) \<and> belongs_all own scene P (q_next s1)"
    using assms(4,5) here by (simp add: s1_def)
  show ?thesis
  proof (rule rfold_inv [OF run, of "\<lambda>s. (\<forall>x. \<forall>t \<in> held s x. P t x) \<and> belongs_all own scene P (q_next s)"])
    fix d u v
    assume d: "d \<in> set (rt_depends e)" and v: "squash_dep own scene point task push d u = Inr v"
      and u: "(\<forall>x. \<forall>t \<in> held u x. P t x) \<and> belongs_all own scene P (q_next u)"
    obtain r m where m: "dget (q_rev u) d = Some r" "dget (q_new u) d = Some m"
      using v by (auto simp: squash_dep_def elim!: rbind_InrE)
    have nxt: "q_next v = q_next u \<or> d \<notin> set scene \<and> q_next v = dset d (if own then push else task) (q_next u)"
      and new: "q_new v = dset d (sunion m push) (q_new u)"
      using v m by (auto simp: squash_dep_def Let_def dlookup_def)
    have "P t d" if "t \<in> set (if own then push else task)" for t
      using that below d by (simp add: push_def split: if_splits)
    then have "belongs_all own scene P (q_next v)"
      using nxt u own d by (fastforce simp: belongs_all_def dest: set_dset)
    moreover have "\<forall>x. \<forall>t \<in> held v x. P t x"
      using u below d m(2) by (auto simp: new push_def dgetd_def split: if_splits)
    ultimately show "(\<forall>x. \<forall>t \<in> held v x. P t x) \<and> belongs_all own scene P (q_next v)" by blast
  qed (rule start)
qed

lemma process_points_sound:
  assumes "closed_down own scene g P"
  shows "process_points fuel own scene g cur s = Inr s' \<Longrightarrow> belongs_all own scene P cur \<Longrightarrow>
    \<forall>x. \<forall>t \<in> held s x. P t x \<Longrightarrow> \<forall>x. \<forall>t \<in> held s' x. P t x"
proof (induction fuel arbitrary: cur s)
  case 0
  then show ?case by simp
next
  case (Suc fuel)
  obtain s1 where s1: "rfold (squash_point own scene g) cur (s\<lparr>q_next := []\<rparr>) = Inr s1"
    "(if q_next s1 \<noteq> [] then process_points fuel own scene g (q_next s1) s1 else Inr s1) = Inr s'"
    using Suc.prems(1) by (auto elim: rbind_InrE)
  have "(\<forall>x. \<forall>t \<in> held s1 x. P t x) \<and> belongs_all own scene P (q_next s1)"
  proof (rule rfold_inv [OF s1(1), of "\<lambda>s. (\<forall>x. \<forall>t \<in> held s x. P t x) \<and> belongs_all own scene P (q_next s)"])
    fix pt u v
    assume "pt \<in> set cur" "squash_point own scene g pt u = Inr v"
      "(\<forall>x. \<forall>t \<in> held u x. P t x) \<and> belongs_all own scene P (q_next u)"
    moreover from this(1) have "belongs_all own scene P [pt]" using Suc.prems(2) by (auto simp: belongs_all_def)
    ultimately show "(\<forall>x. \<forall>t \<in> held v x. P t x) \<and> belongs_all own scene P (q_next v)"
      using squash_point_sound [OF _ assms] by blast
  qed (use Suc.prems(3) in \<open>simp add: belongs_all_def\<close>)
  then have ok: "\<forall>x. \<forall>t \<in> held s1 x. P t x" "belongs_all own scene P (q_next s1)" by simp_all
  show ?case
  proof (cases "q_next s1 = []")
    case True
    then show ?thesis using s1(2) ok(1) by simp
  next
    case False
    then show ?thesis using s1(2) by (intro Suc.IH [OF _ ok(2,1)]) simp
  qed
qed

section \<open>The two walks\<close>

lemma dkeys_map [simp]: "dkeys (map (\<lambda>(k, v). (k, f k v)) d) = dkeys d"
  by (induction d) auto

lemma held_start [simp]: "dgetd (q_new (squash_start g)) x [] = []"
  by (simp add: squash_start_def dgetd_def split: option.split)

lemma squash_start_ok: "set (dkeys ends) \<subseteq> set (dkeys g) \<Longrightarrow> squash_ok scene g ends (squash_start g)"
  unfolding squash_ok_def held_start by (simp add: squash_start_def)

lemma squash_walk:
  assumes "graph_wf g" "acyclic (dep_edges g)" "set (dkeys ends) \<subseteq> set (dkeys g)"
  obtains s where "process_points (squash_fuel g) own scene g ends (squash_start g) = Inr s" "squash_ok scene g [] s" "q_next s = []"
    "\<forall>t x. t \<in> pend own ends x \<longrightarrow> arrived scene g (held s) (pend own []) t x"
proof -
  have "squash_ok scene g ends ((squash_start g)\<lparr>q_next := []\<rparr>)"
    using squash_start_ok [OF assms(3)] by (auto simp: squash_ok_def squash_start_def)
  moreover have "\<forall>p \<in> set (dkeys ends). below g p < squash_fuel g"
    using below_length [OF assms(1)] by (simp add: squash_fuel_def less_Suc_eq_le)
  moreover have "0 < squash_fuel g" by (simp add: squash_fuel_def)
  ultimately have "\<exists>s. process_points (squash_fuel g) own scene g ends (squash_start g) = Inr s \<and> squash_ok scene g [] s \<and>
      q_next s = [] \<and>
      (\<forall>t x. arrived scene g (held (squash_start g)) (pend own ends) t x \<longrightarrow> arrived scene g (held s) (pend own []) t x)"
    by (rule process_points_ends [OF assms(1,2)])
  then obtain s where s: "process_points (squash_fuel g) own scene g ends (squash_start g) = Inr s"
    "squash_ok scene g [] s" "q_next s = []"
    "\<forall>t x. arrived scene g (held (squash_start g)) (pend own ends) t x \<longrightarrow> arrived scene g (held s) (pend own []) t x"
    by (elim exE conjE) (rule that; assumption)
  have "arrived scene g (held s) (pend own []) t x" if "t \<in> pend own ends x" for t x
    using s(4) arrived.pending [of t "pend own ends" x scene g "held (squash_start g)", OF that] by blast
  then show ?thesis using that [OF s(1-3)] by simp
qed

lemma bare_endpoints_set:
  assumes "dwf g"
  shows "set (bare_endpoints g scene) = {(t, []) | t. t \<in> set (dkeys g) \<and> revs g t = [] \<and> t \<notin> set scene}"
proof -
  have "(t, k) \<in> set (bare_endpoints g scene) \<longleftrightarrow> k = [] \<and> t \<notin> set scene \<and> (\<exists>e. (t, e) \<in> set g \<and> rt_revdeps e = [])" for t k
    by (force simp: bare_endpoints_def)
  also have "\<dots> t k \<longleftrightarrow> k = [] \<and> t \<notin> set scene \<and> t \<in> set (dkeys g) \<and> revs g t = []" for t k
    using dwf_dget [OF assms] by (auto simp: revs_def dest: dget_SomeD elim: dget_keyE)
  finally show ?thesis by auto
qed

lemma scene_endpoints_effect:
  assumes "graph_wf g" "set xs \<subseteq> set (dkeys g)" "set (dkeys ends) \<subseteq> set (dkeys g)"
  shows "\<exists>ends'. scene_endpoints g xs ends = Inr ends' \<and> set (dkeys ends') \<subseteq> set (dkeys g) \<and>
    (\<forall>t x. t \<in> set (dgetd ends' x []) \<longleftrightarrow> t \<in> set (dgetd ends x []) \<or> t \<in> set xs \<and> x \<in> set (deps g t)) \<and>
    (dwf ends \<longrightarrow> dwf ends')"
  unfolding scene_endpoints_def using assms(2,3)
proof (induction xs arbitrary: ends)
  case Nil
  then show ?case by simp
next
  case (Cons tid xs)
  obtain e where e: "dget g tid = Some e" using Cons.prems(1) by (auto elim: dget_keyE)
  define add where "add = (\<lambda>dep ends :: ('a, 'a list) dict. dset dep (sadd tid (dgetd ends dep [])) ends)"
  have "rt_depends e = deps g tid" by (simp add: deps_def e)
  then have sub: "set (rt_depends e) \<subseteq> set (dkeys g)"
    using assms(1) Cons.prems(1) by (simp add: graph_wf_def)
  have fold: "set (dkeys (fold add ds ends)) = set (dkeys ends) \<union> set ds \<and>
      (\<forall>t x. t \<in> set (dgetd (fold add ds ends) x []) \<longleftrightarrow> t \<in> set (dgetd ends x []) \<or> t = tid \<and> x \<in> set ds) \<and>
      (dwf ends \<longrightarrow> dwf (fold add ds ends))" for ds ends
  proof (induction ds arbitrary: ends)
    case (Cons d ds)
    have "set (dkeys (add d ends)) = insert d (set (dkeys ends))" by (simp add: add_def)
    moreover have "t \<in> set (dgetd (add d ends) x []) \<longleftrightarrow> t \<in> set (dgetd ends x []) \<or> t = tid \<and> x = d" for t x
      by (auto simp: add_def)
    moreover have "dwf ends \<longrightarrow> dwf (add d ends)" by (simp add: add_def)
    ultimately show ?case using Cons.IH [of "add d ends"] by auto
  qed simp
  have "set (dkeys (fold add (rt_depends e) ends)) \<subseteq> set (dkeys g)" using fold sub Cons.prems(2) by auto
  from Cons.IH [OF _ this] Cons.prems(1) obtain ends' where
    "rfold (\<lambda>tid endpoints. rbind (dlookup g tid) (\<lambda>e.
       Inr (fold (\<lambda>dep ends. dset dep (sadd tid (dgetd ends dep [])) ends) (rt_depends e) endpoints))) xs
       (fold add (rt_depends e) ends) = Inr ends'"
    "set (dkeys ends') \<subseteq> set (dkeys g)"
    "\<forall>t x. t \<in> set (dgetd ends' x []) \<longleftrightarrow>
       t \<in> set (dgetd (fold add (rt_depends e) ends) x []) \<or> t \<in> set xs \<and> x \<in> set (deps g t)"
    "dwf (fold add (rt_depends e) ends) \<longrightarrow> dwf ends'"
    by auto
  then show ?case using e fold [of "rt_depends e" ends] by (auto simp: add_def dlookup_def deps_def)
qed

text \<open>The setscene tasks held by a task at the end of the first walk.\<close>

lemma process_endpoints_result:
  assumes "graph_wf g" "acyclic (dep_edges g)" "set scene \<subseteq> set (dkeys g)"
  obtains s where "process_endpoints g scene = Inr s" "set (dkeys (q_new s)) = set (dkeys g)"
    "\<forall>x. x \<notin> set scene \<longrightarrow> held s x = {}"
    "\<forall>t x. x \<in> set scene \<longrightarrow> needs_directly scene g t x \<longrightarrow> t \<in> held s x"
    "\<forall>t x. t \<in> held s x \<longrightarrow> t \<in> set scene \<and> (t, x) \<in> (dep_edges g)\<^sup>+"
proof -
  have wf: "dwf g" using assms(1) by (simp add: graph_wf_def)
  let ?bare = "bare_endpoints g scene"
  note bs = bare_endpoints_set [OF wf, of scene]
  have bare: "set (dkeys ?bare) \<subseteq> set (dkeys g)"
  proof -
    have "set (dkeys ?bare) = fst ` set ?bare" by (simp add: dkeys_def)
    then show ?thesis using bs by auto
  qed
  have bare2: "t \<notin> set (dgetd ?bare x [])" for t x
    using bs by (cases "dget ?bare x") (auto simp: dgetd_def dest!: map_of_SomeD)
  have "dwf ?bare"
    using wf unfolding dwf_def dkeys_def bare_endpoints_def
    by (simp add: comp_def case_prod_beta distinct_map_filter)
  with scene_endpoints_effect [OF assms(1,3) bare] bare2 obtain ends where ends:
    "scene_endpoints g scene ?bare = Inr ends" "set (dkeys ends) \<subseteq> set (dkeys g)" "dwf ends"
    "\<And>t x. t \<in> set (dgetd ends x []) \<longleftrightarrow> t \<in> set scene \<and> x \<in> set (deps g t)"
    by auto
  have val: "(x, k) \<in> set ends \<Longrightarrow> k = dgetd ends x []" for x k
    using ends(3) by (simp add: dwf_dget dgetd_def)
  obtain s where s: "process_points (squash_fuel g) False scene g ends (squash_start g) = Inr s" "squash_ok scene g [] s"
    "q_next s = []" "\<forall>t x. t \<in> pend False ends x \<longrightarrow> arrived scene g (held s) (pend False []) t x"
    by (rule squash_walk [OF assms(1,2) ends(2), of False scene])
  have nd: "arrived scene g (held s) (pend False []) t x" if "needs_directly scene g t x" for t x
    using that
  proof (induction rule: needs_directly.induct)
    case (first t d)
    then have "t \<in> set (dgetd ends d [])" using ends(4) by blast
    then have "t \<in> pend False ends d"
      using ends(3) by (cases "dget ends d") (auto simp: pend_def dgetd_def dwf_dget)
    then show ?case using s(4) by simp
  next
    case (further t x d)
    then show ?case using arrived_end [OF s(2,3) further.IH] by auto
  qed
  let ?P = "\<lambda>t x. t \<in> set scene \<and> (t, x) \<in> (dep_edges g)\<^sup>+"
  have "closed_down False scene g ?P"
    by (auto simp: closed_down_def intro: trancl_into_trancl deps_edge)
  moreover have "?P t x" if "(x, k) \<in> set ends" "t \<in> set k" for x k t
  proof -
    have "t \<in> set scene \<and> x \<in> set (deps g t)" using ends(4) [of t x] val [OF that(1)] that(2) by simp
    then show ?thesis using deps_edge [of x g t] by blast
  qed
  then have "belongs_all False scene ?P ends" by (auto simp: belongs_all_def)
  moreover have "\<forall>x. \<forall>t \<in> held (squash_start g) x. ?P t x" by simp
  ultimately have sound: "\<forall>x. \<forall>t \<in> held s x. ?P t x" using process_points_sound [OF _ s(1)] by blast
  show ?thesis
  proof (rule that [of s])
    show "process_endpoints g scene = Inr s" using ends(1) s(1) by (simp add: process_endpoints_def)
    show "\<forall>x. x \<notin> set scene \<longrightarrow> held s x = {}" using s(2,3) unfolding squash_ok_def by fastforce
    show "\<forall>t x. x \<in> set scene \<longrightarrow> needs_directly scene g t x \<longrightarrow> t \<in> held s x"
      using arrived_end [OF s(2,3) nd] by (metis (full_types))
  qed (use s(2) sound in \<open>simp_all add: squash_ok_def\<close>)
qed

lemma squash_result_ok:
  assumes "set (dkeys g) = set (dkeys new)" "\<And>x. x \<notin> set scene \<Longrightarrow> dgetd new x [] = []"
  shows "\<exists>sq. squash_result g scene new = Inr sq \<and> set (dkeys sq) = set (dkeys g) \<inter> set scene \<and>
    (\<forall>x \<in> set (dkeys sq). dget sq x = dget new x) \<and> dwf sq"
proof -
  have "set ts \<subseteq> set (dkeys new) \<Longrightarrow> dwf sq0 \<Longrightarrow> (\<forall>x \<in> set (dkeys sq0). dget sq0 x = dget new x) \<Longrightarrow>
    \<exists>sq. rfold (\<lambda>tid squash. rbind (dlookup new tid) (\<lambda>n.
       if tid \<in> set scene then Inr (dset tid n squash)
       else if n \<noteq> [] then Inl Fatal else Inr squash)) ts sq0 = Inr sq \<and>
      set (dkeys sq) = set (dkeys sq0) \<union> (set ts \<inter> set scene) \<and> (\<forall>x \<in> set (dkeys sq). dget sq x = dget new x) \<and> dwf sq" for ts sq0
  proof (induction ts arbitrary: sq0)
    case (Cons t ts)
    obtain n where n: "dget new t = Some n" using Cons.prems(1) by (auto elim: dget_keyE)
    show ?case
    proof (cases "t \<in> set scene")
      case True
      have "\<forall>x \<in> set (dkeys (dset t n sq0)). dget (dset t n sq0) x = dget new x" using Cons.prems(3) n by simp
      with Cons.IH [of "dset t n sq0"] Cons.prems(1,2) show ?thesis using n True by (auto simp: dlookup_def)
    next
      case False
      then have "n = []" using assms(2) [of t] n by (simp add: dgetd_def)
      then show ?thesis using Cons n False by (simp add: dlookup_def)
    qed
  qed simp
  from this [of "dkeys g" "[]"] show ?thesis using assms(1) by (auto simp: squash_result_def dwf_def)
qed

section \<open>The properties of the collapsed graph\<close>

text \<open>
  C10. On a task graph without cycles the collapse to the setscene tasks ends without raising (never "Something
  went badly wrong").  Each setscene task gets all the setscene tasks that need it directly, through
  tasks without setscene variant, and only setscene tasks that need it, so the collapsed graph has no
  cycle either.
\<close>
theorem scene_squash_sound:
  assumes "graph_wf g" "acyclic (dep_edges g)" "set scene \<subseteq> set (dkeys g)"
  shows "\<exists>sq. scene_squash g scene = Inr sq \<and> set (dkeys sq) = set scene \<and>
    (\<forall>x \<in> set scene. \<forall>t. needs_directly scene g t x \<longrightarrow> t \<in> set (dgetd sq x [])) \<and>
    (\<forall>x. \<forall>t \<in> set (dgetd sq x []). t \<in> set scene \<and> (t, x) \<in> (dep_edges g)\<^sup>+) \<and>
    acyclic {(t, x). t \<in> set (dgetd sq x [])}"
proof -
  obtain s where s: "process_endpoints g scene = Inr s" "set (dkeys (q_new s)) = set (dkeys g)"
    "\<forall>x. x \<notin> set scene \<longrightarrow> held s x = {}"
    "\<forall>t x. x \<in> set scene \<longrightarrow> needs_directly scene g t x \<longrightarrow> t \<in> held s x"
    "\<forall>t x. t \<in> held s x \<longrightarrow> t \<in> set scene \<and> (t, x) \<in> (dep_edges g)\<^sup>+"
    by (rule process_endpoints_result [OF assms])
  have "\<exists>sq. squash_result g scene (q_new s) = Inr sq \<and> set (dkeys sq) = set (dkeys g) \<inter> set scene \<and>
    (\<forall>x \<in> set (dkeys sq). dget sq x = dget (q_new s) x) \<and> dwf sq"
    by (rule squash_result_ok) (use s(2,3) in auto)
  then obtain sq where sq: "squash_result g scene (q_new s) = Inr sq" "set (dkeys sq) = set scene"
    "\<forall>x \<in> set scene. dget sq x = dget (q_new s) x"
    using assms(3) by auto
  have val: "set (dgetd sq x []) = (if x \<in> set scene then held s x else {})" for x
    using sq(2,3) dget_None_iff [of sq x] by (auto simp: dgetd_def)
  have sound: "\<forall>x. \<forall>t \<in> set (dgetd sq x []). t \<in> set scene \<and> (t, x) \<in> (dep_edges g)\<^sup>+"
    using val s(5) by auto
  moreover have "acyclic {(t, x). t \<in> set (dgetd sq x [])}"
  proof (rule acyclic_subset)
    show "acyclic ((dep_edges g)\<^sup>+)" using assms(2) by (simp add: acyclic_def)
    show "{(t, x). t \<in> set (dgetd sq x [])} \<subseteq> (dep_edges g)\<^sup>+" using sound by blast
  qed
  moreover have "scene_squash g scene = Inr sq" using s(1) sq(1) by (simp add: scene_squash_def)
  moreover have "\<forall>x \<in> set scene. \<forall>t. needs_directly scene g t x \<longrightarrow> t \<in> set (dgetd sq x [])"
    using val s(4) by simp
  ultimately show ?thesis using sq(2) by blast
qed

text \<open>
  C11. \<open>unskippable\<close> is exactly the list of the setscene tasks that an end of the graph without setscene
  variant reaches through tasks without setscene variant.
\<close>
theorem unskippable_exact:
  assumes "graph_wf g" "acyclic (dep_edges g)" "set scene \<subseteq> set (dkeys g)"
  shows "\<exists>us. unskippable g scene = Inr us \<and> set us = {t \<in> set scene. below_end scene g t}"
proof -
  have wf: "dwf g" using assms(1) by (simp add: graph_wf_def)
  note bs = bare_endpoints_set [OF wf, of scene]
  have bare: "set (dkeys (bare_endpoints g scene)) \<subseteq> set (dkeys g)"
  proof -
    have "set (dkeys (bare_endpoints g scene)) = fst ` set (bare_endpoints g scene)" by (simp add: dkeys_def)
    then show ?thesis using bs by auto
  qed
  obtain s where s: "process_points (squash_fuel g) True scene g (bare_endpoints g scene) (squash_start g) = Inr s"
    "squash_ok scene g [] s" "q_next s = []"
    "\<forall>t x. t \<in> pend True (bare_endpoints g scene) x \<longrightarrow> arrived scene g (held s) (pend True []) t x"
    by (rule squash_walk [OF assms(1,2) bare, of True scene])
  let ?start = "\<lambda>x. x \<in> set (dkeys g) \<and> revs g x = [] \<and> x \<notin> set scene"
  let ?P = "\<lambda>t x. ?start x \<or> below_end scene g x"
  have "closed_down True scene g ?P"
    by (auto simp: closed_down_def intro: below_end.intros)
  moreover have "belongs_all True scene ?P (bare_endpoints g scene)"
    using bs by (auto simp: belongs_all_def)
  moreover have "\<forall>x. \<forall>t \<in> held (squash_start g) x. ?P t x" by simp
  ultimately have sound: "\<forall>x. \<forall>t \<in> held s x. ?P t x" by (rule process_points_sound [OF _ s(1)])
  have reach: "\<exists>t. arrived scene g (held s) (pend True []) t x" if "below_end scene g x" for x
    using that
  proof (induction rule: below_end.induct)
    case (endpoint t d)
    then have "arrived scene g (held s) (pend True []) t t" using s(4) bs by (auto simp: pend_def)
    from arrived_end [OF s(2,3) this] endpoint show ?case by auto
  next
    case (deeper x d)
    then obtain t where "arrived scene g (held s) (pend True []) t x" by blast
    from arrived_end [OF s(2,3) this] deeper show ?case by auto
  qed
  have complete: "held s x \<noteq> {}" if xs: "x \<in> set scene" "below_end scene g x" for x
  proof -
    obtain t where "arrived scene g (held s) (pend True []) t x" using reach [OF xs(2)] by blast
    from arrived_end [OF s(2,3) this] xs(1) show ?thesis by auto
  qed
  have keys: "set scene \<subseteq> set (dkeys (q_new s))" using s(2) assms(3) by (simp add: squash_ok_def)
  have "rmap (\<lambda>tid. rbind (dlookup (q_new s) tid) (\<lambda>n. Inr (tid, n))) scene =
      Inr (map (\<lambda>tid. (tid, dgetd (q_new s) tid [])) scene)"
  proof (rule rmap_Inr)
    fix tid assume "tid \<in> set scene"
    then obtain n where "dget (q_new s) tid = Some n" using keys by (auto elim: dget_keyE)
    then show "rbind (dlookup (q_new s) tid) (\<lambda>n. Inr (tid, n)) = Inr (tid, dgetd (q_new s) tid [])"
      by (simp add: dlookup_def dgetd_def)
  qed
  then have "unskippable g scene = Inr (filter (\<lambda>tid. dgetd (q_new s) tid [] \<noteq> []) scene)"
    using s(1) by (simp add: unskippable_def process_endpoints2_def filter_map comp_def)
  moreover have "set (filter (\<lambda>tid. dgetd (q_new s) tid [] \<noteq> []) scene) = {t \<in> set scene. below_end scene g t}"
    using sound complete by fastforce
  ultimately show ?thesis by blast
qed

text \<open>
  The set handed to the next round is the one a setscene task was reached with, and not the setscene task itself:
  \<open>a\<close> is carried past the setscene task \<open>b\<close> to \<open>c\<close>, although it does not need it directly.
\<close>

definition past_graph :: "string graph" where
  "past_graph = [(''a'', \<lparr>rt_depends = [''b''], rt_revdeps = [], rt_hash = None, rt_weight = 1\<rparr>),
    (''b'', \<lparr>rt_depends = [''d''], rt_revdeps = [''a''], rt_hash = None, rt_weight = 1\<rparr>),
    (''d'', \<lparr>rt_depends = [''c''], rt_revdeps = [''b''], rt_hash = None, rt_weight = 1\<rparr>),
    (''c'', \<lparr>rt_depends = [], rt_revdeps = [''d''], rt_hash = None, rt_weight = 1\<rparr>)]"

abbreviation past_scene :: "string list" where
  "past_scene \<equiv> [''a'', ''b'', ''c'']"

lemma past_deps: "deps past_graph t = (if t = ''a'' then [''b''] else if t = ''b'' then [''d''] else if t = ''d'' then [''c''] else [])"
  by (simp add: deps_def past_graph_def)

lemma past_graph_ok: "graph_wf past_graph" "acyclic (dep_edges past_graph)" "set past_scene \<subseteq> set (dkeys past_graph)"
proof -
  show "graph_wf past_graph" by (auto simp: graph_wf_def past_graph_def dwf_def deps_def revs_def)
  have "dep_edges past_graph \<subseteq> measure (\<lambda>t. if t = ''a'' then 0 else if t = ''b'' then 1 else if t = ''d'' then 2 else 3) "
    by (auto simp: dep_edges_def past_deps split: if_splits)
  then show "acyclic (dep_edges past_graph)" by (rule acyclic_subset [rotated]) (simp add: wf_acyclic)
  show "set past_scene \<subseteq> set (dkeys past_graph)" by (auto simp: past_graph_def)
qed

lemma squash_carries_past:
  "scene_squash past_graph past_scene = Inr [(''a'', []), (''b'', [''a'']), (''c'', [''b'', ''a''])] \<and>
   \<not> needs_directly past_scene past_graph ''a'' ''c''"
proof
  show "scene_squash past_graph past_scene = Inr [(''a'', []), (''b'', [''a'']), (''c'', [''b'', ''a''])]" by code_simp
  have "x = ''b''" if "needs_directly past_scene past_graph ''a'' x" for x
    using that by (induction "''a''" x rule: needs_directly.induct) (simp_all add: past_deps)
  then show "\<not> needs_directly past_scene past_graph ''a'' ''c''" by fastforce
qed

lemma scene_squash_sound_witness:
  "scene_squash past_graph past_scene = Inr [(''a'', []), (''b'', [''a'']), (''c'', [''b'', ''a''])] \<and>
   acyclic {(t, x). t \<in> set (dgetd [(''a'', []), (''b'', [''a'']), (''c'', [''b'', ''a''])] x [])}"
proof -
  note c = squash_carries_past [THEN conjunct1]
  obtain sq where sq: "scene_squash past_graph past_scene = Inr sq" "acyclic {(t, x). t \<in> set (dgetd sq x [])}"
    using scene_squash_sound [OF past_graph_ok] by (elim exE conjE) (rule that)
  then have "sq = [(''a'', []), (''b'', [''a'']), (''c'', [''b'', ''a''])]" using c by simp
  then show ?thesis using c sq(2) by simp
qed

lemma unskippable_exact_witness:
  "unskippable past_graph [''b'', ''c''] = Inr [''b''] \<and> below_end [''b'', ''c''] past_graph ''b'' \<and>
   \<not> below_end [''b'', ''c''] past_graph ''c''"
proof -
  have u: "unskippable past_graph [''b'', ''c''] = Inr [''b'']" by code_simp
  have "set [''b'', ''c''] \<subseteq> set (dkeys past_graph)" by (simp add: past_graph_def)
  then obtain us where us: "unskippable past_graph [''b'', ''c''] = Inr us"
    "set us = {t \<in> set [''b'', ''c'']. below_end [''b'', ''c''] past_graph t}"
    using unskippable_exact [OF past_graph_ok(1,2)] by blast
  then have "us = [''b'']" using u by simp
  then have "t \<in> set [''b''] \<longleftrightarrow> t \<in> set [''b'', ''c''] \<and> below_end [''b'', ''c''] past_graph t" for t
    using us(2) by blast
  from this [of "''b''"] this [of "''c''"] u show ?thesis by simp
qed

end
