(* ===== verification/SceneQueue.thy ===== *)
theory SceneQueue
  imports TaskExecutor SceneSquash
begin

text \<open>
  \<open>RunQueueExecuteScenequeue\<close> of \<open>bitbake/lib/bb/runqueue.py\<close>: the queue that runs the setscene
  tasks before the real ones.  It finds out which tasks are covered by a setscene task and hands them to
  the executor of \<open>TaskExecutor\<close>.

  Sets are lists without repetitions.  The recursion of \<open>scenequeue_updatecounters\<close> follows the hard
  dependencies and has fuel for the number of tasks that have some; \<open>SceneSafety\<close> shows that it is enough
  when they have no cycle.
\<close>

section \<open>The state\<close>

record sexec = exec +
  s_covered :: "string list"
  s_notcovered :: "string list"
  s_notneeded :: "string list"
  s_deps :: "(string, string list) dict"
  s_revdeps :: "(string, string list) dict"
  s_revdeps2 :: "(string, string list) dict"
  s_harddeps :: "(string, string list) dict"
  s_stamps :: "(string, string option) dict"
  s_unskippable :: "string list"
  s_outrightfail :: "string list"

section \<open>The dependencies between setscene tasks\<close>

text \<open>The state of the loop over the setscene tasks: \<open>sq_harddeps\<close>, \<open>sq_revdeps_squash\<close>, \<open>stamps\<close>.\<close>

type_synonym hardstate =
  "(string, string list) dict \<times> (string, string list) dict \<times> (string, string option) dict"

definition hard_dep ::
  "string graph \<Rightarrow> taskdata \<Rightarrow> string \<Rightarrow> string \<times> string \<Rightarrow> hardstate \<Rightarrow> hardstate res" where
  "hard_dep g td tid dep st =
     (case (dep, st) of ((depname, idependtask), (hard, squash, stamps)) \<Rightarrow>
       (case dget (td_build_targets td) depname of
          None \<Rightarrow> Inr st
        | Some [] \<Rightarrow> Inl IndexError
        | Some (depfn # _) \<Rightarrow>
            let deptid = depfn @ [colon] @ py_replace ''_setscene'' [] idependtask
            in if deptid \<notin> set (dkeys g) then Inl Fatal
               else rbind (dlookup squash tid) (\<lambda>s.
                      Inr (dset deptid (sadd tid (dgetd hard deptid [])) hard,
                           dset deptid [] (dset tid (sadd deptid s) squash), stamps))))"

definition hard_deps_of :: "mctd \<Rightarrow> stampview \<Rightarrow> string graph \<Rightarrow> string \<Rightarrow> hardstate \<Rightarrow> hardstate res" where
  "hard_deps_of tds v g tid st =
     (case st of (hard, squash, stamps) \<Rightarrow>
       rbind (split_tid_mcfn tid) (\<lambda>(mc, fn, taskname, taskfn).
       rbind (dlookup tds mc) (\<lambda>td.
       rbind (dlookup (td_taskentries td) (tid @ ''_setscene'')) (\<lambda>te.
       rbind (dlookup (sv_dcs v) mc) (\<lambda>dc.
       rbind (stampfile (sv_sig v) (taskname @ ''_setscene'') dc taskfn True) (\<lambda>stamp.
         rfold (hard_dep g td tid) (te_idepends te) (hard, squash, dset tid stamp stamps)))))))"

definition add_back :: "(string, string list) dict \<Rightarrow> (string, string list) dict \<Rightarrow> (string, string list) dict res" where
  "add_back hard squash =
     rfold (\<lambda>(task, ds). rfold (\<lambda>dep squash. rbind (dlookup squash dep) (\<lambda>s. Inr (dset dep (sadd task s) squash))) ds)
       hard squash"

definition sq_forward :: "(string, string list) dict \<Rightarrow> (string, string list) dict res" where
  "sq_forward revdeps =
     rfold (\<lambda>(tid, ds). rfold (\<lambda>dep fwd. rbind (dlookup fwd dep) (\<lambda>s. Inr (dset dep (sadd tid s) fwd))) ds)
       revdeps (map (\<lambda>(tid, ds). (tid, [])) revdeps)"

section \<open>Covered and not covered tasks\<close>

primrec scenequeue_updatecounters :: "nat \<Rightarrow> string \<Rightarrow> bool \<Rightarrow> sexec \<Rightarrow> sexec res" where
  "scenequeue_updatecounters 0 task fail x = Inl OutOfFuel"
| "scenequeue_updatecounters (Suc fuel) task fail x =
     rbind (dlookup (s_deps x) task) (\<lambda>ds.
       rfold (\<lambda>dep x.
           if fail \<and> dep \<in> set (dgetd (s_harddeps x) task []) then scenequeue_updatecounters fuel dep fail x
           else rbind (dlookup (s_revdeps2 x) dep) (\<lambda>r.
                  if task \<notin> set r then Inr x
                  else let x = x\<lparr>s_revdeps2 := dset dep (remove1 task r) (s_revdeps2 x)\<rparr>
                    in Inr (if remove1 task r = [] then x\<lparr>x_buildable := sadd dep (x_buildable x)\<rparr> else x)))
         ds x)"

definition update_fuel :: "sexec \<Rightarrow> nat" where
  "update_fuel x = Suc (length (s_harddeps x))"

definition scene_completeoutright :: "string \<Rightarrow> sexec \<Rightarrow> sexec res" where
  "scene_completeoutright task x =
     scenequeue_updatecounters (update_fuel x) task False (x\<lparr>s_covered := sadd task (s_covered x)\<rparr>)"

text \<open>\<open>task.split('_setscene')[0]\<close>\<close>

fun before_first :: "string \<Rightarrow> string \<Rightarrow> string" where
  "before_first sub [] = []"
| "before_first sub (c # cs) = (if startswith (c # cs) sub then [] else c # before_first sub cs)"

definition check_taskfail :: "execcfg \<Rightarrow> mcdc \<Rightarrow> string \<Rightarrow> sexec \<Rightarrow> sexec res" where
  "check_taskfail c dcs task x =
     (if ec_whitelist c = None \<or> ec_whitelist c = Some [] then Inr x
      else rbind (split_tid_mcfn (before_first ''_setscene'' task)) (\<lambda>(mc, fn, taskname, taskfn).
           rbind (dlookup dcs mc) (\<lambda>dc.
           rbind (dlookup (c_pkg_fn dc) taskfn) (\<lambda>pn.
             Inr (if check_setscene_enforce_whitelist (ec_fnmatch c) pn taskname (ec_whitelist c)
                  then x else x\<lparr>x_state := RCleanUp\<rparr>)))))"

definition scene_complete :: "string \<Rightarrow> sexec \<Rightarrow> sexec res" where
  "scene_complete task x = scene_completeoutright task (on_stats (taskCompleted 1) x)"

definition scene_fail :: "execcfg \<Rightarrow> mcdc \<Rightarrow> string \<Rightarrow> sexec \<Rightarrow> sexec res" where
  "scene_fail c dcs task x =
     (let x = (on_stats taskFailed x)\<lparr>s_notcovered := sadd task (s_notcovered x)\<rparr>
      in rbind (scenequeue_updatecounters (update_fuel x) task True x) (check_taskfail c dcs task))"

definition scene_failoutright :: "string \<Rightarrow> sexec \<Rightarrow> sexec res" where
  "scene_failoutright task x =
     (let x = x\<lparr>x_running := sadd task (x_running x), x_buildable := sadd task (x_buildable x)\<rparr>;
          x = on_stats (taskSkipped 1) (on_stats (taskCompleted 1) x);
          x = x\<lparr>s_notcovered := sadd task (s_notcovered x)\<rparr>
      in scenequeue_updatecounters (update_fuel x) task True x)"

definition scene_skip :: "string \<Rightarrow> sexec \<Rightarrow> sexec res" where
  "scene_skip task x =
     rbind (scene_completeoutright task
              (x\<lparr>x_running := sadd task (x_running x), x_buildable := sadd task (x_buildable x)\<rparr>)) (\<lambda>x.
       Inr (on_stats (taskSkipped 1) (on_stats (taskCompleted 1) x)))"

definition scene_report :: "execcfg \<Rightarrow> mcdc \<Rightarrow> report \<Rightarrow> sexec \<Rightarrow> sexec res" where
  "scene_report c dcs r x =
     (case r of
        Exited task status \<Rightarrow>
          let x = release_stamp task x in if status \<noteq> 0 then scene_fail c dcs task x else scene_complete task x
      | Died \<Rightarrow> Inr (finish_now x))"

definition scene_read_workers :: "execcfg \<Rightarrow> mcdc \<Rightarrow> report list \<Rightarrow> sexec \<Rightarrow> sexec res" where
  "scene_read_workers c dcs rs x = rfold (scene_report c dcs) rs x"

section \<open>Choosing and starting a setscene task\<close>

text \<open>
  The set given to \<open>check_dependencies\<close> is the entry of \<open>sq_revdeps\<close> itself, to which the task is added.
\<close>

definition dependency_data :: "mcdc \<Rightarrow> string list \<Rightarrow> (string, string \<times> string \<times> string) dict res" where
  "dependency_data dcs taskdeps =
     rfold (\<lambda>dep data.
         rbind (split_tid_mcfn dep) (\<lambda>(mc, fn, taskname, taskfn).
         rbind (dlookup dcs mc) (\<lambda>dc.
         rbind (dlookup (c_pkg_fn dc) taskfn) (\<lambda>pn. Inr (dset dep (pn, taskname, fn) data))))) taskdeps []"

definition check_dependencies :: "execcfg \<Rightarrow> mcdc \<Rightarrow> string \<Rightarrow> sexec \<Rightarrow> (bool \<times> sexec) res" where
  "check_dependencies c dcs task x =
     (case ec_depvalid c of
        None \<Rightarrow> Inr (False, x)
      | Some valid \<Rightarrow>
          rbind (dlookup (s_revdeps x) task) (\<lambda>r.
            let taskdeps = sadd task r
            in rbind (dependency_data dcs taskdeps) (\<lambda>taskdata.
                 Inr (valid task taskdata (s_notneeded x), x\<lparr>s_revdeps := dset task taskdeps (s_revdeps x)\<rparr>))))"

datatype choice = Returned | Chosen string | NoChoice

definition can_start :: "sexec \<Rightarrow> string \<Rightarrow> bool res" where
  "can_start x t =
     (if t \<in> set (x_buildable x) \<and> t \<notin> set (x_running x)
      then rbind (dlookup (s_stamps x) t) (\<lambda>stamp. Inr (stamp \<notin> set (map snd (x_stamps x))))
      else Inr False)"

definition not_needed :: "execcfg \<Rightarrow> mcdc \<Rightarrow> string \<Rightarrow> sexec \<Rightarrow> (bool \<times> sexec) res" where
  "not_needed c dcs t x =
     (if t \<in> set (s_unskippable x) then Inr (False, x)
      else rbind (dlookup (s_revdeps x) t) (\<lambda>r.
             if r \<noteq> [] \<and> set r \<subseteq> set (s_covered x)
             then rbind (check_dependencies c dcs t x) (\<lambda>(valid, x). Inr (valid \<and> t \<notin> set (ec_target_tids c), x))
             else Inr (False, x)))"

fun pick_setscene :: "execcfg \<Rightarrow> mcdc \<Rightarrow> string list \<Rightarrow> sexec \<Rightarrow> (choice \<times> sexec) res" where
  "pick_setscene c dcs [] x = Inr (NoChoice, x)"
| "pick_setscene c dcs (t # ts) x =
     rbind (can_start x t) (\<lambda>start.
       if \<not> start then pick_setscene c dcs ts x
       else rbind (not_needed c dcs t x) (\<lambda>(skip, x).
              if skip then rbind (scene_skip t x) (\<lambda>x. Inr (Returned, x\<lparr>s_notneeded := sadd t (s_notneeded x)\<rparr>))
              else if t \<in> set (s_outrightfail x) then rbind (scene_failoutright t x) (\<lambda>x. Inr (Returned, x))
              else Inr (Chosen t, x)))"

definition next_setscene :: "execcfg \<Rightarrow> mcdc \<Rightarrow> sexec \<Rightarrow> (choice \<times> sexec) res" where
  "next_setscene c dcs x =
     (if st_active (x_stats x) < ec_number_tasks c then pick_setscene c dcs (ec_setscene_tids c) x
      else Inr (NoChoice, x))"

definition start_setscene ::
  "execcfg \<Rightarrow> stampview \<Rightarrow> string \<Rightarrow> string \<Rightarrow> string \<Rightarrow> string \<Rightarrow> sexec \<Rightarrow> sexec res" where
  "start_setscene c v task mc taskname taskfn x =
     rbind (dlookup (sv_dcs v) mc) (\<lambda>dc.
     rbind (dlookup (c_task_deps dc) taskfn) (\<lambda>taskdep.
       let fake = (task_flag taskdep ''fakeroot'' taskname \<noteq> None \<and> \<not> ec_dry_run c);
           fakeworkers = (if fake then sadd mc (x_fakeworkers x) else x_fakeworkers x)
       in if fake \<and> mc \<notin> set (x_fakeworkers x) \<and> \<not> ec_spawn c mc then Inl OSError
          else register_running v task mc taskname taskfn
                 (log_effect (RunTask fake taskfn task taskname True []) (x\<lparr>x_fakeworkers := fakeworkers\<rparr>))))"

text \<open>\<open>True\<close> when \<open>execute\<close> returns at once.\<close>

definition run_setscene :: "execcfg \<Rightarrow> stampview \<Rightarrow> string \<Rightarrow> sexec \<Rightarrow> (bool \<times> sexec) res" where
  "run_setscene c v task x =
     rbind (split_tid_mcfn task) (\<lambda>(mc, fn, taskname, taskfn).
     rbind (taskname_from_tid task) (\<lambda>realname.
     rbind (check_task v task realname True x) (\<lambda>(current, x).
       if current then rbind (scene_failoutright task x) (\<lambda>x. Inr (True, x))
       else if ec_force c \<and> task \<in> set (ec_target_tids c) then rbind (scene_failoutright task x) (\<lambda>x. Inr (True, x))
       else rbind (check_task v task (taskname @ ''_setscene'') False x) (\<lambda>(current, x).
              if current then rbind (scene_skip task x) (\<lambda>x. Inr (True, x))
              else rbind (start_setscene c v task mc (taskname @ ''_setscene'') taskfn x) (\<lambda>x.
                     Inr (st_active (x_stats x) < ec_number_tasks c, x))))))"

definition scene_body :: "execcfg \<Rightarrow> stampview \<Rightarrow> report list \<Rightarrow> sexec \<Rightarrow> (bool \<times> sexec) res" where
  "scene_body c v rs x =
     rbind (scene_read_workers c (sv_dcs v) rs x) (\<lambda>x.
     rbind (next_setscene c (sv_dcs v) x) (\<lambda>(choice, x).
       case choice of
         Returned \<Rightarrow> Inr (True, x)
       | NoChoice \<Rightarrow> Inr (False, x)
       | Chosen task \<Rightarrow> run_setscene c v task x))"

definition scene_wind_up :: "execcfg \<Rightarrow> mcdc \<Rightarrow> report list \<Rightarrow> sexec \<Rightarrow> (retval \<times> sexec) res" where
  "scene_wind_up c dcs rs x =
     (if st_active (x_stats x) > 0 then rbind (scene_read_workers c dcs rs x) (\<lambda>x. Inr (Wait, x))
      else Inr (Again, x\<lparr>x_covered := s_covered x, x_notcovered := s_notcovered x, x_state := RRunInit\<rparr>))"

definition scene_execute :: "execcfg \<Rightarrow> stampview \<Rightarrow> report list \<Rightarrow> report list \<Rightarrow> sexec \<Rightarrow> (retval \<times> sexec) res" where
  "scene_execute c v rs1 rs2 x =
     rbind (scene_body c v rs1 x) (\<lambda>(return, x).
       if return then Inr (Again, x) else scene_wind_up c (sv_dcs v) rs2 x)"

definition scene_finish :: "execcfg \<Rightarrow> mcdc \<Rightarrow> report list \<Rightarrow> sexec \<Rightarrow> (retval \<times> sexec) res" where
  "scene_finish c dcs rs x =
     (let x = x\<lparr>x_state := RCleanUp\<rparr>
      in if st_active (x_stats x) > 0 then rbind (scene_read_workers c dcs rs x) (\<lambda>x. Inr (Wait, x))
         else if x_failed x \<noteq> [] then Inr (Again, x\<lparr>x_state := RFailed\<rparr>)
         else Inr (Again, x\<lparr>x_state := RComplete\<rparr>))"

section \<open>The initial state\<close>

text \<open>
  The first look at the setscene tasks when there is a function that tells which hashes are available:
  the state, \<open>noexec\<close>, \<open>stamppresent\<close>, and what \<open>sq_task\<close>, \<open>sq_fn\<close>, \<open>sq_taskname\<close>, \<open>sq_hash\<close>, \<open>sq_hashfn\<close> hold.
\<close>

type_synonym hashquery = "string \<times> string \<times> string \<times> string option \<times> string"

definition query_task ::
  "stampview \<Rightarrow> string \<Rightarrow> sexec \<times> string list \<times> string list \<times> hashquery list \<Rightarrow>
   (sexec \<times> string list \<times> string list \<times> hashquery list) res" where
  "query_task v tid st =
     (case st of (x, noexecs, present, queries) \<Rightarrow>
       rbind (split_tid_mcfn tid) (\<lambda>(mc, fn, taskname, taskfn).
       rbind (dlookup (sv_dcs v) mc) (\<lambda>dc.
       rbind (dlookup (c_task_deps dc) taskfn) (\<lambda>taskdep.
         if noexec taskdep taskname then
           rbind (scene_skip tid x) (\<lambda>x.
             Inr (log_effect (MakeStamp (taskname @ ''_setscene'') mc taskfn) x, noexecs @ [tid], present, queries))
         else rbind (check_task v tid (taskname @ ''_setscene'') False x) (\<lambda>(current, x).
           if current then rbind (scene_skip tid x) (\<lambda>x. Inr (x, noexecs, present @ [tid], queries))
           else rbind (check_task v tid taskname True x) (\<lambda>(current, x).
             if current then rbind (scene_skip tid x) (\<lambda>x. Inr (x, noexecs, present @ [tid], queries))
             else rbind (dlookup (c_hashfn dc) taskfn) (\<lambda>hashfn.
                  rbind (dlookup (x_entries x) tid) (\<lambda>e.
                    Inr (x, noexecs, present, queries @ [(tid, fn, taskname, rt_hash e, hashfn)])))))))))"

definition query_hashes :: "execcfg \<Rightarrow> stampview \<Rightarrow> sexec \<Rightarrow> sexec res" where
  "query_hashes c v x =
     (case ec_hashvalidate c of
        None \<Rightarrow> Inr x
      | Some validate \<Rightarrow>
          rbind (rfold (query_task v) (dkeys (s_revdeps x)) (x, [], [], [])) (\<lambda>(x, noexecs, present, queries).
          rbind (rmap (\<lambda>i. if i < length queries then Inr (fst (queries ! i)) else Inl IndexError)
                   (validate (map snd queries))) (\<lambda>valid.
            Inr (x\<lparr>s_outrightfail :=
                   filter (\<lambda>tid. tid \<notin> set (present @ valid) \<and> tid \<notin> set noexecs) (dkeys (s_revdeps x))\<rparr>))))"

definition new_scene :: "string graph \<Rightarrow> string list \<Rightarrow> sexec" where
  "new_scene g fakeworkers =
     \<lparr>x_state = RSceneInit, x_covered = [], x_notcovered = [], x_entries = g, x_buildable = [], x_running = [],
      x_stamps = [], x_stamps2 = [], x_failed = [], x_stats = stats_init 0, x_cache = [], x_fakeworkers = fakeworkers,
      x_log = [], s_covered = [], s_notcovered = [], s_notneeded = [], s_deps = [], s_revdeps = [], s_revdeps2 = [],
      s_harddeps = [], s_stamps = [], s_unskippable = [], s_outrightfail = []\<rparr>"

definition scene_graph ::
  "execcfg \<Rightarrow> mctd \<Rightarrow> stampview \<Rightarrow> string graph \<Rightarrow> sexec \<Rightarrow> sexec res" where
  "scene_graph c tds v g x =
     rbind (process_endpoints g (ec_setscene_tids c)) (\<lambda>s.
     rbind (unskippable g (ec_setscene_tids c)) (\<lambda>us.
     rbind (squash_result g (ec_setscene_tids c) (q_new s)) (\<lambda>squash.
     rbind (rfold (hard_deps_of tds v g) (ec_setscene_tids c) ([], squash, [])) (\<lambda>(hard, squash, stamps).
     rbind (add_back hard squash) (\<lambda>squash.
     rbind (sq_forward squash) (\<lambda>deps.
       Inr (x\<lparr>x_stats := stats_init (int (length (ec_setscene_tids c))), s_harddeps := hard, s_stamps := stamps,
              s_unskippable := us, s_revdeps := squash, s_revdeps2 := squash, s_deps := deps,
              x_buildable := map fst (filter (\<lambda>(tid, ds). ds = []) squash)\<rparr>)))))))"

text \<open>
  Without setscene tasks \<open>__init__\<close> returns early, with the state \<open>runQueueRunInit\<close> and an object that has
  no statistics: \<open>False\<close>.
\<close>

definition scene_init ::
  "execcfg \<Rightarrow> mctd \<Rightarrow> stampview \<Rightarrow> string graph \<Rightarrow> string list \<Rightarrow> (bool \<times> sexec) res" where
  "scene_init c tds v g fakeworkers =
     (if ec_setscene_tids c = [] then Inr (False, (new_scene g fakeworkers)\<lparr>x_state := RRunInit\<rparr>)
      else rbind (scene_graph c tds v g (new_scene g fakeworkers)) (\<lambda>x.
           rbind (query_hashes c v x) (\<lambda>x. Inr (True, x\<lparr>x_state := RSceneRun\<rparr>))))"

end
