(* ===== verification/SceneSafety.thy ===== *)
theory SceneSafety
  imports SceneQueue ExecutorSafety
begin

text \<open>
  What the setscene queue of \<open>SceneQueue\<close> guarantees: no setscene task is started twice, never more
  are active than allowed, every task that was taken is in flight, covered or not covered and never two of them,
  the statistics agree with that, each call that returns at once takes another task, and the
  recursion over the hard dependencies ends when they have no cycle.
\<close>

section \<open>The counters\<close>

definition scene_inv :: "execcfg \<Rightarrow> sexec \<Rightarrow> bool" where
  "scene_inv c x \<longleftrightarrow>
     distinct (x_running x) \<and> distinct (s_covered x) \<and> distinct (s_notcovered x) \<and>
     set (s_covered x) \<subseteq> set (x_running x) \<and> set (s_notcovered x) \<subseteq> set (x_running x) \<and>
     set (s_covered x) \<inter> set (s_notcovered x) = {} \<and>
     dwf (x_stamps x) \<and> in_flight x = set (x_running x) - set (s_covered x) - set (s_notcovered x) \<and>
     st_active (x_stats x) = int (length (x_stamps x)) \<and>
     st_completed (x_stats x) + st_failed (x_stats x) = int (length (s_covered x) + length (s_notcovered x)) \<and>
     st_active (x_stats x) \<le> ec_number_tasks c \<and>
     distinct (started_tasks (x_log x)) \<and> set (started_tasks (x_log x)) \<subseteq> set (x_running x) \<and> x_failed x = []"

text \<open>\<open>scenequeue_updatecounters\<close> only changes which tasks wait for which.\<close>

definition recount :: "sexec \<Rightarrow> sexec \<Rightarrow> bool" where
  "recount x x' \<longleftrightarrow> (\<exists>r b. x' = x\<lparr>s_revdeps2 := r, x_buildable := b\<rparr>)"

lemma recount_refl [simp]: "recount x x"
  unfolding recount_def by (intro exI [of _ "s_revdeps2 x"] exI [of _ "x_buildable x"]) simp

lemma recount_trans: "recount x y \<Longrightarrow> recount y z \<Longrightarrow> recount x z"
  unfolding recount_def by force

lemma recount_upd [simp]: "recount u (u\<lparr>s_revdeps2 := r\<rparr>)" "recount u (u\<lparr>s_revdeps2 := r, x_buildable := b\<rparr>)"
  unfolding recount_def by (intro exI [of _ r] exI [of _ "x_buildable u"], simp) blast

lemma recountD:
  assumes "recount x x'"
  shows "x_running x' = x_running x" "s_covered x' = s_covered x" "s_notcovered x' = s_notcovered x"
    "x_stamps x' = x_stamps x" "x_stats x' = x_stats x" "x_log x' = x_log x" "x_failed x' = x_failed x"
    "x_state x' = x_state x" "s_revdeps x' = s_revdeps x" "s_harddeps x' = s_harddeps x" "s_deps x' = s_deps x"
  using assms by (auto simp: recount_def)

lemma recount_inv: "recount x x' \<Longrightarrow> scene_inv c x' \<longleftrightarrow> scene_inv c x"
  by (auto simp: recount_def scene_inv_def)

lemma updatecounters_recount: "scenequeue_updatecounters fuel task fail x = Inr x' \<Longrightarrow> recount x x'"
proof (induction fuel arbitrary: task x x')
  case (Suc fuel)
  then obtain ds where r: "rfold (\<lambda>dep x.
           if fail \<and> dep \<in> set (dgetd (s_harddeps x) task []) then scenequeue_updatecounters fuel dep fail x
           else rbind (dlookup (s_revdeps2 x) dep) (\<lambda>r.
                  if task \<notin> set r then Inr x
                  else let x = x\<lparr>s_revdeps2 := dset dep (remove1 task r) (s_revdeps2 x)\<rparr>
                    in Inr (if remove1 task r = [] then x\<lparr>x_buildable := sadd dep (x_buildable x)\<rparr> else x)))
         ds x = Inr x'"
    by (auto elim: rbind_InrE)
  show ?case
  proof (rule rfold_inv [OF r])
    fix dep u v
    assume u: "recount x u"
      and v: "(if fail \<and> dep \<in> set (dgetd (s_harddeps u) task []) then scenequeue_updatecounters fuel dep fail u
           else rbind (dlookup (s_revdeps2 u) dep) (\<lambda>r.
                  if task \<notin> set r then Inr u
                  else let x = u\<lparr>s_revdeps2 := dset dep (remove1 task r) (s_revdeps2 u)\<rparr>
                    in Inr (if remove1 task r = [] then x\<lparr>x_buildable := sadd dep (x_buildable x)\<rparr> else x))) = Inr v"
    have "recount u v"
    proof (cases "fail \<and> dep \<in> set (dgetd (s_harddeps u) task [])")
      case True
      then show ?thesis using Suc.IH v by simp
    next
      case False
      then show ?thesis using v by (auto simp: Let_def elim!: rbind_InrE split: if_splits)
    qed
    then show "recount x v" using u recount_trans by blast
  qed simp
qed simp

section \<open>Taking, starting and ending a task\<close>

lemma completeoutright_recount:
  "scene_completeoutright t x = Inr x' \<Longrightarrow> recount (x\<lparr>s_covered := sadd t (s_covered x)\<rparr>) x'"
  by (simp add: scene_completeoutright_def updatecounters_recount)

lemma scene_skip_ok:
  assumes "scene_skip t x = Inr x'" "scene_inv c x" "t \<notin> set (x_running x)"
  shows "scene_inv c x' \<and> x_running x' = x_running x @ [t] \<and> x_state x' = x_state x \<and> in_flight x' = in_flight x \<and>
    s_revdeps x' = s_revdeps x"
proof -
  let ?y = "x\<lparr>x_running := sadd t (x_running x), x_buildable := sadd t (x_buildable x)\<rparr>"
  obtain z where z: "scene_completeoutright t ?y = Inr z" "x' = on_stats (taskSkipped 1) (on_stats (taskCompleted 1) z)"
    using assms(1) by (auto simp: scene_skip_def elim!: rbind_InrE)
  have r: "recount (?y\<lparr>s_covered := sadd t (s_covered x)\<rparr>) z" using completeoutright_recount [OF z(1)] by simp
  have "t \<notin> set (s_covered x)" "t \<notin> set (s_notcovered x)" using assms(2,3) by (auto simp: scene_inv_def)
  then show ?thesis
    using assms(2,3) recountD [OF r] z(2)
    by (auto simp: scene_inv_def on_stats_def taskSkipped_def taskCompleted_def sadd_def)
qed

lemma scene_failoutright_ok:
  assumes "scene_failoutright t x = Inr x'" "scene_inv c x" "t \<notin> set (x_running x)"
  shows "scene_inv c x' \<and> x_running x' = x_running x @ [t] \<and> x_state x' = x_state x \<and> in_flight x' = in_flight x"
proof -
  let ?y = "(on_stats (taskSkipped 1) (on_stats (taskCompleted 1)
    (x\<lparr>x_running := sadd t (x_running x), x_buildable := sadd t (x_buildable x)\<rparr>)))\<lparr>s_notcovered := sadd t (s_notcovered x)\<rparr>"
  have r: "recount ?y x'"
    using assms(1) by (auto simp: scene_failoutright_def Let_def on_stats_def dest: updatecounters_recount)
  have "t \<notin> set (s_covered x)" "t \<notin> set (s_notcovered x)" using assms(2,3) by (auto simp: scene_inv_def)
  then show ?thesis
    using assms(2,3) recountD [OF r]
    by (auto simp: scene_inv_def on_stats_def taskSkipped_def taskCompleted_def sadd_def)
qed

lemma scene_report_ok:
  assumes "scene_report c dcs (Exited t status) x = Inr x'" "scene_inv c x" "t \<in> in_flight x"
  shows "scene_inv c x' \<and> in_flight x' = in_flight x - {t} \<and> x_running x' = x_running x \<and>
    (x_state x' = x_state x \<or> x_state x' = RCleanUp)"
proof -
  obtain stamp where st: "dget (x_stamps x) t = Some stamp" using assms(3) by (rule dget_keyE)
  let ?y = "release_stamp t x"
  have y: "?y = x\<lparr>x_stamps2 := remove1 stamp (x_stamps2 x), x_stamps := ddel t (x_stamps x)\<rparr>"
    using st by (simp add: release_stamp_def)
  have t: "t \<in> set (x_running x)" "t \<notin> set (s_covered x)" "t \<notin> set (s_notcovered x)" "dwf (x_stamps x)"
    using assms(2,3) by (auto simp: scene_inv_def)
  have len: "Suc (length (ddel t (x_stamps x))) = length (x_stamps x)"
    using t(4) assms(3) by (rule dwf_ddel_length)
  show ?thesis
  proof (cases "status = 0")
    case True
    then have "scene_completeoutright t (on_stats (taskCompleted 1) ?y) = Inr x'"
      using assms(1) by (simp add: scene_report_def scene_complete_def)
    from recountD [OF completeoutright_recount [OF this]] show ?thesis
      using assms(2) t len by (auto simp: scene_inv_def y on_stats_def taskCompleted_def sadd_def)
  next
    case False
    let ?z = "(on_stats taskFailed ?y)\<lparr>s_notcovered := sadd t (s_notcovered x)\<rparr>"
    obtain z where z: "scenequeue_updatecounters (update_fuel ?z) t True ?z = Inr z" "check_taskfail c dcs t z = Inr x'"
      using assms(1) False by (auto simp: scene_report_def scene_fail_def Let_def y on_stats_def elim!: rbind_InrE)
    have "x' = z \<or> x' = z\<lparr>x_state := RCleanUp\<rparr>"
      using z(2) by (auto simp: check_taskfail_def elim!: rbind_InrE split: if_splits)
    then show ?thesis
      using recountD [OF updatecounters_recount [OF z(1)]] assms(2) t len
      by (auto simp: scene_inv_def y on_stats_def taskFailed_def sadd_def)
  qed
qed

lemma scene_read_workers_ok:
  "scene_read_workers c dcs rs x = Inr x' \<Longrightarrow> scene_inv c x \<Longrightarrow> reports_ok (in_flight x) rs \<Longrightarrow>
     scene_inv c x' \<and> x_running x' = x_running x \<and>
     (x_state x' = x_state x \<or> x_state x' = RCleanUp \<or> Died \<in> set rs)"
  unfolding scene_read_workers_def
proof (induction rs arbitrary: x)
  case (Cons r rs)
  then obtain x1 where x1: "scene_report c dcs r x = Inr x1" "rfold (scene_report c dcs) rs x1 = Inr x'"
    by (auto elim: rbind_InrE)
  show ?case
  proof (cases r)
    case (Exited t status)
    then have "t \<in> in_flight x" "reports_ok (in_flight x - {t}) rs" using Cons.prems(3) by simp_all
    then have a: "scene_inv c x1" "in_flight x1 = in_flight x - {t}" "x_running x1 = x_running x"
      "x_state x1 = x_state x \<or> x_state x1 = RCleanUp" "reports_ok (in_flight x1) rs"
      using scene_report_ok [OF x1(1) [unfolded Exited] Cons.prems(2)] by simp_all
    from Cons.IH [OF x1(2) a(1,5)] a(3,4) show ?thesis by auto
  next
    case Died
    then have "x1 = finish_now x" using x1(1) by (simp add: scene_report_def)
    then have "scene_inv c x1" "in_flight x1 = in_flight x" "x_running x1 = x_running x"
      using Cons.prems(2) by (auto simp: finish_now_def scene_inv_def)
    with Cons.IH [OF x1(2)] Cons.prems(3) Died show ?thesis by simp
  qed
qed simp


section \<open>One call of execute\<close>

lemma check_task_only_cache:
  fixes x :: "'a exec_scheme"
  assumes "check_task v tid name recurse x = Inr (b, x')"
  shows "\<exists>k. x' = x\<lparr>x_cache := k\<rparr>"
  using assms by (auto simp: check_task_def res_simps)

lemma scene_inv_frame [simp]:
  "scene_inv c (x\<lparr>x_cache := k\<rparr>) = scene_inv c x" "scene_inv c (x\<lparr>s_revdeps := r\<rparr>) = scene_inv c x"
  "scene_inv c (x\<lparr>s_notneeded := n\<rparr>) = scene_inv c x" "scene_inv c (x\<lparr>x_state := st\<rparr>) = scene_inv c x"
  "scene_inv c (x\<lparr>s_outrightfail := n\<rparr>) = scene_inv c x"
  "scene_inv c (log_effect (MakeStamp a b d) x) = scene_inv c x"
  by (simp_all add: scene_inv_def log_effect_def)

lemma not_needed_frame:
  assumes "not_needed c dcs t x = Inr (b, x')"
  shows "\<exists>r. x' = x\<lparr>s_revdeps := r\<rparr>"
proof -
  have dep: "y = x \<or> (\<exists>r. y = x\<lparr>s_revdeps := r\<rparr>)" if "check_dependencies c dcs t x = Inr (b', y)" for b' y
    using that by (auto simp: check_dependencies_def Let_def elim!: rbind_InrE split: option.splits)
  have "x' = x \<or> (\<exists>r. x' = x\<lparr>s_revdeps := r\<rparr>)"
    using assms dep by (auto simp: not_needed_def elim!: rbind_InrE split: if_splits)
  moreover have "x = x\<lparr>s_revdeps := s_revdeps x\<rparr>" by simp
  ultimately show ?thesis by metis
qed

lemma dwf_snoc [simp]: "dwf (d @ [(k, v)]) \<longleftrightarrow> dwf d \<and> k \<notin> set (dkeys d)"
  by (auto simp: dwf_def)

lemma start_setscene_fields:
  assumes "start_setscene c v t mc taskname taskfn x = Inr x'"
  shows "x_stamps x' = dset t (the (dget (x_stamps x') t)) (x_stamps x) \<and> x_running x' = sadd t (x_running x) \<and>
    x_stats x' = taskActive (x_stats x) \<and> started_tasks (x_log x') = started_tasks (x_log x) @ [t] \<and>
    s_covered x' = s_covered x \<and> s_notcovered x' = s_notcovered x \<and> x_failed x' = x_failed x \<and> x_state x' = x_state x"
  using assms
  by (auto simp: start_setscene_def register_running_def log_effect_def on_stats_def Let_def elim!: rbind_InrE split: if_splits)

lemma pick_setscene_ok:
  "pick_setscene c dcs ts x = Inr (choice, x') \<Longrightarrow> scene_inv c x \<Longrightarrow>
     scene_inv c x' \<and> x_state x' = x_state x \<and> in_flight x' = in_flight x \<and>
     (case choice of
        Returned \<Rightarrow> length (x_running x) < length (x_running x')
      | Chosen t \<Rightarrow> x_running x' = x_running x \<and> t \<in> set ts \<and> t \<in> set (x_buildable x') \<and> t \<notin> set (x_running x')
      | NoChoice \<Rightarrow> x' = x)"
proof (induction ts arbitrary: x)
  case Nil
  then show ?case by simp
next
  case (Cons t ts)
  obtain start where st: "can_start x t = Inr start" "(if \<not> start then pick_setscene c dcs ts x
       else rbind (not_needed c dcs t x) (\<lambda>(skip, x).
              if skip then rbind (scene_skip t x) (\<lambda>x. Inr (Returned, x\<lparr>s_notneeded := sadd t (s_notneeded x)\<rparr>))
              else if t \<in> set (s_outrightfail x) then rbind (scene_failoutright t x) (\<lambda>x. Inr (Returned, x))
              else Inr (Chosen t, x))) = Inr (choice, x')"
    using Cons.prems(1) by (auto elim: rbind_InrE)
  show ?case
  proof (cases start)
    case False
    then have "pick_setscene c dcs ts x = Inr (choice, x')" using st(2) by simp
    from Cons.IH [OF this Cons.prems(2)] show ?thesis by (auto split: choice.splits)
  next
    case True
    then have t: "t \<in> set (x_buildable x)" "t \<notin> set (x_running x)"
      using st(1) by (auto simp: can_start_def split: if_splits)
    obtain skip y where y: "not_needed c dcs t x = Inr (skip, y)"
      "(if skip then rbind (scene_skip t y) (\<lambda>x. Inr (Returned, x\<lparr>s_notneeded := sadd t (s_notneeded x)\<rparr>))
        else if t \<in> set (s_outrightfail y) then rbind (scene_failoutright t y) (\<lambda>x. Inr (Returned, x))
        else Inr (Chosen t, y)) = Inr (choice, x')"
      using st(2) True by (auto elim: rbind_InrE)
    obtain r where r: "y = x\<lparr>s_revdeps := r\<rparr>" using not_needed_frame [OF y(1)] by blast
    have inv: "scene_inv c y" "t \<notin> set (x_running y)" using Cons.prems(2) t r by simp_all
    consider (skip) z where "scene_skip t y = Inr z" "choice = Returned" "x' = z\<lparr>s_notneeded := sadd t (s_notneeded z)\<rparr>"
      | (fail) "scene_failoutright t y = Inr x'" "choice = Returned"
      | (chosen) "choice = Chosen t" "x' = y"
      using y(2) by (auto elim!: rbind_InrE split: if_splits)
    then show ?thesis
    proof cases
      case skip
      then show ?thesis using scene_skip_ok [OF skip(1) inv] r by simp
    next
      case fail
      then show ?thesis using scene_failoutright_ok [OF fail(1) inv] r by simp
    next
      case chosen
      then show ?thesis using inv t r by simp
    qed
  qed
qed

lemma run_setscene_ok:
  assumes "run_setscene c v t x = Inr (return, x')" "scene_inv c x" "t \<notin> set (x_running x)"
    "st_active (x_stats x) < ec_number_tasks c"
  shows "scene_inv c x' \<and> x_running x' = x_running x @ [t] \<and> x_state x' = x_state x"
proof -
  obtain mc fn taskname taskfn realname where n: "split_tid_mcfn t = Inr (mc, fn, taskname, taskfn)"
    "taskname_from_tid t = Inr realname"
    using assms(1) by (auto simp: run_setscene_def elim!: rbind_InrE)
  obtain b x1 where x1: "check_task v t realname True x = Inr (b, x1)"
    "(if b then rbind (scene_failoutright t x1) (\<lambda>x. Inr (True, x))
       else if ec_force c \<and> t \<in> set (ec_target_tids c) then rbind (scene_failoutright t x1) (\<lambda>x. Inr (True, x))
       else rbind (check_task v t (taskname @ ''_setscene'') False x1) (\<lambda>(current, x).
              if current then rbind (scene_skip t x) (\<lambda>x. Inr (True, x))
              else rbind (start_setscene c v t mc (taskname @ ''_setscene'') taskfn x) (\<lambda>x.
                     Inr (st_active (x_stats x) < ec_number_tasks c, x)))) = Inr (return, x')"
    using assms(1) n by (auto simp: run_setscene_def elim: rbind_InrE)
  obtain k where k: "x1 = x\<lparr>x_cache := k\<rparr>" using check_task_only_cache [OF x1(1)] by blast
  have inv1: "scene_inv c x1" "t \<notin> set (x_running x1)" using assms(2,3) k by simp_all
  show ?thesis
  proof (cases "b \<or> ec_force c \<and> t \<in> set (ec_target_tids c)")
    case True
    then have "scene_failoutright t x1 = Inr x'" using x1(2) by (auto elim!: rbind_InrE split: if_splits)
    from scene_failoutright_ok [OF this inv1] show ?thesis using k by simp
  next
    case False
    then obtain b2 x2 where x2: "check_task v t (taskname @ ''_setscene'') False x1 = Inr (b2, x2)"
      "(if b2 then rbind (scene_skip t x2) (\<lambda>x. Inr (True, x))
        else rbind (start_setscene c v t mc (taskname @ ''_setscene'') taskfn x2) (\<lambda>x.
               Inr (st_active (x_stats x) < ec_number_tasks c, x))) = Inr (return, x')"
      using x1(2) by (auto elim!: rbind_InrE split: if_splits)
    obtain k2 where k2: "x2 = x1\<lparr>x_cache := k2\<rparr>" using check_task_only_cache [OF x2(1)] by blast
    have inv2: "scene_inv c x2" "t \<notin> set (x_running x2)" using inv1 k2 by simp_all
    show ?thesis
    proof (cases b2)
      case True
      then have "scene_skip t x2 = Inr x'" using x2(2) by (auto elim!: rbind_InrE)
      from scene_skip_ok [OF this inv2] show ?thesis using k k2 by simp
    next
      case False
      then have "start_setscene c v t mc (taskname @ ''_setscene'') taskfn x2 = Inr x'"
        using x2(2) by (auto elim!: rbind_InrE)
      note f = start_setscene_fields [OF this]
      have "t \<notin> set (s_covered x2)" "t \<notin> set (s_notcovered x2)" "t \<notin> in_flight x2"
        "t \<notin> set (started_tasks (x_log x2))" "st_active (x_stats x2) < ec_number_tasks c"
        using inv2 assms(4) k k2 by (auto simp: scene_inv_def)
      then have "x_stamps x' = x_stamps x2 @ [(t, the (dget (x_stamps x') t))]" using f dset_absent by metis
      then obtain stamp where "x_stamps x' = x_stamps x2 @ [(t, stamp)]" by blast
      then show ?thesis
        using f [THEN conjunct2] inv2 k k2 \<open>t \<notin> in_flight x2\<close> \<open>st_active (x_stats x2) < ec_number_tasks c\<close>
          \<open>t \<notin> set (s_covered x2)\<close> \<open>t \<notin> set (s_notcovered x2)\<close> \<open>t \<notin> set (started_tasks (x_log x2))\<close>
        by (auto simp: scene_inv_def taskActive_def sadd_def)
    qed
  qed
qed


lemma next_setscene_ok:
  assumes "next_setscene c dcs x = Inr (choice, x')" "scene_inv c x"
  shows "scene_inv c x' \<and> x_state x' = x_state x \<and> in_flight x' = in_flight x \<and>
     (case choice of
        Returned \<Rightarrow> length (x_running x) < length (x_running x')
      | Chosen t \<Rightarrow> x_running x' = x_running x \<and> t \<notin> set (x_running x') \<and> st_active (x_stats x') < ec_number_tasks c
      | NoChoice \<Rightarrow> x' = x)"
proof (cases "st_active (x_stats x) < ec_number_tasks c")
  case True
  then have p: "pick_setscene c dcs (ec_setscene_tids c) x = Inr (choice, x')" using assms(1) by (simp add: next_setscene_def)
  note ok = pick_setscene_ok [OF p assms(2)]
  have "st_active (x_stats x') = st_active (x_stats x)"
  proof -
    have "st_active (x_stats u) = int (card (in_flight u))" if "scene_inv c u" for u
      using that distinct_card [of "dkeys (x_stamps u)"] by (simp add: scene_inv_def dwf_def dkeys_def)
    then show ?thesis using ok assms(2) by simp
  qed
  then show ?thesis using ok True by (auto split: choice.splits)
next
  case False
  then show ?thesis using assms by (simp add: next_setscene_def)
qed

lemma scene_body_ok:
  assumes "scene_body c v rs x = Inr (return, x')" "scene_inv c x" "reports_ok (in_flight x) rs"
  shows "scene_inv c x' \<and> (x_state x' = x_state x \<or> x_state x' = RCleanUp \<or> Died \<in> set rs) \<and>
    (return \<longrightarrow> length (x_running x) < length (x_running x'))"
proof -
  obtain x1 where x1: "scene_read_workers c (sv_dcs v) rs x = Inr x1"
    using assms(1) by (auto simp: scene_body_def elim: rbind_InrE)
  note r = scene_read_workers_ok [OF x1 assms(2,3)]
  obtain choice x2 where x2: "next_setscene c (sv_dcs v) x1 = Inr (choice, x2)"
    "(case choice of Returned \<Rightarrow> Inr (True, x2) | NoChoice \<Rightarrow> Inr (False, x2) | Chosen task \<Rightarrow> run_setscene c v task x2) =
     Inr (return, x')"
    using assms(1) x1 by (auto simp: scene_body_def elim: rbind_InrE)
  note n = next_setscene_ok [OF x2(1) r [THEN conjunct1]]
  show ?thesis
  proof (cases choice)
    case Returned
    then show ?thesis using n r x2(2) by auto
  next
    case NoChoice
    then show ?thesis using n r x2(2) by auto
  next
    case (Chosen t)
    then have a: "scene_inv c x2" "x_running x2 = x_running x1" "t \<notin> set (x_running x2)"
      "st_active (x_stats x2) < ec_number_tasks c" "x_state x2 = x_state x1"
      using n by auto
    have "run_setscene c v t x2 = Inr (return, x')" using x2(2) Chosen by simp
    from run_setscene_ok [OF this a(1,3,4)] a(2,5) r show ?thesis by auto
  qed
qed

section \<open>The initial state and all runs\<close>

lemma query_task_ok:
  assumes "query_task v tid (x, ns, ps, qs) = Inr (x', rest)" "scene_inv c x" "tid \<notin> set (x_running x)"
  shows "scene_inv c x' \<and> set (x_running x') \<subseteq> insert tid (set (x_running x))"
proof -
  have skip: "scene_inv c y \<and> x_running y = x_running x @ [tid]"
    if "scene_skip tid (x\<lparr>x_cache := k\<rparr>) = Inr y" for k y
    using scene_skip_ok [OF that] assms(2,3) by simp
  have skip0: "scene_inv c y \<and> x_running y = x_running x @ [tid]" if "scene_skip tid x = Inr y" for y
    using scene_skip_ok [OF that assms(2,3)] by simp
  obtain mc fn taskname taskfn dc taskdep where n: "split_tid_mcfn tid = Inr (mc, fn, taskname, taskfn)"
    "dget (sv_dcs v) mc = Some dc" "dget (c_task_deps dc) taskfn = Some taskdep"
    using assms(1) by (auto simp: query_task_def elim!: rbind_InrE)
  show ?thesis
  proof (cases "noexec taskdep taskname")
    case True
    then obtain y where "scene_skip tid x = Inr y" "x' = log_effect (MakeStamp (taskname @ ''_setscene'') mc taskfn) y"
      using assms(1) n by (auto simp: query_task_def dlookup_def elim!: rbind_InrE)
    then show ?thesis using skip0 by (auto simp: log_effect_def scene_inv_def)
  next
    case False
    obtain b1 x1 where x1: "check_task v tid (taskname @ ''_setscene'') False x = Inr (b1, x1)"
      "(if b1 then rbind (scene_skip tid x1) (\<lambda>x. Inr (x, ns, ps @ [tid], qs))
        else rbind (check_task v tid taskname True x1) (\<lambda>(current, x).
             if current then rbind (scene_skip tid x) (\<lambda>x. Inr (x, ns, ps @ [tid], qs))
             else rbind (dlookup (c_hashfn dc) taskfn) (\<lambda>hashfn.
                  rbind (dlookup (x_entries x) tid) (\<lambda>e.
                    Inr (x, ns, ps, qs @ [(tid, fn, taskname, rt_hash e, hashfn)]))))) = Inr (x', rest)"
      using assms(1) n False by (auto simp: query_task_def dlookup_def elim: rbind_InrE)
    obtain k where k: "x1 = x\<lparr>x_cache := k\<rparr>" using check_task_only_cache [OF x1(1)] by blast
    show ?thesis
    proof (cases b1)
      case True
      then show ?thesis using x1(2) skip [of k] k by (auto elim!: rbind_InrE)
    next
      case False
      then obtain b2 x2 where x2: "check_task v tid taskname True x1 = Inr (b2, x2)"
        "(if b2 then rbind (scene_skip tid x2) (\<lambda>x. Inr (x, ns, ps @ [tid], qs))
             else rbind (dlookup (c_hashfn dc) taskfn) (\<lambda>hashfn.
                  rbind (dlookup (x_entries x2) tid) (\<lambda>e.
                    Inr (x2, ns, ps, qs @ [(tid, fn, taskname, rt_hash e, hashfn)])))) = Inr (x', rest)"
        using x1(2) by (auto elim: rbind_InrE)
      obtain k2 where "x2 = x1\<lparr>x_cache := k2\<rparr>" using check_task_only_cache [OF x2(1)] by blast
      then have k2: "x2 = x\<lparr>x_cache := k2\<rparr>" using k by simp
      show ?thesis using x2(2) skip [of k2] k2 assms(2) by (auto elim!: rbind_InrE split: if_splits)
    qed
  qed
qed

lemma query_tasks_ok:
  "rfold (query_task v) ts st = Inr st' \<Longrightarrow> scene_inv c (fst st) \<Longrightarrow> distinct ts \<Longrightarrow> set ts \<inter> set (x_running (fst st)) = {} \<Longrightarrow>
     scene_inv c (fst st')"
proof (induction ts arbitrary: st)
  case (Cons t ts)
  obtain x ns ps qs where st: "st = (x, ns, ps, qs)" by (cases st)
  obtain x1 rest where x1: "query_task v t (x, ns, ps, qs) = Inr (x1, rest)" "rfold (query_task v) ts (x1, rest) = Inr st'"
    using Cons.prems(1) st by (auto elim!: rbind_InrE)
  have "scene_inv c x1 \<and> set (x_running x1) \<subseteq> insert t (set (x_running x))"
    using query_task_ok [OF x1(1)] Cons.prems(2,4) st by auto
  then show ?case using Cons.IH [OF x1(2)] Cons.prems(3,4) st by auto
qed simp


text \<open>The keys of \<open>sq_revdeps\<close> are distinct.\<close>

lemma squash_result_dwf:
  assumes "squash_result g scene new = Inr sq"
  shows "dwf sq"
proof (rule rfold_inv [OF assms [unfolded squash_result_def]])
  show "dwf []" by (simp add: dwf_def)
qed (auto elim!: rbind_InrE split: if_splits)

lemma hard_deps_of_dwf:
  assumes "hard_deps_of tds v g tid st = Inr st'" "dwf (fst (snd st))"
  shows "dwf (fst (snd st'))"
proof -
  have step: "dwf (fst (snd w))" if "hard_dep g td tid d u = Inr w" "dwf (fst (snd u))" for td d u w
    using that by (auto simp: hard_dep_def Let_def elim!: rbind_InrE split: prod.splits option.splits list.splits if_splits)
  obtain td ids st0 where r: "rfold (hard_dep g td tid) ids st0 = Inr st'" "fst (snd st0) = fst (snd st)"
    using assms(1) by (auto simp: hard_deps_of_def elim!: rbind_InrE split: prod.splits)
  show ?thesis
    by (rule rfold_inv [OF r(1), of "\<lambda>u. dwf (fst (snd u))"]) (use step r(2) assms(2) in auto)
qed

lemma add_back_dwf:
  assumes "add_back hard sq = Inr sq'" "dwf sq"
  shows "dwf sq'"
proof (rule rfold_inv [OF assms(1) [unfolded add_back_def], of dwf])
  fix p u w
  assume u: "dwf u"
    and w: "(case p of (task, ds) \<Rightarrow> rfold (\<lambda>dep squash. rbind (dlookup squash dep) (\<lambda>s. Inr (dset dep (sadd task s) squash))) ds) u = Inr w"
  show "dwf w"
    by (rule rfold_inv [OF w [unfolded case_prod_beta], of dwf]) (use u in \<open>auto elim!: rbind_InrE\<close>)
qed (rule assms(2))

lemma scene_graph_ok:
  assumes "scene_graph c tds v g (new_scene g fws) = Inr x" "0 < ec_number_tasks c"
  shows "scene_inv c x \<and> dwf (s_revdeps x) \<and> x_running x = []"
proof -
  obtain s :: "string squash" and us sq hard sq1 stamps sq2 ds where
    a: "squash_result g (ec_setscene_tids c) (q_new s) = Inr sq"
    "rfold (hard_deps_of tds v g) (ec_setscene_tids c) ([], sq, []) = Inr (hard, sq1, stamps)" "add_back hard sq1 = Inr sq2"
    and x: "x = (new_scene g fws)\<lparr>x_stats := stats_init (int (length (ec_setscene_tids c))), s_harddeps := hard, s_stamps := stamps,
              s_unskippable := us, s_revdeps := sq2, s_revdeps2 := sq2, s_deps := ds,
              x_buildable := map fst (filter (\<lambda>(tid, ds). ds = []) sq2)\<rparr>"
    using assms(1) unfolding scene_graph_def by (elim rbind_InrE) (auto elim!: rbind_InrE)
  have "dwf (fst (snd (hard, sq1, stamps)))"
    by (rule rfold_inv [OF a(2), of "\<lambda>u. dwf (fst (snd u))"]) (use squash_result_dwf [OF a(1)] hard_deps_of_dwf in auto)
  then have "dwf sq2" using add_back_dwf [OF a(3)] by simp
  then show ?thesis using assms(2) by (auto simp: x scene_inv_def new_scene_def stats_init_def dwf_def)
qed

lemma scene_init_ok:
  assumes "scene_init c tds v g fws = Inr (True, x)" "0 < ec_number_tasks c"
  shows "scene_inv c x \<and> x_state x = RSceneRun"
proof -
  obtain x1 x2 where x1: "scene_graph c tds v g (new_scene g fws) = Inr x1" "query_hashes c v x1 = Inr x2"
    "x = x2\<lparr>x_state := RSceneRun\<rparr>"
    using assms(1) by (auto simp: scene_init_def elim!: rbind_InrE split: if_splits)
  note g = scene_graph_ok [OF x1(1) assms(2)]
  have "scene_inv c x2"
  proof (cases "ec_hashvalidate c")
    case None
    then show ?thesis using x1(2) g by (simp add: query_hashes_def)
  next
    case (Some validate)
    then obtain y ns ps qs out where y: "rfold (query_task v) (dkeys (s_revdeps x1)) (x1, [], [], []) = Inr (y, ns, ps, qs)"
      "x2 = y\<lparr>s_outrightfail := out\<rparr>"
      using x1(2) by (auto simp: query_hashes_def elim!: rbind_InrE)
    have "scene_inv c (fst (y, ns, ps, qs))"
      by (rule query_tasks_ok [OF y(1)]) (use g in \<open>simp_all add: dwf_def\<close>)
    then show ?thesis using y(2) by simp
  qed
  then show ?thesis using x1(3) by simp
qed

text \<open>All states the setscene queue can reach.\<close>

inductive scene_run :: "execcfg \<Rightarrow> sexec \<Rightarrow> bool" for c where
  init: "scene_init c tds v g fws = Inr (True, x) \<Longrightarrow> scene_run c x"
| step: "scene_run c x \<Longrightarrow> reports_ok (in_flight x) rs1 \<Longrightarrow>
    (\<forall>y. scene_body c v rs1 x = Inr (False, y) \<longrightarrow> reports_ok (in_flight y) rs2) \<Longrightarrow>
    scene_execute c v rs1 rs2 x = Inr (r, x') \<Longrightarrow> scene_run c x'"
| finish: "scene_run c x \<Longrightarrow> reports_ok (in_flight x) rs \<Longrightarrow> scene_finish c dcs rs x = Inr (r, x') \<Longrightarrow> scene_run c x'"

lemma scene_wind_up_ok:
  assumes "scene_wind_up c dcs rs x = Inr (r, x')" "scene_inv c x" "reports_ok (in_flight x) rs"
  shows "scene_inv c x'"
proof (cases "0 < st_active (x_stats x)")
  case True
  then have "scene_read_workers c dcs rs x = Inr x'" using assms(1) by (auto simp: scene_wind_up_def elim!: rbind_InrE)
  from scene_read_workers_ok [OF this assms(2,3)] show ?thesis by simp
next
  case False
  then show ?thesis using assms(1,2) by (auto simp: scene_wind_up_def scene_inv_def)
qed

lemma scene_execute_ok:
  assumes "scene_execute c v rs1 rs2 x = Inr (r, x')" "scene_inv c x" "reports_ok (in_flight x) rs1"
    "\<forall>y. scene_body c v rs1 x = Inr (False, y) \<longrightarrow> reports_ok (in_flight y) rs2"
  shows "scene_inv c x'"
proof -
  obtain return y where b: "scene_body c v rs1 x = Inr (return, y)"
    "(if return then Inr (Again, y) else scene_wind_up c (sv_dcs v) rs2 y) = Inr (r, x')"
    using assms(1) by (auto simp: scene_execute_def elim!: rbind_InrE)
  have "scene_inv c y" using scene_body_ok [OF b(1) assms(2,3)] by simp
  then show ?thesis using b assms(4) scene_wind_up_ok by (cases return) auto
qed

lemma scene_finish_ok:
  assumes "scene_finish c dcs rs x = Inr (r, x')" "scene_inv c x" "reports_ok (in_flight x) rs"
  shows "scene_inv c x'"
proof (cases "0 < st_active (x_stats x)")
  case True
  then have "scene_read_workers c dcs rs (x\<lparr>x_state := RCleanUp\<rparr>) = Inr x'"
    using assms(1) by (auto simp: scene_finish_def Let_def elim!: rbind_InrE)
  from scene_read_workers_ok [OF this] assms(2,3) show ?thesis by simp
next
  case False
  then show ?thesis using assms by (auto simp: scene_finish_def Let_def split: if_splits)
qed

lemma scene_run_inv:
  assumes "scene_run c x" "0 < ec_number_tasks c"
  shows "scene_inv c x"
  using assms(1)
proof (induction rule: scene_run.induct)
  case (init tds v g fws x)
  then show ?case using scene_init_ok [OF init assms(2)] by simp
next
  case (step x rs1 v rs2 r x')
  then show ?case using scene_execute_ok by blast
next
  case (finish x rs dcs r x')
  then show ?case using scene_finish_ok by blast
qed

end
