(* ===== verification/SceneRuns.thy ===== *)
theory SceneRuns
  imports SceneSafety ExecutorRuns
begin

text \<open>
  The properties of the setscene queue: safety of every reachable state, what it hands over to the executor
  of the tasks, progress, and the end of the recursion over the hard dependencies.
\<close>

section \<open>Hard dependencies\<close>

definition hard_edges :: "(string, string list) dict \<Rightarrow> (string \<times> string) set" where
  "hard_edges hard = {(t, d). d \<in> set (dgetd hard t [])}"

lemma rfold_Inl:
  assumes "rfold f xs s = Inl e" "P s" "\<And>x u v. x \<in> set xs \<Longrightarrow> P u \<Longrightarrow> f x u = Inr v \<Longrightarrow> P v"
  shows "\<exists>x \<in> set xs. \<exists>u. P u \<and> f x u = Inl e"
  using assms
proof (induction xs arbitrary: s)
  case (Cons x xs)
  show ?case
  proof (cases "f x s")
    case (Inl e')
    then show ?thesis using Cons.prems(1,2) by auto
  next
    case (Inr u)
    then have u: "rfold f xs u = Inl e" "P u" using Cons.prems by auto
    have "\<exists>x \<in> set xs. \<exists>u. P u \<and> f x u = Inl e"
      by (rule Cons.IH [OF u]) (use Cons.prems(3) in auto)
    then show ?thesis by auto
  qed
qed simp

lemma updatecounters_fuel:
  assumes "acyclic (hard_edges hard)" "s_harddeps x = hard"
    "card (set (dkeys hard) \<inter> (hard_edges hard)\<^sup>* `` {task}) < fuel"
  shows "scenequeue_updatecounters fuel task fail x \<noteq> Inl OutOfFuel"
  using assms(2,3)
proof (induction fuel arbitrary: task x)
  case 0
  then show ?case by simp
next
  case (Suc fuel)
  let ?H = "hard_edges hard"
  let ?step = "\<lambda>dep x.
           if fail \<and> dep \<in> set (dgetd (s_harddeps x) task []) then scenequeue_updatecounters fuel dep fail x
           else rbind (dlookup (s_revdeps2 x) dep) (\<lambda>r.
                  if task \<notin> set r then Inr x
                  else let x = x\<lparr>s_revdeps2 := dset dep (remove1 task r) (s_revdeps2 x)\<rparr>
                    in Inr (if remove1 task r = [] then x\<lparr>x_buildable := sadd dep (x_buildable x)\<rparr> else x))"
  show ?case
  proof
    assume "scenequeue_updatecounters (Suc fuel) task fail x = Inl OutOfFuel"
    then obtain ds where ds: "rfold ?step ds x = Inl OutOfFuel" by (auto simp: rbind_Inl_iff)
    have "\<exists>dep \<in> set ds. \<exists>u. s_harddeps u = hard \<and> ?step dep u = Inl OutOfFuel"
    proof (rule rfold_Inl [OF ds, of "\<lambda>u. s_harddeps u = hard"])
      fix dep u v
      assume "s_harddeps u = hard" "?step dep u = Inr v"
      then show "s_harddeps v = hard"
        by (auto simp: Let_def elim!: rbind_InrE split: if_splits dest!: updatecounters_recount recountD(10))
    qed (rule Suc.prems(1))
    then obtain dep u where u: "s_harddeps u = hard" "dep \<in> set (dgetd hard task [])"
      "scenequeue_updatecounters fuel dep fail u = Inl OutOfFuel"
      by (auto simp: rbind_Inl_iff Let_def split: if_splits)
    have e: "(task, dep) \<in> ?H" using u(2) by (simp add: hard_edges_def)
    have "task \<in> set (dkeys hard)"
      using u(2) by (cases "dget hard task") (auto simp: dgetd_def dest: dget_SomeD)
    moreover have "(dep, task) \<notin> ?H\<^sup>*"
      using assms(1) e by (meson acyclic_def rtrancl_into_trancl2)
    ultimately have "set (dkeys hard) \<inter> ?H\<^sup>* `` {dep} \<subset> set (dkeys hard) \<inter> ?H\<^sup>* `` {task}"
      using e by (auto intro: converse_rtrancl_into_rtrancl)
    then have "card (set (dkeys hard) \<inter> ?H\<^sup>* `` {dep}) < card (set (dkeys hard) \<inter> ?H\<^sup>* `` {task})"
      by (simp add: psubset_card_mono)
    then show False using Suc.IH [OF u(1), of dep] u(3) Suc.prems(2) by simp
  qed
qed

section \<open>Reports never hand over\<close>

lemma completeoutright_same_state: "scene_completeoutright t x = Inr y \<Longrightarrow> x_state y = x_state x"
  by (drule completeoutright_recount) (auto dest: recountD)

lemma scene_report_state:
  assumes "scene_report c dcs r x = Inr y"
  shows "x_state y = x_state x \<or> x_state y = RCleanUp \<or> r = Died"
proof (cases r)
  case (Exited task status)
  have rel: "x_state (release_stamp task x) = x_state x" by (simp add: release_stamp_def split: option.split)
  show ?thesis
  proof (cases "status = 0")
    case True
    then have "scene_completeoutright task (on_stats (taskCompleted 1) (release_stamp task x)) = Inr y"
      using assms Exited by (simp add: scene_report_def scene_complete_def)
    from completeoutright_same_state [OF this] show ?thesis using rel by (simp add: on_stats_def)
  next
    case False
    let ?z = "(on_stats taskFailed (release_stamp task x))\<lparr>s_notcovered := sadd task (s_notcovered (release_stamp task x))\<rparr>"
    obtain z where z: "scenequeue_updatecounters (update_fuel ?z) task True ?z = Inr z" "check_taskfail c dcs task z = Inr y"
      using assms Exited False by (auto simp: scene_report_def scene_fail_def Let_def on_stats_def elim!: rbind_InrE)
    have "x_state z = x_state x" using recountD(8) [OF updatecounters_recount [OF z(1)]] rel by (simp add: on_stats_def)
    then show ?thesis using z(2) by (auto simp: check_taskfail_def elim!: rbind_InrE split: if_splits)
  qed
qed simp

lemma scene_read_workers_state:
  "scene_read_workers c dcs rs x = Inr y \<Longrightarrow> x_state y = x_state x \<or> x_state y = RCleanUp \<or> Died \<in> set rs"
  unfolding scene_read_workers_def
proof (induction rs arbitrary: x)
  case (Cons r rs)
  then obtain z where z: "scene_report c dcs r x = Inr z" "rfold (scene_report c dcs) rs z = Inr y" by (auto elim: rbind_InrE)
  from scene_report_state [OF z(1)] Cons.IH [OF z(2)] show ?case by auto
qed simp

section \<open>The properties\<close>

text \<open>
  When the hard dependencies between setscene tasks have no cycle, the recursion of
  \<open>scenequeue_updatecounters\<close> ends: the fuel given for it is always enough.
\<close>
theorem updatecounters_terminates:
  assumes "acyclic (hard_edges (s_harddeps x))"
  shows "scenequeue_updatecounters (update_fuel x) task fail x \<noteq> Inl OutOfFuel"
proof (rule updatecounters_fuel [OF assms refl])
  let ?K = "set (dkeys (s_harddeps x))"
  have "card (?K \<inter> (hard_edges (s_harddeps x))\<^sup>* `` {task}) \<le> card ?K" by (simp add: card_mono)
  also have "\<dots> \<le> length (s_harddeps x)" using card_length [of "dkeys (s_harddeps x)"] by (simp add: dkeys_def)
  finally show "card (?K \<inter> (hard_edges (s_harddeps x))\<^sup>* `` {task}) < update_fuel x"
    by (simp add: update_fuel_def less_Suc_eq_le)
qed

lemma scene_inv_safe:
  assumes i: "scene_inv c x"
  shows "distinct (started_tasks (x_log x)) \<and> set (started_tasks (x_log x)) \<subseteq> set (x_running x) \<and>
    set (x_running x) = in_flight x \<union> set (s_covered x) \<union> set (s_notcovered x) \<and>
    in_flight x \<inter> (set (s_covered x) \<union> set (s_notcovered x)) = {} \<and> set (s_covered x) \<inter> set (s_notcovered x) = {} \<and>
    st_active (x_stats x) = int (card (in_flight x)) \<and> st_active (x_stats x) \<le> ec_number_tasks c \<and>
    st_completed (x_stats x) + st_failed (x_stats x) = int (card (set (s_covered x) \<union> set (s_notcovered x)))"
proof -
  have "card (in_flight x) = length (x_stamps x)"
    using i distinct_card [of "dkeys (x_stamps x)"] by (simp add: scene_inv_def dwf_def dkeys_def)
  moreover have "card (set (s_covered x) \<union> set (s_notcovered x)) = length (s_covered x) + length (s_notcovered x)"
    using i by (simp add: scene_inv_def card_Un_disjoint distinct_card)
  ultimately show ?thesis using i unfolding scene_inv_def by (intro conjI) auto
qed


text \<open>
  C7. In every state that the setscene queue can reach no setscene task was started twice; each task that was
  taken is in flight, covered or not covered, and only one of them; the active tasks are those in flight,
  never more than \<open>BB_NUMBER_THREADS\<close>, and the statistics count the others.
\<close>
theorem scene_safe:
  assumes "scene_run c x" "0 < ec_number_tasks c"
  shows "distinct (started_tasks (x_log x)) \<and> set (started_tasks (x_log x)) \<subseteq> set (x_running x) \<and>
    set (x_running x) = in_flight x \<union> set (s_covered x) \<union> set (s_notcovered x) \<and>
    in_flight x \<inter> (set (s_covered x) \<union> set (s_notcovered x)) = {} \<and> set (s_covered x) \<inter> set (s_notcovered x) = {} \<and>
    st_active (x_stats x) = int (card (in_flight x)) \<and> st_active (x_stats x) \<le> ec_number_tasks c \<and>
    st_completed (x_stats x) + st_failed (x_stats x) = int (card (set (s_covered x) \<union> set (s_notcovered x)))"
  by (rule scene_inv_safe [OF scene_run_inv [OF assms]])
text \<open>
  C8. When the setscene queue hands over to the tasks (the state becomes \<open>runQueueRunInit\<close>), no worker is
  busy any more, and the tasks it took are exactly the covered and the not covered ones it hands over.
\<close>
theorem scene_handover:
  assumes "scene_run c x" "0 < ec_number_tasks c" "x_state x = RSceneRun" "reports_ok (in_flight x) rs1" "Died \<notin> set (rs1 @ rs2)"
    "scene_execute c v rs1 rs2 x = Inr (r, x')" "x_state x' = RRunInit"
  shows "in_flight x' = {} \<and> set (x_running x') = set (x_covered x') \<union> set (x_notcovered x') \<and>
    set (x_covered x') \<inter> set (x_notcovered x') = {} \<and> r = Again"
proof -
  have i: "scene_inv c x" by (rule scene_run_inv [OF assms(1,2)])
  obtain return y where b: "scene_body c v rs1 x = Inr (return, y)"
    "(if return then Inr (Again, y) else scene_wind_up c (sv_dcs v) rs2 y) = Inr (r, x')"
    using assms(6) by (auto simp: scene_execute_def elim!: rbind_InrE)
  note ok = scene_body_ok [OF b(1) i assms(4)]
  have y: "scene_inv c y" "x_state y \<noteq> RRunInit" using ok assms(3,5) by auto
  then have w: "scene_wind_up c (sv_dcs v) rs2 y = Inr (r, x')" using b(2) assms(7) by (auto split: if_splits)
  have "\<not> 0 < st_active (x_stats y)"
  proof
    assume "0 < st_active (x_stats y)"
    then have "scene_read_workers c (sv_dcs v) rs2 y = Inr x'" using w by (auto simp: scene_wind_up_def elim!: rbind_InrE)
    from scene_read_workers_state [OF this] show False using y(2) assms(5,7) by auto
  qed
  then have x': "r = Again" "x' = y\<lparr>x_covered := s_covered y, x_notcovered := s_notcovered y, x_state := RRunInit\<rparr>"
    "x_stamps y = []"
    using w y(1) by (auto simp: scene_wind_up_def scene_inv_def)
  then have "in_flight y = {}" by simp
  then show ?thesis using x' y(1) by (auto simp: scene_inv_def)
qed


section \<open>An example run\<close>

text \<open>
  Both tasks of the example graph have a setscene variant.  The one of \<open>y\<close> runs first; once it has succeeded \<open>x\<close>,
  which only \<open>y\<close> needs, is not needed any more.
\<close>

definition scene_cfg :: execcfg where
  "scene_cfg = example_cfg\<lparr>ec_setscene_tids := [''a.bb:x'', ''a.bb:y''], ec_target_tids := [],
     ec_depvalid := Some (\<lambda>task data notneeded. True)\<rparr>"

definition scene_tds :: mctd where
  "scene_tds = [([], (new_taskdata True False None False)\<lparr>td_taskentries :=
     [(''a.bb:x_setscene'', new_taskentry), (''a.bb:y_setscene'', new_taskentry)]\<rparr>)]"

fun scene_steps :: "execcfg \<Rightarrow> (stampview \<times> report list \<times> report list) list \<Rightarrow> sexec \<Rightarrow> sexec res" where
  "scene_steps c [] x = Inr x"
| "scene_steps c ((v, rs1, rs2) # steps) x =
     (if \<not> reports_ok (in_flight x) rs1 then Inl KeyError
      else rbind (scene_body c v rs1 x) (\<lambda>(return, y).
        if \<not> return \<and> \<not> reports_ok (in_flight y) rs2 then Inl KeyError
        else rbind (scene_execute c v rs1 rs2 x) (\<lambda>(r, z). scene_steps c steps z)))"

lemma scene_steps_reach: "scene_steps c steps x = Inr y \<Longrightarrow> scene_run c x \<Longrightarrow> scene_run c y"
proof (induction c steps x rule: scene_steps.induct)
  case (2 c v rs1 rs2 steps x)
  then have ok: "reports_ok (in_flight x) rs1" by (auto split: if_splits)
  obtain return z where b: "scene_body c v rs1 x = Inr (return, z)"
    using 2(2,3) ok by (auto elim: rbind_InrE)
  have ok2: "return \<or> reports_ok (in_flight z) rs2" using 2(2,3) ok b by (auto split: if_splits)
  obtain r w where e: "scene_execute c v rs1 rs2 x = Inr (r, w)" "scene_steps c steps w = Inr y"
    using 2(2,3) ok b ok2 by (auto elim: rbind_InrE split: if_splits)
  have "scene_run c w" by (rule scene_run.step [OF 2(3) ok _ e(1)]) (use b ok2 in auto)
  then show ?case using 2(1) ok b ok2 e by auto
qed simp

definition scene_state :: "(report list \<times> report list) list \<Rightarrow> sexec res" where
  "scene_state steps =
     rbind (scene_init scene_cfg scene_tds example_times example_graph []) (\<lambda>(started, x).
       if started then scene_steps scene_cfg (map (Pair example_times) steps) x else Inl KeyError)"

lemma scene_state_reach: "scene_state steps = Inr x \<Longrightarrow> scene_run scene_cfg x"
proof -
  assume "scene_state steps = Inr x"
  then obtain y where "scene_init scene_cfg scene_tds example_times example_graph [] = Inr (True, y)"
    "scene_steps scene_cfg (map (Pair example_times) steps) y = Inr x"
    by (auto simp: scene_state_def elim!: rbind_InrE split: if_splits)
  then show ?thesis using scene_run.init scene_steps_reach by blast
qed

lemma scene_cfg_threads: "0 < ec_number_tasks scene_cfg"
  by (simp add: scene_cfg_def example_cfg_def)

lemma scene_safe_witness:
  "\<exists>x. scene_run scene_cfg x \<and> x_running x = [''a.bb:y''] \<and> in_flight x = {''a.bb:y''} \<and>
     st_active (x_stats x) = int (card (in_flight x))"
proof -
  have "map_sum id (\<lambda>x. (x_running x, dkeys (x_stamps x))) (scene_state [([], [])]) = Inr ([''a.bb:y''], [''a.bb:y''])"
    by code_simp
  then obtain x where x: "scene_state [([], [])] = Inr x" "x_running x = [''a.bb:y'']" "in_flight x = {''a.bb:y''}"
    by (cases "scene_state [([], [])]") auto
  have "scene_run scene_cfg x" by (rule scene_state_reach [OF x(1)])
  then show ?thesis using scene_safe [OF _ scene_cfg_threads, of x] x by blast
qed

lemma scene_handover_witness:
  "\<exists>x r x'. scene_run scene_cfg x \<and> scene_execute scene_cfg example_times [] [] x = Inr (r, x') \<and>
     x_covered x' = [''a.bb:y'', ''a.bb:x''] \<and> x_notcovered x' = [] \<and> in_flight x' = {} \<and> r = Again"
proof -
  let ?s = "scene_state [([], []), ([], [Exited ''a.bb:y'' 0]), ([], [])]"
  have "rbind ?s (\<lambda>x. rbind (scene_execute scene_cfg example_times [] [] x) (\<lambda>(r, x').
      Inr (x_state x, x_state x', x_covered x', x_notcovered x'))) = Inr (RSceneRun, RRunInit, [''a.bb:y'', ''a.bb:x''], [])"
    by code_simp
  then obtain x r x' where x: "?s = Inr x" "scene_execute scene_cfg example_times [] [] x = Inr (r, x')"
    "x_state x = RSceneRun" "x_state x' = RRunInit" "x_covered x' = [''a.bb:y'', ''a.bb:x'']" "x_notcovered x' = []"
    by (auto elim!: rbind_InrE)
  have "scene_run scene_cfg x" by (rule scene_state_reach [OF x(1)])
  then show ?thesis using scene_handover [OF _ scene_cfg_threads x(3) _ _ x(2,4)] x by auto
qed


lemma updatecounters_terminates_witness:
  "scenequeue_updatecounters 2 ''t'' True ((new_scene [] [])\<lparr>s_harddeps := [(''t'', [''d''])], s_deps := [(''t'', [''d'']), (''d'', [])]\<rparr>)
     \<noteq> Inl OutOfFuel"
proof -
  let ?x = "(new_scene [] [])\<lparr>s_harddeps := [(''t'', [''d''])], s_deps := [(''t'', [''d'']), (''d'', [])]\<rparr>"
  have "hard_edges (s_harddeps ?x) \<subseteq> {(''t'', ''d'')}" by (auto simp: hard_edges_def dgetd_def split: if_splits)
  moreover have "acyclic {(''t'', ''d'')}" by (simp add: acyclic_def trancl_insert)
  ultimately have "acyclic (hard_edges (s_harddeps ?x))" by (rule acyclic_subset [rotated])
  moreover have "update_fuel ?x = 2" by (simp add: update_fuel_def)
  ultimately show ?thesis using updatecounters_terminates [of ?x "''t''" True] by metis
qed

end
