(* ===== verification/RunQueueControl.thy ===== *)
theory RunQueueControl
  imports SceneRuns DiskMonitor
begin

text \<open>
  \<open>RunQueue\<close> of \<open>bitbake/lib/bb/runqueue.py\<close>: the state machine around the setscene queue and the executor
  of the tasks.  \<open>execute_runqueue\<close> is called again and again by the cooker; each call takes the queue
  from the preparation over the setscene tasks to the tasks and to its end, as far as it comes.

  \<open>rq.state\<close> is written by the object that is executing as well: its copy is \<open>x_state\<close>, which is set
  before and read after each of its operations.  What the workers answer is a list of functions, one for
  each time the pipes are read, from the tasks in flight to the reports.  Messages, events and the output
  of signature files are left out.
\<close>

section \<open>The state\<close>

text \<open>\<open>rqexe\<close>; the setscene queue has no statistics when there was no setscene task: \<open>False\<close>.\<close>

datatype rqexe = NoExec | Dummy | Scene bool sexec | Tasks texec

record 'g runqueue =
  q_state :: rstate
  q_exe :: rqexe
  q_cfg :: execcfg
  q_graph :: "string graph"
  q_checked :: bool
  q_covered :: "string list"
  q_notcovered :: "string list"
  q_fakeworkers :: "string list"
  q_whitelist :: "(string, string list) dict"
  q_tds :: mctd
  q_siggen :: 'g
  q_monitor :: diskmon
  q_disklog :: "diskevent list"

text \<open>What stays the same during the life of a queue.\<close>

record 'g rqenv =
  e_var :: config
  e_taskhash :: "string \<Rightarrow> string \<Rightarrow> string list \<Rightarrow> cachedata \<Rightarrow> 'g \<Rightarrow> ('g \<times> string) res"
  e_config :: rqconfig
  e_targets :: "target list"
  e_view :: stampview
  e_dump :: bool
  e_setsceneonly :: bool

text \<open>The surroundings of one call: file times, free disk space, and the answers of the workers.\<close>

type_synonym answers = "(string set \<Rightarrow> report list) list"

record rqworld =
  w_time :: "string \<Rightarrow> int option"
  w_vfs :: statvfs
  w_answers :: answers

definition next_answer :: "answers \<Rightarrow> string set \<Rightarrow> report list" where
  "next_answer as = (case as of [] \<Rightarrow> (\<lambda>S. []) | a # _ \<Rightarrow> a)"

definition current_view :: "'g rqenv \<Rightarrow> rqworld \<Rightarrow> 'g runqueue \<Rightarrow> stampview" where
  "current_view e w q = (e_view e)\<lparr>sv_time := w_time w, sv_whitelist := q_whitelist q\<rparr>"

definition new_runqueue :: "execcfg \<Rightarrow> mctd \<Rightarrow> 'g \<Rightarrow> diskmon \<Rightarrow> 'g runqueue" where
  "new_runqueue c tds siggen monitor =
     \<lparr>q_state = RPrepare, q_exe = NoExec, q_cfg = c, q_graph = [], q_checked = False, q_covered = [], q_notcovered = [],
      q_fakeworkers = [], q_whitelist = [], q_tds = tds, q_siggen = siggen, q_monitor = monitor, q_disklog = []\<rparr>"

section \<open>The object that executes\<close>

definition put_scene :: "bool \<Rightarrow> sexec \<Rightarrow> 'g runqueue \<Rightarrow> 'g runqueue" where
  "put_scene started x q =
     q\<lparr>q_exe := Scene started x, q_state := x_state x, q_covered := x_covered x, q_notcovered := x_notcovered x,
       q_fakeworkers := x_fakeworkers x\<rparr>"

definition put_tasks :: "texec \<Rightarrow> 'g runqueue \<Rightarrow> 'g runqueue" where
  "put_tasks x q =
     q\<lparr>q_exe := Tasks x, q_state := x_state x, q_graph := x_entries x, q_checked := x_checked x, q_covered := x_covered x,
       q_notcovered := x_notcovered x, q_fakeworkers := x_fakeworkers x\<rparr>"

text \<open>\<open>RunQueueExecute.__init__\<close> reads the number of threads and the name of the scheduler.\<close>

definition read_config :: "config \<Rightarrow> execcfg \<Rightarrow> execcfg res" where
  "read_config var c =
     rbind (number_tasks_of var) (\<lambda>n.
       Inr (c\<lparr>ec_number_tasks := n,
              ec_scheduler := (case or_else (var ''BB_SCHEDULER'') None of None \<Rightarrow> ''speed'' | Some s \<Rightarrow> s)\<rparr>))"

text \<open>What the workers answer when the pipes are read for the second time in a call of \<open>execute\<close>.\<close>

definition scene_answer2 :: "execcfg \<Rightarrow> stampview \<Rightarrow> report list \<Rightarrow> answers \<Rightarrow> sexec \<Rightarrow> report list" where
  "scene_answer2 c v rs as x =
     (case scene_body c v rs x of Inr (False, y) \<Rightarrow> next_answer as (in_flight y) | _ \<Rightarrow> [])"

definition tasks_answer2 :: "execcfg \<Rightarrow> stampview \<Rightarrow> report list \<Rightarrow> answers \<Rightarrow> texec \<Rightarrow> report list" where
  "tasks_answer2 c v rs as x =
     (case execute_body c v rs x of Inr (False, y) \<Rightarrow> next_answer as (in_flight y) | _ \<Rightarrow> [])"

text \<open>
  \<open>self.rqexe.execute()\<close>; the dummy has no such method, and a setscene queue without statistics fails when it
  compares the number of active tasks.
\<close>

definition exe_execute :: "stampview \<Rightarrow> answers \<Rightarrow> 'g runqueue \<Rightarrow> (retval \<times> 'g runqueue) res" where
  "exe_execute v as q =
     (case q_exe q of
        Scene True x \<Rightarrow>
          let x = x\<lparr>x_state := q_state q\<rparr>; rs = next_answer as (in_flight x)
          in rbind (scene_execute (q_cfg q) v rs (scene_answer2 (q_cfg q) v rs (tl as) x) x) (\<lambda>(r, x).
               Inr (r, put_scene True x q))
      | Tasks x \<Rightarrow>
          let x = x\<lparr>x_state := q_state q\<rparr>; rs = next_answer as (in_flight x)
          in rbind (execute (q_cfg q) v rs (tasks_answer2 (q_cfg q) v rs (tl as) x) x) (\<lambda>(r, x).
               Inr (r, put_tasks x q))
      | _ \<Rightarrow> Inl AttributeError)"

definition exe_finish :: "mcdc \<Rightarrow> answers \<Rightarrow> 'g runqueue \<Rightarrow> (retval \<times> 'g runqueue) res" where
  "exe_finish dcs as q =
     (case q_exe q of
        NoExec \<Rightarrow> Inl AttributeError
      | Dummy \<Rightarrow> Inr (Again, q\<lparr>q_state := RComplete\<rparr>)
      | Scene False x \<Rightarrow> Inl AttributeError
      | Scene True x \<Rightarrow>
          rbind (scene_finish (q_cfg q) dcs (next_answer as (in_flight x)) x) (\<lambda>(r, x). Inr (r, put_scene True x q))
      | Tasks x \<Rightarrow>
          rbind (finish (q_cfg q) (next_answer as (in_flight x)) x) (\<lambda>(r, x). Inr (r, put_tasks x q)))"

text \<open>The dummy has no list of failed tasks.\<close>

definition exe_finish_now :: "'g runqueue \<Rightarrow> 'g runqueue res" where
  "exe_finish_now q =
     (case q_exe q of
        Scene started x \<Rightarrow> Inr (put_scene started (finish_now x) q)
      | Tasks x \<Rightarrow> Inr (put_tasks (finish_now x) q)
      | _ \<Rightarrow> Inl AttributeError)"

definition exe_stats :: "'g runqueue \<Rightarrow> stats res" where
  "exe_stats q =
     (case q_exe q of
        Dummy \<Rightarrow> Inr (stats_init 0)
      | Scene True x \<Rightarrow> Inr (x_stats x)
      | Tasks x \<Rightarrow> Inr (x_stats x)
      | _ \<Rightarrow> Inl AttributeError)"

definition exe_failed :: "'g runqueue \<Rightarrow> string list res" where
  "exe_failed q =
     (case q_exe q of
        Scene started x \<Rightarrow> Inr (x_failed x)
      | Tasks x \<Rightarrow> Inr (x_failed x)
      | _ \<Rightarrow> Inl AttributeError)"

section \<open>finish_runqueue and the workers\<close>

definition finish_runqueue :: "mcdc \<Rightarrow> bool \<Rightarrow> 'g runqueue \<times> answers \<Rightarrow> ('g runqueue \<times> answers) res" where
  "finish_runqueue dcs now qa =
     (case qa of (q, as) \<Rightarrow>
       if q_exe q = NoExec then Inr (q\<lparr>q_state := RComplete\<rparr>, as)
       else if now then rbind (exe_finish_now q) (\<lambda>q. Inr (q, as))
       else rbind (exe_finish dcs as q) (\<lambda>(r, q). Inr (q, tl as)))"

text \<open>
  The workers are told to quit; what they have written until then is still read.  That a worker has ended
  is not an error any more.
\<close>

definition last_answer :: "answers \<Rightarrow> string set \<Rightarrow> report list" where
  "last_answer as S = filter (\<lambda>r. r \<noteq> Died) (next_answer as S)"

definition teardown_workers :: "mcdc \<Rightarrow> answers \<Rightarrow> 'g runqueue \<Rightarrow> 'g runqueue res" where
  "teardown_workers dcs as q =
     (case q_exe q of
        Scene True x \<Rightarrow>
          rbind (scene_read_workers (q_cfg q) dcs (last_answer as (in_flight x)) (x\<lparr>x_state := q_state q\<rparr>)) (\<lambda>x.
            Inr (put_scene True (x\<lparr>x_fakeworkers := []\<rparr>) q))
      | Tasks x \<Rightarrow>
          rbind (read_workers (q_cfg q) (last_answer as (in_flight x)) (x\<lparr>x_state := q_state q\<rparr>)) (\<lambda>x.
            Inr (put_tasks (x\<lparr>x_fakeworkers := []\<rparr>) q))
      | _ \<Rightarrow> Inr (q\<lparr>q_fakeworkers := []\<rparr>))"

section \<open>The stages of a call\<close>

definition stage_prepare :: "'g rqenv \<Rightarrow> 'g runqueue \<Rightarrow> 'g runqueue res" where
  "stage_prepare e q =
     (if q_state q \<noteq> RPrepare then Inr q
      else let q = q\<lparr>q_exe := Dummy\<rparr>
        in rbind (prepare (e_taskhash e) (e_config e) (q_tds q) (sv_dcs (e_view e)) (e_targets e) (q_siggen q)) (\<lambda>p.
             case p of
               None \<Rightarrow> Inr (q\<lparr>q_state := RComplete\<rparr>)
             | Some d \<Rightarrow>
                 Inr (q\<lparr>q_state := RSceneInit, q_graph := rq_entries d, q_whitelist := rq_stampfnwhitelist d,
                        q_siggen := rq_siggen d,
                        q_cfg := (q_cfg q)\<lparr>ec_setscene_tids := rq_setscene_tids d, ec_target_tids := rq_target_tids d,
                          ec_abort := map_option td_abort (dget (q_tds q) [])\<rparr>\<rparr>)))"

definition stage_scene_init :: "'g rqenv \<Rightarrow> rqworld \<Rightarrow> 'g runqueue \<Rightarrow> 'g runqueue res" where
  "stage_scene_init e w q =
     (if q_state q \<noteq> RSceneInit then Inr q
      else if e_dump e then Inr (q\<lparr>q_state := RComplete\<rparr>)
      else rbind (read_config (e_var e) (q_cfg q)) (\<lambda>c.
           rbind (scene_init c (q_tds q) (current_view e w q) (q_graph q) (q_fakeworkers q)) (\<lambda>(started, x).
             Inr (put_scene started x (q\<lparr>q_cfg := c\<rparr>)))))"

definition stage_check :: "'g rqenv \<Rightarrow> rqworld \<Rightarrow> 'g runqueue \<Rightarrow> ('g runqueue \<times> answers) res" where
  "stage_check e w q =
     (if q_state q \<notin> {RSceneRun, RRunning, RCleanUp} then Inr (q, w_answers w)
      else rbind (disk_check (finish_runqueue (sv_dcs (e_view e))) (w_vfs w) (q_monitor q, q_disklog q, q, w_answers w))
             (\<lambda>(m, log, q, as). Inr (q\<lparr>q_monitor := m, q_disklog := log\<rparr>, as)))"

definition stage_execute ::
  "rstate \<Rightarrow> 'g rqenv \<Rightarrow> rqworld \<Rightarrow> retval \<times> 'g runqueue \<times> answers \<Rightarrow> (retval \<times> 'g runqueue \<times> answers) res" where
  "stage_execute s e w rqa =
     (case rqa of (r, q, as) \<Rightarrow>
       if q_state q \<noteq> s then Inr (r, q, as)
       else rbind (exe_execute (current_view e w q) as q) (\<lambda>(r, q). Inr (r, q, tl (tl as))))"

definition stage_run_init :: "'g rqenv \<Rightarrow> rqworld \<Rightarrow> 'g runqueue \<Rightarrow> 'g runqueue res" where
  "stage_run_init e w q =
     (if q_state q \<noteq> RRunInit then Inr q
      else if e_setsceneonly e then Inr (q\<lparr>q_state := RComplete\<rparr>)
      else rbind (read_config (e_var e) (q_cfg q)) (\<lambda>c.
           rbind (tasks_init c (current_view e w q) (q_graph q) (q_covered q) (q_notcovered q) (q_fakeworkers q)
                    (q_checked q)) (\<lambda>x.
             Inr (put_tasks (x\<lparr>x_state := RRunning\<rparr>) (q\<lparr>q_cfg := c\<rparr>)))))"

definition stage_clean_up ::
  "'g rqenv \<Rightarrow> retval \<times> 'g runqueue \<times> answers \<Rightarrow> (retval \<times> 'g runqueue \<times> answers) res" where
  "stage_clean_up e rqa =
     (case rqa of (r, q, as) \<Rightarrow>
       if q_state q \<noteq> RCleanUp then Inr (r, q, as)
       else rbind (exe_finish (sv_dcs (e_view e)) as q) (\<lambda>(r, q). Inr (r, q, tl as)))"

text \<open>The workers are stopped and the summary, which needs the statistics, is printed.\<close>

definition stage_teardown :: "'g rqenv \<Rightarrow> 'g runqueue \<times> answers \<Rightarrow> ('g runqueue \<times> answers) res" where
  "stage_teardown e qa =
     (case qa of (q, as) \<Rightarrow>
       if q_state q \<in> {RComplete, RFailed} \<and> q_exe q \<noteq> NoExec
       then rbind (teardown_workers (sv_dcs (e_view e)) as q) (\<lambda>q. rbind (exe_stats q) (\<lambda>_. Inr (q, tl as)))
       else Inr (q, as))"

text \<open>
  The files of the failed tasks fail for the task data, so that other providers are tried; but the state
  stays \<open>runQueueFailed\<close>.
\<close>

definition fail_file :: "string \<Rightarrow> mctd \<Rightarrow> mctd res" where
  "fail_file tid tds =
     rbind (split_tid_mcfn tid) (\<lambda>(mc, fn, taskname, taskfn).
     rbind (dlookup tds mc) (\<lambda>td.
       case fail_fn (fail_fuel td) fn td of
         (td, None) \<Rightarrow> Inr (dset mc td tds)
       | (td, Some err) \<Rightarrow> Inl err))"

definition stage_failed :: "'g runqueue \<Rightarrow> 'g runqueue res" where
  "stage_failed q =
     (if q_state q \<noteq> RFailed then Inr q
      else rbind (dlookup (q_tds q) []) (\<lambda>td.
           rbind (exe_failed q) (\<lambda>failed.
             if \<not> td_tryaltconfigs td then Inl (TaskFailure failed)
             else rbind (rfold fail_file failed (q_tds q)) (\<lambda>tds. Inr (q\<lparr>q_tds := tds, q_graph := []\<rparr>)))))"

section \<open>execute_runqueue\<close>

text \<open>\<open>None\<close> when everything is done.\<close>

definition execute_runqueue0 :: "'g rqenv \<Rightarrow> rqworld \<Rightarrow> 'g runqueue \<Rightarrow> (retval option \<times> 'g runqueue) res" where
  "execute_runqueue0 e w q =
     rbind (stage_prepare e q) (\<lambda>q.
     rbind (stage_scene_init e w q) (\<lambda>q.
     rbind (stage_check e w q) (\<lambda>(q, as).
     rbind (stage_execute RSceneRun e w (Again, q, as)) (\<lambda>(r, q, as).
     rbind (stage_run_init e w q) (\<lambda>q.
     rbind (stage_execute RRunning e w (r, q, as)) (\<lambda>rqa.
     rbind (stage_clean_up e rqa) (\<lambda>(r, q, as).
     rbind (stage_teardown e (q, as)) (\<lambda>(q, as).
     rbind (stage_failed q) (\<lambda>q.
       Inr (if q_state q = RComplete then None else Some r, q))))))))))"

text \<open>What an exception leaves behind: the exception and the state of the queue.\<close>

definition execute_runqueue ::
  "'g rqenv \<Rightarrow> rqworld \<Rightarrow> 'g runqueue \<Rightarrow> (exc \<times> rstate) + (retval option \<times> 'g runqueue)" where
  "execute_runqueue e w q =
     (case execute_runqueue0 e w q of
        Inr x \<Rightarrow> Inr x
      | Inl (TaskFailure tids) \<Rightarrow> Inl (TaskFailure tids, RFailed)
      | Inl err \<Rightarrow> Inl (err, RComplete))"

end
