(* ===== verification/RunQueueSafety.thy ===== *)
theory RunQueueSafety
  imports RunQueueControl
begin

text \<open>
  The invariant of the run queue: the object that executes fits to the state of the queue, and it satisfies
  the invariant of the setscene queue or of the executor.  Every stage of \<open>execute_runqueue\<close> keeps it.
\<close>

section \<open>How the state changes\<close>

text \<open>What reports and requests to stop can set.\<close>

definition late :: "rstate \<Rightarrow> bool" where
  "late s \<longleftrightarrow> s = RCleanUp \<or> s = RFailed \<or> s = RComplete"

lemma late_simps [simp]: "late RCleanUp" "late RFailed" "late RComplete" "\<not> late RRunning" "\<not> late RSceneRun"
  "\<not> late RRunInit" "\<not> late RPrepare" "\<not> late RSceneInit"
  by (simp_all add: late_def)

lemma release_revdep_rest: "release_revdep t x = Inr y \<Longrightarrow> rest_of y = rest_of x"
  by (auto simp: release_revdep_def setbuildable_def rest_of_def elim!: rbind_InrE split: if_splits)

lemma completeoutright_rest:
  assumes "task_completeoutright t x = Inr y"
  shows "rest_of y = rest_of x"
proof -
  obtain e :: "string rte" where r: "rfold release_revdep (rt_revdeps e) (x\<lparr>x_complete := sadd t (x_complete x)\<rparr>) = Inr y"
    using assms unfolding task_completeoutright_def by (elim rbind_InrE) blast
  have s: "rest_of (x\<lparr>x_complete := c\<rparr>) = rest_of x" for c by (simp add: rest_of_def)
  show ?thesis by (rule rfold_inv [OF r, of "\<lambda>z. rest_of z = rest_of x"]) (simp_all add: s release_revdep_rest)
qed

lemma process_report_late:
  assumes "process_report c r x = Inr y"
  shows "x_state y = x_state x \<or> late (x_state y)"
    and "r \<noteq> Died \<Longrightarrow> x_state y = x_state x \<or> x_state y = RCleanUp \<and> x_failed y \<noteq> []"
    and "x_failed x \<noteq> [] \<Longrightarrow> x_failed y \<noteq> []" "x_log y = x_log x"
proof -
  have rel: "x_state (release_stamp t x) = x_state x" "x_failed (release_stamp t x) = x_failed x"
    "x_log (release_stamp t x) = x_log x" for t
    by (simp_all add: release_stamp_def split: option.split)
  have "(x_state y = x_state x \<or> late (x_state y)) \<and>
      (r \<noteq> Died \<longrightarrow> x_state y = x_state x \<or> x_state y = RCleanUp \<and> x_failed y \<noteq> []) \<and>
      (x_failed x \<noteq> [] \<longrightarrow> x_failed y \<noteq> []) \<and> x_log y = x_log x"
  proof (cases r)
    case (Exited t status)
    show ?thesis
    proof (cases "status = 0")
      case True
      then have "task_completeoutright t (on_stats (taskCompleted 1) (release_stamp t x)) = Inr y"
        using assms Exited by (simp add: process_report_def task_complete_def)
      from completeoutright_rest [OF this] show ?thesis using rel [of t] by (simp add: rest_of_def on_stats_def)
    next
      case False
      then have "task_fail c t (release_stamp t x) = Inr y" using assms Exited by (simp add: process_report_def)
      then show ?thesis using rel [of t]
        by (auto simp: task_fail_def Let_def on_stats_def elim!: rbind_InrE split: option.splits if_splits)
    qed
  next
    case Died
    then show ?thesis using assms by (auto simp: process_report_def finish_now_def)
  qed
  then show "x_state y = x_state x \<or> late (x_state y)"
    "r \<noteq> Died \<Longrightarrow> x_state y = x_state x \<or> x_state y = RCleanUp \<and> x_failed y \<noteq> []"
    "x_failed x \<noteq> [] \<Longrightarrow> x_failed y \<noteq> []" "x_log y = x_log x"
    by blast+
qed

lemma read_workers_late:
  assumes "read_workers c rs x = Inr y"
  shows "x_state y = x_state x \<or> late (x_state y)"
    and "Died \<notin> set rs \<Longrightarrow> x_state y = x_state x \<or> x_state y = RCleanUp \<and> x_failed y \<noteq> []"
    and "x_failed x \<noteq> [] \<Longrightarrow> x_failed y \<noteq> []" "x_log y = x_log x"
proof -
  have "(x_state y = x_state x \<or> late (x_state y)) \<and>
      (Died \<notin> set rs \<longrightarrow> x_state y = x_state x \<or> x_state y = RCleanUp \<and> x_failed y \<noteq> []) \<and>
      (x_failed x \<noteq> [] \<longrightarrow> x_failed y \<noteq> []) \<and> x_log y = x_log x"
    using assms unfolding read_workers_def
  proof (induction rs arbitrary: x)
    case (Cons r rs)
    then obtain z where z: "process_report c r x = Inr z" "rfold (process_report c) rs z = Inr y" by (auto elim: rbind_InrE)
    note Cons.IH [OF z(2)]
    moreover note process_report_late [OF z(1)]
    ultimately show ?case by auto
  qed simp
  then show "x_state y = x_state x \<or> late (x_state y)"
    "Died \<notin> set rs \<Longrightarrow> x_state y = x_state x \<or> x_state y = RCleanUp \<and> x_failed y \<noteq> []"
    "x_failed x \<noteq> [] \<Longrightarrow> x_failed y \<noteq> []" "x_log y = x_log x"
    by blast+
qed

lemma run_task_failed:
  assumes "run_task c v t x = Inr (return, x')" "\<And>mc. ec_spawn c mc"
  shows "x_failed x' = x_failed x"
proof -
  have skip: "x_failed z = x_failed y" if "task_skip t y = Inr z" for y z
    using that by (auto simp: task_skip_def setbuildable_def on_stats_def rest_of_def elim!: rbind_InrE dest!: completeoutright_rest)
  have complete: "x_failed z = x_failed y" if "task_complete t y = Inr z" for y z
    using that by (auto simp: task_complete_def on_stats_def rest_of_def dest!: completeoutright_rest)
  have check: "x_failed z = x_failed y" if "check_task v t n r y = Inr (b, z)" for n r b y and z :: texec
    using check_task_frame [OF that] by auto
  have start: "x_failed z = x_failed y" if "start_task c v t mc tn tf td y = Inr (b, z)" for mc tn tf td b y z
    using that assms(2) by (auto simp: start_task_def register_running_def log_effect_def on_stats_def Let_def
        elim!: rbind_InrE split: if_splits)
  obtain mc fn taskname taskfn where s: "split_tid_mcfn t = Inr (mc, fn, taskname, taskfn)"
    using assms(1) by (auto simp: run_task_def elim: rbind_InrE)
  show ?thesis
  proof (cases "t \<in> set (x_covered x)")
    case True
    then show ?thesis using assms(1) s skip by (auto simp: run_task_def elim!: rbind_InrE)
  next
    case False
    then obtain current y where y: "check_task v t taskname False x = Inr (current, y)"
      using assms(1) s by (auto simp: run_task_def elim!: rbind_InrE)
    show ?thesis
    proof (cases current)
      case True
      then show ?thesis using assms(1) s y False skip check [OF y] by (auto simp: run_task_def elim!: rbind_InrE)
    next
      case ncur: False
      then obtain dc td where d: "dget (sv_dcs v) mc = Some dc" "dget (c_task_deps dc) taskfn = Some td"
        using assms(1) s y False by (auto simp: run_task_def elim!: rbind_InrE)
      show ?thesis
      proof (cases "noexec td taskname")
        case True
        then obtain z where "task_complete t z = Inr x'" "x_failed z = x_failed y"
          using assms(1) s y False ncur d
          by (auto simp: run_task_def Let_def on_stats_def log_effect_def elim!: rbind_InrE split: if_splits)
        then show ?thesis using complete check [OF y] by simp
      next
        case False
        then have "\<exists>b. start_task c v t mc taskname taskfn td y = Inr (b, x')"
          using assms(1) s y \<open>t \<notin> set (x_covered x)\<close> ncur d by (auto simp: run_task_def elim!: rbind_InrE)
        then show ?thesis using start check [OF y] by fastforce
      qed
    qed
  qed
qed

text \<open>After \<open>execute\<close> the state is the same or a late one; it is to clean up only because a task has failed.\<close>

lemma execute_body_late:
  assumes "execute_body c v rs x = Inr (return, x')" "graph_wf g" "g \<noteq> []" "exec_inv c g (prio_list kind g) x"
    "reports_ok (in_flight x) rs" "\<And>mc. ec_spawn c mc"
  shows "x_state x' = x_state x \<or> late (x_state x')"
    and "Died \<notin> set rs \<Longrightarrow> ec_whitelist c = None \<Longrightarrow> x_state x' = x_state x \<or> x_state x' = RCleanUp \<and> x_failed x' \<noteq> []"
proof -
  let ?inv = "exec_inv c g (prio_list kind g)"
  obtain stopped x1 where e: "enforce_whitelist c v x = Inr (stopped, x1)"
    using assms(1) by (auto simp: execute_body_def elim: rbind_InrE)
  note eok = enforce_ok [OF e assms(2,4)]
  have "(x_state x' = x_state x \<or> late (x_state x')) \<and>
     (Died \<notin> set rs \<longrightarrow> ec_whitelist c = None \<longrightarrow> x_state x' = x_state x \<or> x_state x' = RCleanUp \<and> x_failed x' \<noteq> [])"
  proof (cases stopped)
    case True
    then have "x' = x1" using assms(1) e by (auto simp: execute_body_def)
    moreover have "ec_whitelist c \<noteq> None" using e True by (auto simp: enforce_whitelist_def split: if_splits)
    ultimately show ?thesis using eok True by auto
  next
    case False
    obtain x2 where x2: "read_workers c rs x1 = Inr x2"
      using assms(1) e False by (auto simp: execute_body_def elim: rbind_InrE)
    have r: "reports_ok (in_flight x1) rs" "?inv x1" "x_state x1 = x_state x" using assms(5) eok False by simp_all
    note rok = read_workers_ok [OF x2 assms(2) r(2,1)] and rl = read_workers_late [OF x2]
    have "counts c g x2" using rok by (simp add: exec_inv_def)
    then have "st_total (x_stats x2) \<noteq> 0" using assms(3) unfolding counts_def by (metis length_0_conv of_nat_eq_0_iff)
    then have total: "(if st_total (x_stats x2) = 0 then x2\<lparr>x_state := RCleanUp\<rparr> else x2) = x2" by simp
    have "rbind (ask_scheduler c x2) (\<lambda>(task, x). case task of None \<Rightarrow> Inr (False, x) | Some t \<Rightarrow> run_task c v t x) = Inr (return, x')"
      using assms(1) unfolding execute_body_def e x2 Let_def by (simp add: False x2 total)
    then obtain p where p: "ask_scheduler c x2 = Inr p"
      "(\<lambda>(task, x). case task of None \<Rightarrow> Inr (False, x) | Some t \<Rightarrow> run_task c v t x) p = Inr (return, x')"
      by (rule rbind_InrE)
    obtain task x4 where "p = (task, x4)" by (cases p)
    then have ask: "ask_scheduler c x2 = Inr (task, x4)"
      "(case task of None \<Rightarrow> Inr (False, x4) | Some t \<Rightarrow> run_task c v t x4) = Inr (return, x')"
      using p by simp_all
    have inv2: "?inv x2" using rok by simp
    obtain s where x4: "x4 = x2\<lparr>x_sched := s\<rparr>" using ask_ok [OF ask(1) inv2] by (elim conjE exE)
    have inv4: "?inv x4" by (rule ask_ok [OF ask(1) inv2, THEN conjunct1])
    have "x_state x' = x_state x4 \<and> x_failed x' = x_failed x4"
    proof (cases task)
      case None
      then show ?thesis using ask(2) by simp
    next
      case (Some t)
      then have run: "run_task c v t x4 = Inr (return, x')" using ask(2) by simp
      have t: "t \<in> set (x_buildable x4)" "t \<notin> set (x_running x4)" "st_active (x_stats x4) < ec_number_tasks c"
        using ask_ok [OF ask(1) inv2] Some x4 by simp_all
      show ?thesis using run_task_ok [OF run assms(2) inv4 t assms(6)] run_task_failed [OF run assms(6)] by simp
    qed
    then show ?thesis using rl r(3) x4 by simp
  qed
  then show "x_state x' = x_state x \<or> late (x_state x')"
    "Died \<notin> set rs \<Longrightarrow> ec_whitelist c = None \<Longrightarrow> x_state x' = x_state x \<or> x_state x' = RCleanUp \<and> x_failed x' \<noteq> []"
    by blast+
qed

lemma execute_late:
  assumes "execute c v rs1 rs2 x = Inr (r, x')" "graph_wf g" "g \<noteq> []" "exec_inv c g (prio_list kind g) x"
    "reports_ok (in_flight x) rs1" "\<And>mc. ec_spawn c mc"
  shows "x_state x' = x_state x \<or> late (x_state x')"
    and "Died \<notin> set (rs1 @ rs2) \<Longrightarrow> ec_whitelist c = None \<Longrightarrow> x_state x \<noteq> RCleanUp \<Longrightarrow> x_state x' = RCleanUp \<Longrightarrow> x_failed x' \<noteq> []"
proof -
  obtain return y where b: "execute_body c v rs1 x = Inr (return, y)"
    "(if return then Inr (Again, y) else wind_up c rs2 y) = Inr (r, x')"
    using assms(1) by (auto simp: execute_def rbind_Inr_iff)
  note y = execute_body_late [OF b(1) assms(2-6)]
  have w: "(x_state z = x_state y \<or> late (x_state z)) \<and> (Died \<notin> set rs2 \<longrightarrow> x_state z = RCleanUp \<longrightarrow>
      x_failed z \<noteq> [] \<or> x_state y = RCleanUp \<and> x_failed y = []) " if "wind_up c rs2 y = Inr (r, z)" for z
    using that by (auto simp: wind_up_def elim!: rbind_InrE split: if_splits dest: read_workers_late)
  show "x_state x' = x_state x \<or> late (x_state x')" using b(2) y(1) w [of x'] by (auto split: if_splits)
  show "Died \<notin> set (rs1 @ rs2) \<Longrightarrow> ec_whitelist c = None \<Longrightarrow> x_state x \<noteq> RCleanUp \<Longrightarrow> x_state x' = RCleanUp \<Longrightarrow> x_failed x' \<noteq> []"
    using b(2) y(2) w [of x'] by (auto split: if_splits)
qed

lemma finish_late:
  assumes "finish c rs x = Inr (r, x')"
  shows "late (x_state x')" "x_log x' = x_log x" "Died \<notin> set rs \<Longrightarrow> x_failed x \<noteq> [] \<Longrightarrow> x_state x' \<noteq> RComplete"
proof -
  have "late (x_state x') \<and> x_log x' = x_log x \<and> (Died \<notin> set rs \<longrightarrow> x_failed x \<noteq> [] \<longrightarrow> x_state x' \<noteq> RComplete)"
  proof (cases "0 < st_active (x_stats x)")
    case True
    then have r: "read_workers c rs (x\<lparr>x_state := RCleanUp\<rparr>) = Inr x'"
      using assms by (auto simp: finish_def Let_def elim!: rbind_InrE)
    show ?thesis using read_workers_late [OF r] by auto
  next
    case False
    then show ?thesis using assms by (auto simp: finish_def Let_def split: if_splits)
  qed
  then show "late (x_state x')" "x_log x' = x_log x" "Died \<notin> set rs \<Longrightarrow> x_failed x \<noteq> [] \<Longrightarrow> x_state x' \<noteq> RComplete"
    by blast+
qed

lemma scene_report_late:
  assumes "scene_report c dcs r x = Inr y"
  shows "x_state y = x_state x \<or> late (x_state y)" "x_log y = x_log x"
proof -
  have rel: "x_state (release_stamp t x) = x_state x" "x_log (release_stamp t x) = x_log x" for t
    by (simp_all add: release_stamp_def split: option.split)
  have "(x_state y = x_state x \<or> late (x_state y)) \<and> x_log y = x_log x"
  proof (cases r)
    case (Exited t status)
    show ?thesis
    proof (cases "status = 0")
      case True
      then have "scene_completeoutright t (on_stats (taskCompleted 1) (release_stamp t x)) = Inr y"
        using assms Exited by (simp add: scene_report_def scene_complete_def)
      from completeoutright_recount [OF this] rel [of t] show ?thesis
        by (auto simp: on_stats_def dest: recountD)
    next
      case False
      let ?z = "(on_stats taskFailed (release_stamp t x))\<lparr>s_notcovered := sadd t (s_notcovered (release_stamp t x))\<rparr>"
      obtain z where z: "scenequeue_updatecounters (update_fuel ?z) t True ?z = Inr z" "check_taskfail c dcs t z = Inr y"
        using assms Exited False by (auto simp: scene_report_def scene_fail_def Let_def on_stats_def elim!: rbind_InrE)
      have "x_state z = x_state x" "x_log z = x_log x"
        using recountD(6,8) [OF updatecounters_recount [OF z(1)]] rel [of t] by (simp_all add: on_stats_def)
      then show ?thesis using z(2) by (auto simp: check_taskfail_def elim!: rbind_InrE split: if_splits)
    qed
  next
    case Died
    then show ?thesis using assms by (auto simp: scene_report_def finish_now_def)
  qed
  then show "x_state y = x_state x \<or> late (x_state y)" "x_log y = x_log x" by blast+
qed

lemma scene_read_workers_late:
  assumes "scene_read_workers c dcs rs x = Inr y"
  shows "x_state y = x_state x \<or> late (x_state y)" "x_log y = x_log x"
proof -
  have "(x_state y = x_state x \<or> late (x_state y)) \<and> x_log y = x_log x"
    using assms unfolding scene_read_workers_def
  proof (induction rs arbitrary: x)
    case (Cons r rs)
    then obtain z where z: "scene_report c dcs r x = Inr z" "rfold (scene_report c dcs) rs z = Inr y" by (auto elim: rbind_InrE)
    show ?case using Cons.IH [OF z(2)] scene_report_late [OF z(1)] by auto
  qed simp
  then show "x_state y = x_state x \<or> late (x_state y)" "x_log y = x_log x" by blast+
qed

lemma scene_body_late:
  assumes "scene_body c v rs x = Inr (return, x')" "scene_inv c x" "reports_ok (in_flight x) rs"
  shows "x_state x' = x_state x \<or> late (x_state x')"
proof -
  obtain x1 where x1: "scene_read_workers c (sv_dcs v) rs x = Inr x1"
    using assms(1) by (auto simp: scene_body_def elim: rbind_InrE)
  have inv: "scene_inv c x1" using scene_read_workers_ok [OF x1 assms(2,3)] by blast
  obtain choice x2 where x2: "next_setscene c (sv_dcs v) x1 = Inr (choice, x2)"
    "(case choice of Returned \<Rightarrow> Inr (True, x2) | NoChoice \<Rightarrow> Inr (False, x2) | Chosen task \<Rightarrow> run_setscene c v task x2) =
     Inr (return, x')"
    using assms(1) x1 by (auto simp: scene_body_def elim: rbind_InrE)
  note n = next_setscene_ok [OF x2(1) inv]
  have "x_state x' = x_state x1"
  proof (cases choice)
    case (Chosen t)
    then have "run_setscene c v t x2 = Inr (return, x')" using x2(2) by simp
    moreover have "t \<notin> set (x_running x2)" "scene_inv c x2" "st_active (x_stats x2) < ec_number_tasks c" "x_state x2 = x_state x1"
      using n Chosen by auto
    ultimately show ?thesis using run_setscene_ok by metis
  qed (use n x2(2) in auto)
  then show ?thesis using scene_read_workers_late(1) [OF x1] by simp
qed

lemma scene_execute_late:
  assumes "scene_execute c v rs1 rs2 x = Inr (r, x')" "scene_inv c x" "reports_ok (in_flight x) rs1"
  shows "x_state x' = x_state x \<or> late (x_state x') \<or> x_state x' = RRunInit"
proof -
  obtain return y where b: "scene_body c v rs1 x = Inr (return, y)"
    "(if return then Inr (Again, y) else scene_wind_up c (sv_dcs v) rs2 y) = Inr (r, x')"
    using assms(1) by (auto simp: scene_execute_def elim!: rbind_InrE)
  have "x_state z = x_state y \<or> late (x_state z) \<or> x_state z = RRunInit" if "scene_wind_up c (sv_dcs v) rs2 y = Inr (r, z)" for z
    using that by (auto simp: scene_wind_up_def elim!: rbind_InrE split: if_splits dest: scene_read_workers_late)
  then show ?thesis using b(2) scene_body_late [OF b(1) assms(2,3)] by (auto split: if_splits)
qed

lemma scene_finish_late:
  assumes "scene_finish c dcs rs x = Inr (r, x')"
  shows "late (x_state x')" "x_log x' = x_log x"
proof -
  have "late (x_state x') \<and> x_log x' = x_log x"
  proof (cases "0 < st_active (x_stats x)")
    case True
    then have "scene_read_workers c dcs rs (x\<lparr>x_state := RCleanUp\<rparr>) = Inr x'"
      using assms by (auto simp: scene_finish_def Let_def elim!: rbind_InrE)
    from scene_read_workers_late [OF this] show ?thesis by auto
  next
    case False
    then show ?thesis using assms by (auto simp: scene_finish_def Let_def split: if_splits)
  qed
  then show "late (x_state x')" "x_log x' = x_log x" by blast+
qed

section \<open>The invariant\<close>

definition good_graph :: "string graph \<Rightarrow> bool" where
  "good_graph g \<longleftrightarrow> g \<noteq> [] \<and> graph_wf g \<and> acyclic (dep_edges g)"

text \<open>The object satisfies its own invariant.\<close>

fun exe_ok :: "execcfg \<Rightarrow> rqexe \<Rightarrow> bool" where
  "exe_ok c NoExec = True"
| "exe_ok c Dummy = True"
| "exe_ok c (Scene False x) = (x_failed x = [])"
| "exe_ok c (Scene True x) = (0 < ec_number_tasks c \<and> scene_inv c x)"
| "exe_ok c (Tasks x) = (0 < ec_number_tasks c \<and> (\<exists>g kind. good_graph g \<and> exec_inv c g (prio_list kind g) x))"

text \<open>The states in which the object can be found.\<close>

fun state_fits :: "rqexe \<Rightarrow> rstate \<Rightarrow> bool" where
  "state_fits NoExec s = (s = RPrepare \<or> s = RComplete)"
| "state_fits Dummy s = (s = RSceneInit \<or> s = RComplete)"
| "state_fits (Scene False x) s = (s = RRunInit \<or> s = RComplete)"
| "state_fits (Scene True x) s = (s = RSceneRun \<or> s = RRunInit \<or> late s)"
| "state_fits (Tasks x) s = (s = RRunning \<or> late s)"

definition rq_ok :: "'g runqueue \<Rightarrow> bool" where
  "rq_ok q \<longleftrightarrow> exe_ok (q_cfg q) (q_exe q) \<and> state_fits (q_exe q) (q_state q) \<and> (\<forall>mc. ec_spawn (q_cfg q) mc) \<and>
     (q_state q \<in> {RSceneInit, RSceneRun, RRunInit} \<longrightarrow> good_graph (q_graph q))"

fun exe_log :: "rqexe \<Rightarrow> effect list" where
  "exe_log NoExec = []"
| "exe_log Dummy = []"
| "exe_log (Scene started x) = x_log x"
| "exe_log (Tasks x) = x_log x"

text \<open>The workers only report tasks they are working on.\<close>

definition answers_ok :: "answers \<Rightarrow> bool" where
  "answers_ok as \<longleftrightarrow> (\<forall>a \<in> set as. \<forall>S. reports_ok S (a S))"

lemma answers_ok_tl [simp, intro]: "answers_ok as \<Longrightarrow> answers_ok (tl as)"
  by (cases as) (auto simp: answers_ok_def)

lemma next_answer_ok [simp, intro]: "answers_ok as \<Longrightarrow> reports_ok S (next_answer as S)"
  by (auto simp: answers_ok_def next_answer_def split: list.split)

lemma reports_ok_filter: "reports_ok S rs \<Longrightarrow> reports_ok S (filter (\<lambda>r. r \<noteq> Died) rs)"
  by (induction S rs rule: reports_ok.induct) auto

lemma last_answer_ok [simp, intro]: "answers_ok as \<Longrightarrow> reports_ok S (last_answer as S)"
  by (simp add: last_answer_def reports_ok_filter)

text \<open>Putting the object back after one of its operations.\<close>

lemma put_tasks_ok:
  assumes "rq_ok q" "q_exe q = Tasks x" "good_graph g" "exec_inv (q_cfg q) g (prio_list kind g) y"
    "x_state y = RRunning \<or> late (x_state y)"
  shows "rq_ok (put_tasks y q)"
  using assms by (auto simp: rq_ok_def put_tasks_def)

lemma put_scene_ok:
  assumes "rq_ok q" "q_exe q = Scene True x" "scene_inv (q_cfg q) y"
    "x_state y = q_state q \<or> late (x_state y) \<or> x_state y = RRunInit \<and> q_state q = RSceneRun"
  shows "rq_ok (put_scene True y q)"
  using assms by (auto simp: rq_ok_def put_scene_def)

lemma rq_ok_tasks:
  assumes "rq_ok q" "q_exe q = Tasks x"
  obtains g kind where "good_graph g" "exec_inv (q_cfg q) g (prio_list kind g) x" "0 < ec_number_tasks (q_cfg q)"
    "\<forall>mc. ec_spawn (q_cfg q) mc"
  using assms by (auto simp: rq_ok_def)

lemma rq_ok_scene:
  assumes "rq_ok q" "q_exe q = Scene True x"
  shows "scene_inv (q_cfg q) x" "0 < ec_number_tasks (q_cfg q)"
  using assms by (auto simp: rq_ok_def)

section \<open>The operations keep the invariant\<close>

lemma exe_finish_ok:
  assumes "exe_finish dcs as q = Inr (r, q')" "rq_ok q" "answers_ok as"
  shows "rq_ok q'" "late (q_state q')" "exe_log (q_exe q') = exe_log (q_exe q)"
proof -
  consider (dummy) "q_exe q = Dummy" "q' = q\<lparr>q_state := RComplete\<rparr>"
    | (scene) x y where "q_exe q = Scene True x" "scene_finish (q_cfg q) dcs (next_answer as (in_flight x)) x = Inr (r, y)"
        "q' = put_scene True y q"
    | (tasks) x y where "q_exe q = Tasks x" "finish (q_cfg q) (next_answer as (in_flight x)) x = Inr (r, y)" "q' = put_tasks y q"
    using assms(1) by (auto simp: exe_finish_def elim!: rbind_InrE split: rqexe.splits bool.splits)
  then have "rq_ok q' \<and> late (q_state q') \<and> exe_log (q_exe q') = exe_log (q_exe q)"
  proof cases
    case dummy
    then show ?thesis using assms(2) by (simp add: rq_ok_def)
  next
    case scene
    have "scene_inv (q_cfg q) y"
      using scene_finish_ok [OF scene(2) rq_ok_scene(1) [OF assms(2) scene(1)]] assms(3) by simp
    then have "rq_ok q'" unfolding scene(3) using put_scene_ok [OF assms(2) scene(1)] scene_finish_late [OF scene(2)] by simp
    then show ?thesis using scene_finish_late [OF scene(2)] scene(1,3) by (simp add: put_scene_def)
  next
    case tasks
    obtain g kind where g: "good_graph g" "exec_inv (q_cfg q) g (prio_list kind g) x"
      by (rule rq_ok_tasks [OF assms(2) tasks(1)])
    have "exec_inv (q_cfg q) g (prio_list kind g) y"
      using finish_ok [OF tasks(2) _ g(2)] g(1) assms(3) by (simp add: good_graph_def)
    then have "rq_ok q'" unfolding tasks(3) using put_tasks_ok [OF assms(2) tasks(1) g(1)] finish_late [OF tasks(2)] by simp
    then show ?thesis using finish_late [OF tasks(2)] tasks(1,3) by (simp add: put_tasks_def)
  qed
  then show "rq_ok q'" "late (q_state q')" "exe_log (q_exe q') = exe_log (q_exe q)" by blast+
qed

lemma exe_finish_now_ok:
  assumes "exe_finish_now q = Inr q'" "rq_ok q"
  shows "rq_ok q'" "late (q_state q')" "exe_log (q_exe q') = exe_log (q_exe q)"
proof -
  consider (none) x where "q_exe q = Scene False x" "q' = put_scene False (finish_now x) q"
    | (scene) x where "q_exe q = Scene True x" "q' = put_scene True (finish_now x) q"
    | (tasks) x where "q_exe q = Tasks x" "q' = put_tasks (finish_now x) q"
    using assms(1) by (auto simp: exe_finish_now_def split: rqexe.splits) (metis (full_types))
  then have "rq_ok q' \<and> late (q_state q') \<and> exe_log (q_exe q') = exe_log (q_exe q)"
  proof cases
    case none
    then show ?thesis using assms(2) by (simp add: rq_ok_def put_scene_def finish_now_def)
  next
    case scene
    have "scene_inv (q_cfg q) (finish_now x)"
      using rq_ok_scene(1) [OF assms(2) scene(1)] by (simp add: finish_now_def)
    then have "rq_ok q'" unfolding scene(2) using put_scene_ok [OF assms(2) scene(1)] by (simp add: finish_now_def)
    then show ?thesis using scene by (simp add: put_scene_def finish_now_def)
  next
    case tasks
    obtain g kind where g: "good_graph g" "exec_inv (q_cfg q) g (prio_list kind g) x"
      by (rule rq_ok_tasks [OF assms(2) tasks(1)])
    have "exec_inv (q_cfg q) g (prio_list kind g) (finish_now x)" using g(2) by (simp add: finish_now_def exec_inv_state)
    then have "rq_ok q'" unfolding tasks(2) using put_tasks_ok [OF assms(2) tasks(1) g(1)] by (simp add: finish_now_def)
    then show ?thesis using tasks by (simp add: put_tasks_def finish_now_def)
  qed
  then show "rq_ok q'" "late (q_state q')" "exe_log (q_exe q') = exe_log (q_exe q)" by blast+
qed

text \<open>\<open>finish_runqueue\<close> is what the disk space monitor relies on.\<close>

definition watched_ok :: "'g runqueue \<times> answers \<Rightarrow> bool" where
  "watched_ok qa \<longleftrightarrow> rq_ok (fst qa) \<and> answers_ok (snd qa)"

definition halted :: "effect list \<Rightarrow> 'g runqueue \<times> answers \<Rightarrow> bool" where
  "halted log qa \<longleftrightarrow> late (q_state (fst qa)) \<and> exe_log (q_exe (fst qa)) = log"

lemma finish_runqueue_ok:
  assumes "finish_runqueue dcs now (q, as) = Inr (q', as')" "rq_ok q" "answers_ok as"
  shows "rq_ok q'" "answers_ok as'" "late (q_state q')" "exe_log (q_exe q') = exe_log (q_exe q)"
proof -
  have "rq_ok q' \<and> answers_ok as' \<and> late (q_state q') \<and> exe_log (q_exe q') = exe_log (q_exe q)"
  proof (cases "q_exe q = NoExec")
    case True
    then have "q' = q\<lparr>q_state := RComplete\<rparr>" "as' = as" using assms(1) by (simp_all add: finish_runqueue_def)
    then show ?thesis using assms(2,3) True by (simp add: rq_ok_def)
  next
    case some: False
    show ?thesis
    proof (cases now)
      case True
      then have "rbind (exe_finish_now q) (\<lambda>q. Inr (q, as)) = Inr (q', as')"
        using assms(1) some by (simp add: finish_runqueue_def)
      then obtain u where "exe_finish_now q = Inr u" "u = q'" "as' = as" by (rule rbind_InrE) simp
      then show ?thesis using exe_finish_now_ok [OF _ assms(2)] assms(3) by simp
    next
      case False
      then have "rbind (exe_finish dcs as q) (\<lambda>(r, q). Inr (q, tl as)) = Inr (q', as')"
        using assms(1) some by (simp add: finish_runqueue_def)
      then obtain r where "exe_finish dcs as q = Inr (r, q')" "as' = tl as"
        by (rule rbind_InrE) (auto split: prod.splits)
      then show ?thesis using exe_finish_ok [OF _ assms(2,3)] assms(3) by simp
    qed
  qed
  then show "rq_ok q'" "answers_ok as'" "late (q_state q')" "exe_log (q_exe q') = exe_log (q_exe q)" by blast+
qed

text \<open>The log of what was done stays the same, so the queue stays halted with the same log.\<close>

definition watched_log :: "effect list \<Rightarrow> 'g runqueue \<times> answers \<Rightarrow> bool" where
  "watched_log log qa \<longleftrightarrow> watched_ok qa \<and> exe_log (q_exe (fst qa)) = log"

lemma finish_runqueue_watched:
  assumes "watched_log log qa" "finish_runqueue dcs now qa = Inr qa'"
  shows "watched_log log qa'" "halted log qa'"
proof -
  obtain q as q' as' where qa: "qa = (q, as)" "qa' = (q', as')" by (cases qa, cases qa')
  show "watched_log log qa'" "halted log qa'"
    using assms finish_runqueue_ok [of dcs now q as q' as']
    by (simp_all add: qa watched_log_def watched_ok_def halted_def)
qed

interpretation rq: watched_queue "finish_runqueue dcs" "watched_log log" "halted log" for dcs log
  by unfold_locales (rule finish_runqueue_watched, assumption+)+

section \<open>The stages keep the invariant\<close>

lemma read_config_ok:
  assumes "read_config var c = Inr c'"
  shows "0 < ec_number_tasks c'" "ec_spawn c' = ec_spawn c" "ec_whitelist c' = ec_whitelist c"
    "var ''BB_SCHEDULER'' \<noteq> Some ''basic'' \<Longrightarrow> ec_scheduler c' \<noteq> ''basic''"
  using assms
  by (auto simp: read_config_def number_tasks_of_def or_else_def elim!: rbind_InrE split: if_splits option.splits)

lemma stage_prepare_ok:
  assumes "stage_prepare e q = Inr q'" "rq_ok q"
  shows "rq_ok q'" "q_state q' \<noteq> RPrepare"
proof -
  have "rq_ok q' \<and> q_state q' \<noteq> RPrepare"
  proof (cases "q_state q = RPrepare")
    case False
    then show ?thesis using assms by (simp add: stage_prepare_def)
  next
    case True
    let ?p = "prepare (e_taskhash e) (e_config e) (q_tds q) (sv_dcs (e_view e)) (e_targets e) (q_siggen q)"
    obtain p where p: "?p = Inr p" using assms(1) True by (auto simp: stage_prepare_def Let_def elim: rbind_InrE)
    show ?thesis
    proof (cases p)
      case None
      then show ?thesis using assms True p by (auto simp: stage_prepare_def Let_def rq_ok_def)
    next
      case (Some d)
      then have "good_graph (rq_entries d)" using prepare_ok [OF p [unfolded Some]] by (simp add: good_graph_def)
      then show ?thesis using assms True p Some by (auto simp: stage_prepare_def Let_def rq_ok_def)
    qed
  qed
  then show "rq_ok q'" "q_state q' \<noteq> RPrepare" by blast+
qed

lemma scene_init_false:
  "scene_init c tds v g fws = Inr (False, x) \<Longrightarrow> x_failed x = [] \<and> x_state x = RRunInit"
  by (auto simp: scene_init_def new_scene_def elim!: rbind_InrE split: if_splits)

lemma stage_scene_init_ok:
  assumes "stage_scene_init e w q = Inr q'" "rq_ok q" "q_state q \<noteq> RPrepare"
  shows "rq_ok q'" "q_state q' \<noteq> RSceneInit" "q_state q' \<noteq> RPrepare"
proof -
  have "rq_ok q' \<and> q_state q' \<noteq> RSceneInit \<and> q_state q' \<noteq> RPrepare"
  proof (cases "q_state q = RSceneInit")
    case False
    then show ?thesis using assms by (simp add: stage_scene_init_def)
  next
    case True
    then have d: "q_exe q = Dummy" using assms(2) by (cases "(q_exe q, q_state q)" rule: state_fits.cases) (auto simp: rq_ok_def)
    show ?thesis
    proof (cases "e_dump e")
      case dump: True
      then show ?thesis using assms(1,2) True d by (auto simp: stage_scene_init_def rq_ok_def)
    next
      case False
      then obtain c started x where c: "read_config (e_var e) (q_cfg q) = Inr c"
        "scene_init c (q_tds q) (current_view e w q) (q_graph q) (q_fakeworkers q) = Inr (started, x)"
        "q' = put_scene started x (q\<lparr>q_cfg := c\<rparr>)"
        using assms(1) True by (auto simp: stage_scene_init_def elim!: rbind_InrE)
      note rc = read_config_ok [OF c(1)]
      show ?thesis
      proof (cases started)
        case True
        then have "scene_inv c x \<and> x_state x = RSceneRun" using scene_init_ok [OF _ rc(1)] c(2) by simp
        then show ?thesis using True rc c(3) assms(2) \<open>q_state q = RSceneInit\<close> by (auto simp: rq_ok_def put_scene_def)
      next
        case False
        then have "x_failed x = [] \<and> x_state x = RRunInit" using scene_init_false c(2) by simp
        then show ?thesis using False rc c(3) assms(2) \<open>q_state q = RSceneInit\<close> by (auto simp: rq_ok_def put_scene_def)
      qed
    qed
  qed
  then show "rq_ok q'" "q_state q' \<noteq> RSceneInit" "q_state q' \<noteq> RPrepare" by blast+
qed

lemma stage_check_ok:
  assumes "stage_check e w q = Inr (q', as)" "rq_ok q" "answers_ok (w_answers w)"
  shows "rq_ok q'" "answers_ok as" "exe_log (q_exe q') = exe_log (q_exe q)" "q_state q' = q_state q \<or> late (q_state q')"
    "finished_dirs (q_disklog q') \<noteq> finished_dirs (q_disklog q) \<Longrightarrow> late (q_state q')"
    "finished_dirs (q_disklog q') = finished_dirs (q_disklog q) \<Longrightarrow>
       q' = q\<lparr>q_monitor := q_monitor q', q_disklog := q_disklog q'\<rparr> \<and> as = w_answers w"
proof -
  have "rq_ok q' \<and> answers_ok as \<and> exe_log (q_exe q') = exe_log (q_exe q) \<and> (q_state q' = q_state q \<or> late (q_state q')) \<and>
    (finished_dirs (q_disklog q') \<noteq> finished_dirs (q_disklog q) \<longrightarrow> late (q_state q')) \<and>
    (finished_dirs (q_disklog q') = finished_dirs (q_disklog q) \<longrightarrow>
       q' = q\<lparr>q_monitor := q_monitor q', q_disklog := q_disklog q'\<rparr> \<and> as = w_answers w)"
  proof (cases "q_state q \<in> {RSceneRun, RRunning, RCleanUp}")
    case False
    then show ?thesis using assms by (auto simp: stage_check_def)
  next
    case True
    then obtain m log u where c: "disk_check (finish_runqueue (sv_dcs (e_view e))) (w_vfs w)
        (q_monitor q, q_disklog q, q, w_answers w) = Inr (m, log, u, as)" "q' = u\<lparr>q_monitor := m, q_disklog := log\<rparr>"
      using assms(1) by (auto simp: stage_check_def elim!: rbind_InrE)
    have "watched_log (exe_log (q_exe q)) (q, w_answers w)" using assms(2,3) by (simp add: watched_log_def watched_ok_def)
    note h = rq.check_good_halted [OF c(1) this]
    show ?thesis using h c(2) unfolding watched_log_def watched_ok_def halted_def by (auto simp: rq_ok_def split: if_splits)
  qed
  then show "rq_ok q'" "answers_ok as" "exe_log (q_exe q') = exe_log (q_exe q)" "q_state q' = q_state q \<or> late (q_state q')"
    "finished_dirs (q_disklog q') \<noteq> finished_dirs (q_disklog q) \<Longrightarrow> late (q_state q')"
    "finished_dirs (q_disklog q') = finished_dirs (q_disklog q) \<Longrightarrow>
       q' = q\<lparr>q_monitor := q_monitor q', q_disklog := q_disklog q'\<rparr> \<and> as = w_answers w"
    by blast+
qed

lemma answer2_ok:
  assumes "answers_ok as"
  shows "\<forall>y. scene_body c v rs x = Inr (False, y) \<longrightarrow> reports_ok (in_flight y) (scene_answer2 c v rs as x)"
    and "\<forall>y. execute_body c v rs t = Inr (False, y) \<longrightarrow> reports_ok (in_flight y) (tasks_answer2 c v rs as t)"
  using assms by (simp_all add: scene_answer2_def tasks_answer2_def)

lemma exe_execute_scene:
  assumes "exe_execute v as q = Inr (r, q')" "q_exe q = Scene True x" "rq_ok q" "q_state q = RSceneRun" "answers_ok as"
  shows "rq_ok q'"
proof -
  let ?x = "x\<lparr>x_state := q_state q\<rparr>" and ?rs = "next_answer as (in_flight x)"
  obtain y where y: "scene_execute (q_cfg q) v ?rs (scene_answer2 (q_cfg q) v ?rs (tl as) ?x) ?x = Inr (r, y)"
    "q' = put_scene True y q"
    using assms(1,2) by (auto simp: exe_execute_def Let_def elim!: rbind_InrE)
  have i: "scene_inv (q_cfg q) ?x" using rq_ok_scene(1) [OF assms(3,2)] by simp
  have rs: "reports_ok (in_flight ?x) ?rs" using assms(5) by simp
  have "scene_inv (q_cfg q) y"
    by (rule scene_execute_ok [OF y(1) i rs answer2_ok(1)]) (use assms(5) in simp)
  moreover have "x_state y = q_state q \<or> late (x_state y) \<or> x_state y = RRunInit"
    using scene_execute_late [OF y(1) i rs] by simp
  ultimately show ?thesis unfolding y(2) using put_scene_ok [OF assms(3,2)] assms(4) by simp
qed

lemma exe_execute_tasks:
  assumes "exe_execute v as q = Inr (r, q')" "q_exe q = Tasks x" "rq_ok q" "q_state q = RRunning" "answers_ok as"
  shows "rq_ok q'"
proof -
  let ?x = "x\<lparr>x_state := q_state q\<rparr>" and ?rs = "next_answer as (in_flight x)"
  obtain y where y: "execute (q_cfg q) v ?rs (tasks_answer2 (q_cfg q) v ?rs (tl as) ?x) ?x = Inr (r, y)"
    "q' = put_tasks y q"
    using assms(1,2) by (auto simp: exe_execute_def Let_def elim!: rbind_InrE)
  obtain g kind where g: "good_graph g" "exec_inv (q_cfg q) g (prio_list kind g) x" "0 < ec_number_tasks (q_cfg q)"
    "\<forall>mc. ec_spawn (q_cfg q) mc"
    by (rule rq_ok_tasks [OF assms(3,2)])
  have gg: "graph_wf g" "g \<noteq> []" using g(1) by (simp_all add: good_graph_def)
  have i: "exec_inv (q_cfg q) g (prio_list kind g) ?x" using g(2) by (simp add: exec_inv_state)
  have rs: "reports_ok (in_flight ?x) ?rs" using assms(5) by simp
  have "exec_inv (q_cfg q) g (prio_list kind g) y"
    by (rule execute_ok [OF y(1) gg(1) i rs answer2_ok(2) g(4) [THEN spec] g(3)]) (use assms(5) in simp)
  moreover have "x_state y = RRunning \<or> late (x_state y)"
    using execute_late(1) [OF y(1) gg i rs g(4) [THEN spec]] assms(4) by simp
  ultimately show ?thesis unfolding y(2) by (rule put_tasks_ok [OF assms(3,2) g(1)])
qed

lemma rq_ok_fits: "rq_ok q \<Longrightarrow> state_fits (q_exe q) (q_state q)"
  by (simp add: rq_ok_def)

lemma running_exe:
  assumes "rq_ok q"
  shows "q_state q = RSceneRun \<Longrightarrow> \<exists>x. q_exe q = Scene True x" "q_state q = RRunning \<Longrightarrow> \<exists>x. q_exe q = Tasks x"
    "q_state q = RCleanUp \<Longrightarrow> (\<exists>x. q_exe q = Scene True x) \<or> (\<exists>x. q_exe q = Tasks x)"
  using rq_ok_fits [OF assms] by (cases "(q_exe q, q_state q)" rule: state_fits.cases; simp)+

lemma stage_execute_ok:
  assumes "stage_execute s e w (r, q, as) = Inr (r', q', as')" "rq_ok q" "answers_ok as" "s = RSceneRun \<or> s = RRunning"
  shows "rq_ok q'" "answers_ok as'"
proof -
  have "rq_ok q' \<and> answers_ok as'"
  proof (cases "q_state q = s")
    case False
    then show ?thesis using assms by (simp add: stage_execute_def)
  next
    case True
    then have e: "exe_execute (current_view e w q) as q = Inr (r', q')" "as' = tl (tl as)"
      using assms(1) by (auto simp: stage_execute_def elim!: rbind_InrE)
    have "rq_ok q'"
      using assms(4)
    proof
      assume s: "s = RSceneRun"
      then obtain x where "q_exe q = Scene True x" using running_exe(1) [OF assms(2)] True by auto
      from exe_execute_scene [OF e(1) this assms(2) _ assms(3)] True s show ?thesis by simp
    next
      assume s: "s = RRunning"
      then obtain x where "q_exe q = Tasks x" using running_exe(2) [OF assms(2)] True by auto
      from exe_execute_tasks [OF e(1) this assms(2) _ assms(3)] True s show ?thesis by simp
    qed
    then show ?thesis using e(2) assms(3) by simp
  qed
  then show "rq_ok q'" "answers_ok as'" by blast+
qed

lemma stage_run_init_ok:
  assumes "stage_run_init e w q = Inr q'" "rq_ok q" "e_var e ''BB_SCHEDULER'' \<noteq> Some ''basic''"
  shows "rq_ok q'" "q_state q' \<noteq> RRunInit"
proof -
  have "rq_ok q' \<and> q_state q' \<noteq> RRunInit"
  proof (cases "q_state q = RRunInit")
    case False
    then show ?thesis using assms by (simp add: stage_run_init_def)
  next
    case True
    show ?thesis
    proof (cases "e_setsceneonly e")
      case only: True
      have "\<exists>b x. q_exe q = Scene b x"
        using rq_ok_fits [OF assms(2)] True by (cases "q_exe q") auto
      then obtain b x where "q_exe q = Scene b x" by blast
      then show ?thesis using only True assms(1,2) by (cases b) (auto simp: stage_run_init_def rq_ok_def)
    next
      case False
      then obtain c x where c: "read_config (e_var e) (q_cfg q) = Inr c"
        "tasks_init c (current_view e w q) (q_graph q) (q_covered q) (q_notcovered q) (q_fakeworkers q) (q_checked q) = Inr x"
        "q' = put_tasks (x\<lparr>x_state := RRunning\<rparr>) (q\<lparr>q_cfg := c\<rparr>)"
        using assms(1) True by (auto simp: stage_run_init_def elim!: rbind_InrE)
      note rc = read_config_ok [OF c(1)]
      have g: "good_graph (q_graph q)" using assms(2) True by (simp add: rq_ok_def)
      then have wf: "graph_wf (q_graph q)" by (simp add: good_graph_def)
      obtain kind where "exec_inv c (q_graph q) (prio_list kind (q_graph q)) x"
        by (rule tasks_init_ok [OF c(2) wf rc(4) [OF assms(3)] rc(1)])
      then have "exe_ok c (Tasks (x\<lparr>x_state := RRunning\<rparr>))" using g rc(1) by (auto simp: exec_inv_state)
      then show ?thesis using assms(2) rc(2) unfolding c(3) by (simp add: rq_ok_def put_tasks_def)
    qed
  qed
  then show "rq_ok q'" "q_state q' \<noteq> RRunInit" by blast+
qed

lemma stage_clean_up_ok:
  assumes "stage_clean_up e (r, q, as) = Inr (r', q', as')" "rq_ok q" "answers_ok as"
  shows "rq_ok q'" "answers_ok as'" "exe_log (q_exe q') = exe_log (q_exe q)" "q_state q' = q_state q \<or> late (q_state q')"
proof -
  have "rq_ok q' \<and> answers_ok as' \<and> exe_log (q_exe q') = exe_log (q_exe q) \<and> (q_state q' = q_state q \<or> late (q_state q'))"
  proof (cases "q_state q = RCleanUp")
    case False
    then show ?thesis using assms by (simp add: stage_clean_up_def)
  next
    case True
    then have "exe_finish (sv_dcs (e_view e)) as q = Inr (r', q')" "as' = tl as"
      using assms(1) by (auto simp: stage_clean_up_def elim!: rbind_InrE)
    then show ?thesis using exe_finish_ok [OF _ assms(2,3)] assms(3) by simp
  qed
  then show "rq_ok q'" "answers_ok as'" "exe_log (q_exe q') = exe_log (q_exe q)" "q_state q' = q_state q \<or> late (q_state q')"
    by blast+
qed

lemma teardown_workers_ok:
  assumes "teardown_workers dcs as q = Inr q'" "rq_ok q" "answers_ok as" "late (q_state q)"
  shows "rq_ok q'" "late (q_state q')" "exe_log (q_exe q') = exe_log (q_exe q)"
proof -
  consider (scene) x where "q_exe q = Scene True x" | (tasks) x where "q_exe q = Tasks x"
    | (other) "q' = q\<lparr>q_fakeworkers := []\<rparr>"
    using assms(1) by (cases "q_exe q" rule: exe_log.cases) (auto simp: teardown_workers_def split: bool.splits)
  then have "rq_ok q' \<and> late (q_state q') \<and> exe_log (q_exe q') = exe_log (q_exe q)"
  proof cases
    case scene
    then obtain y where y: "scene_read_workers (q_cfg q) dcs (last_answer as (in_flight x)) (x\<lparr>x_state := q_state q\<rparr>) = Inr y"
      "q' = put_scene True (y\<lparr>x_fakeworkers := []\<rparr>) q"
      using assms(1) by (auto simp: teardown_workers_def elim!: rbind_InrE)
    have "scene_inv (q_cfg q) y"
      using scene_read_workers_ok [OF y(1)] rq_ok_scene(1) [OF assms(2) scene] assms(3) by simp
    then have "scene_inv (q_cfg q) (y\<lparr>x_fakeworkers := []\<rparr>)" by (simp add: scene_inv_def)
    moreover have "late (x_state y)" "x_log y = x_log x" using scene_read_workers_late [OF y(1)] assms(4) by auto
    ultimately show ?thesis unfolding y(2) using put_scene_ok [OF assms(2) scene, of "y\<lparr>x_fakeworkers := []\<rparr>"] scene
      by (simp add: put_scene_def)
  next
    case tasks
    then obtain y where y: "read_workers (q_cfg q) (last_answer as (in_flight x)) (x\<lparr>x_state := q_state q\<rparr>) = Inr y"
      "q' = put_tasks (y\<lparr>x_fakeworkers := []\<rparr>) q"
      using assms(1) by (auto simp: teardown_workers_def elim!: rbind_InrE)
    obtain g kind where g: "good_graph g" "exec_inv (q_cfg q) g (prio_list kind g) x" by (rule rq_ok_tasks [OF assms(2) tasks])
    have "exec_inv (q_cfg q) g (prio_list kind g) (x\<lparr>x_state := q_state q\<rparr>)" using g(2) by (simp add: exec_inv_state)
    then have "exec_inv (q_cfg q) g (prio_list kind g) y"
      using read_workers_ok [OF y(1)] g(1) assms(3) by (simp add: good_graph_def)
    then have i: "exec_inv (q_cfg q) g (prio_list kind g) (y\<lparr>x_fakeworkers := []\<rparr>)"
      by (simp add: exec_inv_def core_def progress_def counts_def)
    have "late (x_state y)" "x_log y = x_log x"
      using read_workers_late(1,4) [OF y(1)] assms(4) by auto
    then show ?thesis unfolding y(2) using put_tasks_ok [OF assms(2) tasks g(1) i] tasks by (simp add: put_tasks_def)
  next
    case other
    then show ?thesis using assms(2,4) by (simp add: rq_ok_def)
  qed
  then show "rq_ok q'" "late (q_state q')" "exe_log (q_exe q') = exe_log (q_exe q)" by blast+
qed

lemma stage_teardown_ok:
  assumes "stage_teardown e (q, as) = Inr (q', as')" "rq_ok q" "answers_ok as"
  shows "rq_ok q'" "exe_log (q_exe q') = exe_log (q_exe q)" "q_state q' = q_state q \<or> late (q_state q')"
proof -
  have "rq_ok q' \<and> exe_log (q_exe q') = exe_log (q_exe q) \<and> (q_state q' = q_state q \<or> late (q_state q'))"
  proof (cases "q_state q \<in> {RComplete, RFailed} \<and> q_exe q \<noteq> NoExec")
    case False
    then have "stage_teardown e (q, as) = Inr (q, as)" unfolding stage_teardown_def by auto
    then have "q' = q" using assms(1) by simp
    then show ?thesis using assms(2) by simp
  next
    case True
    then have "teardown_workers (sv_dcs (e_view e)) as q = Inr q'"
      using assms(1) by (auto simp: stage_teardown_def elim!: rbind_InrE)
    moreover have "late (q_state q)" using True by auto
    ultimately show ?thesis using teardown_workers_ok [OF _ assms(2,3)] by simp
  qed
  then show "rq_ok q'" "exe_log (q_exe q') = exe_log (q_exe q)" "q_state q' = q_state q \<or> late (q_state q')" by blast+
qed

lemma stage_failed_ok:
  assumes "stage_failed q = Inr q'" "rq_ok q"
  shows "rq_ok q'" "q_exe q' = q_exe q" "q_state q' = q_state q"
proof -
  have "q' = q \<or> (q_state q = RFailed \<and> (\<exists>tds. q' = q\<lparr>q_tds := tds, q_graph := []\<rparr>))"
    using assms(1) by (auto simp: stage_failed_def elim!: rbind_InrE split: if_splits)
  then show "rq_ok q'" "q_exe q' = q_exe q" "q_state q' = q_state q" using assms(2) by (auto simp: rq_ok_def)
qed

section \<open>A call\<close>

text \<open>The intermediate results of a call that returns.\<close>

lemma call_stages:
  assumes "execute_runqueue0 e w q = Inr (a, q')"
  obtains q1 q2 q3 as3 r4 q4 as4 q5 r6 q6 as6 r7 q7 as7 q8 as8 where
    "stage_prepare e q = Inr q1" "stage_scene_init e w q1 = Inr q2" "stage_check e w q2 = Inr (q3, as3)"
    "stage_execute RSceneRun e w (Again, q3, as3) = Inr (r4, q4, as4)" "stage_run_init e w q4 = Inr q5"
    "stage_execute RRunning e w (r4, q5, as4) = Inr (r6, q6, as6)" "stage_clean_up e (r6, q6, as6) = Inr (r7, q7, as7)"
    "stage_teardown e (q7, as7) = Inr (q8, as8)" "stage_failed q8 = Inr q'" "a = (if q_state q' = RComplete then None else Some r7)"
proof -
  obtain q1 where 1: "stage_prepare e q = Inr q1" using assms by (auto simp: execute_runqueue0_def elim: rbind_InrE)
  obtain q2 where 2: "stage_scene_init e w q1 = Inr q2" using assms 1 by (auto simp: execute_runqueue0_def elim: rbind_InrE)
  obtain q3 as3 where 3: "stage_check e w q2 = Inr (q3, as3)" using assms 1 2 by (auto simp: execute_runqueue0_def elim: rbind_InrE)
  obtain r4 q4 as4 where 4: "stage_execute RSceneRun e w (Again, q3, as3) = Inr (r4, q4, as4)"
    using assms 1 2 3 by (auto simp: execute_runqueue0_def elim: rbind_InrE)
  obtain q5 where 5: "stage_run_init e w q4 = Inr q5" using assms 1 2 3 4 by (auto simp: execute_runqueue0_def elim: rbind_InrE)
  obtain r6 q6 as6 where 6: "stage_execute RRunning e w (r4, q5, as4) = Inr (r6, q6, as6)"
    using assms 1 2 3 4 5 by (auto simp: execute_runqueue0_def elim: rbind_InrE)
  obtain r7 q7 as7 where 7: "stage_clean_up e (r6, q6, as6) = Inr (r7, q7, as7)"
    using assms 1 2 3 4 5 6 by (auto simp: execute_runqueue0_def elim: rbind_InrE)
  obtain q8 as8 where 8: "stage_teardown e (q7, as7) = Inr (q8, as8)"
    using assms 1 2 3 4 5 6 7 by (auto simp: execute_runqueue0_def elim: rbind_InrE)
  have "stage_failed q8 = Inr q'" "a = (if q_state q' = RComplete then None else Some r7)"
    using assms 1 2 3 4 5 6 7 8 by (auto simp: execute_runqueue0_def elim!: rbind_InrE)
  from that [OF 1 2 3 4 5 6 7 8 this] show ?thesis .
qed

text \<open>The states between two calls.\<close>

definition settled :: "rstate \<Rightarrow> bool" where
  "settled s \<longleftrightarrow> s \<noteq> RPrepare \<and> s \<noteq> RSceneInit \<and> s \<noteq> RRunInit"

lemma tasks_settled: "rq_ok q \<Longrightarrow> q_exe q = Tasks x \<Longrightarrow> settled (q_state q)"
  using rq_ok_fits [of q] by (auto simp: settled_def)

lemma late_settled [simp]: "late s \<Longrightarrow> settled s"
  by (auto simp: late_def settled_def)

lemma exe_execute_exe:
  assumes "exe_execute v as q = Inr (r, q')"
  shows "(\<exists>x. q_exe q' = Scene True x) \<or> (\<exists>x. q_exe q = Tasks x) \<and> (\<exists>x. q_exe q' = Tasks x)"
  using assms by (cases "q_exe q" rule: exe_log.cases)
    (auto simp: exe_execute_def Let_def put_scene_def put_tasks_def elim!: rbind_InrE split: bool.splits)

lemma stage_execute_scene_state:
  assumes "stage_execute RSceneRun e w (r, q, as) = Inr (r', q', as')" "rq_ok q'" "q_state q \<noteq> RPrepare" "q_state q \<noteq> RSceneInit"
  shows "settled (q_state q') \<or> q_state q' = RRunInit"
proof (cases "q_state q = RSceneRun")
  case False
  then show ?thesis using assms(1,3,4) by (auto simp: stage_execute_def settled_def)
next
  case True
  then have "exe_execute (current_view e w q) as q = Inr (r', q')"
    using assms(1) by (auto simp: stage_execute_def elim!: rbind_InrE)
  from exe_execute_exe [OF this] show ?thesis using rq_ok_fits [OF assms(2)] by (auto simp: settled_def)
qed

lemma stage_run_init_state:
  assumes "stage_run_init e w q = Inr q'" "settled (q_state q) \<or> q_state q = RRunInit"
  shows "settled (q_state q')"
proof (cases "q_state q = RRunInit")
  case False
  then show ?thesis using assms by (auto simp: stage_run_init_def)
next
  case True
  then have "q_state q' = RComplete \<or> q_state q' = RRunning"
    using assms(1) by (auto simp: stage_run_init_def put_tasks_def elim!: rbind_InrE split: if_splits)
  then show ?thesis by (auto simp: settled_def)
qed

lemma stage_execute_tasks_state:
  assumes "stage_execute RRunning e w (r, q, as) = Inr (r', q', as')" "rq_ok q" "rq_ok q'" "settled (q_state q)"
  shows "settled (q_state q')"
proof (cases "q_state q = RRunning")
  case False
  then show ?thesis using assms(1,4) by (auto simp: stage_execute_def)
next
  case True
  then have e: "exe_execute (current_view e w q) as q = Inr (r', q')"
    using assms(1) by (auto simp: stage_execute_def elim!: rbind_InrE)
  obtain x where "q_exe q = Tasks x" using running_exe(2) [OF assms(2) True] by blast
  then have "\<exists>y. q_exe q' = Tasks y" using e by (auto simp: exe_execute_def Let_def put_tasks_def elim!: rbind_InrE)
  then show ?thesis using tasks_settled [OF assms(3)] by blast
qed

lemma call_ok:
  assumes "execute_runqueue0 e w q = Inr (a, q')" "rq_ok q" "answers_ok (w_answers w)" "e_var e ''BB_SCHEDULER'' \<noteq> Some ''basic''"
  shows "rq_ok q'" "settled (q_state q')"
proof -
  obtain q1 q2 q3 as3 r4 q4 as4 q5 r6 q6 as6 r7 q7 as7 q8 as8 where s:
    "stage_prepare e q = Inr q1" "stage_scene_init e w q1 = Inr q2" "stage_check e w q2 = Inr (q3, as3)"
    "stage_execute RSceneRun e w (Again, q3, as3) = Inr (r4, q4, as4)" "stage_run_init e w q4 = Inr q5"
    "stage_execute RRunning e w (r4, q5, as4) = Inr (r6, q6, as6)" "stage_clean_up e (r6, q6, as6) = Inr (r7, q7, as7)"
    "stage_teardown e (q7, as7) = Inr (q8, as8)" "stage_failed q8 = Inr q'"
    using assms(1) by (rule call_stages)
  note 1 = stage_prepare_ok [OF s(1) assms(2)]
  note 2 = stage_scene_init_ok [OF s(2) 1]
  note 3 = stage_check_ok [OF s(3) 2(1) assms(3)]
  note 4 = stage_execute_ok [OF s(4) 3(1,2)]
  have 4: "rq_ok q4" "answers_ok as4" using 4 by simp_all
  note 5 = stage_run_init_ok [OF s(5) 4(1) assms(4)]
  have 6: "rq_ok q6" "answers_ok as6" using stage_execute_ok [OF s(6) 5(1) 4(2)] by simp_all
  note 7 = stage_clean_up_ok [OF s(7) 6]
  note 8 = stage_teardown_ok [OF s(8) 7(1,2)]
  note 9 = stage_failed_ok [OF s(9) 8(1)]
  show "rq_ok q'" by (rule 9(1))
  have "settled (q_state q4) \<or> q_state q4 = RRunInit"
    by (rule stage_execute_scene_state [OF s(4) 4(1)]) (use 2(2,3) 3(4) in auto)
  then have "settled (q_state q6)"
    using stage_run_init_state [OF s(5)] stage_execute_tasks_state [OF s(6) 5(1) 6(1)] by blast
  then show "settled (q_state q')" using 7(4) 8(3) 9(3) by auto
qed

end
