(* ===== verification/RunQueueRuns.thy ===== *)
theory RunQueueRuns
  imports RunQueueSafety
begin

text \<open>
  The properties of the run queue as a whole: what holds between any two calls, that a stop by the disk space
  monitor takes effect in the same call, and that a queue that ends as complete has completed every task.
\<close>

section \<open>All runs\<close>

text \<open>
  A run starts with a new queue; in any order the cooker calls \<open>execute_runqueue\<close> and asks the queue to
  finish.
\<close>

inductive rq_run :: "'g rqenv \<Rightarrow> execcfg \<Rightarrow> 'g runqueue \<Rightarrow> bool" for e c where
  new: "rq_run e c (new_runqueue c tds siggen monitor)"
| call: "rq_run e c q \<Longrightarrow> answers_ok (w_answers w) \<Longrightarrow> execute_runqueue0 e w q = Inr (a, q') \<Longrightarrow> rq_run e c q'"
| finish: "rq_run e c q \<Longrightarrow> answers_ok as \<Longrightarrow> finish_runqueue (sv_dcs (e_view e)) now (q, as) = Inr (q', as') \<Longrightarrow>
    rq_run e c q'"

lemma rq_run_ok:
  assumes "rq_run e c q" "\<forall>mc. ec_spawn c mc" "e_var e ''BB_SCHEDULER'' \<noteq> Some ''basic''"
  shows "rq_ok q \<and> (q_state q = RPrepare \<or> settled (q_state q))"
  using assms(1)
proof (induction rule: rq_run.induct)
  case (new tds siggen monitor)
  then show ?case using assms(2) by (simp add: rq_ok_def new_runqueue_def)
next
  case (call q w a q')
  then show ?case using call_ok [OF call.hyps(3) _ call.hyps(2) assms(3)] by blast
next
  case (finish q as now q' as')
  then show ?case using finish_runqueue_ok [OF finish.hyps(3) _ finish.hyps(2)] by auto
qed

section \<open>What the later stages leave alone\<close>

lemma exe_execute_disklog: "exe_execute v as q = Inr (r, q') \<Longrightarrow> q_disklog q' = q_disklog q"
  by (cases "q_exe q" rule: exe_log.cases)
    (auto simp: exe_execute_def Let_def put_scene_def put_tasks_def elim!: rbind_InrE split: bool.splits)

lemma exe_finish_disklog: "exe_finish dcs as q = Inr (r, q') \<Longrightarrow> q_disklog q' = q_disklog q"
  by (cases "q_exe q" rule: exe_log.cases)
    (auto simp: exe_finish_def put_scene_def put_tasks_def elim!: rbind_InrE split: bool.splits)

lemma teardown_disklog: "teardown_workers dcs as q = Inr q' \<Longrightarrow> q_disklog q' = q_disklog q"
  by (cases "q_exe q" rule: exe_log.cases)
    (auto simp: teardown_workers_def put_scene_def put_tasks_def elim!: rbind_InrE split: bool.splits)

lemma stage_execute_disklog: "stage_execute s e w (r, q, as) = Inr (r', q', as') \<Longrightarrow> q_disklog q' = q_disklog q"
  by (auto simp: stage_execute_def elim!: rbind_InrE split: if_splits dest: exe_execute_disklog)

lemma stage_run_init_disklog: "stage_run_init e w q = Inr q' \<Longrightarrow> q_disklog q' = q_disklog q"
  by (auto simp: stage_run_init_def put_tasks_def elim!: rbind_InrE split: if_splits)

lemma stage_clean_up_disklog: "stage_clean_up e (r, q, as) = Inr (r', q', as') \<Longrightarrow> q_disklog q' = q_disklog q"
  by (auto simp: stage_clean_up_def elim!: rbind_InrE split: if_splits dest: exe_finish_disklog)

lemma stage_teardown_disklog:
  assumes "stage_teardown e (q, as) = Inr (q', as')"
  shows "q_disklog q' = q_disklog q"
proof (cases "q_state q \<in> {RComplete, RFailed} \<and> q_exe q \<noteq> NoExec")
  case False
  then have "stage_teardown e (q, as) = Inr (q, as)" unfolding stage_teardown_def by auto
  then show ?thesis using assms by simp
next
  case True
  then show ?thesis using assms by (auto simp: stage_teardown_def elim!: rbind_InrE dest: teardown_disklog)
qed

lemma stage_failed_disklog: "stage_failed q = Inr q' \<Longrightarrow> q_disklog q' = q_disklog q"
  by (auto simp: stage_failed_def elim!: rbind_InrE split: if_splits)

text \<open>In a late state nothing is started.\<close>

lemma late_skips:
  assumes "late (q_state q)"
  shows "stage_execute RSceneRun e w (r, q, as) = Inr (r, q, as)" "stage_execute RRunning e w (r, q, as) = Inr (r, q, as)"
    "stage_run_init e w q = Inr q"
  using assms by (auto simp: stage_execute_def stage_run_init_def late_def)

section \<open>The properties\<close>


text \<open>
  C3. When the disk space monitor stops the queue during a call, nothing is started any more in this call:
  the record of what was sent to workers stays as it was, and the queue does not go on running.
\<close>
theorem disk_stop_starts_nothing:
  assumes "rq_run e c q" "\<forall>mc. ec_spawn c mc" "e_var e ''BB_SCHEDULER'' \<noteq> Some ''basic''"
    "q_state q \<in> {RSceneRun, RRunning, RCleanUp}" "answers_ok (w_answers w)" "execute_runqueue0 e w q = Inr (a, q')"
    "finished_dirs (q_disklog q') \<noteq> finished_dirs (q_disklog q)"
  shows "exe_log (q_exe q') = exe_log (q_exe q) \<and> q_state q' \<in> {RCleanUp, RFailed, RComplete}"
proof -
  have ok: "rq_ok q" using rq_run_ok [OF assms(1-3)] by blast
  obtain q1 q2 q3 as3 r4 q4 as4 q5 r6 q6 as6 r7 q7 as7 q8 as8 where s:
    "stage_prepare e q = Inr q1" "stage_scene_init e w q1 = Inr q2" "stage_check e w q2 = Inr (q3, as3)"
    "stage_execute RSceneRun e w (Again, q3, as3) = Inr (r4, q4, as4)" "stage_run_init e w q4 = Inr q5"
    "stage_execute RRunning e w (r4, q5, as4) = Inr (r6, q6, as6)" "stage_clean_up e (r6, q6, as6) = Inr (r7, q7, as7)"
    "stage_teardown e (q7, as7) = Inr (q8, as8)" "stage_failed q8 = Inr q'"
    using assms(6) by (rule call_stages)
  have q2: "q2 = q" using s(1,2) assms(4) by (auto simp: stage_prepare_def stage_scene_init_def)
  note 3 = stage_check_ok [OF s(3) [unfolded q2] ok assms(5)]
  have log: "q_disklog q' = q_disklog q3"
    using stage_execute_disklog [OF s(4)] stage_run_init_disklog [OF s(5)] stage_execute_disklog [OF s(6)]
      stage_clean_up_disklog [OF s(7)] stage_teardown_disklog [OF s(8)] stage_failed_disklog [OF s(9)] by simp
  then have late: "late (q_state q3)" using 3(5) assms(7) by simp
  have "q6 = q3" "as6 = as3" using s(4-6) late_skips [OF late] by simp_all
  note 7 = stage_clean_up_ok [OF s(7) [unfolded this] 3(1,2)]
  note 8 = stage_teardown_ok [OF s(8) 7(1,2)]
  note 9 = stage_failed_ok [OF s(9) 8(1)]
  have "late (q_state q')" using late 7(4) 8(3) 9(3) by auto
  then show ?thesis using 3(3) 7(3) 8(2) 9(2) by (simp add: late_def)
qed

text \<open>Tearing down after everything is complete changes nothing; after a failure the queue is not complete.\<close>

lemma reports_none: "reports_ok {} rs \<Longrightarrow> Died \<notin> set rs \<Longrightarrow> rs = []"
  by (cases "({} :: string set, rs)" rule: reports_ok.cases) auto

lemma no_died_last: "Died \<notin> set (last_answer as S)"
  by (simp add: last_answer_def)

lemma teardown_idle:
  assumes "teardown_workers dcs as q = Inr q'" "q_exe q = Tasks x" "in_flight x = {}" "answers_ok as"
  shows "q_exe q' = Tasks (x\<lparr>x_state := q_state q, x_fakeworkers := []\<rparr>)"
proof -
  have "reports_ok {} (last_answer as {})" using assms(4) by simp
  then have "last_answer as (in_flight x) = []" using reports_none no_died_last assms(3) by metis
  then show ?thesis using assms(1,2) by (auto simp: teardown_workers_def read_workers_def put_tasks_def)
qed

lemma teardown_failed:
  assumes "teardown_workers dcs as q = Inr q'" "q_exe q = Tasks x" "q_state q \<noteq> RComplete"
  shows "q_state q' \<noteq> RComplete"
proof -
  obtain y where y: "read_workers (q_cfg q) (last_answer as (in_flight x)) (x\<lparr>x_state := q_state q\<rparr>) = Inr y"
    "q' = put_tasks (y\<lparr>x_fakeworkers := []\<rparr>) q"
    using assms(1,2) by (auto simp: teardown_workers_def elim!: rbind_InrE)
  show ?thesis using read_workers_late(2) [OF y(1) no_died_last] assms(3) y(2) by (auto simp: put_tasks_def)
qed

lemma stage_teardown_failed:
  assumes "stage_teardown e (q, as) = Inr (q', as')" "q_exe q = Tasks x" "q_state q \<noteq> RComplete"
  shows "q_state q' \<noteq> RComplete"
proof (cases "q_state q = RFailed")
  case True
  then have "teardown_workers (sv_dcs (e_view e)) as q = Inr q'"
    using assms(1,2) by (auto simp: stage_teardown_def elim!: rbind_InrE)
  from teardown_failed [OF this assms(2,3)] show ?thesis .
next
  case False
  then have "stage_teardown e (q, as) = Inr (q, as)" using assms(3) unfolding stage_teardown_def by auto
  then show ?thesis using assms(1,3) by simp
qed

text \<open>No worker dies.\<close>

definition no_deaths :: "answers \<Rightarrow> bool" where
  "no_deaths as \<longleftrightarrow> (\<forall>a \<in> set as. \<forall>S. Died \<notin> set (a S))"

lemma no_deaths_simps [simp]: "no_deaths as \<Longrightarrow> no_deaths (tl as)" "no_deaths as \<Longrightarrow> Died \<notin> set (next_answer as S)"
  by (cases as; auto simp: no_deaths_def next_answer_def)+

lemma tasks_answer2_died: "no_deaths as \<Longrightarrow> Died \<notin> set (tasks_answer2 c v rs as x)"
  by (auto simp: tasks_answer2_def split: sum.split prod.split bool.split)

text \<open>The last call of \<open>execute\<close>: the queue is complete only if every task is.\<close>

lemma execute_end:
  assumes "exe_execute v as q = Inr (r, q')" "rq_ok q" "q_state q = RRunning" "answers_ok as" "no_deaths as"
    "ec_whitelist (q_cfg q) = None"
  obtains y where "q_exe q' = Tasks y"
    "q_state q' = RComplete \<Longrightarrow> never_done y = [] \<and> set (x_complete y) = set (dkeys (x_entries y)) \<and> in_flight y = {}"
    "q_state q' = RCleanUp \<Longrightarrow> x_failed y \<noteq> []"
proof -
  obtain x where x: "q_exe q = Tasks x" using running_exe(2) [OF assms(2,3)] by blast
  let ?x = "x\<lparr>x_state := q_state q\<rparr>" and ?rs = "next_answer as (in_flight x)"
  obtain y where y: "execute (q_cfg q) v ?rs (tasks_answer2 (q_cfg q) v ?rs (tl as) ?x) ?x = Inr (r, y)"
    "q' = put_tasks y q"
    using assms(1) x by (auto simp: exe_execute_def Let_def elim!: rbind_InrE)
  obtain g kind where g: "good_graph g" "exec_inv (q_cfg q) g (prio_list kind g) x" "0 < ec_number_tasks (q_cfg q)"
    "\<forall>mc. ec_spawn (q_cfg q) mc"
    by (rule rq_ok_tasks [OF assms(2) x])
  have gg: "graph_wf g" "acyclic (dep_edges g)" "g \<noteq> []" using g(1) by (simp_all add: good_graph_def)
  have i: "exec_inv (q_cfg q) g (prio_list kind g) ?x" using g(2) by (simp add: exec_inv_state)
  have rs: "reports_ok (in_flight ?x) ?rs" using assms(4) by simp
  have nd: "Died \<notin> set (?rs @ tasks_answer2 (q_cfg q) v ?rs (tl as) ?x)"
    using assms(5) tasks_answer2_died [of "tl as"] by simp
  have iy: "exec_inv (q_cfg q) g (prio_list kind g) y"
    by (rule execute_ok [OF y(1) gg(1) i rs answer2_ok(2) g(4) [THEN spec] g(3)]) (use assms(4) in simp)
  have st: "x_state ?x = RRunning" using assms(3) by simp
  show ?thesis
  proof (rule that)
    show "q_exe q' = Tasks y" using y(2) by (simp add: put_tasks_def)
    assume "q_state q' = RComplete"
    then have "x_state y = RComplete" using y(2) by (simp add: put_tasks_def)
    note c = execute_complete [OF i gg(1,2) g(3,4) st rs nd y(1) this]
    have "dkeys (x_entries y) = dkeys g" "in_flight y = set (x_running y) - set (x_complete y) - set (x_failed y)"
      "set (x_running y) \<subseteq> set (dkeys g)"
      using iy unfolding exec_inv_def core_def counts_def by (simp, simp, blast)
    then show "never_done y = [] \<and> set (x_complete y) = set (dkeys (x_entries y)) \<and> in_flight y = {}" using c by auto
  next
    assume "q_state q' = RCleanUp"
    then show "x_failed y \<noteq> []"
      using execute_late(2) [OF y(1) gg(1,3) i rs g(4) [THEN spec] nd assms(6)] st y(2) by (simp add: put_tasks_def)
  qed
qed

text \<open>
  C2. When the queue is running, no worker dies, the disk space monitor does not stop it and no white list
  is enforced, a call of \<open>execute_runqueue\<close> that reports that everything is done leaves no task undone:
  every task of the graph is complete and the sanity checks find nothing.  A failed task never ends in this
  result.
\<close>
theorem runqueue_complete:
  assumes "rq_run e c q" "\<forall>mc. ec_spawn c mc" "e_var e ''BB_SCHEDULER'' \<noteq> Some ''basic''"
    "q_state q = RRunning" "ec_whitelist (q_cfg q) = None" "answers_ok (w_answers w)" "no_deaths (w_answers w)"
    "execute_runqueue0 e w q = Inr (None, q')" "finished_dirs (q_disklog q') = finished_dirs (q_disklog q)"
  shows "\<exists>x. q_exe q' = Tasks x \<and> never_done x = [] \<and> set (x_complete x) = set (dkeys (x_entries x))"
proof -
  have ok: "rq_ok q" using rq_run_ok [OF assms(1-3)] by blast
  obtain q1 q2 q3 as3 r4 q4 as4 q5 r6 q6 as6 r7 q7 as7 q8 as8 where s:
    "stage_prepare e q = Inr q1" "stage_scene_init e w q1 = Inr q2" "stage_check e w q2 = Inr (q3, as3)"
    "stage_execute RSceneRun e w (Again, q3, as3) = Inr (r4, q4, as4)" "stage_run_init e w q4 = Inr q5"
    "stage_execute RRunning e w (r4, q5, as4) = Inr (r6, q6, as6)" "stage_clean_up e (r6, q6, as6) = Inr (r7, q7, as7)"
    "stage_teardown e (q7, as7) = Inr (q8, as8)" "stage_failed q8 = Inr q'"
    and a: "None = (if q_state q' = RComplete then None else Some r7)"
    using assms(8) by (rule call_stages)
  have q2: "q2 = q" using s(1,2) assms(4) by (auto simp: stage_prepare_def stage_scene_init_def)
  note 3 = stage_check_ok [OF s(3) [unfolded q2] ok assms(6)]
  have "q_disklog q' = q_disklog q3"
    using stage_execute_disklog [OF s(4)] stage_run_init_disklog [OF s(5)] stage_execute_disklog [OF s(6)]
      stage_clean_up_disklog [OF s(7)] stage_teardown_disklog [OF s(8)] stage_failed_disklog [OF s(9)] by simp
  then have q3: "q3 = q\<lparr>q_monitor := q_monitor q3, q_disklog := q_disklog q3\<rparr>" "as3 = w_answers w"
    using 3(6) assms(9) by simp_all
  have st3: "q_state q3 = RRunning" "q_cfg q3 = q_cfg q"
    by (subst q3(1), simp add: assms(4)) (subst q3(1), simp)
  have q5: "q5 = q3" "as4 = as3" using s(4,5) st3(1) by (auto simp: stage_execute_def stage_run_init_def)
  then have x: "exe_execute (current_view e w q3) as3 q3 = Inr (r6, q6)" "as6 = tl (tl as3)"
    using s(6) st3(1) by (auto simp: stage_execute_def elim!: rbind_InrE)
  have nd: "no_deaths as3" "no_deaths as6" using assms(7) q3(2) x(2) by simp_all
  obtain y where y: "q_exe q6 = Tasks y"
    "q_state q6 = RComplete \<Longrightarrow> never_done y = [] \<and> set (x_complete y) = set (dkeys (x_entries y)) \<and> in_flight y = {}"
    "q_state q6 = RCleanUp \<Longrightarrow> x_failed y \<noteq> []"
    by (rule execute_end [OF x(1) 3(1) st3(1) 3(2) nd(1)]) (use assms(5) st3(2) in simp_all)
  have 6: "rq_ok q6" "answers_ok as6"
    using stage_execute_ok [OF s(6) [unfolded q5] 3(1,2)] by simp_all
  note 7 = stage_clean_up_ok [OF s(7) 6]
  have fin: "q_state q' = RComplete" using a by (simp split: if_splits)
  then have s8: "q_state q8 = RComplete" using stage_failed_ok(3) [OF s(9) stage_teardown_ok(1) [OF s(8) 7(1,2)]] by simp
  have "q_state q6 \<noteq> RCleanUp"
  proof
    assume cl: "q_state q6 = RCleanUp"
    then obtain z where z: "finish (q_cfg q6) (next_answer as6 (in_flight y)) y = Inr (r7, z)" "q7 = put_tasks z q6"
      using s(7) y(1) by (auto simp: stage_clean_up_def exe_finish_def elim!: rbind_InrE)
    have "x_state z \<noteq> RComplete" using finish_late(3) [OF z(1)] y(3) [OF cl] nd(2) by simp
    then show False using stage_teardown_failed [OF s(8), of z] z(2) s8 by (simp add: put_tasks_def)
  qed
  then have q7: "q7 = q6" "as7 = as6" using s(7) by (auto simp: stage_clean_up_def)
  then have c: "q_state q6 = RComplete" using stage_teardown_failed [OF s(8), of y] y(1) s8 by auto
  then have "teardown_workers (sv_dcs (e_view e)) as6 q6 = Inr q8"
    using s(8) q7 y(1) by (auto simp: stage_teardown_def elim!: rbind_InrE)
  then have "q_exe q8 = Tasks (y\<lparr>x_state := RComplete, x_fakeworkers := []\<rparr>)"
    using teardown_idle [OF _ y(1) _ 6(2)] y(2) [OF c] c by simp
  then have "q_exe q' = Tasks (y\<lparr>x_state := RComplete, x_fakeworkers := []\<rparr>)"
    using stage_failed_ok(2) [OF s(9) stage_teardown_ok(1) [OF s(8) 7(1,2)]] by simp
  then show ?thesis using y(2) [OF c] by (intro exI) (auto simp: never_done_def)
qed

section \<open>Two ways to fail\<close>

text \<open>The cooker calls \<open>execute_runqueue\<close> again and again; the result is that of the last call.\<close>

fun calls :: "'g rqenv \<Rightarrow> rqworld list \<Rightarrow> 'g runqueue \<Rightarrow> (retval option \<times> 'g runqueue) res" where
  "calls e [] q = Inr (Some Again, q)"
| "calls e (w # ws) q = rbind (execute_runqueue0 e w q) (\<lambda>(a, q). if ws = [] then Inr (a, q) else calls e ws q)"

lemma failed_call:
  assumes "execute_runqueue0 e w q = Inr (a, q')" "q_state q = RFailed" "q_exe q = Tasks x" "in_flight x = {}"
    "answers_ok (w_answers w)"
  shows "a = Some Again \<and> q_state q' = RFailed \<and> (\<exists>y. q_exe q' = Tasks y \<and> in_flight y = {})"
proof -
  obtain q1 q2 q3 as3 r4 q4 as4 q5 r6 q6 as6 r7 q7 as7 q8 as8 where s:
    "stage_prepare e q = Inr q1" "stage_scene_init e w q1 = Inr q2" "stage_check e w q2 = Inr (q3, as3)"
    "stage_execute RSceneRun e w (Again, q3, as3) = Inr (r4, q4, as4)" "stage_run_init e w q4 = Inr q5"
    "stage_execute RRunning e w (r4, q5, as4) = Inr (r6, q6, as6)" "stage_clean_up e (r6, q6, as6) = Inr (r7, q7, as7)"
    "stage_teardown e (q7, as7) = Inr (q8, as8)" "stage_failed q8 = Inr q'" "a = (if q_state q' = RComplete then None else Some r7)"
    using assms(1) by (rule call_stages)
  have q3: "q3 = q" "as3 = w_answers w"
    using s(1-3) assms(2) by (auto simp: stage_prepare_def stage_scene_init_def stage_check_def)
  have q6: "q6 = q3" "as6 = as3" "r6 = Again" using s(4-6) late_skips [of q3] q3 assms(2) by simp_all
  have q7: "q7 = q" "as7 = w_answers w" "r7 = Again" using s(7) q6 q3 assms(2) by (simp_all add: stage_clean_up_def)
  then have t: "teardown_workers (sv_dcs (e_view e)) (w_answers w) q = Inr q8"
    using s(8) assms(2,3) by (auto simp: stage_teardown_def elim!: rbind_InrE)
  have x8: "q_exe q8 = Tasks (x\<lparr>x_state := RFailed, x_fakeworkers := []\<rparr>)"
    using teardown_idle [OF t assms(3-5)] assms(2) by simp
  have "reports_ok {} (last_answer (w_answers w) {})" using assms(5) by simp
  then have "last_answer (w_answers w) (in_flight x) = []" using reports_none no_died_last assms(4) by metis
  then have "q_state q8 = RFailed"
    using t assms(2,3) by (auto simp: teardown_workers_def read_workers_def put_tasks_def)
  moreover have "q_exe q' = q_exe q8" "q_state q' = q_state q8"
    using s(9) by (auto simp: stage_failed_def elim!: rbind_InrE split: if_splits)
  ultimately show ?thesis using x8 s(10) q7(3) assms(4) by simp
qed


text \<open>
  C32. When only setscene tasks are to be run and there are none, the queue ends with an \<open>AttributeError\<close>:
  the summary asks the setscene queue for statistics it never made.
\<close>
theorem setsceneonly_without_setscene:
  assumes "q_state q = RPrepare" "e_setsceneonly e" "\<not> e_dump e" "number_tasks_of (e_var e) = Inr n"
    "prepare (e_taskhash e) (e_config e) (q_tds q) (sv_dcs (e_view e)) (e_targets e) (q_siggen q) = Inr (Some d)"
    "rq_setscene_tids d = []"
  shows "execute_runqueue e w q = Inl (AttributeError, RComplete)"
proof -
  have "execute_runqueue0 e w q = Inl AttributeError"
    using assms
    by (simp add: execute_runqueue0_def stage_prepare_def stage_scene_init_def read_config_def scene_init_def put_scene_def
        new_scene_def stage_check_def stage_execute_def stage_run_init_def stage_clean_up_def stage_teardown_def
        teardown_workers_def exe_stats_def Let_def)
  then show ?thesis by (simp add: execute_runqueue_def)
qed

section \<open>An example\<close>

text \<open>The two tasks of the example recipe; the metadata has no setscene tasks.\<close>

definition example_env :: "bool \<Rightarrow> nat rqenv" where
  "example_env setsceneonly =
     \<lparr>e_var = (\<lambda>n. if n = ''BB_NUMBER_THREADS'' then Some ''2'' else None), e_taskhash = (\<lambda>fn t ds dc g. Inr (Suc g, ''hash'')),
      e_config = \<lparr>cf_stampwhitelist = [], cf_multi_provider_whitelist = [], cf_nosetscene = False, cf_force = False,
        cf_invalidate_stamp = []\<rparr>,
      e_targets = [('''', ''a'', ''y'', ''a.bb'')], e_view = example_times, e_dump = False, e_setsceneonly = setsceneonly\<rparr>"

definition says :: "string \<Rightarrow> int \<Rightarrow> string set \<Rightarrow> report list" where
  "says t status S = (if t \<in> S then [Exited t status] else [])"

definition example_call :: "answers \<Rightarrow> rqworld" where
  "example_call as = \<lparr>w_time = (\<lambda>p. None), w_vfs = (\<lambda>p. (0, 2000, 1)), w_answers = as\<rparr>"

definition example_queue :: "bool \<Rightarrow> diskmon \<Rightarrow> nat runqueue" where
  "example_queue tryalt m = new_runqueue example_cfg (map (map_prod id (\<lambda>td. td\<lparr>td_tryaltconfigs := tryalt\<rparr>)) example_tds) 0 m"

lemma says_ok: "answers_ok (w_answers (example_call []))" "answers_ok (w_answers (example_call [says t status]))"
  "no_deaths (w_answers (example_call [says t status]))"
  by (auto simp: answers_ok_def no_deaths_def says_def example_call_def)

lemma calls_run:
  "calls e ws q = Inr (a, q') \<Longrightarrow> rq_run e c q \<Longrightarrow> \<forall>w \<in> set ws. answers_ok (w_answers w) \<Longrightarrow> rq_run e c q'"
proof (induction ws arbitrary: q)
  case (Cons w ws)
  obtain b u where u: "execute_runqueue0 e w q = Inr (b, u)" "(if ws = [] then Inr (b, u) else calls e ws u) = Inr (a, q')"
    using Cons.prems(1) by (auto elim: rbind_InrE)
  have "rq_run e c u" by (rule rq_run.call [OF Cons.prems(2) _ u(1)]) (use Cons.prems(3) in simp)
  then show ?case using Cons.IH [of u] Cons.prems(3) u(2) by (auto split: if_splits)
qed simp

lemma example_run:
  assumes "calls (example_env b) ws (example_queue tryalt m) = Inr (a, q)" "\<forall>w \<in> set ws. answers_ok (w_answers w)"
  shows "rq_run (example_env b) example_cfg q"
  by (rule calls_run [OF assms(1) _ assms(2)]) (simp add: example_queue_def rq_run.new)

lemma example_env_ok: "e_var (example_env b) ''BB_SCHEDULER'' \<noteq> Some ''basic''"
  by (simp add: example_env_def)

definition after_x :: "diskmon \<Rightarrow> (retval option \<times> nat runqueue) res" where
  "after_x m = calls (example_env False) [example_call [], example_call [says ''a.bb:x'' 0]] (example_queue False m)"

lemma after_x_run: "after_x m = Inr (a, q) \<Longrightarrow> rq_run (example_env False) example_cfg q"
  unfolding after_x_def by (erule example_run) (simp add: says_ok)


lemma disk_stop_starts_nothing_witness:
  "\<exists>q a q'. rq_run (example_env False) example_cfg q \<and>
     execute_runqueue0 (example_env False) (example_call [says ''a.bb:x'' 0]) q = Inr (a, q') \<and>
     finished_dirs (q_disklog q') = [''/tmp/STOPTASKS''] \<and> exe_log (q_exe q') = exe_log (q_exe q)"
proof -
  let ?e = "example_env False" and ?w = "example_call [says ''a.bb:x'' 0]"
  have "rbind (calls ?e [example_call []] (example_queue False example_monitor)) (\<lambda>(a, q).
      rbind (execute_runqueue0 ?e ?w q) (\<lambda>(b, q'). Inr (q_state q, finished_dirs (q_disklog q), finished_dirs (q_disklog q'))))
    = Inr (RRunning, [], [''/tmp/STOPTASKS''])"
    by code_simp
  then obtain a q b q' where q: "calls ?e [example_call []] (example_queue False example_monitor) = Inr (a, q)"
    "execute_runqueue0 ?e ?w q = Inr (b, q')" "q_state q = RRunning" "finished_dirs (q_disklog q) = []"
    "finished_dirs (q_disklog q') = [''/tmp/STOPTASKS'']"
    by (auto elim!: rbind_InrE)
  have r: "rq_run ?e example_cfg q" by (rule example_run [OF q(1)]) (simp add: says_ok)
  have "exe_log (q_exe q') = exe_log (q_exe q)"
    using disk_stop_starts_nothing [OF r example_cfg_ok(3) example_env_ok _ says_ok(2) q(2)] q(3-5) by simp
  then show ?thesis using r q by blast
qed

lemma runqueue_complete_witness:
  "\<exists>q q' x. rq_run (example_env False) example_cfg q \<and>
     execute_runqueue0 (example_env False) (example_call [says ''a.bb:y'' 0]) q = Inr (None, q') \<and>
     q_exe q' = Tasks x \<and> never_done x = []"
proof -
  let ?e = "example_env False" and ?w = "example_call [says ''a.bb:y'' 0]"
  have "rbind (after_x no_monitor) (\<lambda>(a, q). rbind (execute_runqueue0 ?e ?w q) (\<lambda>(b, q').
      Inr (q_state q, ec_whitelist (q_cfg q), finished_dirs (q_disklog q), b, finished_dirs (q_disklog q'))))
    = Inr (RRunning, None, [], None, [])"
    by code_simp
  then obtain a q q' where q: "after_x no_monitor = Inr (a, q)" "execute_runqueue0 ?e ?w q = Inr (None, q')"
    "q_state q = RRunning" "ec_whitelist (q_cfg q) = None" "finished_dirs (q_disklog q') = finished_dirs (q_disklog q)"
    by (auto elim!: rbind_InrE)
  have r: "rq_run ?e example_cfg q" by (rule after_x_run [OF q(1)])
  from runqueue_complete [OF r example_cfg_ok(3) example_env_ok q(3,4) says_ok(2,3) q(2,5)]
  show ?thesis using r q(2) by blast
qed


lemma setsceneonly_without_setscene_witness:
  "execute_runqueue (example_env True) (example_call []) (example_queue False no_monitor) = Inl (AttributeError, RComplete)"
proof -
  let ?e = "example_env True" and ?q = "example_queue False no_monitor"
  let ?p = "prepare (e_taskhash ?e) (e_config ?e) (q_tds ?q) (sv_dcs (e_view ?e)) (e_targets ?e) (q_siggen ?q)"
  have "rbind ?p (\<lambda>p. case p of Some d \<Rightarrow> Inr (rq_setscene_tids d) | None \<Rightarrow> Inl KeyError) = Inr []" by code_simp
  then obtain d where d: "?p = Inr (Some d)" "rq_setscene_tids d = []"
    by (auto elim!: rbind_InrE split: option.splits)
  have c: "q_state ?q = RPrepare" "e_setsceneonly ?e" "\<not> e_dump ?e" "number_tasks_of (e_var ?e) = Inr 2"
    by code_simp+
  show ?thesis by (rule setsceneonly_without_setscene [OF c d])
qed

end
