(* ===== verification/VarDeps.thy ===== *)
theory VarDeps
  imports Stamps
begin

text \<open>
  Dependencies between the variables of a recipe: \<open>build_dependencies\<close> and
  \<open>generate_dependencies\<close> of \<open>bitbake/lib/bb/data.py\<close>.  The first finds what the value of one variable
  refers to, the second follows the references from every task.

  The same loop over the newly found names occurs here, in the signature generator and twice in the
  functions that print shell and Python functions.  It is \<open>rounds\<close> below; the locale \<open>dep_rounds\<close> says
  what it visits, whatever is done with each name.
\<close>

section \<open>The loop over newly found names\<close>

text \<open>
  \<open>while newdeps: seen |= newdeps; newdeps = union of step(dep) for dep in newdeps; newdeps -= seen\<close>.
  The fuel bounds the rounds.
\<close>

definition sminus :: "'v list \<Rightarrow> 'v list \<Rightarrow> 'v list" where
  "sminus xs ys = filter (\<lambda>x. x \<notin> set ys) xs"

lemma set_sminus [simp]: "set (sminus xs ys) = set xs - set ys"
  by (auto simp: sminus_def)

lemma distinct_sminus [simp, intro]: "distinct xs \<Longrightarrow> distinct (sminus xs ys)"
  by (simp add: sminus_def)

definition round_step :: "('v \<Rightarrow> 's \<Rightarrow> ('v list \<times> 's) res) \<Rightarrow> 'v \<Rightarrow> 'v list \<times> 's \<Rightarrow> ('v list \<times> 's) res" where
  "round_step step dep p = rbind (step dep (snd p)) (\<lambda>(ds, s). Inr (sunion (fst p) ds, s))"

fun rounds :: "('v \<Rightarrow> 's \<Rightarrow> ('v list \<times> 's) res) \<Rightarrow> nat \<Rightarrow> 'v list \<Rightarrow> 'v list \<Rightarrow> 's \<Rightarrow> ('v list \<times> 's) res" where
  "rounds step fuel newdeps seen s =
     (if newdeps = [] then Inr (seen, s)
      else (case fuel of
              0 \<Rightarrow> Inl OutOfFuel
            | Suc n \<Rightarrow>
                let seen = sunion seen newdeps
                in rbind (rfold (round_step step) newdeps ([], s)) (\<lambda>(newdeps, s).
                     rounds step n (sminus newdeps seen) seen s)))"

declare rounds.simps [simp del]

section \<open>The datastore\<close>

text \<open>
  What the code reads of the datastore.  A parser returns the references it found, the functions that
  are called, the words tested by \<open>bb.utils.contains\<close>, and the expanded text.  Flags are strings; the
  empty string stands for a flag that is false.  \<open>ds_expand value name\<close> is \<open>expandWithRefs\<close>,
  \<open>ds_python\<close> and \<open>ds_shell\<close> are the two parsers of \<open>codeparser.py\<close>; all three may raise.
\<close>

record parsed =
  p_value :: string
  p_references :: "string list"
  p_execs :: "string list"
  p_contains :: "(string, string list) dict"

record datastore =
  ds_keys :: "string list"
  ds_var :: "string \<Rightarrow> bool \<Rightarrow> string option"
  ds_flag :: "string \<Rightarrow> string \<Rightarrow> string option"
  ds_flags :: "string \<Rightarrow> (string, string) dict"
  ds_expand :: "string option \<Rightarrow> string \<Rightarrow> parsed res"
  ds_python :: "string \<Rightarrow> string option \<Rightarrow> parsed res"
  ds_shell :: "string \<Rightarrow> string \<Rightarrow> string list res"
  ds_exportlist :: "string list"
  ds_tasks :: "string list option"

definition flag_set :: "string option \<Rightarrow> bool" where
  "flag_set v = (case v of None \<Rightarrow> False | Some s \<Rightarrow> s \<noteq> [])"

definition or_empty :: "string option \<Rightarrow> string" where
  "or_empty v = (case v of None \<Rightarrow> [] | Some s \<Rightarrow> s)"

section \<open>build_dependencies\<close>

definition contains_line :: "datastore \<Rightarrow> string \<Rightarrow> string \<Rightarrow> string" where
  "contains_line d k word =
     [CHR 0x0A] @ k @ ''{'' @ word @ ''} = '' @
     (if word \<in> set (split_ws (or_empty (ds_var d k True))) then ''Set'' else ''Unset'')"

definition handle_contains :: "datastore \<Rightarrow> string option \<Rightarrow> (string, string list) dict \<Rightarrow> string option" where
  "handle_contains d value contains =
     (let newvalue = concat (map (\<lambda>k. concat (map (contains_line d k) (sort (remdups (dgetd contains k [])))))
                       (sort (dkeys contains)))
      in if newvalue = [] then value
         else if \<not> flag_set value then Some newvalue
         else Some (or_empty value @ newvalue))"

text \<open>\<open>keys & execs\<close>, and a key \<open>name[flag]\<close>.\<close>

definition called :: "string list \<Rightarrow> string list \<Rightarrow> string list" where
  "called keys execs = filter (\<lambda>k. k \<in> set execs) keys"

definition flag_dependencies :: "datastore \<Rightarrow> string list \<Rightarrow> string \<Rightarrow> (string list \<times> string option) res" where
  "flag_dependencies d keys key =
     (let vf = split_on (CHR ''['') (butlast key)
      in if length vf < 2 then Inl IndexError
         else let value = ds_flag d (vf ! 0) (vf ! 1)
           in rbind (ds_expand d value key) (\<lambda>parser.
                Inr (sunion (sunion [] (p_references parser)) (called keys (p_execs parser)), value)))"

text \<open>The words of a flag, if the variable has it.\<close>

definition flag_words :: "string \<Rightarrow> (string, string) dict \<Rightarrow> string list" where
  "flag_words f varflags = (case dget varflags f of None \<Rightarrow> [] | Some v \<Rightarrow> split_ws v)"

text \<open>The dependencies and the value before exclusions: four kinds of variables.\<close>

definition value_dependencies ::
  "datastore \<Rightarrow> string list \<Rightarrow> string list \<Rightarrow> string \<Rightarrow> (string, string) dict \<Rightarrow> (string list \<times> string option) res" where
  "value_dependencies d keys shelldeps key varflags =
     (let value = ds_var d key False
      in case dget varflags ''vardepvalue'' of
           Some v \<Rightarrow> Inr ([], Some v)
         | None \<Rightarrow>
             if flag_set (dget varflags ''func'') then
               rbind (if flag_set (dget varflags ''python'') then
                        rbind (ds_python d key value) (\<lambda>parser.
                          Inr (sunion (p_references parser) (called keys (p_execs parser)),
                               handle_contains d value (p_contains parser)))
                      else
                        rbind (ds_expand d value key) (\<lambda>parsedvar.
                        rbind (ds_shell d key (p_value parsedvar)) (\<lambda>execs.
                          Inr (sunion (sunion (sunion shelldeps (p_references parsedvar)) (called keys execs))
                                 (called keys (p_execs parsedvar)),
                               handle_contains d value (p_contains parsedvar)))))
                 (\<lambda>(deps, value).
                   Inr (sunion (sunion (sunion deps (flag_words ''prefuncs'' varflags)) (flag_words ''postfuncs'' varflags))
                          (flag_words ''exports'' varflags), value))
             else
               rbind (ds_expand d value key) (\<lambda>parser.
                 Inr (sunion (p_references parser) (called keys (p_execs parser)),
                      handle_contains d value (p_contains parser))))"

text \<open>\<open>for excl in exclude.split('|'): if excl: value = value.replace(excl, '')\<close>, where the value may be \<open>None\<close>.\<close>

definition exclude_values :: "(string, string) dict \<Rightarrow> string option \<Rightarrow> string option res" where
  "exclude_values varflags value =
     (case dget varflags ''vardepvalueexclude'' of
        None \<Rightarrow> Inr value
      | Some exclude \<Rightarrow>
          rfold (\<lambda>excl value.
            if excl = [] then Inr value
            else case value of None \<Rightarrow> Inl AttributeError | Some v \<Rightarrow> Inr (Some (py_replace excl [] v)))
          (split_on CHR ''|'' exclude) value)"

text \<open>\<open>f not in varflagsexcl\<close> looks for the name of the flag inside a string.\<close>

definition flag_keys :: "string option \<Rightarrow> string \<Rightarrow> (string, string) dict \<Rightarrow> string list" where
  "flag_keys varflagsexcl key varflags =
     (case varflagsexcl of
        None \<Rightarrow> []
      | Some excl \<Rightarrow>
          if excl = [] then []
          else map (\<lambda>f. key @ ''['' @ f @ '']'') (filter (\<lambda>f. \<not> py_contains f excl) (dkeys varflags)))"

definition build_dependencies ::
  "string \<Rightarrow> string list \<Rightarrow> string list \<Rightarrow> string option \<Rightarrow> datastore \<Rightarrow> (string list \<times> string option) res" where
  "build_dependencies key keys shelldeps varflagsexcl d =
     (if key = [] then Inl IndexError
      else if last key = CHR '']'' then flag_dependencies d keys key
      else let varflags = ds_flags d key
        in rbind (value_dependencies d keys shelldeps key varflags) (\<lambda>(deps, value).
           rbind (exclude_values varflags value) (\<lambda>value.
             Inr (sminus (sunion (sunion deps (flag_keys varflagsexcl key varflags)) (flag_words ''vardeps'' varflags))
                    (flag_words ''vardepsexclude'' varflags), value))))"

section \<open>generate_dependencies\<close>

text \<open>The two dictionaries \<open>deps\<close> and \<open>values\<close>.\<close>

type_synonym deptables = "(string, string list) dict \<times> (string, string option) dict"

definition store_dependencies ::
  "(string \<Rightarrow> (string list \<times> string option) res) \<Rightarrow> string \<Rightarrow> deptables \<Rightarrow> (string list \<times> deptables) res" where
  "store_dependencies build v t =
     rbind (build v) (\<lambda>(ds, value). Inr (ds, dset v ds (fst t), dset v value (snd t)))"

definition var_step ::
  "(string \<Rightarrow> (string list \<times> string option) res) \<Rightarrow> string \<Rightarrow> deptables \<Rightarrow> (string list \<times> deptables) res" where
  "var_step build dep t =
     (case dget (fst t) dep of
        Some ds \<Rightarrow> Inr (ds, t)
      | None \<Rightarrow> store_dependencies build dep t)"

definition task_dependencies ::
  "(string \<Rightarrow> (string list \<times> string option) res) \<Rightarrow> nat \<Rightarrow> string \<Rightarrow> deptables \<Rightarrow> deptables res" where
  "task_dependencies build fuel task t =
     rbind (store_dependencies build task t) (\<lambda>(newdeps, t).
     rbind (rounds (var_step build) fuel newdeps [] t) (\<lambda>(seen, t). Inr t))"

definition dependency_keys :: "datastore \<Rightarrow> string list" where
  "dependency_keys d = filter (\<lambda>key. \<not> startswith key ''__'') (ds_keys d)"

definition shell_dependencies :: "datastore \<Rightarrow> string list" where
  "shell_dependencies d =
     filter (\<lambda>key. flag_set (ds_flag d key ''export'') \<and> \<not> flag_set (ds_flag d key ''unexport'')) (ds_exportlist d)"

definition build_for :: "datastore \<Rightarrow> string \<Rightarrow> (string list \<times> string option) res" where
  "build_for d key =
     build_dependencies key (dependency_keys d) (shell_dependencies d) (ds_var d ''BB_SIGNATURE_EXCLUDE_FLAGS'' True) d"

definition generate_dependencies :: "nat \<Rightarrow> datastore \<Rightarrow> (string list \<times> deptables) res" where
  "generate_dependencies fuel d =
     (let tasklist = (case ds_tasks d of None \<Rightarrow> [] | Some ts \<Rightarrow> ts)
      in rbind (rfold (task_dependencies (build_for d) fuel) tasklist ([], [])) (\<lambda>t. Inr (tasklist, t)))"

section \<open>What the loop visits\<close>

lemma reach_step: "R\<^sup>* `` {v} = insert v (R\<^sup>* `` (R `` {v}))"
proof -
  have "R\<^sup>* = Id \<union> R O R\<^sup>*" by (metis reflcl_trancl rtrancl_trancl_reflcl sup_commute trancl_unfold_left)
  then show ?thesis by (auto simp: relcomp_Image [symmetric])
qed

lemma rounds_grow: "rounds step fuel nd seen s = Inr (seen', s') \<Longrightarrow> set seen \<union> set nd \<subseteq> set seen'"
proof (induction fuel arbitrary: nd seen s)
  case 0
  then show ?case by (auto simp: rounds.simps [of _ 0] split: if_splits)
next
  case (Suc n)
  show ?case
  proof (cases "nd = []")
    case True
    then show ?thesis using Suc.prems by (simp add: rounds.simps [of _ "Suc n"])
  next
    case False
    then obtain nd1 s1 where "rounds step n (sminus nd1 (sunion seen nd)) (sunion seen nd) s1 = Inr (seen', s')"
      using Suc.prems by (auto simp: rounds.simps [of _ "Suc n"] res_simps Let_def)
    then show ?thesis using Suc.IH by (metis Un_subset_iff set_sunion)
  qed
qed

locale dep_rounds =
  fixes step :: "'v \<Rightarrow> 's \<Rightarrow> ('v list \<times> 's) res" and succs :: "'v \<Rightarrow> 'v set" and inv :: "'s \<Rightarrow> bool"
  assumes step_inv: "inv s \<Longrightarrow> step v s = Inr (ds, s') \<Longrightarrow> inv s' \<and> set ds = succs v"
begin

definition rel :: "('v \<times> 'v) set" where
  "rel = {(a, b). b \<in> succs a}"

lemma rel_iff [simp]: "(a, b) \<in> rel \<longleftrightarrow> b \<in> succs a"
  by (simp add: rel_def)

lemma round_inv:
  "rfold (round_step step) vs (nd, s) = Inr (nd', s') \<Longrightarrow> inv s \<Longrightarrow>
     inv s' \<and> set nd' = set nd \<union> \<Union> (succs ` set vs)"
proof (induction vs arbitrary: nd s)
  case Nil
  then show ?case by simp
next
  case (Cons v vs)
  then obtain ds s1 where s1: "step v s = Inr (ds, s1)" "rfold (round_step step) vs (sunion nd ds, s1) = Inr (nd', s')"
    by (auto simp: round_step_def [of step v] res_simps)
  then show ?case using Cons.IH [OF s1(2)] step_inv [OF Cons.prems(2) s1(1)] by auto
qed

lemma rounds_visit:
  "rounds step fuel nd seen s = Inr (seen', s') \<Longrightarrow> inv s \<Longrightarrow> (\<forall>v \<in> set seen. succs v \<subseteq> set seen \<union> set nd) \<Longrightarrow>
     inv s' \<and> set seen' = set seen \<union> rel\<^sup>* `` set nd \<and> (\<forall>v \<in> set seen'. succs v \<subseteq> set seen')"
proof (induction fuel arbitrary: nd seen s)
  case 0
  then show ?case by (auto simp: rounds.simps [of _ 0] split: if_splits)
next
  case (Suc n)
  show ?case
  proof (cases "nd = []")
    case True
    then show ?thesis using Suc.prems by (auto simp: rounds.simps [of _ "Suc n"])
  next
    case False
    let ?seen = "sunion seen nd"
    obtain nd1 s1 where s1: "rfold (round_step step) nd ([], s) = Inr (nd1, s1)"
      "rounds step n (sminus nd1 ?seen) ?seen s1 = Inr (seen', s')"
      using Suc.prems(1) False by (auto simp: rounds.simps [of _ "Suc n"] res_simps Let_def)
    have r: "inv s1" "set nd1 = \<Union> (succs ` set nd)" using round_inv [OF s1(1) Suc.prems(2)] by auto
    have closed: "\<forall>v \<in> set ?seen. succs v \<subseteq> set ?seen \<union> set (sminus nd1 ?seen)"
      using Suc.prems(3) r(2) by auto
    note ih = Suc.IH [OF s1(2) r(1) closed]
    have eq: "set seen' = (set seen \<union> set nd) \<union> rel\<^sup>* `` set (sminus nd1 ?seen)" using ih by (simp only: set_sunion)
    have "rel `` set seen' \<subseteq> set seen'"
    proof
      fix b
      assume "b \<in> rel `` set seen'"
      then obtain a where "a \<in> set seen'" "b \<in> succs a" by (auto simp: rel_def)
      then show "b \<in> set seen'" using ih by blast
    qed
    then have "rel\<^sup>* `` set seen' = set seen'" by (rule Image_closed_trancl)
    moreover have "set nd \<subseteq> set seen'" unfolding eq by blast
    ultimately have up: "rel\<^sup>* `` set nd \<subseteq> set seen'" by (metis Image_mono subset_refl)
    have "set (sminus nd1 ?seen) \<subseteq> rel\<^sup>* `` set nd"
      using r(2) by (auto simp: rel_def)
    then have "rel\<^sup>* `` set (sminus nd1 ?seen) \<subseteq> rel\<^sup>* `` (rel\<^sup>* `` set nd)" by (rule Image_mono [OF subset_refl])
    then have "rel\<^sup>* `` set (sminus nd1 ?seen) \<subseteq> rel\<^sup>* `` set nd"
      by (simp add: relcomp_Image [symmetric])
    moreover have "set nd \<subseteq> rel\<^sup>* `` set nd" by blast
    ultimately have "set seen' = set seen \<union> rel\<^sup>* `` set nd" using up unfolding eq by blast
    then show ?thesis using ih by blast
  qed
qed

text \<open>
  On names from a finite set that is closed under dependencies the loop returns or ends with an
  exception of one of its steps; the number of names not seen yet bounds the rounds.
\<close>

lemma round_total:
  "inv s \<Longrightarrow> set vs \<subseteq> U \<Longrightarrow>
     (\<exists>nd' s'. rfold (round_step step) vs (nd, s) = Inr (nd', s')) \<or>
     (\<exists>v \<in> U. \<exists>u e. inv u \<and> step v u = Inl e \<and> rfold (round_step step) vs (nd, s) = Inl e)"
proof (induction vs arbitrary: nd s)
  case Nil
  then show ?case by simp
next
  case (Cons v vs)
  show ?case
  proof (cases "step v s")
    case (Inl e)
    then show ?thesis using Cons.prems by (auto simp: round_step_def)
  next
    case (Inr p)
    then obtain ds s1 where s1: "step v s = Inr (ds, s1)" by (cases p) auto
    then have "inv s1" using step_inv Cons.prems(1) by blast
    then show ?thesis using Cons.IH [of s1 "sunion nd ds"] Cons.prems(2) s1 by (simp add: round_step_def)
  qed
qed

lemma rounds_total:
  assumes "finite U" "\<And>v. v \<in> U \<Longrightarrow> succs v \<subseteq> U"
  shows "inv s \<Longrightarrow> set nd \<subseteq> U \<Longrightarrow> set nd \<inter> set seen = {} \<Longrightarrow> card (U - set seen) < fuel \<Longrightarrow>
     (\<exists>seen' s'. rounds step fuel nd seen s = Inr (seen', s')) \<or>
     (\<exists>v \<in> U. \<exists>u e. inv u \<and> step v u = Inl e \<and> rounds step fuel nd seen s = Inl e)"
proof (induction fuel arbitrary: nd seen s)
  case 0
  then show ?case by simp
next
  case (Suc n)
  show ?case
  proof (cases "nd = []")
    case True
    then show ?thesis by (simp add: rounds.simps [of _ "Suc n"])
  next
    case False
    let ?seen = "sunion seen nd"
    show ?thesis
    proof (cases "rfold (round_step step) nd ([], s)")
      case (Inl e)
      then show ?thesis using round_total [OF Suc.prems(1,2), of "[]"] False
        by (auto simp: rounds.simps [of _ "Suc n"])
    next
      case (Inr p)
      then obtain nd1 s1 where s1: "rfold (round_step step) nd ([], s) = Inr (nd1, s1)" by (cases p) auto
      have r: "inv s1" "set nd1 = \<Union> (succs ` set nd)" using round_inv [OF s1 Suc.prems(1)] by auto
      have "set (sminus nd1 ?seen) \<subseteq> U" "set (sminus nd1 ?seen) \<inter> set ?seen = {}"
        using r(2) assms(2) Suc.prems(2) by auto
      moreover have "card (U - set ?seen) < n"
      proof -
        have "U - set ?seen \<subset> U - set seen" using False Suc.prems(2,3) by (cases nd) auto
        then have "card (U - set ?seen) < card (U - set seen)" using assms(1) by (simp add: psubset_card_mono)
        then show ?thesis using Suc.prems(4) by simp
      qed
      ultimately have "(\<exists>seen' s'. rounds step n (sminus nd1 ?seen) ?seen s1 = Inr (seen', s')) \<or>
          (\<exists>v \<in> U. \<exists>u e. inv u \<and> step v u = Inl e \<and> rounds step n (sminus nd1 ?seen) ?seen s1 = Inl e)"
        using Suc.IH r(1) by blast
      moreover have "rounds step (Suc n) nd seen s = rounds step n (sminus nd1 ?seen) ?seen s1"
        using False s1 by (simp add: rounds.simps [of _ "Suc n"] Let_def)
      ultimately show ?thesis by simp
    qed
  qed
qed

end

text \<open>Where each step also records that it has dealt with its name, the loop has dealt with all it has seen.\<close>

locale dep_rounds_done = dep_rounds +
  fixes visited :: "'b \<Rightarrow> 'a set"
  assumes step_visited: "inv s \<Longrightarrow> step v s = Inr (ds, s') \<Longrightarrow> visited s' = insert v (visited s)"
begin

lemma round_visited:
  "rfold (round_step step) vs (nd, s) = Inr (nd', s') \<Longrightarrow> inv s \<Longrightarrow> visited s' = visited s \<union> set vs"
proof (induction vs arbitrary: nd s)
  case Nil
  then show ?case by simp
next
  case (Cons v vs)
  then obtain ds s1 where s1: "step v s = Inr (ds, s1)" "rfold (round_step step) vs (sunion nd ds, s1) = Inr (nd', s')"
    by (auto simp: round_step_def [of step v] res_simps)
  then show ?case
    using Cons.IH [OF s1(2)] step_inv [OF Cons.prems(2) s1(1)] step_visited [OF Cons.prems(2) s1(1)] by simp
qed

lemma rounds_visited:
  "rounds step fuel nd seen s = Inr (seen', s') \<Longrightarrow> inv s \<Longrightarrow>
     visited s' = visited s \<union> set nd \<union> (set seen' - set seen)"
proof (induction fuel arbitrary: nd seen s)
  case 0
  then show ?case by (auto simp: rounds.simps [of _ 0] split: if_splits)
next
  case (Suc n)
  show ?case
  proof (cases "nd = []")
    case True
    then show ?thesis using Suc.prems by (auto simp: rounds.simps [of _ "Suc n"])
  next
    case False
    let ?seen = "sunion seen nd"
    obtain nd1 s1 where s1: "rfold (round_step step) nd ([], s) = Inr (nd1, s1)"
      "rounds step n (sminus nd1 ?seen) ?seen s1 = Inr (seen', s')"
      using Suc.prems(1) False by (auto simp: rounds.simps [of _ "Suc n"] res_simps Let_def)
    have "visited s' = visited s1 \<union> set (sminus nd1 ?seen) \<union> (set seen' - set ?seen)"
      using Suc.IH [OF s1(2)] round_inv [OF s1(1) Suc.prems(2)] by blast
    moreover have "visited s1 = visited s \<union> set nd" using round_visited [OF s1(1) Suc.prems(2)] .
    moreover have "set ?seen \<union> set (sminus nd1 ?seen) \<subseteq> set seen'" by (rule rounds_grow [OF s1(2)])
    ultimately show ?thesis by auto
  qed
qed

end

section \<open>What generate_dependencies finds\<close>

definition dep_succs :: "(string \<Rightarrow> (string list \<times> string option) res) \<Rightarrow> string \<Rightarrow> string set" where
  "dep_succs build v = (case build v of Inl e \<Rightarrow> {} | Inr (ds, value) \<Rightarrow> set ds)"

definition stored :: "(string \<Rightarrow> (string list \<times> string option) res) \<Rightarrow> deptables \<Rightarrow> bool" where
  "stored build t \<longleftrightarrow>
     (\<forall>v ds. dget (fst t) v = Some ds \<longrightarrow> (\<exists>value. build v = Inr (ds, value) \<and> dget (snd t) v = Some value))"

abbreviation have_deps :: "deptables \<Rightarrow> string set" where
  "have_deps t \<equiv> set (dkeys (fst t))"

lemma store_stored:
  assumes "stored build t" "store_dependencies build v t = Inr (ds, t')"
  shows "stored build t' \<and> set ds = dep_succs build v \<and> have_deps t' = insert v (have_deps t)"
  using assms by (auto simp: store_dependencies_def stored_def dep_succs_def res_simps)

lemma var_step_stored:
  assumes "stored build t" "var_step build v t = Inr (ds, t')"
  shows "stored build t' \<and> set ds = dep_succs build v \<and> have_deps t' = insert v (have_deps t)"
proof (cases "dget (fst t) v")
  case None
  then show ?thesis using assms store_stored by (simp add: var_step_def)
next
  case (Some ds')
  then obtain w where "build v = Inr (ds', w)" using assms(1) by (auto simp: stored_def)
  moreover have "v \<in> have_deps t" using Some by (rule dget_SomeD)
  ultimately show ?thesis using assms Some by (auto simp: var_step_def dep_succs_def)
qed

interpretation gd: dep_rounds_done "var_step build" "dep_succs build" "stored build" have_deps for build
  using var_step_stored by unfold_locales blast+

text \<open>The tables as they are between two tasks: every name that occurs in them has an entry.\<close>

definition closed_tables :: "(string \<Rightarrow> (string list \<times> string option) res) \<Rightarrow> deptables \<Rightarrow> bool" where
  "closed_tables build t \<longleftrightarrow> stored build t \<and> (\<forall>v \<in> have_deps t. dep_succs build v \<subseteq> have_deps t)"

lemma task_dependencies_closed:
  assumes "closed_tables build t" "task_dependencies build fuel task t = Inr t'"
  shows "closed_tables build t' \<and>
    have_deps t' = have_deps t \<union> (gd.rel build)\<^sup>* `` {task}"
proof -
  obtain nd t1 seen where t1: "store_dependencies build task t = Inr (nd, t1)"
    "rounds (var_step build) fuel nd [] t1 = Inr (seen, t')"
    using assms(2) by (auto simp: task_dependencies_def res_simps)
  have s: "stored build t1" "set nd = dep_succs build task" "have_deps t1 = insert task (have_deps t)"
    using store_stored [OF _ t1(1)] assms(1) by (auto simp: closed_tables_def)
  have v: "stored build t' \<and> set seen = (gd.rel build)\<^sup>* `` set nd \<and> (\<forall>v \<in> set seen. dep_succs build v \<subseteq> set seen)"
    using gd.rounds_visit [OF t1(2) s(1)] by (metis empty_iff empty_set sup_bot_left)
  have seen: "set seen = (gd.rel build)\<^sup>* `` set nd" "\<forall>v \<in> set seen. dep_succs build v \<subseteq> set seen" "stored build t'"
    using v by (blast, blast, blast)
  have keys: "have_deps t' = insert task (have_deps t) \<union> set seen"
    using gd.rounds_visited [OF t1(2) s(1)] rounds_grow [OF t1(2)] s(3) by auto
  have new: "dep_succs build task \<subseteq> set seen" using seen(1) s(2) by auto
  have old: "\<forall>v \<in> have_deps t. dep_succs build v \<subseteq> have_deps t" using assms(1) by (simp add: closed_tables_def)
  have "dep_succs build v \<subseteq> have_deps t'" if "v \<in> have_deps t'" for v
  proof -
    consider "v = task" | "v \<in> have_deps t" | "v \<in> set seen" using \<open>v \<in> have_deps t'\<close> keys by blast
    then show ?thesis using new old seen(2) unfolding keys by cases blast+
  qed
  then have "closed_tables build t'" using seen(3) by (simp add: closed_tables_def)
  moreover have "(gd.rel build)\<^sup>* `` {task} = insert task (set seen)"
    unfolding seen(1) s(2) by (subst reach_step) (simp add: gd.rel_def Image_def)
  ultimately show ?thesis using keys by blast
qed

lemma tasks_dependencies_closed:
  "rfold (task_dependencies build fuel) tasks t = Inr t' \<Longrightarrow> closed_tables build t \<Longrightarrow>
     closed_tables build t' \<and> have_deps t' = have_deps t \<union> (gd.rel build)\<^sup>* `` set tasks"
proof (induction tasks arbitrary: t)
  case Nil
  then show ?case by simp
next
  case (Cons task tasks)
  then obtain u where u: "task_dependencies build fuel task t = Inr u" "rfold (task_dependencies build fuel) tasks u = Inr t'"
    by (auto elim: rbind_InrE)
  have "(gd.rel build)\<^sup>* `` set (task # tasks) = (gd.rel build)\<^sup>* `` {task} \<union> (gd.rel build)\<^sup>* `` set tasks"
    by auto
  then show ?case
    using Cons.IH [OF u(2)] task_dependencies_closed [OF Cons.prems(2) u(1)] by (metis Un_assoc)
qed

lemma task_dependencies_total:
  assumes "finite U" "\<And>v. v \<in> U \<Longrightarrow> dep_succs build v \<subseteq> U" "card U < fuel" "task \<in> U" "stored build t"
  shows "(\<exists>t'. task_dependencies build fuel task t = Inr t' \<and> stored build t') \<or>
    (\<exists>v \<in> U. \<exists>e. build v = Inl e \<and> task_dependencies build fuel task t = Inl e)"
proof (cases "build task")
  case (Inl e)
  then show ?thesis using assms(4) by (auto simp: task_dependencies_def store_dependencies_def)
next
  case (Inr p)
  then obtain nd t1 where t1: "store_dependencies build task t = Inr (nd, t1)"
    by (cases p) (simp add: store_dependencies_def)
  have s: "stored build t1" "set nd = dep_succs build task" using store_stored [OF assms(5) t1] by auto
  have step: "\<exists>v \<in> U. build v = Inl e" if "v \<in> U" "var_step build v u = Inl e" for v u e
    using that by (auto simp: var_step_def store_dependencies_def rbind_Inl_iff split: option.splits)
  have run: "task_dependencies build fuel task t = rbind (rounds (var_step build) fuel nd [] t1) (\<lambda>(seen, t). Inr t)"
    using t1 by (simp add: task_dependencies_def)
  have "set nd \<subseteq> U" "card (U - set []) < fuel" using s(2) assms(2-4) by auto
  then consider seen t2 where "rounds (var_step build) fuel nd [] t1 = Inr (seen, t2)"
    | v u e where "v \<in> U" "var_step build v u = Inl e" "rounds (var_step build) fuel nd [] t1 = Inl e"
    using gd.rounds_total [OF assms(1,2) s(1), of nd "[]" fuel] by auto
  then show ?thesis
  proof cases
    case 1
    then show ?thesis using run gd.rounds_visit [OF 1 s(1)] by simp
  next
    case 2
    then show ?thesis using run step [OF 2(1,2)] by auto
  qed
qed

lemma tasks_dependencies_total:
  assumes "finite U" "\<And>v. v \<in> U \<Longrightarrow> dep_succs build v \<subseteq> U" "card U < fuel"
  shows "set tasks \<subseteq> U \<Longrightarrow> stored build t \<Longrightarrow>
    (\<exists>t'. rfold (task_dependencies build fuel) tasks t = Inr t') \<or>
    (\<exists>v \<in> U. \<exists>e. build v = Inl e \<and> rfold (task_dependencies build fuel) tasks t = Inl e)"
proof (induction tasks arbitrary: t)
  case Nil
  then show ?case by simp
next
  case (Cons task tasks)
  from task_dependencies_total [OF assms, of task t] Cons.prems
  consider t1 where "task_dependencies build fuel task t = Inr t1" "stored build t1"
    | v e where "v \<in> U" "build v = Inl e" "task_dependencies build fuel task t = Inl e"
    by auto
  then show ?case
  proof cases
    case 1
    then show ?thesis using Cons.IH [of t1] Cons.prems(1) by simp
  next
    case 2
    then show ?thesis by auto
  qed
qed

text \<open>The references between variables, as the single variables have them.\<close>

definition var_edges :: "(string \<Rightarrow> (string list \<times> string option) res) \<Rightarrow> (string \<times> string) set" where
  "var_edges build = {(a, b). b \<in> dep_succs build a}"

lemma rel_var_edges: "gd.rel build = var_edges build"
  by (simp add: gd.rel_def var_edges_def)

definition task_names :: "datastore \<Rightarrow> string list" where
  "task_names d = (case ds_tasks d of None \<Rightarrow> [] | Some ts \<Rightarrow> ts)"

text \<open>
  C19.  If the names in a recipe are finitely many, \<open>generate_dependencies\<close> ends.  It raises only what one
  of the variables raises; otherwise the tables have exactly the variables that the tasks reach, each
  with its own dependencies and value, and everything mentioned in the tables has an entry.
\<close>
theorem generate_dependencies_complete:
  assumes "finite U" "set (task_names d) \<subseteq> U" "\<And>v. v \<in> U \<Longrightarrow> dep_succs (build_for d) v \<subseteq> U" "card U < fuel"
  shows "case generate_dependencies fuel d of
      Inl e \<Rightarrow> \<exists>v \<in> U. build_for d v = Inl e
    | Inr (tasklist, dtab, vtab) \<Rightarrow>
        tasklist = task_names d \<and> set (dkeys dtab) = (var_edges (build_for d))\<^sup>* `` set tasklist \<and>
        (\<forall>v \<in> set (dkeys dtab). \<exists>ds w. build_for d v = Inr (ds, w) \<and> dget dtab v = Some ds \<and> dget vtab v = Some w \<and>
           set ds \<subseteq> set (dkeys dtab))"
proof -
  have init: "closed_tables (build_for d) ([], [])" by (simp add: closed_tables_def stored_def)
  then have "stored (build_for d) ([], [])" by (simp add: closed_tables_def)
  from tasks_dependencies_total [OF assms(1,3,4,2) this]
  consider t where "rfold (task_dependencies (build_for d) fuel) (task_names d) ([], []) = Inr t"
    | v e where "v \<in> U" "build_for d v = Inl e" "rfold (task_dependencies (build_for d) fuel) (task_names d) ([], []) = Inl e"
    by blast
  then show ?thesis
  proof cases
    case 1
    obtain dtab vtab where t: "t = (dtab, vtab)" by (cases t)
    note c = tasks_dependencies_closed [OF 1 init]
    then have st: "stored (build_for d) (dtab, vtab)" and
      cl: "\<forall>v \<in> set (dkeys dtab). dep_succs (build_for d) v \<subseteq> set (dkeys dtab)"
      unfolding closed_tables_def t fst_conv by blast+
    have "\<exists>ds w. build_for d v = Inr (ds, w) \<and> dget dtab v = Some ds \<and> dget vtab v = Some w \<and> set ds \<subseteq> set (dkeys dtab)"
      if v: "v \<in> set (dkeys dtab)" for v
    proof -
      obtain ds where ds: "dget dtab v = Some ds" using v by (rule dget_keyE)
      moreover obtain w where w: "build_for d v = Inr (ds, w)" "dget vtab v = Some w"
        using st [unfolded stored_def] ds by fastforce
      moreover have "dep_succs (build_for d) v \<subseteq> set (dkeys dtab)"
        using cl v by blast
      ultimately show ?thesis by (auto simp: dep_succs_def)
    qed
    moreover have "set (dkeys dtab) = (var_edges (build_for d))\<^sup>* `` set (task_names d)"
      using c unfolding t rel_var_edges by simp
    ultimately show ?thesis using 1 by (simp add: generate_dependencies_def task_names_def t)
  next
    case 2
    then show ?thesis by (auto simp: generate_dependencies_def task_names_def)
  qed
qed

definition example_ds :: datastore where
  "example_ds =
     \<lparr>ds_keys = [''do_x'', ''A'', ''B''],
      ds_var = (\<lambda>k _. if k = ''do_x'' then Some ''run A'' else if k = ''A'' then Some ''${B}'' else None),
      ds_flag = (\<lambda>_ _. None), ds_flags = (\<lambda>_. []),
      ds_expand = (\<lambda>v k. Inr \<lparr>p_value = [], p_references = (if k = ''do_x'' then [''A''] else if k = ''A'' then [''B''] else []),
                              p_execs = [], p_contains = []\<rparr>),
      ds_python = (\<lambda>_ _. Inl OSError), ds_shell = (\<lambda>_ _. Inr []), ds_exportlist = [], ds_tasks = Some [''do_x'']\<rparr>"

lemma build_example:
  "build_for example_ds ''do_x'' = Inr ([''A''], Some ''run A'')"
  "build_for example_ds ''A'' = Inr ([''B''], Some ''${B}'')"
  "build_for example_ds ''B'' = Inr ([], None)"
  by code_simp+

lemma generate_dependencies_complete_witness:
  "let U = {''do_x'', ''A'', ''B''}
   in finite U \<and> set (task_names example_ds) \<subseteq> U \<and> (\<forall>v \<in> U. dep_succs (build_for example_ds) v \<subseteq> U) \<and> card U < 4 \<and>
      (case generate_dependencies 4 example_ds of
         Inl e \<Rightarrow> \<exists>v \<in> U. build_for example_ds v = Inl e
       | Inr (tasklist, dtab, vtab) \<Rightarrow>
           tasklist = task_names example_ds \<and>
           set (dkeys dtab) = (var_edges (build_for example_ds))\<^sup>* `` set tasklist \<and>
           (\<forall>v \<in> set (dkeys dtab). \<exists>ds w. build_for example_ds v = Inr (ds, w) \<and> dget dtab v = Some ds \<and>
              dget vtab v = Some w \<and> set ds \<subseteq> set (dkeys dtab)))"
proof -
  let ?U = "{''do_x'', ''A'', ''B''}"
  have h: "finite ?U" "set (task_names example_ds) \<subseteq> ?U" "\<And>v. v \<in> ?U \<Longrightarrow> dep_succs (build_for example_ds) v \<subseteq> ?U" "card ?U < 4"
    by (auto simp: task_names_def dep_succs_def build_example) (simp_all add: example_ds_def)
  show ?thesis using generate_dependencies_complete [OF h] h by simp
qed

end
