(* ===== verification/SigGen.thy ===== *)
theory SigGen
  imports VarDeps Checksums
begin

text \<open>
  Signatures of tasks, \<open>bitbake/lib/bb/siggen.py\<close>: \<open>SignatureGenerator\<close>,
  \<open>SignatureGeneratorBasic\<close> and \<open>SignatureGeneratorBasicHash\<close>.  The base hash of a task covers the
  variables its function depends on; its task hash adds the hashes of the tasks it depends on, the
  checksums of local files and taints.

  MD5, the files, the taint files and fresh identifiers are the record \<open>sigenv\<close>.  Exceptions end the
  program, so the state is not kept when one is raised.  Messages are left out, except those that report
  a mismatch, and so is writing the signature file: \<open>dump_sigtask\<close> returns what it would write.
\<close>

section \<open>State\<close>

text \<open>
  \<open>sg_twl\<close> is the search with the compiled \<open>BB_HASHTASK_WHITELIST\<close>, \<open>sg_checksums\<close> the checksum cache,
  be it the one of this object or that of the fetcher.
\<close>

record siggen =
  sg_basehash :: "(string, string) dict"
  sg_taskhash :: "(string, string) dict"
  sg_taskdeps :: "(string, (string, string list) dict) dict"
  sg_runtaskdeps :: "(string, string list) dict"
  sg_file_checksum_values :: "(string, (string \<times> string) list) dict"
  sg_taints :: "(string, string) dict"
  sg_gendeps :: "(string, (string, string list) dict) dict"
  sg_lookupcache :: "(string, (string, string option) dict) dict"
  sg_basewhitelist :: "string list"
  sg_taskwhitelist :: "string option"
  sg_twl :: "(string \<Rightarrow> bool) option"
  sg_checksums :: checksum_cache

record sigenv =
  se_md5 :: "string \<Rightarrow> string"
  se_fs :: filesystem
  se_taint :: "string \<Rightarrow> string option"
  se_uuid :: "string \<Rightarrow> string"

definition sigkey :: "string \<Rightarrow> string \<Rightarrow> string" where
  "sigkey fn task = fn @ ''.'' @ task"

definition siggen_init ::
  "string option \<Rightarrow> string option \<Rightarrow> (string \<Rightarrow> string \<Rightarrow> bool) \<Rightarrow> checksum_cache \<Rightarrow> siggen" where
  "siggen_init basewl taskwl search checksums =
     (let taskwl = (if flag_set taskwl then taskwl else None)
      in \<lparr>sg_basehash = [], sg_taskhash = [], sg_taskdeps = [], sg_runtaskdeps = [], sg_file_checksum_values = [],
          sg_taints = [], sg_gendeps = [], sg_lookupcache = [],
          sg_basewhitelist = remdups (split_ws (or_empty basewl)), sg_taskwhitelist = taskwl,
          sg_twl = map_option search taskwl, sg_checksums = checksums\<rparr>)"

section \<open>Base hashes\<close>

text \<open>One name of the loop: the white list is taken out of its dependencies for good.\<close>

definition white_step :: "string list \<Rightarrow> string \<Rightarrow> (string, string list) dict \<Rightarrow> (string list \<times> (string, string list) dict) res" where
  "white_step wl dep g =
     (if dep \<in> set wl then Inr ([], g)
      else rbind (dlookup g dep) (\<lambda>ds. let ds = sminus ds wl in Inr (ds, dset dep ds g)))"

definition append_var :: "(string, string option) dict \<Rightarrow> string \<Rightarrow> string \<Rightarrow> string res" where
  "append_var lookup dep data = rbind (dlookup lookup dep) (\<lambda>var. Inr (data @ dep @ or_empty var))"

definition base_data :: "(string, string option) dict \<Rightarrow> string \<Rightarrow> string list \<Rightarrow> string res" where
  "base_data lookup task alldeps =
     rbind (dlookup lookup task) (\<lambda>data. rfold (append_var lookup) alldeps (or_empty data))"

type_synonym basest = "(string, string list) dict \<times> (string, string) dict \<times> (string, string list) dict"

text \<open>One task; the state holds \<open>gendeps\<close>, \<open>self.basehash\<close> and \<open>taskdeps\<close>.\<close>

definition base_task ::
  "(string \<Rightarrow> string) \<Rightarrow> string list \<Rightarrow> (string, string option) dict \<Rightarrow> string \<Rightarrow> string \<Rightarrow> basest \<Rightarrow> basest res" where
  "base_task md5 wl lookup fn task st =
     (case st of (g, basehash, taskdeps) \<Rightarrow>
        rbind (dlookup lookup task) (\<lambda>_.
        rbind (dlookup g task) (\<lambda>ds.
          let newdeps = sminus ds wl; g = dset task newdeps g
          in rbind (rounds (white_step wl) (Suc (length g)) newdeps [] g) (\<lambda>(seen, g).
               let alldeps = sort seen
               in rbind (base_data lookup task alldeps) (\<lambda>data.
                    Inr (g, dset (sigkey fn task) (md5 data) basehash, dset task alldeps taskdeps))))))"

definition build_data ::
  "(string \<Rightarrow> string) \<Rightarrow> nat \<Rightarrow> string \<Rightarrow> datastore \<Rightarrow> siggen \<Rightarrow> (siggen \<times> (string, string list) dict) res" where
  "build_data md5 fuel fn d sg =
     rbind (generate_dependencies fuel d) (\<lambda>(tasklist, gendeps, lookup).
     rbind (rfold (base_task md5 (sg_basewhitelist sg) lookup fn) tasklist (gendeps, sg_basehash sg, []))
       (\<lambda>(gendeps, basehash, taskdeps).
         Inr (sg\<lparr>sg_basehash := basehash, sg_taskdeps := dset fn taskdeps (sg_taskdeps sg),
                 sg_gendeps := dset fn gendeps (sg_gendeps sg), sg_lookupcache := dset fn lookup (sg_lookupcache sg)\<rparr>,
              taskdeps)))"

text \<open>\<open>finalise\<close>, with the variables it sets in the datastore.\<close>

definition finalise ::
  "(string \<Rightarrow> string) \<Rightarrow> nat \<Rightarrow> string \<Rightarrow> datastore \<Rightarrow> string \<Rightarrow> siggen \<Rightarrow> (siggen \<times> (string \<times> string) list) res" where
  "finalise md5 fuel fn d variant sg =
     (let mc = or_empty (ds_var d ''__BBMULTICONFIG'' False);
          fn = (if variant \<noteq> [] \<or> mc \<noteq> [] then realfn2virtual fn variant mc else fn)
      in rbind (build_data md5 fuel fn d sg) (\<lambda>(sg, taskdeps).
         rbind (rmap (\<lambda>task. rbind (dlookup (sg_basehash sg) (sigkey fn task)) (\<lambda>h.
                  Inr (''BB_BASEHASH_task-'' @ task, h))) (dkeys taskdeps)) (\<lambda>vars.
           Inr (sg, vars))))"

section \<open>Task hashes\<close>

text \<open>\<open>a.rsplit('/', 2)\<close> when it has three parts.\<close>

definition clean_basepath :: "string \<Rightarrow> string res" where
  "clean_basepath a =
     rbind (if startswith a mc_prefix then
              (case split_on colon a of
                 _ # mc # x # xs \<Rightarrow> Inr (mc, join_with [colon] (x # xs))
               | _ \<Rightarrow> Inl ValueError)
            else Inr ([], a)) (\<lambda>(mc, a).
     case rsplit1 (CHR ''/'') a of
       None \<Rightarrow> Inl IndexError
     | Some (u, file) \<Rightarrow> (case rsplit1 (CHR ''/'') u of
         None \<Rightarrow> Inl IndexError
       | Some (v, dir) \<Rightarrow>
           let b = dir @ file;
               b = (if startswith a virtual_prefix
                    then b @ '':'' @ (case rsplit1 colon a of None \<Rightarrow> a | Some (p, _) \<Rightarrow> p) else b)
           in Inr (if mc \<noteq> [] then b @ '':multiconfig:'' @ mc else b)))"

text \<open>\<open>sorted(deps, key=clean_basepath)\<close>.\<close>

definition sort_deps :: "string list \<Rightarrow> string list res" where
  "sort_deps ds = rbind (rmap (\<lambda>d. rbind (clean_basepath d) (\<lambda>k. Inr (k, d))) ds) (\<lambda>ps. Inr (map snd (sort_key fst ps)))"

text \<open>\<open>self.pkgnameextract.search(dep).group('fn')\<close> for \<open>(?P<fn>.*)\..*\<close>: in the first line that has a dot, what is before its last one.\<close>

definition pkgnameextract :: "string \<Rightarrow> string res" where
  "pkgnameextract dep =
     (case filter (\<lambda>l. CHR ''.'' \<in> set l) (split_on CHR 0x0A dep) of
        [] \<Rightarrow> Inl AttributeError
      | l # _ \<Rightarrow> (case rsplit1 CHR ''.'' l of None \<Rightarrow> Inl AttributeError | Some (fn, _) \<Rightarrow> Inr fn))"

definition rundep_check :: "siggen \<Rightarrow> string \<Rightarrow> string \<Rightarrow> bool" where
  "rundep_check sg recipename depname =
     (case sg_twl sg of None \<Rightarrow> True | Some search \<Rightarrow> search recipename \<or> \<not> search depname)"

text \<open>One dependency; the state is \<open>data\<close> and \<open>self.runtaskdeps[k]\<close>.\<close>

definition dep_hash :: "siggen \<Rightarrow> cachedata \<Rightarrow> string \<Rightarrow> string \<Rightarrow> string \<times> string list \<Rightarrow> (string \<times> string list) res" where
  "dep_hash sg dc recipename dep st =
     rbind (pkgnameextract dep) (\<lambda>f.
     rbind (dlookup (c_pkg_fn dc) f) (\<lambda>depname.
       if \<not> rundep_check sg recipename depname then Inr st
       else (case dget (sg_taskhash sg) dep of
               None \<Rightarrow> Inl Fatal
             | Some h \<Rightarrow> Inr (fst st @ h, snd st @ [dep]))))"

definition task_checksums :: "sigenv \<Rightarrow> cachedata \<Rightarrow> string \<Rightarrow> string \<Rightarrow> checksum_cache \<Rightarrow> (sums \<times> checksum_cache) res" where
  "task_checksums env dc fn task k =
     rbind (dlookup (c_file_checksums dc) fn) (\<lambda>m.
       case dget m task of
         None \<Rightarrow> Inr ([], k)
       | Some None \<Rightarrow> Inl AttributeError
       | Some (Some filelist) \<Rightarrow> fcc_get_checksums (se_fs env) filelist k)"

definition read_taint :: "sigenv \<Rightarrow> string \<Rightarrow> string \<Rightarrow> string option" where
  "read_taint env task stampbase = se_taint env (stampbase @ ''.'' @ task @ ''.taint'')"

text \<open>The taint of a task marked \<open>nostamp\<close>, and that of a taint file, with what they add to \<open>data\<close>.\<close>

definition nostamp_taint :: "sigenv \<Rightarrow> bool \<Rightarrow> string \<Rightarrow> string \<times> (string, string) dict \<Rightarrow> string \<times> (string, string) dict" where
  "nostamp_taint env nostamp k st =
     (if nostamp then (fst st @ se_uuid env k, dset k (''nostamp:'' @ se_uuid env k) (snd st)) else st)"

definition file_taint :: "string option \<Rightarrow> string \<Rightarrow> string \<times> (string, string) dict \<Rightarrow> string \<times> (string, string) dict" where
  "file_taint taint k st = (if flag_set taint then (fst st @ or_empty taint, dset k (or_empty taint) (snd st)) else st)"

text \<open>The end of \<open>get_taskhash\<close>: taints, the hash, and what is recorded for the task.\<close>

definition record_taskhash ::
  "sigenv \<Rightarrow> string \<Rightarrow> bool \<Rightarrow> string option \<Rightarrow> string \<Rightarrow> string list \<Rightarrow> sums \<Rightarrow> checksum_cache \<Rightarrow> string \<Rightarrow> siggen \<Rightarrow>
   siggen \<times> string" where
  "record_taskhash env k nostamp taint base kept checksums cache data sg =
     (let (data, taints) =
            file_taint taint k (nostamp_taint env nostamp k (data @ concat (map snd checksums), sg_taints sg));
          h = se_md5 env data
      in (sg\<lparr>sg_basehash := dset k base (sg_basehash sg), sg_runtaskdeps := dset k kept (sg_runtaskdeps sg),
             sg_file_checksum_values := dset k checksums (sg_file_checksum_values sg), sg_taints := taints,
             sg_checksums := cache, sg_taskhash := dset k h (sg_taskhash sg)\<rparr>, h))"

definition get_taskhash :: "sigenv \<Rightarrow> string \<Rightarrow> string \<Rightarrow> string list \<Rightarrow> cachedata \<Rightarrow> siggen \<Rightarrow> (siggen \<times> string) res" where
  "get_taskhash env fn task ds dc sg =
     (let k = sigkey fn task
      in rbind (dlookup (c_basetaskhash dc) k) (\<lambda>base.
         rbind (dlookup (c_pkg_fn dc) fn) (\<lambda>recipename.
         rbind (sort_deps ds) (\<lambda>ds.
         rbind (rfold (dep_hash sg dc recipename) ds (base, [])) (\<lambda>(data, kept).
         rbind (task_checksums env dc fn task (sg_checksums sg)) (\<lambda>(checksums, cache).
         rbind (dlookup (c_task_deps dc) fn) (\<lambda>taskdep.
         rbind (dlookup (c_stamp dc) fn) (\<lambda>stampbase.
           Inr (record_taskhash env k (task_flag taskdep ''nostamp'' task \<noteq> None) (read_taint env task stampbase)
                  base kept checksums cache data sg)))))))))"

text \<open>The handler \<open>noop\<close>, and what is passed to the workers.\<close>

definition noop_get_taskhash :: "string \<Rightarrow> string \<Rightarrow> string list \<Rightarrow> cachedata \<Rightarrow> 'g \<Rightarrow> ('g \<times> string) res" where
  "noop_get_taskhash fn task ds dc g = Inr (g, ''0'')"

type_synonym taskdata_tuple =
  "(string, string list) dict \<times> (string, string) dict \<times> (string, (string \<times> string) list) dict \<times> (string, string) dict \<times> (string, string) dict"

definition get_taskdata :: "siggen \<Rightarrow> taskdata_tuple" where
  "get_taskdata sg = (sg_runtaskdeps sg, sg_taskhash sg, sg_file_checksum_values sg, sg_taints sg, sg_basehash sg)"

definition set_taskdata :: "taskdata_tuple \<Rightarrow> siggen \<Rightarrow> siggen" where
  "set_taskdata t sg = (case t of (r, h, f, ta, b) \<Rightarrow>
     sg\<lparr>sg_runtaskdeps := r, sg_taskhash := h, sg_file_checksum_values := f, sg_taints := ta, sg_basehash := b\<rparr>)"

text \<open>\<open>SignatureGeneratorBasicHash.stampfile\<close>: the hash is part of the name of the stamp.\<close>

definition hash_stampfile :: "siggen \<Rightarrow> bool \<Rightarrow> signame" where
  "hash_stampfile sg clean stampbase fn taskname extrainfo =
     (let k = sigkey fn (if taskname \<noteq> ''do_setscene'' \<and> endswith taskname ''_setscene''
                         then take (length taskname - 9) taskname else taskname)
      in rbind (if clean then Inr ''*''
                else (case dget (sg_taskhash sg) k of Some h \<Rightarrow> Inr h | None \<Rightarrow> dlookup (sg_basehash sg) k)) (\<lambda>h.
           Inr (rstrip_by (\<lambda>c. c = CHR ''.'') (stampbase @ ''.'' @ taskname @ ''.'' @ h @ ''.'' @ extrainfo))))"

definition hash_stampcleanmask :: "siggen \<Rightarrow> signame" where
  "hash_stampcleanmask sg stampbase fn taskname extrainfo = hash_stampfile sg True stampbase fn taskname extrainfo"

section \<open>Signature files\<close>

text \<open>What a signature file holds; \<open>sd_run\<close> are the entries for a task whose hash is known.\<close>

record sigrun =
  sr_runtaskdeps :: "string list"
  sr_file_checksum_values :: "(string \<times> string) list"
  sr_runtaskhashes :: "(string, string) dict"
  sr_taskhash :: string

record sigdata =
  sd_task :: string
  sd_basewhitelist :: "string list"
  sd_taskwhitelist :: "string option"
  sd_taskdeps :: "string list"
  sd_basehash :: string
  sd_gendeps :: "(string, string list) dict"
  sd_varvals :: "(string, string option) dict"
  sd_run :: "sigrun option"
  sd_taint :: "string option"

definition calc_basehash :: "(string \<Rightarrow> string) \<Rightarrow> sigdata \<Rightarrow> string res" where
  "calc_basehash md5 sd = rbind (base_data (sd_varvals sd) (sd_task sd) (sd_taskdeps sd)) (\<lambda>data. Inr (md5 data))"

definition calc_taskhash :: "(string \<Rightarrow> string) \<Rightarrow> sigdata \<Rightarrow> string res" where
  "calc_taskhash md5 sd =
     (case sd_run sd of
        None \<Rightarrow> Inl KeyError
      | Some r \<Rightarrow>
          rbind (rfold (\<lambda>dep data. rbind (dlookup (sr_runtaskhashes r) dep) (\<lambda>h. Inr (data @ h)))
                   (sr_runtaskdeps r) (sd_basehash sd)) (\<lambda>data.
            let data = data @ concat (map snd (sr_file_checksum_values r))
            in Inr (md5 (case sd_taint sd of
                 None \<Rightarrow> data
               | Some t \<Rightarrow> if py_contains ''nostamp:'' t then data @ drop 8 t else data @ t))))"

text \<open>The parameter \<open>runtime\<close> is a boolean or a string.\<close>

datatype dumpmode = DumpRuntime bool | DumpString string

definition dump_runtime :: "dumpmode \<Rightarrow> bool" where
  "dump_runtime m = (case m of DumpRuntime b \<Rightarrow> b | DumpString s \<Rightarrow> s \<noteq> [])"

definition sigfile_name :: "siggen \<Rightarrow> string \<Rightarrow> string \<Rightarrow> string \<Rightarrow> dumpmode \<Rightarrow> (string \<times> string) res" where
  "sigfile_name sg k task stampbase m =
     (let plain = (if dump_runtime m \<and> dget (sg_taskhash sg) k \<noteq> None
            then Inr (stampbase @ ''.'' @ task @ ''.sigdata.'' @ dgetd (sg_taskhash sg) k [], stampbase)
            else rbind (dlookup (sg_basehash sg) k) (\<lambda>h. Inr (stampbase @ ''.'' @ task @ ''.sigbasedata.'' @ h, stampbase)))
      in case m of
           DumpString s \<Rightarrow> if startswith s ''customfile'' then Inr (stampbase, drop 11 s) else plain
         | DumpRuntime b \<Rightarrow> plain)"

text \<open>\<open>gendeps\<close> and \<open>varvals\<close> of the variables the task depends on.\<close>

definition dump_var ::
  "siggen \<Rightarrow> (string, string list) dict \<Rightarrow> (string, string option) dict \<Rightarrow> string \<Rightarrow>
   (string, string list) dict \<times> (string, string option) dict \<Rightarrow>
   ((string, string list) dict \<times> (string, string option) dict) res" where
  "dump_var sg gendeps lookup dep st =
     (if dep \<in> set (sg_basewhitelist sg) then Inr st
      else rbind (dlookup gendeps dep) (\<lambda>ds. rbind (dlookup lookup dep) (\<lambda>v.
             Inr (dset dep ds (fst st), dset dep v (snd st)))))"

definition dump_run :: "siggen \<Rightarrow> string \<Rightarrow> string \<Rightarrow> sigrun res" where
  "dump_run sg k taskhash =
     rbind (dlookup (sg_runtaskdeps sg) k) (\<lambda>rdeps.
     rbind (dlookup (sg_file_checksum_values sg) k) (\<lambda>fcv.
     rbind (rfold (\<lambda>dep m. rbind (dlookup (sg_taskhash sg) dep) (\<lambda>h. Inr (dset dep h m))) rdeps []) (\<lambda>hashes.
       Inr \<lparr>sr_runtaskdeps = rdeps, sr_file_checksum_values = map (\<lambda>(f, cs). (py_basename f, cs)) fcv,
            sr_runtaskhashes = hashes, sr_taskhash = taskhash\<rparr>)))"

definition dump_taint :: "sigenv \<Rightarrow> siggen \<Rightarrow> string \<Rightarrow> string \<Rightarrow> string \<Rightarrow> bool \<Rightarrow> string option" where
  "dump_taint env sg k task referencestamp runtime =
     (let taint = read_taint env task referencestamp;
          taint = (if flag_set taint then taint else None)
      in case dget (sg_taints sg) k of
           Some t \<Rightarrow> if runtime \<and> py_contains ''nostamp:'' t then Some t else taint
         | None \<Rightarrow> taint)"

definition dump_data :: "sigenv \<Rightarrow> siggen \<Rightarrow> string \<Rightarrow> string \<Rightarrow> string \<Rightarrow> bool \<Rightarrow> sigdata res" where
  "dump_data env sg fn task referencestamp runtime =
     (let k = sigkey fn task
      in rbind (dlookup (sg_taskdeps sg) fn) (\<lambda>m. rbind (dlookup m task) (\<lambda>alldeps.
         rbind (dlookup (sg_basehash sg) k) (\<lambda>basehash.
         rbind (dlookup (sg_lookupcache sg) fn) (\<lambda>lookup. rbind (dlookup lookup task) (\<lambda>v.
         rbind (dlookup (sg_gendeps sg) fn) (\<lambda>gendeps.
         rbind (rfold (dump_var sg gendeps lookup) alldeps ([], [(task, v)])) (\<lambda>(gd, vv).
         rbind (case dget (sg_taskhash sg) k of
                  Some h \<Rightarrow> if runtime then rbind (dump_run sg k h) (\<lambda>r. Inr (Some r)) else Inr None
                | None \<Rightarrow> Inr None) (\<lambda>run.
           Inr \<lparr>sd_task = task, sd_basewhitelist = sg_basewhitelist sg, sd_taskwhitelist = sg_taskwhitelist sg,
                sd_taskdeps = alldeps, sd_basehash = basehash, sd_gendeps = gd, sd_varvals = vv, sd_run = run,
                sd_taint = dump_taint env sg k task referencestamp runtime\<rparr>)))))))))"

text \<open>
  \<open>dump_sigtask\<close>: the name of the file, its contents, and whether it reports that the base hash or the
  task hash is not the one computed from the contents.
\<close>

definition dump_sigtask ::
  "sigenv \<Rightarrow> siggen \<Rightarrow> string \<Rightarrow> string \<Rightarrow> string \<Rightarrow> dumpmode \<Rightarrow> (string \<times> sigdata \<times> bool \<times> bool) res" where
  "dump_sigtask env sg fn task stampbase m =
     rbind (sigfile_name sg (sigkey fn task) task stampbase m) (\<lambda>(sigfile, referencestamp).
     rbind (dump_data env sg fn task referencestamp (dump_runtime m)) (\<lambda>data.
     rbind (calc_basehash (se_md5 env) data) (\<lambda>computed_basehash.
       case sd_run data of
         None \<Rightarrow> Inr (sigfile, data, computed_basehash \<noteq> sd_basehash data, False)
       | Some r \<Rightarrow>
           rbind (calc_taskhash (se_md5 env) data) (\<lambda>computed_taskhash.
             Inr (if computed_taskhash \<noteq> sr_taskhash r then py_replace (sr_taskhash r) computed_taskhash sigfile else sigfile,
                  data, computed_basehash \<noteq> sd_basehash data, computed_taskhash \<noteq> sr_taskhash r)))))"

text \<open>
  \<open>dump_sigs\<close>: the signature files of all tasks whose hash is known, and for each whether the base hash in
  the cache is another one than that of the generator.
\<close>

definition dump_sig ::
  "sigenv \<Rightarrow> (string, cachedata) dict \<Rightarrow> siggen \<Rightarrow> string \<Rightarrow> string \<Rightarrow>
   (bool \<times> string \<times> sigdata \<times> bool \<times> bool) list \<Rightarrow> (bool \<times> string \<times> sigdata \<times> bool \<times> bool) list res" where
  "dump_sig env dcs sg fn task acc =
     rbind (split_tid (fn @ [colon] @ task)) (\<lambda>(mc, _, _).
       let k = sigkey fn task
       in if dget (sg_taskhash sg) k = None then Inr acc
          else rbind (dlookup dcs mc) (\<lambda>dc.
               rbind (dlookup (c_basetaskhash dc) k) (\<lambda>cached.
               rbind (dlookup (sg_basehash sg) k) (\<lambda>base.
               rbind (dlookup (c_stamp dc) fn) (\<lambda>stamp.
               rbind (dump_sigtask env sg fn task stamp (DumpRuntime True)) (\<lambda>d.
                 Inr (acc @ [(cached \<noteq> base, d)])))))))"

definition dump_sigs ::
  "sigenv \<Rightarrow> (string, cachedata) dict \<Rightarrow> siggen \<Rightarrow> (bool \<times> string \<times> sigdata \<times> bool \<times> bool) list res" where
  "dump_sigs env dcs sg =
     rfold (\<lambda>(fn, taskdeps). rfold (dump_sig env dcs sg fn) (dkeys taskdeps)) (sg_taskdeps sg) []"

section \<open>Base hashes cover what a task depends on\<close>

text \<open>The variables that reach from a task without passing the white list.\<close>

definition sig_edges :: "string list \<Rightarrow> (string, string list) dict \<Rightarrow> (string \<times> string) set" where
  "sig_edges wl g = {(a, b). b \<in> set (dgetd g a []) \<and> b \<notin> set wl}"

definition sig_vars :: "string list \<Rightarrow> (string, string list) dict \<Rightarrow> string \<Rightarrow> string set" where
  "sig_vars wl g task = (sig_edges wl g)\<^sup>+ `` {task}"

definition white_succs :: "string list \<Rightarrow> (string, string list) dict \<Rightarrow> string \<Rightarrow> string set" where
  "white_succs wl g v = (if v \<in> set wl then {} else set (dgetd g v []) - set wl)"

text \<open>The table while the white list is being taken out of it: apart from that it is the table of the start.\<close>

definition white_inv :: "string list \<Rightarrow> (string, string list) dict \<Rightarrow> (string, string list) dict \<Rightarrow> bool" where
  "white_inv wl g0 g \<longleftrightarrow>
     set (dkeys g) = set (dkeys g0) \<and> (\<forall>v. set (dgetd g v []) - set wl = set (dgetd g0 v []) - set wl)"

lemma white_inv_dset:
  assumes "white_inv wl g0 g" "dget g v = Some ds"
  shows "white_inv wl g0 (dset v (sminus ds wl) g)"
proof -
  have "dgetd g v [] = ds" using assms(2) by (simp add: dgetd_def)
  moreover have "v \<in> set (dkeys g)" using assms(2) by (rule dget_SomeD)
  ultimately show ?thesis using assms(1) by (auto simp: white_inv_def insert_absorb)
qed

lemma white_step_inv:
  assumes "white_inv wl g0 g" "white_step wl v g = Inr (ds, g')"
  shows "white_inv wl g0 g' \<and> set ds = white_succs wl g0 v"
proof (cases "v \<in> set wl")
  case True
  then show ?thesis using assms by (auto simp: white_step_def white_succs_def)
next
  case False
  then obtain ds0 where ds0: "dget g v = Some ds0" "ds = sminus ds0 wl" "g' = dset v ds g"
    using assms(2) by (auto simp: white_step_def res_simps Let_def)
  then have "set ds = set (dgetd g v []) - set wl" by (simp add: dgetd_def)
  then show ?thesis
    using white_inv_dset [OF assms(1) ds0(1)] ds0 False assms(1) by (simp add: white_succs_def white_inv_def)
qed

interpretation bd: dep_rounds "white_step wl" "white_succs wl g0" "white_inv wl g0" for wl g0
  using white_step_inv by unfold_locales blast

lemma bd_vars: "(bd.rel wl g)\<^sup>* `` (set (dgetd g task []) - set wl) = sig_vars wl g task"
proof
  have "bd.rel wl g \<subseteq> sig_edges wl g" by (auto simp: white_succs_def sig_edges_def bd.rel_def split: if_splits)
  then have "(bd.rel wl g)\<^sup>* \<subseteq> (sig_edges wl g)\<^sup>*" by (rule rtrancl_mono)
  moreover have "set (dgetd g task []) - set wl \<subseteq> sig_edges wl g `` {task}" by (auto simp: sig_edges_def)
  ultimately show "(bd.rel wl g)\<^sup>* `` (set (dgetd g task []) - set wl) \<subseteq> sig_vars wl g task"
    unfolding sig_vars_def by (force intro: rtrancl_into_trancl2)
next
  have "v \<in> (bd.rel wl g)\<^sup>* `` (set (dgetd g task []) - set wl) \<and> v \<notin> set wl" if "(task, v) \<in> (sig_edges wl g)\<^sup>+" for v
    using that
  proof (induction rule: trancl_induct)
    case (base v)
    then show ?case by (auto simp: sig_edges_def)
  next
    case (step v w)
    then have "(v, w) \<in> bd.rel wl g" "w \<notin> set wl" by (auto simp: sig_edges_def bd.rel_def white_succs_def)
    then show ?case using step.IH by (blast intro: rtrancl_into_rtrancl)
  qed
  then show "sig_vars wl g task \<subseteq> (bd.rel wl g)\<^sup>* `` (set (dgetd g task []) - set wl)"
    by (auto simp: sig_vars_def)
qed

lemma base_data_total:
  assumes "task \<in> set (dkeys lookup)" "set vs \<subseteq> set (dkeys lookup)"
  shows "\<exists>data. base_data lookup task vs = Inr data"
proof -
  have "\<exists>data. rfold (append_var lookup) vs start = Inr data" for start
    using assms(2)
  proof (induction vs arbitrary: start)
    case Nil
    then show ?case by simp
  next
    case (Cons v vs)
    then obtain x where "dget lookup v = Some x" by (auto elim: dget_keyE)
    then show ?case using Cons by (simp add: append_var_def dlookup_def)
  qed
  moreover obtain x where "dget lookup task = Some x" using assms(1) by (rule dget_keyE)
  ultimately show ?thesis by (simp add: base_data_def dlookup_def)
qed

text \<open>The tables of \<open>generate_dependencies\<close>: what is mentioned has an entry in both.\<close>

definition sig_tables :: "(string, string list) dict \<Rightarrow> (string, string option) dict \<Rightarrow> bool" where
  "sig_tables g lookup \<longleftrightarrow> set (dkeys g) \<subseteq> set (dkeys lookup) \<and> (\<forall>v. set (dgetd g v []) \<subseteq> set (dkeys g))"

lemma generate_tables:
  assumes "generate_dependencies fuel d = Inr (tasklist, g, lookup)"
  shows "sig_tables g lookup \<and> set tasklist \<subseteq> set (dkeys g)"
proof -
  have run: "rfold (task_dependencies (build_for d) fuel) tasklist ([], []) = Inr (g, lookup)"
    using assms by (auto simp: generate_dependencies_def Let_def res_simps)
  have "closed_tables (build_for d) ([], [])" by (simp add: closed_tables_def stored_def)
  note c = tasks_dependencies_closed [OF run this]
  have st: "stored (build_for d) (g, lookup)" and
    cl: "\<forall>v \<in> set (dkeys g). dep_succs (build_for d) v \<subseteq> set (dkeys g)"
    using c unfolding closed_tables_def fst_conv by blast+
  have entry: "v \<in> set (dkeys lookup) \<and> set (dgetd g v []) \<subseteq> set (dkeys g)" if v: "v \<in> set (dkeys g)" for v
  proof -
    obtain ds where ds: "dget g v = Some ds" using v by (rule dget_keyE)
    then obtain w where "build_for d v = Inr (ds, w)" "dget lookup v = Some w"
      using st by (auto simp: stored_def)
    then show ?thesis using cl v ds by (force simp: dep_succs_def dgetd_def intro: dget_SomeD)
  qed
  have "set (dgetd g v []) \<subseteq> set (dkeys g)" for v
  proof (cases "v \<in> set (dkeys g)")
    case True
    then show ?thesis using entry by blast
  next
    case False
    then have "dget g v = None" by (simp add: dget_None_iff)
    then show ?thesis by (simp add: dgetd_def)
  qed
  then have "sig_tables g lookup" using entry by (auto simp: sig_tables_def)
  moreover have "set tasklist \<subseteq> (gd.rel (build_for d))\<^sup>* `` set tasklist" by blast
  ultimately show ?thesis using c by auto
qed

text \<open>What is known of the tasks dealt with so far.\<close>

definition base_ok ::
  "(string \<Rightarrow> string) \<Rightarrow> string list \<Rightarrow> (string, string list) dict \<Rightarrow> (string, string option) dict \<Rightarrow> string \<Rightarrow> string \<Rightarrow>
   (string, string) dict \<Rightarrow> (string, string list) dict \<Rightarrow> bool" where
  "base_ok md5 wl g lookup fn task basehash taskdeps \<longleftrightarrow>
     (\<exists>alldeps data. dget taskdeps task = Some alldeps \<and> sorted alldeps \<and> distinct alldeps \<and> set alldeps = sig_vars wl g task \<and>
        base_data lookup task alldeps = Inr data \<and> dget basehash (sigkey fn task) = Some (md5 data))"

lemma distinct_rounds:
  "rounds step fuel nd seen s = Inr (seen', s') \<Longrightarrow> distinct seen \<Longrightarrow> distinct seen'"
proof (induction fuel arbitrary: nd seen s)
  case 0
  then show ?case by (auto simp: rounds.simps [of _ 0] split: if_splits)
next
  case (Suc n)
  show ?case
  proof (cases "nd = []")
    case True
    then show ?thesis using Suc.prems by (simp add: rounds.simps [of _ "Suc n"])
  next
    case False
    then obtain nd1 s1 where "rounds step n (sminus nd1 (sunion seen nd)) (sunion seen nd) s1 = Inr (seen', s')"
      using Suc.prems by (auto simp: rounds.simps [of _ "Suc n"] res_simps Let_def)
    then show ?thesis using Suc.IH Suc.prems(2) by blast
  qed
qed

lemma sigkey_inject [simp]: "sigkey fn t = sigkey fn u \<longleftrightarrow> t = u"
  by (simp add: sigkey_def)

lemma base_task_ok:
  assumes "sig_tables g0 lookup" "white_inv wl g0 g" "task \<in> set (dkeys g0)"
  shows "\<exists>g' alldeps data. base_task md5 wl lookup fn task (g, bh, td) =
      Inr (g', dset (sigkey fn task) (md5 data) bh, dset task alldeps td) \<and> white_inv wl g0 g' \<and>
    base_ok md5 wl g0 lookup fn task (dset (sigkey fn task) (md5 data) bh) (dset task alldeps td)"
proof -
  have keys: "set (dkeys g0) \<subseteq> set (dkeys lookup)" "set (dgetd g0 v []) \<subseteq> set (dkeys g0)" for v
    using assms(1) by (auto simp: sig_tables_def)
  have "task \<in> set (dkeys g)" using assms(2,3) by (simp add: white_inv_def)
  then obtain ds where ds: "dget g task = Some ds" by (rule dget_keyE)
  let ?nd = "sminus ds wl" and ?g = "dset task (sminus ds wl) g"
  have inv: "white_inv wl g0 ?g" using assms(2) ds by (rule white_inv_dset)
  have "set (dgetd g task []) - set wl = set (dgetd g0 task []) - set wl" using assms(2) by (simp add: white_inv_def)
  moreover have "dgetd g task [] = ds" using ds by (simp add: dgetd_def)
  ultimately have nd: "set ?nd = set (dgetd g0 task []) - set wl" by simp
  have U: "set (dkeys g0) = set (dkeys ?g)" using inv by (simp add: white_inv_def)
  have size: "card (set (dkeys g0) - set []) < Suc (length ?g)"
    unfolding U using card_length [of "dkeys ?g"] by (simp add: dkeys_def)
  have step: "white_step wl v u \<noteq> Inl e" if "v \<in> set (dkeys g0)" "white_inv wl g0 u" for v u e
  proof -
    have "v \<in> set (dkeys u)" using that by (simp add: white_inv_def)
    then obtain x where "dget u v = Some x" by (rule dget_keyE)
    then show ?thesis by (simp add: white_step_def dlookup_def Let_def)
  qed
  have "set ?nd \<subseteq> set (dkeys g0)" using nd keys(2) by blast
  moreover have "white_succs wl g0 v \<subseteq> set (dkeys g0)" for v using keys(2) [of v] by (auto simp: white_succs_def)
  ultimately obtain seen g' where run: "rounds (white_step wl) (Suc (length ?g)) ?nd [] ?g = Inr (seen, g')"
    using bd.rounds_total [OF finite_set _ inv _ _ size, of ?nd] step by fastforce
  have v: "white_inv wl g0 g' \<and> set seen = (bd.rel wl g0)\<^sup>* `` set ?nd"
    using bd.rounds_visit [OF run inv] by (metis empty_iff empty_set sup_bot_left)
  then have vars: "set seen = sig_vars wl g0 task" unfolding nd bd_vars by blast
  have "set seen \<subseteq> set (dkeys g0)"
  proof
    fix x
    assume "x \<in> set seen"
    then have "(task, x) \<in> (sig_edges wl g0)\<^sup>+" by (simp add: vars sig_vars_def)
    then show "x \<in> set (dkeys g0)" using keys(2) by (cases rule: tranclE) (auto simp: sig_edges_def)
  qed
  then obtain data where data: "base_data lookup task (sort seen) = Inr data"
    using base_data_total [of task lookup "sort seen"] keys(1) assms(3) by auto
  have "task \<in> set (dkeys lookup)" using keys(1) assms(3) by blast
  then obtain x where "dget lookup task = Some x" by (rule dget_keyE)
  then have "base_task md5 wl lookup fn task (g, bh, td) =
      Inr (g', dset (sigkey fn task) (md5 data) bh, dset task (sort seen) td)"
    using ds run data by (simp add: base_task_def dlookup_def Let_def)
  moreover have "distinct seen" using distinct_rounds [OF run] by simp
  ultimately show ?thesis using v vars data by (fastforce simp: base_ok_def)
qed

lemma base_ok_mono:
  assumes "base_ok md5 wl g lookup fn t bh td" "u \<noteq> t"
  shows "base_ok md5 wl g lookup fn t (dset (sigkey fn u) h bh) (dset u vs td)"
  using assms by (auto simp: base_ok_def)

lemma base_tasks_ok:
  assumes "sig_tables g0 lookup"
  shows "set tasks \<subseteq> set (dkeys g0) \<Longrightarrow> white_inv wl g0 g \<Longrightarrow> (\<forall>t \<in> set (dkeys td). base_ok md5 wl g0 lookup fn t bh td) \<Longrightarrow>
    \<exists>g' bh' td'. rfold (base_task md5 wl lookup fn) tasks (g, bh, td) = Inr (g', bh', td') \<and> white_inv wl g0 g' \<and>
      set (dkeys td') = set (dkeys td) \<union> set tasks \<and> (\<forall>t \<in> set (dkeys td'). base_ok md5 wl g0 lookup fn t bh' td')"
proof (induction tasks arbitrary: g bh td)
  case Nil
  then show ?case by simp
next
  case (Cons task tasks)
  have "task \<in> set (dkeys g0)" using Cons.prems(1) by simp
  from base_task_ok [OF assms Cons.prems(2) this, of md5 fn bh td] obtain g1 alldeps data where
    one: "base_task md5 wl lookup fn task (g, bh, td) = Inr (g1, dset (sigkey fn task) (md5 data) bh, dset task alldeps td)"
      "white_inv wl g0 g1"
      "base_ok md5 wl g0 lookup fn task (dset (sigkey fn task) (md5 data) bh) (dset task alldeps td)"
    by blast
  have "\<forall>t \<in> set (dkeys (dset task alldeps td)).
      base_ok md5 wl g0 lookup fn t (dset (sigkey fn task) (md5 data) bh) (dset task alldeps td)"
  proof
    fix t
    assume "t \<in> set (dkeys (dset task alldeps td))"
    then show "base_ok md5 wl g0 lookup fn t (dset (sigkey fn task) (md5 data) bh) (dset task alldeps td)"
      using one(3) Cons.prems(3) base_ok_mono by (cases "t = task") auto
  qed
  moreover have "set tasks \<subseteq> set (dkeys g0)" using Cons.prems(1) by simp
  moreover have "rfold (base_task md5 wl lookup fn) (task # tasks) (g, bh, td) =
      rfold (base_task md5 wl lookup fn) tasks (g1, dset (sigkey fn task) (md5 data) bh, dset task alldeps td)"
    using one(1) by simp
  moreover have "set (dkeys td) \<union> set (task # tasks) = set (dkeys (dset task alldeps td)) \<union> set tasks" by simp
  ultimately show ?case using Cons.IH [OF _ one(2)] by presburger
qed

lemma build_data_run:
  assumes "generate_dependencies fuel d = Inr (tasklist, g, lookup)"
  obtains g' bh td where
    "build_data md5 fuel fn d sg =
       Inr (sg\<lparr>sg_basehash := bh, sg_taskdeps := dset fn td (sg_taskdeps sg), sg_gendeps := dset fn g' (sg_gendeps sg),
              sg_lookupcache := dset fn lookup (sg_lookupcache sg)\<rparr>, td)"
    "set (dkeys td) = set tasklist" "set (dkeys g') = set (dkeys g)"
    "\<And>t. t \<in> set tasklist \<Longrightarrow> base_ok md5 (sg_basewhitelist sg) g lookup fn t bh td"
proof -
  note t = generate_tables [OF assms]
  have "white_inv (sg_basewhitelist sg) g g" by (simp add: white_inv_def)
  from base_tasks_ok [OF conjunct1 [OF t] conjunct2 [OF t] this, of "[]" md5 fn "sg_basehash sg"]
  obtain g' bh td where
    r: "rfold (base_task md5 (sg_basewhitelist sg) lookup fn) tasklist (g, sg_basehash sg, []) = Inr (g', bh, td)"
      "set (dkeys td) = set tasklist" "white_inv (sg_basewhitelist sg) g g'"
      "\<forall>t \<in> set (dkeys td). base_ok md5 (sg_basewhitelist sg) g lookup fn t bh td"
    by auto
  have "build_data md5 fuel fn d sg =
       Inr (sg\<lparr>sg_basehash := bh, sg_taskdeps := dset fn td (sg_taskdeps sg), sg_gendeps := dset fn g' (sg_gendeps sg),
              sg_lookupcache := dset fn lookup (sg_lookupcache sg)\<rparr>, td)"
    using assms r(1) by (simp add: build_data_def)
  then show ?thesis by (rule that) (use r in \<open>simp_all add: white_inv_def\<close>)
qed


section \<open>What a task hash is made of\<close>

definition keeps_dep :: "siggen \<Rightarrow> cachedata \<Rightarrow> string \<Rightarrow> string \<Rightarrow> bool" where
  "keeps_dep sg dc recipename dep =
     (case pkgnameextract dep of
        Inl e \<Rightarrow> False
      | Inr f \<Rightarrow> (case dget (c_pkg_fn dc) f of None \<Rightarrow> False | Some depname \<Rightarrow> rundep_check sg recipename depname))"

definition hash_of :: "siggen \<Rightarrow> string \<Rightarrow> string" where
  "hash_of sg dep = dgetd (sg_taskhash sg) dep []"

lemma dep_hashes:
  "rfold (dep_hash sg dc recipename) ds st = Inr st' \<Longrightarrow>
     st' = (fst st @ concat (map (hash_of sg) (filter (keeps_dep sg dc recipename) ds)), snd st @ filter (keeps_dep sg dc recipename) ds) \<and>
     (\<forall>d \<in> set ds. keeps_dep sg dc recipename d \<longrightarrow> d \<in> set (dkeys (sg_taskhash sg)))"
proof (induction ds arbitrary: st)
  case Nil
  then show ?case by simp
next
  case (Cons d ds)
  then obtain u where u: "dep_hash sg dc recipename d st = Inr u" "rfold (dep_hash sg dc recipename) ds u = Inr st'"
    by (auto elim: rbind_InrE)
  have "if keeps_dep sg dc recipename d then u = (fst st @ hash_of sg d, snd st @ [d]) \<and> d \<in> set (dkeys (sg_taskhash sg)) else u = st"
    using u(1) by (auto simp: dep_hash_def keeps_dep_def hash_of_def dgetd_def res_simps dest: dget_SomeD
        split: if_splits option.splits sum.splits)
  then show ?case using Cons.IH [OF u(2)] by (auto split: if_splits)
qed

lemma dep_hash_fatal:
  "rfold (dep_hash sg dc recipename) ds st = Inl Fatal \<Longrightarrow> \<exists>d \<in> set ds. d \<notin> set (dkeys (sg_taskhash sg))"
proof (induction ds arbitrary: st)
  case Nil
  then show ?case by simp
next
  case (Cons d ds)
  show ?case
  proof (cases "dep_hash sg dc recipename d st")
    case (Inl e)
    then have "dep_hash sg dc recipename d st = Inl Fatal" using Cons.prems by simp
    then have "dget (sg_taskhash sg) d = None"
      by (auto simp: dep_hash_def pkgnameextract_def res_simps split: if_splits option.splits list.splits)
    then show ?thesis by (auto simp: dget_None_iff)
  next
    case (Inr u)
    then show ?thesis using Cons by auto
  qed
qed

lemma sort_deps_perm: "sort_deps ds = Inr ds' \<Longrightarrow> mset ds' = mset ds"
proof -
  have "rmap (\<lambda>d. rbind (clean_basepath d) (\<lambda>k. Inr (k, d))) ds = Inr ps \<Longrightarrow> map snd ps = ds" for ps
    by (induction ds arbitrary: ps) (auto simp: res_simps)
  moreover assume "sort_deps ds = Inr ds'"
  ultimately show ?thesis by (auto simp: sort_deps_def res_simps)
qed

lemma sort_deps_set: "sort_deps ds = Inr ds' \<Longrightarrow> set ds' = set ds"
  using sort_deps_perm mset_eq_setD by blast

text \<open>The taint of a task, and the text that is hashed.\<close>

definition file_taint_of :: "sigenv \<Rightarrow> cachedata \<Rightarrow> string \<Rightarrow> string \<Rightarrow> string" where
  "file_taint_of env dc fn task = or_empty (read_taint env task (dgetd (c_stamp dc) fn []))"

definition nostamp_task :: "cachedata \<Rightarrow> string \<Rightarrow> string \<Rightarrow> bool" where
  "nostamp_task dc fn task =
     (case dget (c_task_deps dc) fn of None \<Rightarrow> False | Some td \<Rightarrow> task_flag td ''nostamp'' task \<noteq> None)"

definition sig_text :: "sigenv \<Rightarrow> cachedata \<Rightarrow> string \<Rightarrow> string \<Rightarrow> string \<Rightarrow> string list \<Rightarrow> sums \<Rightarrow> string" where
  "sig_text env dc fn task base hashes checksums =
     base @ concat hashes @ concat (map snd checksums) @
     (if nostamp_task dc fn task then se_uuid env (sigkey fn task) else []) @ file_taint_of env dc fn task"

definition taint_entry :: "sigenv \<Rightarrow> cachedata \<Rightarrow> string \<Rightarrow> string \<Rightarrow> string option \<Rightarrow> string option" where
  "taint_entry env dc fn task old =
     (if file_taint_of env dc fn task \<noteq> [] then Some (file_taint_of env dc fn task)
      else if nostamp_task dc fn task then Some (''nostamp:'' @ se_uuid env (sigkey fn task)) else old)"

text \<open>Everything a call of \<open>get_taskhash\<close> does when it returns.\<close>

lemma get_taskhash_effect:
  assumes "get_taskhash env fn task ds dc sg = Inr (sg', h)"
  obtains base recipename ds' checksums cache where
    "dget (c_basetaskhash dc) (sigkey fn task) = Some base" "dget (c_pkg_fn dc) fn = Some recipename"
    "sort_deps ds = Inr ds'" "task_checksums env dc fn task (sg_checksums sg) = Inr (checksums, cache)"
    "\<forall>d \<in> set ds'. keeps_dep sg dc recipename d \<longrightarrow> d \<in> set (dkeys (sg_taskhash sg))"
    "h = se_md5 env (sig_text env dc fn task base (map (hash_of sg) (filter (keeps_dep sg dc recipename) ds')) checksums)"
    "sg_basehash sg' = dset (sigkey fn task) base (sg_basehash sg)"
    "sg_runtaskdeps sg' = dset (sigkey fn task) (filter (keeps_dep sg dc recipename) ds') (sg_runtaskdeps sg)"
    "sg_file_checksum_values sg' = dset (sigkey fn task) checksums (sg_file_checksum_values sg)"
    "sg_taskhash sg' = dset (sigkey fn task) h (sg_taskhash sg)" "sg_checksums sg' = cache" "sg_twl sg' = sg_twl sg"
    "\<And>k. dget (sg_taints sg') k =
       (if k = sigkey fn task then taint_entry env dc fn task (dget (sg_taints sg) k) else dget (sg_taints sg) k)"
    "sg_taskdeps sg' = sg_taskdeps sg" "sg_gendeps sg' = sg_gendeps sg" "sg_lookupcache sg' = sg_lookupcache sg"
    "sg_basewhitelist sg' = sg_basewhitelist sg"
proof -
  from assms obtain base recipename ds' data kept checksums cache taskdep stampbase where
    h: "dget (c_basetaskhash dc) (sigkey fn task) = Some base" "dget (c_pkg_fn dc) fn = Some recipename"
      "sort_deps ds = Inr ds'" "rfold (dep_hash sg dc recipename) ds' (base, []) = Inr (data, kept)"
      "task_checksums env dc fn task (sg_checksums sg) = Inr (checksums, cache)"
      "dget (c_task_deps dc) fn = Some taskdep" "dget (c_stamp dc) fn = Some stampbase"
    and r: "record_taskhash env (sigkey fn task) (task_flag taskdep ''nostamp'' task \<noteq> None) (read_taint env task stampbase)
        base kept checksums cache data sg = (sg', h)"
    unfolding get_taskhash_def Let_def by (auto elim!: rbind_InrE)
  note d = dep_hashes [OF h(4)]
  have kept: "kept = filter (keeps_dep sg dc recipename) ds'"
    "data = base @ concat (map (hash_of sg) (filter (keeps_dep sg dc recipename) ds'))"
    using d by simp_all
  have n: "nostamp_task dc fn task \<longleftrightarrow> task_flag taskdep ''nostamp'' task \<noteq> None"
    "file_taint_of env dc fn task = or_empty (read_taint env task stampbase)"
    using h(6,7) by (simp_all add: nostamp_task_def file_taint_of_def dgetd_def)
  have f: "flag_set x \<longleftrightarrow> or_empty x \<noteq> []" for x by (simp add: flag_set_def or_empty_def split: option.split)
  show ?thesis
    by (rule that [OF h(1-3,5)])
      (use r d n kept f in \<open>auto simp: record_taskhash_def file_taint_def nostamp_taint_def sig_text_def taint_entry_def Let_def split: if_splits\<close>)
qed

text \<open>The checksums of the local files of a task, read without a cache.\<close>

definition plain_task_checksums :: "sigenv \<Rightarrow> cachedata \<Rightarrow> string \<Rightarrow> string \<Rightarrow> sums res" where
  "plain_task_checksums env dc fn task =
     rbind (dlookup (c_file_checksums dc) fn) (\<lambda>m.
       case dget m task of
         None \<Rightarrow> Inr []
       | Some None \<Rightarrow> Inl AttributeError
       | Some (Some filelist) \<Rightarrow> plain_checksums (se_fs env) filelist)"

lemma task_checksums_plain:
  assumes "task_checksums env dc fn task k = Inr (checksums, k')" "honest (se_fs env) k"
  shows "plain_task_checksums env dc fn task = Inr checksums \<and> honest (se_fs env) k'"
proof -
  from assms(1) obtain m where m: "dget (c_file_checksums dc) fn = Some m"
    by (auto simp: task_checksums_def res_simps)
  show ?thesis
    using assms m get_checksums_plain [OF assms(2), of "the (the (dget m task))"]
    by (auto simp: task_checksums_def plain_task_checksums_def dlookup_def split: option.splits)
qed

text \<open>What the generator knows of a task with the dependencies \<open>ds\<close> after its hash was computed.\<close>

definition signed :: "sigenv \<Rightarrow> cachedata \<Rightarrow> string \<Rightarrow> string \<Rightarrow> string list \<Rightarrow> siggen \<Rightarrow> bool" where
  "signed env dc fn task ds sg \<longleftrightarrow>
     (\<exists>base recipename ds' checksums.
        dget (c_basetaskhash dc) (sigkey fn task) = Some base \<and> dget (c_pkg_fn dc) fn = Some recipename \<and>
        sort_deps ds = Inr ds' \<and> plain_task_checksums env dc fn task = Inr checksums \<and>
        dget (sg_basehash sg) (sigkey fn task) = Some base \<and>
        dget (sg_runtaskdeps sg) (sigkey fn task) = Some (filter (keeps_dep sg dc recipename) ds') \<and>
        dget (sg_file_checksum_values sg) (sigkey fn task) = Some checksums \<and>
        (\<forall>d \<in> set ds'. keeps_dep sg dc recipename d \<longrightarrow> d \<in> set (dkeys (sg_taskhash sg))) \<and>
        dget (sg_taskhash sg) (sigkey fn task) =
          Some (se_md5 env (sig_text env dc fn task base (map (hash_of sg) (filter (keeps_dep sg dc recipename) ds')) checksums)) \<and>
        dget (sg_taints sg) (sigkey fn task) = taint_entry env dc fn task None)"

lemma keeps_dep_twl: "sg_twl sg = sg_twl sg' \<Longrightarrow> keeps_dep sg dc recipename = keeps_dep sg' dc recipename"
  by (auto simp: fun_eq_iff keeps_dep_def rundep_check_def split: sum.split option.split)

lemma hash_of_dset:
  "sg_taskhash sg' = dset k h (sg_taskhash sg) \<Longrightarrow> k \<notin> set ds \<Longrightarrow>
     map (hash_of sg') (filter P ds) = map (hash_of sg) (filter P ds)"
  by (induction ds) (auto simp: hash_of_def)

lemma get_taskhash_signed:
  assumes "get_taskhash env fn task ds dc sg = Inr (sg', h)" "honest (se_fs env) (sg_checksums sg)"
    "dget (sg_taints sg) (sigkey fn task) = None" "sigkey fn task \<notin> set ds"
  shows "signed env dc fn task ds sg' \<and> honest (se_fs env) (sg_checksums sg') \<and>
    dget (sg_taskhash sg') (sigkey fn task) = Some h"
proof (rule get_taskhash_effect [OF assms(1)], goal_cases)
  case (1 base recipename ds' checksums cache)
  note c = task_checksums_plain [OF 1(4) assms(2)]
  have k: "keeps_dep sg' dc recipename = keeps_dep sg dc recipename" using 1(12) by (rule keeps_dep_twl)
  have "sigkey fn task \<notin> set ds'" using assms(4) sort_deps_set [OF 1(3)] by simp
  then have m: "map (hash_of sg') (filter (keeps_dep sg dc recipename) ds') = map (hash_of sg) (filter (keeps_dep sg dc recipename) ds')"
    by (rule hash_of_dset [OF 1(10)])
  have "signed env dc fn task ds sg'"
    unfolding signed_def
    by (rule exI [of _ base], rule exI [of _ recipename], rule exI [of _ ds'], rule exI [of _ checksums])
      (use 1 c k assms(3) in \<open>simp add: m\<close>)
  then show ?case using c 1(10,11) by simp
qed

lemma get_taskhash_keeps_signed:
  assumes "signed env dc fn task ds sg" "get_taskhash env fn2 task2 ds2 dc2 sg = Inr (sg', h)"
    "sigkey fn2 task2 \<noteq> sigkey fn task" "sigkey fn2 task2 \<notin> set ds"
  shows "signed env dc fn task ds sg'"
proof -
  obtain base recipename ds' checksums where s:
    "dget (c_basetaskhash dc) (sigkey fn task) = Some base" "dget (c_pkg_fn dc) fn = Some recipename"
    "sort_deps ds = Inr ds'" "plain_task_checksums env dc fn task = Inr checksums"
    "dget (sg_basehash sg) (sigkey fn task) = Some base"
    "dget (sg_runtaskdeps sg) (sigkey fn task) = Some (filter (keeps_dep sg dc recipename) ds')"
    "dget (sg_file_checksum_values sg) (sigkey fn task) = Some checksums"
    "\<forall>d \<in> set ds'. keeps_dep sg dc recipename d \<longrightarrow> d \<in> set (dkeys (sg_taskhash sg))"
    "dget (sg_taskhash sg) (sigkey fn task) =
       Some (se_md5 env (sig_text env dc fn task base (map (hash_of sg) (filter (keeps_dep sg dc recipename) ds')) checksums))"
    "dget (sg_taints sg) (sigkey fn task) = taint_entry env dc fn task None"
    using assms(1) unfolding signed_def by blast
  show ?thesis
  proof (rule get_taskhash_effect [OF assms(2)], goal_cases)
    case (1 base2 recipename2 ds2' checksums2 cache)
    have k: "keeps_dep sg' dc recipename = keeps_dep sg dc recipename" using 1(12) by (rule keeps_dep_twl)
    have "sigkey fn2 task2 \<notin> set ds'" using assms(4) sort_deps_set [OF s(3)] by simp
    then have m: "map (hash_of sg') (filter (keeps_dep sg dc recipename) ds') = map (hash_of sg) (filter (keeps_dep sg dc recipename) ds')"
      by (rule hash_of_dset [OF 1(10)])
    show ?case
      unfolding signed_def
      by (rule exI [of _ base], rule exI [of _ recipename], rule exI [of _ ds'], rule exI [of _ checksums])
        (use 1 s k assms(3) in \<open>simp add: m\<close>)
  qed
qed

section \<open>Signature files agree with the hashes\<close>

text \<open>What \<open>dump_sigtask\<close> finds of the variables of a task after its recipe was finalised.\<close>

definition based :: "(string \<Rightarrow> string) \<Rightarrow> string \<Rightarrow> string \<Rightarrow> siggen \<Rightarrow> bool" where
  "based md5 fn task sg \<longleftrightarrow>
     (\<exists>taskdeps alldeps lookup gendeps data.
        dget (sg_taskdeps sg) fn = Some taskdeps \<and> dget taskdeps task = Some alldeps \<and>
        set alldeps \<inter> set (sg_basewhitelist sg) = {} \<and> dget (sg_lookupcache sg) fn = Some lookup \<and>
        dget (sg_gendeps sg) fn = Some gendeps \<and> set alldeps \<subseteq> set (dkeys gendeps) \<and>
        base_data lookup task alldeps = Inr data \<and> dget (sg_basehash sg) (sigkey fn task) = Some (md5 data))"

lemma append_vars_cong:
  "rfold (append_var lookup) vs start = Inr data \<Longrightarrow> (\<And>v. v \<in> set vs \<Longrightarrow> dget lookup' v = dget lookup v) \<Longrightarrow>
     rfold (append_var lookup') vs start = Inr data"
proof (induction vs arbitrary: start)
  case Nil
  then show ?case by simp
next
  case (Cons v vs)
  then obtain u where u: "append_var lookup v start = Inr u" "rfold (append_var lookup) vs u = Inr data"
    by (auto elim: rbind_InrE)
  have "append_var lookup' v start = Inr u" using u(1) Cons.prems(2) [of v] by (simp add: append_var_def dlookup_def)
  then show ?case using Cons.IH [OF u(2)] Cons.prems(2) by simp
qed

lemma append_vars_keys:
  "rfold (append_var lookup) vs start = Inr data \<Longrightarrow> v \<in> set vs \<Longrightarrow> \<exists>x. dget lookup v = Some x"
  by (induction vs arbitrary: start) (auto simp: append_var_def res_simps)

lemma dump_vars:
  "set vs \<inter> set (sg_basewhitelist sg) = {} \<Longrightarrow> set vs \<subseteq> set (dkeys gendeps) \<Longrightarrow> (\<And>v. v \<in> set vs \<Longrightarrow> \<exists>x. dget lookup v = Some x) \<Longrightarrow>
     \<exists>gd vv. rfold (dump_var sg gendeps lookup) vs st = Inr (gd, vv) \<and>
       (\<forall>v. dget vv v = (if v \<in> set vs then dget lookup v else dget (snd st) v))"
proof (induction vs arbitrary: st)
  case Nil
  then show ?case by (cases st) simp
next
  case (Cons v vs)
  obtain x where x: "dget lookup v = Some x" using Cons.prems(3) [of v] by auto
  have "v \<in> set (dkeys gendeps)" using Cons.prems(2) by simp
  then obtain ds where ds: "dget gendeps v = Some ds" by (rule dget_keyE)
  have one: "dump_var sg gendeps lookup v st = Inr (dset v ds (fst st), dset v x (snd st))"
    using Cons.prems(1) x ds by (auto simp: dump_var_def dlookup_def)
  obtain gd vv where r: "rfold (dump_var sg gendeps lookup) vs (dset v ds (fst st), dset v x (snd st)) = Inr (gd, vv)"
    "\<forall>u. dget vv u = (if u \<in> set vs then dget lookup u else dget (dset v x (snd st)) u)"
    using Cons.IH [of "(dset v ds (fst st), dset v x (snd st))"] Cons.prems by auto
  have "rfold (dump_var sg gendeps lookup) (v # vs) st = Inr (gd, vv)" using one r(1) by simp
  moreover have "dget vv u = (if u \<in> set (v # vs) then dget lookup u else dget (snd st) u)" for u
    using r(2) x by simp
  ultimately show ?case by blast
qed

text \<open>The variables in the file give the base hash again.\<close>

lemma dump_base:
  assumes "based md5 fn task sg"
  shows "\<exists>taskdeps alldeps lookup v gendeps gd vv h. dget (sg_taskdeps sg) fn = Some taskdeps \<and> dget taskdeps task = Some alldeps \<and>
    dget (sg_lookupcache sg) fn = Some lookup \<and> dget lookup task = Some v \<and> dget (sg_gendeps sg) fn = Some gendeps \<and>
    rfold (dump_var sg gendeps lookup) alldeps ([], [(task, v)]) = Inr (gd, vv) \<and>
    dget (sg_basehash sg) (sigkey fn task) = Some h \<and>
    rbind (base_data vv task alldeps) (\<lambda>data. Inr (md5 data)) = Inr h"
proof -
  obtain taskdeps alldeps lookup gendeps data where b:
    "dget (sg_taskdeps sg) fn = Some taskdeps" "dget taskdeps task = Some alldeps"
    "set alldeps \<inter> set (sg_basewhitelist sg) = {}" "dget (sg_lookupcache sg) fn = Some lookup"
    "dget (sg_gendeps sg) fn = Some gendeps" "set alldeps \<subseteq> set (dkeys gendeps)"
    "base_data lookup task alldeps = Inr data" "dget (sg_basehash sg) (sigkey fn task) = Some (md5 data)"
    using assms unfolding based_def by blast
  obtain v where v: "dget lookup task = Some v" "rfold (append_var lookup) alldeps (or_empty v) = Inr data"
    using b(7) by (auto simp: base_data_def res_simps)
  obtain gd vv where r: "rfold (dump_var sg gendeps lookup) alldeps ([], [(task, v)]) = Inr (gd, vv)"
    "\<forall>u. dget vv u = (if u \<in> set alldeps then dget lookup u else dget [(task, v)] u)"
    using dump_vars [OF b(3,6) append_vars_keys [OF v(2)], of "([], [(task, v)])"] by auto
  have "dget vv task = Some v" using r(2) v(1) by simp
  moreover have "rfold (append_var vv) alldeps (or_empty v) = Inr data"
    by (rule append_vars_cong [OF v(2)]) (simp add: r(2))
  ultimately have "base_data vv task alldeps = Inr data" by (simp add: base_data_def dlookup_def)
  then show ?thesis using b v(1) r(1) by simp
qed

lemma run_hashes:
  "(\<And>d. d \<in> set ds \<Longrightarrow> d \<in> set (dkeys th)) \<Longrightarrow>
     \<exists>m'. rfold (\<lambda>dep m. rbind (dlookup th dep) (\<lambda>h. Inr (dset dep h m))) ds m = Inr m' \<and>
       (\<forall>d. dget m' d = (if d \<in> set ds then dget th d else dget m d))"
proof (induction ds arbitrary: m)
  case Nil
  then show ?case by simp
next
  case (Cons d ds)
  obtain h where h: "dget th d = Some h" using Cons.prems [of d] by (auto elim: dget_keyE)
  obtain m' where m': "rfold (\<lambda>dep m. rbind (dlookup th dep) (\<lambda>h. Inr (dset dep h m))) ds (dset d h m) = Inr m'"
    "\<forall>u. dget m' u = (if u \<in> set ds then dget th u else dget (dset d h m) u)"
    using Cons.IH [of "dset d h m"] Cons.prems by auto
  have "rfold (\<lambda>dep m. rbind (dlookup th dep) (\<lambda>h. Inr (dset dep h m))) (d # ds) m = Inr m'"
    using h m'(1) by (simp add: dlookup_def)
  moreover have "dget m' u = (if u \<in> set (d # ds) then dget th u else dget m u)" for u using m'(2) h by simp
  ultimately show ?case by blast
qed

lemma add_hashes:
  "(\<And>d. d \<in> set ds \<Longrightarrow> d \<in> set (dkeys m)) \<Longrightarrow>
     rfold (\<lambda>dep data. rbind (dlookup m dep) (\<lambda>h. Inr (data @ h))) ds start = Inr (start @ concat (map (\<lambda>d. dgetd m d []) ds))"
proof (induction ds arbitrary: start)
  case Nil
  then show ?case by simp
next
  case (Cons d ds)
  obtain h where h: "dget m d = Some h" using Cons.prems [of d] by (auto elim: dget_keyE)
  then show ?case using Cons.IH [of "start @ h"] Cons.prems by (simp add: dlookup_def dgetd_def)
qed

lemma py_contains_prefix [simp]: "py_contains p (p @ s)"
  by (cases "p @ s") (simp_all add: py_contains_def py_find_def, metis startswith_append)

text \<open>The entries for a computed hash: what \<open>calc_taskhash\<close> makes of them.\<close>

lemma dump_run_signed:
  assumes "signed env dc fn task ds sg"
  obtains base hashes checksums r where
    "dget (sg_basehash sg) (sigkey fn task) = Some base"
    "dget (sg_taskhash sg) (sigkey fn task) = Some (se_md5 env (sig_text env dc fn task base hashes checksums))"
    "dump_run sg (sigkey fn task) (se_md5 env (sig_text env dc fn task base hashes checksums)) = Inr r"
    "sr_taskhash r = se_md5 env (sig_text env dc fn task base hashes checksums)"
    "map snd (sr_file_checksum_values r) = map snd checksums"
    "\<And>start. rfold (\<lambda>dep data. rbind (dlookup (sr_runtaskhashes r) dep) (\<lambda>h. Inr (data @ h))) (sr_runtaskdeps r) start =
       Inr (start @ concat hashes)"
    "dget (sg_taints sg) (sigkey fn task) = taint_entry env dc fn task None"
proof -
  obtain base recipename ds' checksums where s:
    "dget (sg_basehash sg) (sigkey fn task) = Some base"
    "dget (sg_runtaskdeps sg) (sigkey fn task) = Some (filter (keeps_dep sg dc recipename) ds')"
    "dget (sg_file_checksum_values sg) (sigkey fn task) = Some checksums"
    "\<forall>d \<in> set ds'. keeps_dep sg dc recipename d \<longrightarrow> d \<in> set (dkeys (sg_taskhash sg))"
    "dget (sg_taskhash sg) (sigkey fn task) =
       Some (se_md5 env (sig_text env dc fn task base (map (hash_of sg) (filter (keeps_dep sg dc recipename) ds')) checksums))"
    "dget (sg_taints sg) (sigkey fn task) = taint_entry env dc fn task None"
    using assms unfolding signed_def by blast
  let ?kept = "filter (keeps_dep sg dc recipename) ds'"
  let ?h = "se_md5 env (sig_text env dc fn task base (map (hash_of sg) ?kept) checksums)"
  obtain m where m: "rfold (\<lambda>dep m. rbind (dlookup (sg_taskhash sg) dep) (\<lambda>h. Inr (dset dep h m))) ?kept [] = Inr m"
    "\<forall>d. dget m d = (if d \<in> set ?kept then dget (sg_taskhash sg) d else None)"
    using run_hashes [of ?kept "sg_taskhash sg" "[]"] s(4) by auto
  have keys: "d \<in> set (dkeys m)" if d: "d \<in> set ?kept" for d
  proof -
    have "d \<in> set (dkeys (sg_taskhash sg))" using d s(4) by simp
    then obtain h where "dget (sg_taskhash sg) d = Some h" by (rule dget_keyE)
    then have "dget m d = Some h" using m(2) d by simp
    then show ?thesis by (rule dget_SomeD)
  qed
  have mm: "map (\<lambda>d. dgetd m d []) ?kept = map (hash_of sg) ?kept"
    by (rule map_cong [OF refl]) (simp add: m(2) hash_of_def dgetd_def)
  have add: "rfold (\<lambda>dep data. rbind (dlookup m dep) (\<lambda>h. Inr (data @ h))) ?kept start =
      Inr (start @ concat (map (hash_of sg) ?kept))" for start
    using add_hashes [of ?kept m start] keys unfolding mm by blast
  show ?thesis
    by (rule that [of base "map (hash_of sg) ?kept" checksums
          "\<lparr>sr_runtaskdeps = ?kept, sr_file_checksum_values = map (\<lambda>(f, cs). (py_basename f, cs)) checksums,
            sr_runtaskhashes = m, sr_taskhash = ?h\<rparr>"])
      (use s m(1) add in \<open>simp_all add: dump_run_def dlookup_def comp_def split_beta\<close>)
qed

text \<open>
  The signature file written for a task whose hash was computed agrees with the hashes: the base
  hash computed from its contents is the recorded one, and so is the task hash, except for a task
  that is marked \<open>nostamp\<close> and has a taint file as well.
\<close>

lemma dump_sigtask_agrees:
  assumes "signed env dc fn task ds sg" "based (se_md5 env) fn task sg" "dget (c_stamp dc) fn = Some stampbase"
    "\<not> py_contains ''nostamp:'' (file_taint_of env dc fn task)"
  shows "\<exists>file data differs. dump_sigtask env sg fn task stampbase (DumpRuntime True) = Inr (file, data, False, differs) \<and>
    (differs \<longrightarrow> nostamp_task dc fn task \<and> file_taint_of env dc fn task \<noteq> [])"
proof -
  obtain taskdeps alldeps lookup v gendeps gd vv h0 where b:
    "dget (sg_taskdeps sg) fn = Some taskdeps" "dget taskdeps task = Some alldeps"
    "dget (sg_lookupcache sg) fn = Some lookup" "dget lookup task = Some v" "dget (sg_gendeps sg) fn = Some gendeps"
    "rfold (dump_var sg gendeps lookup) alldeps ([], [(task, v)]) = Inr (gd, vv)"
    "dget (sg_basehash sg) (sigkey fn task) = Some h0"
    "rbind (base_data vv task alldeps) (\<lambda>data. Inr (se_md5 env data)) = Inr h0"
    using dump_base [OF assms(2)] by blast
  obtain base hashes checksums r where s:
    "dget (sg_basehash sg) (sigkey fn task) = Some base"
    "dget (sg_taskhash sg) (sigkey fn task) = Some (se_md5 env (sig_text env dc fn task base hashes checksums))"
    "dump_run sg (sigkey fn task) (se_md5 env (sig_text env dc fn task base hashes checksums)) = Inr r"
    "sr_taskhash r = se_md5 env (sig_text env dc fn task base hashes checksums)"
    "map snd (sr_file_checksum_values r) = map snd checksums"
    "\<And>start. rfold (\<lambda>dep data. rbind (dlookup (sr_runtaskhashes r) dep) (\<lambda>h. Inr (data @ h))) (sr_runtaskdeps r) start =
       Inr (start @ concat hashes)"
    "dget (sg_taints sg) (sigkey fn task) = taint_entry env dc fn task None"
    using dump_run_signed [OF assms(1)] by blast
  let ?taint = "dump_taint env sg (sigkey fn task) task stampbase True"
  let ?data = "\<lparr>sd_task = task, sd_basewhitelist = sg_basewhitelist sg, sd_taskwhitelist = sg_taskwhitelist sg,
      sd_taskdeps = alldeps, sd_basehash = base, sd_gendeps = gd, sd_varvals = vv, sd_run = Some r, sd_taint = ?taint\<rparr>"
  have d: "dump_data env sg fn task stampbase True = Inr ?data"
    using b s(1-3) by (simp add: dump_data_def dlookup_def Let_def)
  have cb: "calc_basehash (se_md5 env) ?data = Inr base" using b(7,8) s(1) by (simp add: calc_basehash_def)
  have ct: "calc_taskhash (se_md5 env) ?data = Inr (se_md5 env
      (let t = base @ concat hashes @ concat (map snd checksums)
       in case ?taint of None \<Rightarrow> t | Some x \<Rightarrow> if py_contains ''nostamp:'' x then t @ drop 8 x else t @ x))"
    using s(5) s(6) [of base] by (simp add: calc_taskhash_def Let_def split: option.split)
  have ft: "file_taint_of env dc fn task = or_empty (read_taint env task stampbase)"
    using assms(3) by (simp add: file_taint_of_def dgetd_def)
  have "differs \<longrightarrow> nostamp_task dc fn task \<and> file_taint_of env dc fn task \<noteq> []"
    if "differs \<longleftrightarrow> calc_taskhash (se_md5 env) ?data \<noteq> Inr (sr_taskhash r)" for differs
    using that s(4,7) assms(4) py_contains_prefix [of "''nostamp:''" "se_uuid env (sigkey fn task)"] unfolding ct ft
    by (cases "read_taint env task stampbase")
      (auto simp: sig_text_def taint_entry_def dump_taint_def ft or_empty_def flag_set_def split: if_splits option.splits)
  moreover have "\<exists>file data. dump_sigtask env sg fn task stampbase (DumpRuntime True) =
      Inr (file, data, False, calc_taskhash (se_md5 env) ?data \<noteq> Inr (sr_taskhash r))"
    using d cb ct s(2) by (simp add: dump_sigtask_def sigfile_name_def dump_runtime_def Let_def)
  ultimately show ?thesis by blast
qed

lemma sig_vars_white: "sig_vars wl g task \<inter> set wl = {}"
proof -
  have "v \<notin> set wl" if "(task, v) \<in> (sig_edges wl g)\<^sup>+" for v
    using that by (cases rule: tranclE) (auto simp: sig_edges_def)
  then show ?thesis by (auto simp: sig_vars_def)
qed

lemma sig_vars_keys: "sig_tables g lookup \<Longrightarrow> sig_vars wl g task \<subseteq> set (dkeys g)"
proof -
  assume g: "sig_tables g lookup"
  have "v \<in> set (dkeys g)" if "(task, v) \<in> (sig_edges wl g)\<^sup>+" for v
    using that g by (cases rule: tranclE) (auto simp: sig_edges_def sig_tables_def)
  then show ?thesis by (auto simp: sig_vars_def)
qed

text \<open>
   The signature file of a task of a recipe that was just finalised can be written, and the base
  hash computed from its contents is the recorded one.
\<close>
theorem base_dump_agrees:
  assumes "generate_dependencies fuel d = Inr (tasklist, g, lookup)" "build_data (se_md5 env) fuel fn d sg = Inr (sg', taskdeps)"
    "task \<in> set tasklist"
  shows "based (se_md5 env) fn task sg' \<and>
    (\<exists>file data. dump_sigtask env sg' fn task stampbase (DumpRuntime False) = Inr (file, data, False, False))"
proof -
  obtain g' bh td where r: "build_data (se_md5 env) fuel fn d sg =
       Inr (sg\<lparr>sg_basehash := bh, sg_taskdeps := dset fn td (sg_taskdeps sg), sg_gendeps := dset fn g' (sg_gendeps sg),
              sg_lookupcache := dset fn lookup (sg_lookupcache sg)\<rparr>, td)"
    "set (dkeys g') = set (dkeys g)" "base_ok (se_md5 env) (sg_basewhitelist sg) g lookup fn task bh td"
    using build_data_run [OF assms(1), of "se_md5 env" fn sg] assms(3) by metis
  have sg: "sg' = sg\<lparr>sg_basehash := bh, sg_taskdeps := dset fn td (sg_taskdeps sg), sg_gendeps := dset fn g' (sg_gendeps sg),
      sg_lookupcache := dset fn lookup (sg_lookupcache sg)\<rparr>"
    using r(1) assms(2) by simp
  have "based (se_md5 env) fn task sg'"
    using r(2,3) sig_vars_white [of "sg_basewhitelist sg" g task] sig_vars_keys [OF conjunct1 [OF generate_tables [OF assms(1)]]]
    unfolding based_def sg by (auto simp: base_ok_def)
  moreover obtain tds alldeps lk v gendeps gd vv h0 where b:
    "dget (sg_taskdeps sg') fn = Some tds" "dget tds task = Some alldeps"
    "dget (sg_lookupcache sg') fn = Some lk" "dget lk task = Some v" "dget (sg_gendeps sg') fn = Some gendeps"
    "rfold (dump_var sg' gendeps lk) alldeps ([], [(task, v)]) = Inr (gd, vv)"
    "dget (sg_basehash sg') (sigkey fn task) = Some h0"
    "rbind (base_data vv task alldeps) (\<lambda>data. Inr (se_md5 env data)) = Inr h0"
    using dump_base [OF calculation] by blast
  let ?data = "\<lparr>sd_task = task, sd_basewhitelist = sg_basewhitelist sg', sd_taskwhitelist = sg_taskwhitelist sg',
      sd_taskdeps = alldeps, sd_basehash = h0, sd_gendeps = gd, sd_varvals = vv, sd_run = None,
      sd_taint = dump_taint env sg' (sigkey fn task) task stampbase False\<rparr>"
  have "dump_data env sg' fn task stampbase False = Inr ?data"
    using b by (simp add: dump_data_def dlookup_def Let_def split: option.split)
  moreover have "calc_basehash (se_md5 env) ?data = Inr h0" using b(8) by (simp add: calc_basehash_def)
  ultimately show ?thesis using b(7) by (simp add: dump_sigtask_def sigfile_name_def dump_runtime_def dlookup_def)
qed

section \<open>The order of dependencies\<close>

lemma sort_deps_order:
  assumes "rmap clean_basepath ds = Inr ks" "distinct ks" "mset ds = mset ds2"
  shows "sort_deps ds = sort_deps ds2"
proof -
  let ?p = "\<lambda>d. case clean_basepath d of Inl e \<Rightarrow> ([], d) | Inr k \<Rightarrow> (k, d)"
  have keys: "map (fst \<circ> ?p) ds = ks" "\<forall>d \<in> set ds. \<exists>k. clean_basepath d = Inr k"
    using assms(1) by (induction ds arbitrary: ks) (auto simp: res_simps)
  have run: "rmap (\<lambda>d. rbind (clean_basepath d) (\<lambda>k. Inr (k, d))) xs = Inr (map ?p xs)" if "set xs = set ds" for xs
    using keys(2) that by (intro rmap_Inr) auto
  have "set ds2 = set ds" using assms(3) mset_eq_setD by metis
  moreover have "sort_key fst (map ?p ds) = sort_key fst (map ?p ds2)"
  proof (rule sort_key_inj_key_eq)
    show "mset (map ?p ds) = mset (sort_key fst (map ?p ds2))" using assms(3) by simp
    show "inj_on fst (set (map ?p ds))"
      using assms(2) unfolding keys(1) [symmetric] by (auto simp: distinct_map inj_on_def)
    show "sorted (map fst (sort_key fst (map ?p ds2)))" by simp
  qed
  ultimately show ?thesis by (simp add: sort_deps_def run)
qed

text \<open>Recipes of the same name in directories of the same name are not told apart: the order decides.\<close>

lemma sort_deps_tie:
  "sort_deps [''/l1/p/a.bb.do_x'', ''/l2/p/a.bb.do_x''] = Inr [''/l1/p/a.bb.do_x'', ''/l2/p/a.bb.do_x'']"
  "sort_deps [''/l2/p/a.bb.do_x'', ''/l1/p/a.bb.do_x''] = Inr [''/l2/p/a.bb.do_x'', ''/l1/p/a.bb.do_x'']"
  by code_simp+

text \<open>A worker that was sent the data of the generator names stamps like the server.\<close>

lemma worker_stampfile: "hash_stampfile (set_taskdata (get_taskdata sg) sg0) = hash_stampfile sg"
proof -
  have "sg_taskhash (set_taskdata (get_taskdata sg) sg0) = sg_taskhash sg"
    "sg_basehash (set_taskdata (get_taskdata sg) sg0) = sg_basehash sg"
    by (simp_all add: set_taskdata_def get_taskdata_def)
  then show ?thesis by (intro ext) (simp only: hash_stampfile_def)
qed

lemma hash_stampfile_no_fuel: "hash_stampfile sg clean a b c e \<noteq> Inl OutOfFuel"
  by (auto simp: hash_stampfile_def Let_def res_simps split: option.splits)

section \<open>A recipe with one task\<close>

definition example_fs :: filesystem where
  "example_fs = \<lparr>fs_mtime = (\<lambda>_. None), fs_md5 = (\<lambda>_. None), fs_isdir = (\<lambda>_. False), fs_islink = (\<lambda>_. False),
     fs_glob = (\<lambda>_. []), fs_walk = (\<lambda>_. [])\<rparr>"

text \<open>In place of MD5 the text itself, so that the examples show what is hashed.\<close>

definition plain_env :: "(string \<Rightarrow> string option) \<Rightarrow> sigenv" where
  "plain_env taint = \<lparr>se_md5 = (\<lambda>s. s), se_fs = example_fs, se_taint = taint, se_uuid = (\<lambda>_. ''u'')\<rparr>"

definition example_sg :: siggen where
  "example_sg = siggen_init (Some ''B C'') None (\<lambda>_ _. True) \<lparr>fcc_mtimes = [], fcc_cachedata = [], fcc_extras = []\<rparr>"

definition example_dc :: "(string, (string, string) dict) dict \<Rightarrow> cachedata" where
  "example_dc flags = init_cacheData\<lparr>c_basetaskhash := [(''/r/a.bb.do_x'', ''run AA${B}'')], c_pkg_fn := [(''/r/a.bb'', ''a'')],
     c_file_checksums := [(''/r/a.bb'', [])], c_stamp := [(''/r/a.bb'', ''st'')],
     c_task_deps := [(''/r/a.bb'', \<lparr>td_tasks = [''do_x''], td_parents = [], td_flags = flags\<rparr>)]\<rparr>"

lemma example_generate:
  "generate_dependencies 4 example_ds =
     Inr ([''do_x''], [(''do_x'', [''A'']), (''A'', [''B'']), (''B'', [])],
       [(''do_x'', Some ''run A''), (''A'', Some ''${B}''), (''B'', None)])"
  by code_simp


lemma base_dump_agrees_witness:
  "\<exists>sg' taskdeps. build_data (se_md5 (plain_env (\<lambda>_. None))) 4 ''/r/a.bb'' example_ds example_sg = Inr (sg', taskdeps) \<and>
     based (se_md5 (plain_env (\<lambda>_. None))) ''/r/a.bb'' ''do_x'' sg' \<and>
     (\<exists>file data. dump_sigtask (plain_env (\<lambda>_. None)) sg' ''/r/a.bb'' ''do_x'' ''st'' (DumpRuntime False) =
        Inr (file, data, False, False))"
proof -
  obtain g' bh td where b: "build_data (se_md5 (plain_env (\<lambda>_. None))) 4 ''/r/a.bb'' example_ds example_sg =
      Inr (example_sg\<lparr>sg_basehash := bh, sg_taskdeps := dset ''/r/a.bb'' td (sg_taskdeps example_sg),
        sg_gendeps := dset ''/r/a.bb'' g' (sg_gendeps example_sg), sg_lookupcache := dset ''/r/a.bb''
          [(''do_x'', Some ''run A''), (''A'', Some ''${B}''), (''B'', None)] (sg_lookupcache example_sg)\<rparr>, td)"
    by (rule build_data_run [OF example_generate]) blast
  then show ?thesis using base_dump_agrees [OF example_generate b, of "''do_x''" "''st''"] by fastforce
qed

text \<open>The state after \<open>build_data\<close>, and the hash of the task: without taint, and with both kinds of taint.\<close>

definition example_based :: siggen where
  "example_based = example_sg\<lparr>sg_basehash := [(''/r/a.bb.do_x'', ''run AA${B}'')],
     sg_taskdeps := [(''/r/a.bb'', [(''do_x'', [''A''])])],
     sg_gendeps := [(''/r/a.bb'', [(''do_x'', [''A'']), (''A'', []), (''B'', [])])],
     sg_lookupcache := [(''/r/a.bb'', [(''do_x'', Some ''run A''), (''A'', Some ''${B}''), (''B'', None)])]\<rparr>"

definition both_taints :: sigenv where
  "both_taints = plain_env (\<lambda>p. if p = ''st.do_x.taint'' then Some ''t'' else None)"

lemma example_hash:
  "case get_taskhash (plain_env (\<lambda>_. None)) ''/r/a.bb'' ''do_x'' [] (example_dc []) example_based of
     Inl e \<Rightarrow> False | Inr (sg', h) \<Rightarrow> h = ''run AA${B}''"
  by code_simp

text \<open>
  A task marked \<open>nostamp\<close> that has a taint file: the signature file keeps only the taint of the file, and
  \<open>dump_sigtask\<close> reports that the hashes differ.
\<close>

lemma both_taints_differ:
  "case get_taskhash both_taints ''/r/a.bb'' ''do_x'' [] (example_dc [(''nostamp'', [(''do_x'', ''1'')])]) example_based of
     Inl e \<Rightarrow> False
   | Inr (sg', h) \<Rightarrow>
       h = ''run AA${B}ut'' \<and>
       (case dump_sigtask both_taints sg' ''/r/a.bb'' ''do_x'' ''st'' (DumpRuntime True) of
          Inl e \<Rightarrow> False | Inr (file, data, base_differs, task_differs) \<Rightarrow> \<not> base_differs \<and> task_differs)"
  by code_simp

end
