(* ===== verification/SigRuns.thy ===== *)
theory SigRuns
  imports SigGen
begin

text \<open>
  The signature generator as the run queue calls it: the loop of \<open>RunQueueData.prepare\<close> over the tasks
  with \<open>get_taskhash\<close> of \<open>SignatureGeneratorBasic\<close>.

  The locale \<open>hashing_client\<close> states what a property of the loop needs of one step.  Its
  interpretations give that every task is hashed after its dependencies, so that the generator never
  misses a hash, and that afterwards each hash is that of the text made from the hashes of its
  dependencies.  From this it follows that a changed base hash changes the hashes of all tasks that depend on it.
\<close>

section \<open>Names of tasks in the signature generator\<close>

text \<open>A task identifier that \<open>split_tid_mcfn\<close> takes apart at its last colon, and whose task name has no dot.\<close>

definition good_tid :: "string \<Rightarrow> bool" where
  "good_tid t \<longleftrightarrow> (\<exists>mc fn task. split_tid_mcfn t = Inr (mc, fn, task, fn_from_tid t) \<and>
     taskname_from_tid t = Inr task \<and> CHR ''.'' \<notin> set task)"

definition tid_key :: "string \<Rightarrow> string" where
  "tid_key t = (case taskname_from_tid t of Inl e \<Rightarrow> [] | Inr task \<Rightarrow> sigkey (fn_from_tid t) task)"

lemma good_tidE:
  assumes "good_tid t"
  obtains mc fn task where "split_tid_mcfn t = Inr (mc, fn, task, fn_from_tid t)" "taskname_from_tid t = Inr task"
    "tid_key t = sigkey (fn_from_tid t) task" "t = fn_from_tid t @ colon # task" "CHR ''.'' \<notin> set task"
proof -
  from assms obtain mc fn task where t: "split_tid_mcfn t = Inr (mc, fn, task, fn_from_tid t)" "taskname_from_tid t = Inr task"
    "CHR ''.'' \<notin> set task"
    unfolding good_tid_def by blast
  then obtain u where "rsplit1 colon t = Some (u, task)" by (auto simp: taskname_from_tid_def split: option.splits)
  then have "t = fn_from_tid t @ colon # task" using rsplit1_SomeD [of colon t u task] by (simp add: fn_from_tid_def)
  then show ?thesis using that t by (simp add: tid_key_def)
qed

lemma tid_key_inject:
  assumes "good_tid t" "good_tid u" "tid_key t = tid_key u"
  shows "t = u"
proof -
  obtain task where t: "tid_key t = sigkey (fn_from_tid t) task" "t = fn_from_tid t @ colon # task" "CHR ''.'' \<notin> set task"
    using assms(1) by (rule good_tidE) blast
  obtain task2 where u: "tid_key u = sigkey (fn_from_tid u) task2" "u = fn_from_tid u @ colon # task2" "CHR ''.'' \<notin> set task2"
    using assms(2) by (rule good_tidE) blast
  have "rsplit1 CHR ''.'' (tid_key t) = Some (fn_from_tid t, task)" "rsplit1 CHR ''.'' (tid_key u) = Some (fn_from_tid u, task2)"
    using rsplit1_append [OF t(3), of "fn_from_tid t"] rsplit1_append [OF u(3), of "fn_from_tid u"] t(1) u(1)
    by (simp_all add: sigkey_def)
  then have "fn_from_tid t = fn_from_tid u \<and> task = task2" using assms(3) by simp
  then show ?thesis using t(2) u(2) by metis
qed

text \<open>What the loop passes to \<open>get_taskhash\<close>.\<close>

lemma call_siggen_good:
  assumes "good_tid t" "\<forall>d \<in> set ds. good_tid d"
  obtains mc fn task where "split_tid_mcfn t = Inr (mc, fn, task, fn_from_tid t)" "tid_key t = sigkey (fn_from_tid t) task"
    "\<And>f dcs s. call_siggen f dcs t ds s = rbind (dlookup dcs mc) (\<lambda>dc. f (fn_from_tid t) task (map tid_key ds) dc s)"
proof -
  have "rmap (\<lambda>dep. rbind (taskname_from_tid dep) (\<lambda>t. Inr (fn_from_tid dep @ ''.'' @ t))) ds = Inr (map tid_key ds)"
  proof (rule rmap_Inr)
    fix d
    assume "d \<in> set ds"
    then obtain task where "taskname_from_tid d = Inr task" "tid_key d = sigkey (fn_from_tid d) task"
      using assms(2) good_tidE by metis
    then show "rbind (taskname_from_tid d) (\<lambda>t. Inr (fn_from_tid d @ ''.'' @ t)) = Inr (tid_key d)"
      by (simp add: sigkey_def)
  qed
  moreover obtain mc fn task where "split_tid_mcfn t = Inr (mc, fn, task, fn_from_tid t)" "tid_key t = sigkey (fn_from_tid t) task"
    using assms(1) by (rule good_tidE) blast
  ultimately show ?thesis using that by (simp add: call_siggen_def)
qed

section \<open>Properties of the loop over the hashes\<close>

locale hashing_client =
  fixes g :: "'t graph" and siggen :: "'t \<Rightarrow> 't list \<Rightarrow> 'g \<Rightarrow> ('g \<times> string) res" and P :: "('t, 'g) hashing \<Rightarrow> bool"
  assumes step: "hashing_ok g h \<Longrightarrow> P h \<Longrightarrow> t \<in> set (h_todeal h) \<Longrightarrow> hash_step siggen t h = Inr h' \<Longrightarrow> P h'"
begin

lemma round:
  "hashing_ok g h \<Longrightarrow> P h \<Longrightarrow> distinct ts \<Longrightarrow> set ts \<subseteq> set (h_todeal h) \<Longrightarrow>
     (\<exists>h'. rfold (hash_step siggen) ts h = Inr h' \<and> hashing_ok g h' \<and> P h') \<or>
     (\<exists>t u e. hashing_ok g u \<and> P u \<and> t \<in> set (h_todeal u) \<and> hash_step siggen t u = Inl e \<and>
        rfold (hash_step siggen) ts h = Inl e)"
proof (induction ts arbitrary: h)
  case Nil
  then show ?case by simp
next
  case (Cons t ts)
  have t: "t \<in> set (h_todeal h)" using Cons.prems(4) by simp
  show ?case
  proof (cases "hash_step siggen t h")
    case (Inl e)
    then show ?thesis using Cons.prems(1,2) t by auto
  next
    case (Inr h1)
    note one = hash_step_ok [OF Inr Cons.prems(1) t]
    have "set ts \<subseteq> set (h_todeal h1)" using one Cons.prems(3,4) by auto
    then show ?thesis
      using Cons.IH [of h1] one step [OF Cons.prems(1,2) t Inr] Cons.prems(3) Inr by simp
  qed
qed

lemma loop:
  "hashing_ok g h \<Longrightarrow> P h \<Longrightarrow>
     (\<exists>h'. hash_loop siggen n h = Inr h' \<and> hashing_ok g h' \<and> P h' \<and> h_todeal h' = []) \<or>
     hash_loop siggen n h = Inl OutOfFuel \<or>
     (\<exists>t u e. hashing_ok g u \<and> P u \<and> t \<in> set (h_todeal u) \<and> hash_step siggen t u = Inl e \<and>
        hash_loop siggen n h = Inl e)"
proof (induction n arbitrary: h)
  case 0
  then show ?case by (simp add: hash_loop.simps [of _ 0])
next
  case (Suc n)
  show ?case
  proof (cases "h_todeal h = []")
    case True
    then show ?thesis using Suc.prems by (simp add: hash_loop.simps [of _ "Suc n"])
  next
    case False
    have "distinct (h_todeal h)" using Suc.prems(1) by (simp add: hashing_ok_def)
    from round [OF Suc.prems this subset_refl]
    consider h1 where "rfold (hash_step siggen) (h_todeal h) h = Inr h1" "hashing_ok g h1" "P h1"
      | t u e where "hashing_ok g u" "P u" "t \<in> set (h_todeal u)" "hash_step siggen t u = Inl e"
        "rfold (hash_step siggen) (h_todeal h) h = Inl e"
      by blast
    then show ?thesis
    proof cases
      case 1
      then have "hash_loop siggen (Suc n) h = hash_loop siggen n h1"
        using False by (simp add: hash_loop.simps [of _ "Suc n"])
      then show ?thesis using Suc.IH [OF 1(2,3)] by presburger
    next
      case 2
      then have "hash_loop siggen (Suc n) h = Inl e" using False by (simp add: hash_loop.simps [of _ "Suc n"])
      then show ?thesis using 2(1-4) by blast
    qed
  qed
qed

end

text \<open>One step that deals with a task.\<close>

lemma hash_stepE:
  assumes "hash_step siggen t h = Inr h'"
  obtains "h' = h"
  | e s hash where "dget (h_entries h) t = Some e" "set (rt_depends e) \<subseteq> set (h_dealt h)"
    "siggen t (rt_depends e) (h_siggen h) = Inr (s, hash)" "h_dealt h' = h_dealt h @ [t]" "h_siggen h' = s"
    "h_todeal h' = remove1 t (h_todeal h)" "h_entries h' = dset t (e\<lparr>rt_hash := Some hash\<rparr>) (h_entries h)"
  using assms by (auto simp: hash_step_def res_simps split: if_splits)

lemma hashing_deps: "hashing_ok g h \<Longrightarrow> dget (h_entries h) t = Some e \<Longrightarrow> rt_depends e = deps g t"
  unfolding hashing_ok_def by (metis deps_def option.simps(5))

lemma hashing_todeal: "hashing_ok g h \<Longrightarrow> t \<in> set (h_todeal h) \<Longrightarrow> t \<in> set (dkeys g) \<and> t \<notin> set (h_dealt h)"
  by (auto simp: hashing_ok_def)

lemma hashing_init:
  "graph_wf g \<Longrightarrow> hashing_ok g \<lparr>h_entries = g, h_dealt = [], h_todeal = dkeys g, h_siggen = s\<rparr>"
  by (auto simp: hashing_ok_def graph_wf_def dwf_def deps_first_def)

definition tid_graph :: "string graph \<Rightarrow> bool" where
  "tid_graph g \<longleftrightarrow> graph_wf g \<and> (\<forall>t \<in> set (dkeys g). good_tid t)"

lemma good_deps: "tid_graph g \<Longrightarrow> t \<in> set (dkeys g) \<Longrightarrow> good_tid t \<and> (\<forall>d \<in> set (deps g t). good_tid d)"
  by (auto simp: tid_graph_def graph_wf_def)

text \<open>The call for a task that is still to be dealt with.\<close>

lemma todeal_call:
  assumes "tid_graph g" "hashing_ok g h" "t \<in> set (h_todeal h)"
  obtains mc fn task where "split_tid_mcfn t = Inr (mc, fn, task, fn_from_tid t)" "tid_key t = sigkey (fn_from_tid t) task"
    "\<And>f dcs s. call_siggen f dcs t (deps g t) s =
       rbind (dlookup dcs mc) (\<lambda>dc. f (fn_from_tid t) task (map tid_key (deps g t)) dc s)"
proof -
  have "t \<in> set (dkeys g)" using hashing_todeal [OF assms(2,3)] by simp
  then have "good_tid t \<and> (\<forall>d \<in> set (deps g t). good_tid d)" by (rule good_deps [OF assms(1)])
  then show ?thesis using call_siggen_good that by blast
qed

section \<open>Every task is hashed after its dependencies\<close>

lemma clean_basepath_exc: "clean_basepath a = Inl e \<Longrightarrow> e = ValueError \<or> e = IndexError"
  by (auto simp: clean_basepath_def rbind_Inl_iff Let_def split: if_splits option.splits list.splits)

lemma rmap_exc: "rmap f xs = Inl e \<Longrightarrow> \<exists>x \<in> set xs. f x = Inl e"
  by (induction xs) (auto simp: rbind_Inl_iff)

lemma sort_deps_exc: "sort_deps ds = Inl e \<Longrightarrow> e = ValueError \<or> e = IndexError"
  by (auto simp: sort_deps_def rbind_Inl_iff dest!: rmap_exc clean_basepath_exc)

lemma checksum_entry_exc: "checksum_entry w word s = Inl e \<Longrightarrow> e = IndexError"
  by (auto simp: checksum_entry_def Let_def split: if_splits)

lemma rfold_exc: "rfold f xs s = Inl e \<Longrightarrow> \<exists>x s'. x \<in> set xs \<and> f x s' = Inl e"
  by (induction xs arbitrary: s) (auto simp: rbind_Inl_iff, blast)

lemma task_checksums_exc: "task_checksums env dc fn task k = Inl e \<Longrightarrow> e \<in> {KeyError, AttributeError, IndexError}"
  by (auto simp: task_checksums_def fcc_get_checksums_def rbind_Inl_iff
      dest!: rfold_exc checksum_entry_exc split: option.splits)

lemma dep_hash_exc: "dep_hash sg dc recipename dep st = Inl e \<Longrightarrow> e \<in> {KeyError, AttributeError, Fatal}"
  by (auto simp: dep_hash_def pkgnameextract_def rbind_Inl_iff split: if_splits option.splits list.splits)

text \<open>\<open>get_taskhash\<close> only ends with \<open>Fatal\<close> when a dependency has no hash yet.\<close>

lemma get_taskhash_exc:
  assumes "get_taskhash env fn task ds dc sg = Inl e"
  shows "e \<noteq> OutOfFuel \<and> (e = Fatal \<longrightarrow> (\<exists>d \<in> set ds. d \<notin> set (dkeys (sg_taskhash sg))))"
proof -
  from assms consider "e = KeyError" | "sort_deps ds = Inl e"
    | base recipename ds' where "sort_deps ds = Inr ds'" "rfold (dep_hash sg dc recipename) ds' (base, []) = Inl e"
    | k where "task_checksums env dc fn task k = Inl e"
    by (auto simp: get_taskhash_def Let_def rbind_Inl_iff)
  then show ?thesis
  proof cases
    case 1
    then show ?thesis by simp
  next
    case 2
    then show ?thesis using sort_deps_exc by blast
  next
    case 3
    then show ?thesis using dep_hash_fatal [of sg dc recipename ds'] sort_deps_set [OF 3(1)] rfold_exc [OF 3(2)] dep_hash_exc
      by fastforce
  next
    case 4
    then show ?thesis using task_checksums_exc by fastforce
  qed
qed

text \<open>The hashes of the tasks dealt with are known.\<close>

definition hashed :: "string graph \<Rightarrow> (string, siggen) hashing \<Rightarrow> bool" where
  "hashed g h \<longleftrightarrow> tid_graph g \<and> (\<forall>t \<in> set (h_dealt h). tid_key t \<in> set (dkeys (sg_taskhash (h_siggen h))))"

lemma hash_step_hashed:
  assumes "hashing_ok g h" "hashed g h" "t \<in> set (h_todeal h)" "hash_step (call_siggen (get_taskhash env) dcs) t h = Inr h'"
  shows "hashed g h'"
  using assms(4)
proof (cases rule: hash_stepE)
  case 1
  then show ?thesis using assms(2) by simp
next
  case (2 e s hash)
  have "tid_graph g" using assms(2) by (simp add: hashed_def)
  then obtain mc task where c: "tid_key t = sigkey (fn_from_tid t) task"
    "\<And>f dcs (s :: siggen). call_siggen f dcs t (deps g t) s = rbind (dlookup dcs mc) (\<lambda>dc. f (fn_from_tid t) task (map tid_key (deps g t)) dc s)"
    by (rule todeal_call [OF _ assms(1,3)]) blast
  obtain dc where r: "get_taskhash env (fn_from_tid t) task (map tid_key (deps g t)) dc (h_siggen h) = Inr (s, hash)"
    using 2(3) c(2) hashing_deps [OF assms(1) 2(1)] by (auto simp: res_simps)
  have "sg_taskhash s = dset (tid_key t) hash (sg_taskhash (h_siggen h))"
    unfolding c(1) by (rule get_taskhash_effect [OF r])
  then show ?thesis using assms(2) 2(4,5) by (simp add: hashed_def)
qed

interpretation ho: hashing_client g "call_siggen (get_taskhash env) dcs" "hashed g" for g env dcs
  using hash_step_hashed by unfold_locales

lemma hash_step_not_fatal:
  assumes "hashing_ok g h" "hashed g h" "t \<in> set (h_todeal h)" "hash_step (call_siggen (get_taskhash env) dcs) t h = Inl e"
  shows "e \<noteq> Fatal \<and> e \<noteq> OutOfFuel"
proof -
  have "tid_graph g" using assms(2) by (simp add: hashed_def)
  then obtain mc task where c:
    "\<And>f dcs (s :: siggen). call_siggen f dcs t (deps g t) s = rbind (dlookup dcs mc) (\<lambda>dc. f (fn_from_tid t) task (map tid_key (deps g t)) dc s)"
    by (rule todeal_call [OF _ assms(1,3)]) blast
  from assms(4) consider "e = KeyError"
    | x dc where "dget (h_entries h) t = Some x" "set (rt_depends x) \<subseteq> set (h_dealt h)"
      "get_taskhash env (fn_from_tid t) task (map tid_key (deps g t)) dc (h_siggen h) = Inl e"
    using c hashing_deps [OF assms(1)] by (auto simp: hash_step_def rbind_Inl_iff split: if_splits)
  then show ?thesis
  proof cases
    case 1
    then show ?thesis by simp
  next
    case 2
    then have "\<forall>d \<in> set (map tid_key (deps g t)). d \<in> set (dkeys (sg_taskhash (h_siggen h)))"
      using assms(2) hashing_deps [OF assms(1) 2(1)] by (auto simp: hashed_def)
    then show ?thesis using get_taskhash_exc [OF 2(3)] by blast
  qed
qed

text \<open>
  C15.  When the run queue computes the hashes of a graph without cycles, the signature generator is
  never called for a task before its dependencies: the loop ends, and not with the fatal error of
  \<open>get_taskhash\<close> about the order of the calls, whatever the generator knew before.
\<close>
theorem hashes_in_order:
  assumes "tid_graph g" "acyclic (dep_edges g)"
  shows "hash_loop (call_siggen (get_taskhash env) dcs) (length g)
      \<lparr>h_entries = g, h_dealt = [], h_todeal = dkeys g, h_siggen = sg\<rparr> \<notin> {Inl Fatal, Inl OutOfFuel}"
proof -
  let ?h = "\<lparr>h_entries = g, h_dealt = [], h_todeal = dkeys g, h_siggen = sg\<rparr>"
  let ?f = "call_siggen (get_taskhash env) dcs"
  have wf: "graph_wf g" using assms(1) by (simp add: tid_graph_def)
  have "rmap f xs \<noteq> Inl OutOfFuel" if "\<And>x. f x \<noteq> Inl OutOfFuel" for f :: "string \<Rightarrow> string res" and xs
    using that rmap_exc by blast
  moreover have "split_tid_mcfn t \<noteq> Inl OutOfFuel" "taskname_from_tid t \<noteq> Inl OutOfFuel" for t
    by (auto simp: split_tid_mcfn_def taskname_from_tid_def Let_def split: option.splits)
  ultimately have "?f t ds s \<noteq> Inl OutOfFuel" for t ds s
    using get_taskhash_exc by (fastforce simp: call_siggen_def rbind_Inl_iff)
  then have "hash_loop ?f (length g) ?h \<noteq> Inl OutOfFuel"
    using hash_loop_fuel [OF hashing_init [OF wf, of sg] wf assms(2), of "length g" ?f] by (simp add: dkeys_def)
  moreover have "hashed g ?h" using assms(1) by (simp add: hashed_def)
  ultimately show ?thesis
    using ho.loop [OF hashing_init [OF wf], of sg env dcs "length g"] hash_step_not_fatal by fastforce
qed

section \<open>What the hashes are in the end\<close>

definition task_signed :: "sigenv \<Rightarrow> mcdc \<Rightarrow> string graph \<Rightarrow> string \<Rightarrow> siggen \<Rightarrow> bool" where
  "task_signed env dcs g t sg \<longleftrightarrow>
     (\<exists>mc fn task dc. split_tid_mcfn t = Inr (mc, fn, task, fn_from_tid t) \<and> tid_key t = sigkey (fn_from_tid t) task \<and>
        dget dcs mc = Some dc \<and> signed env dc (fn_from_tid t) task (map tid_key (deps g t)) sg)"

text \<open>The hash of a task in the graph.\<close>

definition final_hash :: "(string, siggen) hashing \<Rightarrow> string \<Rightarrow> string option" where
  "final_hash h t = (case dget (h_entries h) t of None \<Rightarrow> None | Some e \<Rightarrow> rt_hash e)"

definition all_signed :: "sigenv \<Rightarrow> mcdc \<Rightarrow> string graph \<Rightarrow> (string, siggen) hashing \<Rightarrow> bool" where
  "all_signed env dcs g h \<longleftrightarrow>
     tid_graph g \<and> honest (se_fs env) (sg_checksums (h_siggen h)) \<and>
     (\<forall>t \<in> set (h_todeal h). dget (sg_taints (h_siggen h)) (tid_key t) = None) \<and>
     (\<forall>t \<in> set (h_dealt h). set (deps g t) \<subseteq> set (h_dealt h) \<and> task_signed env dcs g t (h_siggen h) \<and>
        dget (sg_taskhash (h_siggen h)) (tid_key t) = final_hash h t)"

text \<open>The key of a task is not that of another task of the graph, nor that of a dependency of one dealt with.\<close>

lemma key_fresh:
  assumes "tid_graph g" "hashing_ok g h" "t \<in> set (h_todeal h)" "set ds \<subseteq> set (h_dealt h)"
  shows "tid_key t \<notin> set (map tid_key ds)"
proof
  assume "tid_key t \<in> set (map tid_key ds)"
  then obtain d where d: "d \<in> set ds" "tid_key t = tid_key d" by auto
  have "d \<in> set (dkeys g)" using d(1) assms(2,4) by (auto simp: hashing_ok_def)
  then have "t = d"
    using tid_key_inject d(2) assms(1) hashing_todeal [OF assms(2,3)] by (auto simp: tid_graph_def)
  then show False using d(1) assms(4) hashing_todeal [OF assms(2,3)] by blast
qed

lemma all_signed_step:
  assumes "hashing_ok g h" "all_signed env dcs g h" "t \<in> set (h_todeal h)"
    "hash_step (call_siggen (get_taskhash env) dcs) t h = Inr h'"
  shows "all_signed env dcs g h'"
  using assms(4)
proof (cases rule: hash_stepE)
  case 1
  then show ?thesis using assms(2) by simp
next
  case (2 e s hash)
  have good: "tid_graph g" using assms(2) by (simp add: all_signed_def)
  then obtain mc fn task where c: "split_tid_mcfn t = Inr (mc, fn, task, fn_from_tid t)" "tid_key t = sigkey (fn_from_tid t) task"
    "\<And>f dcs (s :: siggen). call_siggen f dcs t (deps g t) s =
       rbind (dlookup dcs mc) (\<lambda>dc. f (fn_from_tid t) task (map tid_key (deps g t)) dc s)"
    by (rule todeal_call [OF _ assms(1,3)]) blast
  have ds: "rt_depends e = deps g t" using hashing_deps [OF assms(1) 2(1)] .
  obtain dc where dc: "dget dcs mc = Some dc"
    and r: "get_taskhash env (fn_from_tid t) task (map tid_key (deps g t)) dc (h_siggen h) = Inr (s, hash)"
    using 2(3) c(3) ds by (auto simp: res_simps)
  have old: "honest (se_fs env) (sg_checksums (h_siggen h))" "dget (sg_taints (h_siggen h)) (tid_key t) = None"
    "\<And>u. u \<in> set (h_dealt h) \<Longrightarrow> set (deps g u) \<subseteq> set (h_dealt h) \<and> task_signed env dcs g u (h_siggen h) \<and>
       dget (sg_taskhash (h_siggen h)) (tid_key u) = final_hash h u"
    using assms(2,3) by (auto simp: all_signed_def)
  have fresh: "tid_key t \<notin> set (map tid_key ds)" if "set ds \<subseteq> set (h_dealt h)" for ds
    using key_fresh [OF good assms(1,3) that] .
  have sub: "set (deps g t) \<subseteq> set (h_dealt h)" using 2(2) ds by simp
  note new = get_taskhash_signed [OF r old(1) old(2) [unfolded c(2)] fresh [OF sub, unfolded c(2)]]
  have th: "sg_taskhash s = dset (tid_key t) hash (sg_taskhash (h_siggen h))"
    unfolding c(2) by (rule get_taskhash_effect [OF r])
  have taints: "dget (sg_taints s) k = dget (sg_taints (h_siggen h)) k" if "k \<noteq> tid_key t" for k
    by (rule get_taskhash_effect [OF r]) (use that c(2) in simp)
  have one: "task_signed env dcs g t s" using c(1,2) dc new unfolding task_signed_def by blast
  have keep: "task_signed env dcs g u s" if u: "u \<in> set (h_dealt h)" for u
  proof -
    have ud: "set (deps g u) \<subseteq> set (h_dealt h)" "task_signed env dcs g u (h_siggen h)" using old(3) [OF u] by simp_all
    obtain mc2 fn2 task2 dc2 where u2: "split_tid_mcfn u = Inr (mc2, fn2, task2, fn_from_tid u)"
      "tid_key u = sigkey (fn_from_tid u) task2" "dget dcs mc2 = Some dc2"
      "signed env dc2 (fn_from_tid u) task2 (map tid_key (deps g u)) (h_siggen h)"
      using ud(2) unfolding task_signed_def by blast
    have ne: "sigkey (fn_from_tid t) task \<noteq> sigkey (fn_from_tid u) task2"
      using fresh [of "[u]"] u u2(2) c(2) by simp
    show ?thesis
      using get_taskhash_keeps_signed [OF u2(4) r ne fresh [OF ud(1), unfolded c(2)]] u2(1-3)
      unfolding task_signed_def by blast
  qed
  have fin: "final_hash h' u = (if u = t then Some hash else final_hash h u)" for u
    using 2(7) by (simp add: final_hash_def)
  show ?thesis
    unfolding all_signed_def
  proof (intro conjI ballI)
    show "tid_graph g" by fact
    show "honest (se_fs env) (sg_checksums (h_siggen h'))" using new 2(5) by simp
    show "dget (sg_taints (h_siggen h')) (tid_key u) = None" if "u \<in> set (h_todeal h')" for u
    proof -
      have "distinct (h_todeal h)" using assms(1) by (simp add: hashing_ok_def)
      then have u: "u \<in> set (h_todeal h)" "u \<noteq> t" using that 2(6) by auto
      then have "tid_key u \<noteq> tid_key t"
        using tid_key_inject good hashing_todeal [OF assms(1)] assms(3) unfolding tid_graph_def by blast
      then show ?thesis using taints assms(2) u(1) 2(5) by (simp add: all_signed_def)
    qed
    fix u
    assume "u \<in> set (h_dealt h')"
    then have u: "u = t \<or> u \<in> set (h_dealt h)" using 2(4) by simp
    show "set (deps g u) \<subseteq> set (h_dealt h')" using u sub old(3) 2(4) by auto
    show "task_signed env dcs g u (h_siggen h')" using u one keep 2(5) by blast
    have "tid_key u \<noteq> tid_key t" if "u \<noteq> t" using u that fresh [of "[u]"] by auto
    then show "dget (sg_taskhash (h_siggen h')) (tid_key u) = final_hash h' u"
      using u old(3) [of u] fin 2(5) th by (cases "u = t") auto
  qed
qed

interpretation sr: hashing_client g "call_siggen (get_taskhash env) dcs" "all_signed env dcs g" for g env dcs
  using all_signed_step by unfold_locales

text \<open>The loop of the run queue on a graph, begun with a generator that has no taints of its tasks.\<close>

definition hash_run :: "sigenv \<Rightarrow> mcdc \<Rightarrow> string graph \<Rightarrow> siggen \<Rightarrow> (string, siggen) hashing \<Rightarrow> bool" where
  "hash_run env dcs g sg h \<longleftrightarrow>
     tid_graph g \<and> honest (se_fs env) (sg_checksums sg) \<and> (\<forall>t \<in> set (dkeys g). dget (sg_taints sg) (tid_key t) = None) \<and>
     hash_loop (call_siggen (get_taskhash env) dcs) (length g)
       \<lparr>h_entries = g, h_dealt = [], h_todeal = dkeys g, h_siggen = sg\<rparr> = Inr h"

lemma hash_run_signed:
  assumes "hash_run env dcs g sg h" "t \<in> set (dkeys g)"
  shows "task_signed env dcs g t (h_siggen h) \<and> dget (sg_taskhash (h_siggen h)) (tid_key t) = final_hash h t"
proof -
  let ?h = "\<lparr>h_entries = g, h_dealt = [], h_todeal = dkeys g, h_siggen = sg\<rparr>"
  have wf: "graph_wf g" using assms(1) by (simp add: hash_run_def tid_graph_def)
  have run: "hash_loop (call_siggen (get_taskhash env) dcs) (length g) ?h = Inr h" using assms(1) by (simp add: hash_run_def)
  have "all_signed env dcs g ?h" using assms(1) by (simp add: hash_run_def all_signed_def)
  from sr.loop [OF hashing_init [OF wf] this, of "length g"] run
  have h: "hashing_ok g h" "all_signed env dcs g h" "h_todeal h = []" by auto
  have "t \<in> set (h_dealt h)" using assms(2) h(1,3) by (simp add: hashing_ok_def)
  then show ?thesis using h(2) by (simp add: all_signed_def)
qed

text \<open>The text that was hashed for a task, from what the generator recorded.\<close>

definition task_text :: "sigenv \<Rightarrow> mcdc \<Rightarrow> siggen \<Rightarrow> string \<Rightarrow> string" where
  "task_text env dcs sg t =
     (case split_tid_mcfn t of
        Inl e \<Rightarrow> []
      | Inr (mc, fn, task, taskfn) \<Rightarrow> (case dget dcs mc of
          None \<Rightarrow> []
        | Some dc \<Rightarrow> sig_text env dc taskfn task (dgetd (sg_basehash sg) (tid_key t) [])
            (map (hash_of sg) (dgetd (sg_runtaskdeps sg) (tid_key t) []))
            (dgetd (sg_file_checksum_values sg) (tid_key t) [])))"

lemma task_signed_text:
  assumes "task_signed env dcs g t sg"
  shows "dget (sg_taskhash sg) (tid_key t) = Some (se_md5 env (task_text env dcs sg t))"
    "set (dgetd (sg_runtaskdeps sg) (tid_key t) []) \<subseteq> tid_key ` set (deps g t)"
proof -
  obtain mc fn task dc where t: "split_tid_mcfn t = Inr (mc, fn, task, fn_from_tid t)" "tid_key t = sigkey (fn_from_tid t) task"
    "dget dcs mc = Some dc" "signed env dc (fn_from_tid t) task (map tid_key (deps g t)) sg"
    using assms unfolding task_signed_def by blast
  obtain base recipename ds' checksums where s:
    "sort_deps (map tid_key (deps g t)) = Inr ds'" "dget (sg_basehash sg) (tid_key t) = Some base"
    "dget (sg_runtaskdeps sg) (tid_key t) = Some (filter (keeps_dep sg dc recipename) ds')"
    "dget (sg_file_checksum_values sg) (tid_key t) = Some checksums"
    "dget (sg_taskhash sg) (tid_key t) =
       Some (se_md5 env (sig_text env dc (fn_from_tid t) task base (map (hash_of sg) (filter (keeps_dep sg dc recipename) ds')) checksums))"
    using t(4) unfolding signed_def t(2) by blast
  show "dget (sg_taskhash sg) (tid_key t) = Some (se_md5 env (task_text env dcs sg t))"
    using s(2-5) t(1,3) by (simp add: task_text_def dgetd_def del: map_eq_conv)
  show "set (dgetd (sg_runtaskdeps sg) (tid_key t) []) \<subseteq> tid_key ` set (deps g t)"
    using s(3) sort_deps_set [OF s(1)] by (auto simp: dgetd_def)
qed

lemma hash_run_text:
  assumes "hash_run env dcs g sg h" "t \<in> set (dkeys g)"
  shows "final_hash h t = Some (se_md5 env (task_text env dcs (h_siggen h) t))"
  using hash_run_signed [OF assms] task_signed_text(1) by metis

text \<open>The dependencies that count: those not dropped by the white list of recipes.\<close>

definition counted_deps :: "string graph \<Rightarrow> (string, siggen) hashing \<Rightarrow> (string \<times> string) set" where
  "counted_deps g h = {(t, d). t \<in> set (dkeys g) \<and> d \<in> set (deps g t) \<and>
     tid_key d \<in> set (dgetd (sg_runtaskdeps (h_siggen h)) (tid_key t) [])}"

lemma hash_of_final:
  assumes "hash_run env dcs g sg h" "d \<in> set (dkeys g)"
  shows "hash_of (h_siggen h) (tid_key d) = se_md5 env (task_text env dcs (h_siggen h) d)"
  using hash_run_signed [OF assms] hash_run_text [OF assms] by (simp add: hash_of_def dgetd_def)

lemma concat_same_length:
  "concat (map f ks) @ r = concat (map f' ks) @ r' \<Longrightarrow> (\<And>k. k \<in> set ks \<Longrightarrow> length (f k) = length (f' k)) \<Longrightarrow>
     (\<forall>k \<in> set ks. f k = f' k)"
  by (induction ks) auto

lemma kept_dkeys:
  assumes "hash_run env dcs g sg h" "t \<in> set (dkeys g)" "k \<in> set (dgetd (sg_runtaskdeps (h_siggen h)) (tid_key t) [])"
  obtains d where "d \<in> set (dkeys g)" "k = tid_key d"
proof -
  have "graph_wf g" using assms(1) by (simp add: hash_run_def tid_graph_def)
  then have "set (deps g t) \<subseteq> set (dkeys g)" using assms(2) by (auto simp: graph_wf_def)
  then show ?thesis using task_signed_text(2) [of env dcs g t] hash_run_signed [OF assms(1,2)] assms(3) that by blast
qed

lemma counted_dkeys: "hash_run env dcs g sg h \<Longrightarrow> (u, d) \<in> counted_deps g h \<Longrightarrow> d \<in> set (dkeys g)"
  by (auto simp: counted_deps_def hash_run_def tid_graph_def graph_wf_def)

lemma task_text_parts:
  assumes "hash_run env dcs g sg h" "t \<in> set (dkeys g)"
  shows "\<exists>r. task_text env dcs (h_siggen h) t = dgetd (sg_basehash (h_siggen h)) (tid_key t) [] @
    concat (map (hash_of (h_siggen h)) (dgetd (sg_runtaskdeps (h_siggen h)) (tid_key t) [])) @ r"
proof -
  obtain mc fn task dc where "split_tid_mcfn t = Inr (mc, fn, task, fn_from_tid t)" "dget dcs mc = Some dc"
    using hash_run_signed [OF assms] unfolding task_signed_def by blast
  then show ?thesis by (simp add: task_text_def sig_text_def)
qed

text \<open>
  C14.  A changed base hash changes the hashes of all tasks that depend on it.  Take two runs on the same
  graph that record the same dependencies; then, if MD5 has no collision among the texts of these
  runs and its values and the base hashes have the same length, a task has different hashes in the
  two runs whenever it reaches, through dependencies that count, a task whose base hashes differ.
\<close>
theorem hash_change_propagates:
  assumes "hash_run env1 dcs1 g sg1 h1" "hash_run env2 dcs2 g sg2 h2" "se_md5 env1 = md5" "se_md5 env2 = md5"
    "\<And>s. length (md5 s) = n"
    "\<And>u. u \<in> set (dkeys g) \<Longrightarrow> length (dgetd (sg_basehash (h_siggen h1)) (tid_key u) []) = n \<and>
       length (dgetd (sg_basehash (h_siggen h2)) (tid_key u) []) = n"
    "\<And>u. u \<in> set (dkeys g) \<Longrightarrow>
       dget (sg_runtaskdeps (h_siggen h1)) (tid_key u) = dget (sg_runtaskdeps (h_siggen h2)) (tid_key u)"
    "\<And>u. u \<in> set (dkeys g) \<Longrightarrow> md5 (task_text env1 dcs1 (h_siggen h1) u) = md5 (task_text env2 dcs2 (h_siggen h2) u) \<Longrightarrow>
       task_text env1 dcs1 (h_siggen h1) u = task_text env2 dcs2 (h_siggen h2) u"
    "(t, s) \<in> (counted_deps g h1)\<^sup>*" "s \<in> set (dkeys g)"
    "dgetd (sg_basehash (h_siggen h1)) (tid_key s) [] \<noteq> dgetd (sg_basehash (h_siggen h2)) (tid_key s) []"
  shows "final_hash h1 t \<noteq> final_hash h2 t"
proof -
  have text_differs: "task_text env1 dcs1 (h_siggen h1) u \<noteq> task_text env2 dcs2 (h_siggen h2) u"
    if u: "u \<in> set (dkeys g)"
      and d: "dgetd (sg_basehash (h_siggen h1)) (tid_key u) [] \<noteq> dgetd (sg_basehash (h_siggen h2)) (tid_key u) [] \<or>
        (\<exists>d. (u, d) \<in> counted_deps g h1 \<and> final_hash h1 d \<noteq> final_hash h2 d)" for u
  proof
    let ?ks = "dgetd (sg_runtaskdeps (h_siggen h1)) (tid_key u) []"
    have ks: "dgetd (sg_runtaskdeps (h_siggen h2)) (tid_key u) [] = ?ks" using assms(7) [OF u] by (simp add: dgetd_def)
    obtain r1 where r1: "task_text env1 dcs1 (h_siggen h1) u =
        dgetd (sg_basehash (h_siggen h1)) (tid_key u) [] @ concat (map (hash_of (h_siggen h1)) ?ks) @ r1"
      using task_text_parts [OF assms(1) u] by blast
    obtain r2 where r2: "task_text env2 dcs2 (h_siggen h2) u =
        dgetd (sg_basehash (h_siggen h2)) (tid_key u) [] @ concat (map (hash_of (h_siggen h2)) ?ks) @ r2"
      using task_text_parts [OF assms(2) u] ks by auto
    assume "task_text env1 dcs1 (h_siggen h1) u = task_text env2 dcs2 (h_siggen h2) u"
    then have same: "dgetd (sg_basehash (h_siggen h1)) (tid_key u) [] = dgetd (sg_basehash (h_siggen h2)) (tid_key u) []"
      "concat (map (hash_of (h_siggen h1)) ?ks) @ r1 = concat (map (hash_of (h_siggen h2)) ?ks) @ r2"
      using assms(6) [OF u] unfolding r1 r2 by (auto simp: append_eq_append_conv)
    have "length (hash_of (h_siggen h1) k) = length (hash_of (h_siggen h2) k)" if k: "k \<in> set ?ks" for k
    proof -
      obtain d where "d \<in> set (dkeys g)" "k = tid_key d" by (rule kept_dkeys [OF assms(1) u k])
      then show ?thesis using hash_of_final [OF assms(1)] hash_of_final [OF assms(2)] assms(3-5) by simp
    qed
    then have "\<forall>k \<in> set ?ks. hash_of (h_siggen h1) k = hash_of (h_siggen h2) k"
      using concat_same_length [OF same(2)] by blast
    moreover obtain d where "(u, d) \<in> counted_deps g h1" "final_hash h1 d \<noteq> final_hash h2 d" using d same(1) by blast
    moreover have "tid_key d \<in> set ?ks" using calculation(2) by (simp add: counted_deps_def)
    ultimately have eq: "hash_of (h_siggen h1) (tid_key d) = hash_of (h_siggen h2) (tid_key d)" by blast
    have dg: "d \<in> set (dkeys g)" using counted_dkeys [OF assms(1) \<open>(u, d) \<in> counted_deps g h1\<close>] .
    have "final_hash h1 d = final_hash h2 d"
      unfolding hash_run_text [OF assms(1) dg] hash_run_text [OF assms(2) dg]
      using eq unfolding hash_of_final [OF assms(1) dg] hash_of_final [OF assms(2) dg] by (rule arg_cong)
    then show False using \<open>final_hash h1 d \<noteq> final_hash h2 d\<close> by blast
  qed
  have differs: "final_hash h1 u \<noteq> final_hash h2 u"
    if u: "u \<in> set (dkeys g)" "task_text env1 dcs1 (h_siggen h1) u \<noteq> task_text env2 dcs2 (h_siggen h2) u" for u
    using assms(8) [OF u(1)] u(2)
    unfolding hash_run_text [OF assms(1) u(1)] hash_run_text [OF assms(2) u(1)] assms(3,4) by blast
  from assms(9) show ?thesis
  proof (induction rule: converse_rtrancl_induct)
    case base
    then show ?case by (intro differs [OF assms(10)] text_differs [OF assms(10)] disjI1 assms(11))
  next
    case (step u d)
    then have "u \<in> set (dkeys g)" by (simp add: counted_deps_def)
    then show ?case using differs text_differs step by blast
  qed
qed

section \<open>Signature files after the loop\<close>

text \<open>
  The cached base hashes of the tasks of the graph are those of the generator, which \<open>dump_sigs\<close> tests as
  well; then the loop changes nothing of what \<open>finalise\<close> left.
\<close>

definition cached_base :: "mcdc \<Rightarrow> string graph \<Rightarrow> siggen \<Rightarrow> bool" where
  "cached_base dcs g sg \<longleftrightarrow>
     (\<forall>t \<in> set (dkeys g). \<forall>mc fn task taskfn dc base. split_tid_mcfn t = Inr (mc, fn, task, taskfn) \<longrightarrow>
        dget dcs mc = Some dc \<longrightarrow> dget (c_basetaskhash dc) (tid_key t) = Some base \<longrightarrow>
        dget (sg_basehash sg) (tid_key t) = Some base)"

definition same_base :: "siggen \<Rightarrow> siggen \<Rightarrow> bool" where
  "same_base sg0 sg \<longleftrightarrow> sg_taskdeps sg = sg_taskdeps sg0 \<and> sg_gendeps sg = sg_gendeps sg0 \<and>
     sg_lookupcache sg = sg_lookupcache sg0 \<and> sg_basewhitelist sg = sg_basewhitelist sg0 \<and>
     (\<forall>k. dget (sg_basehash sg) k = dget (sg_basehash sg0) k)"

definition base_kept :: "mcdc \<Rightarrow> string graph \<Rightarrow> siggen \<Rightarrow> (string, siggen) hashing \<Rightarrow> bool" where
  "base_kept dcs g sg0 h \<longleftrightarrow> tid_graph g \<and> cached_base dcs g sg0 \<and> same_base sg0 (h_siggen h)"

lemma base_kept_step:
  assumes "hashing_ok g h" "base_kept dcs g sg0 h" "t \<in> set (h_todeal h)"
    "hash_step (call_siggen (get_taskhash env) dcs) t h = Inr h'"
  shows "base_kept dcs g sg0 h'"
  using assms(4)
proof (cases rule: hash_stepE)
  case 1
  then show ?thesis using assms(2) by simp
next
  case (2 e s hash)
  have "tid_graph g" using assms(2) by (simp add: base_kept_def)
  then obtain mc fn task where c0: "split_tid_mcfn t = Inr (mc, fn, task, fn_from_tid t)"
    and c: "tid_key t = sigkey (fn_from_tid t) task"
    "\<And>f dcs (s :: siggen). call_siggen f dcs t (deps g t) s =
       rbind (dlookup dcs mc) (\<lambda>dc. f (fn_from_tid t) task (map tid_key (deps g t)) dc s)"
    by (rule todeal_call [OF _ assms(1,3)]) blast
  obtain dc where dc: "dget dcs mc = Some dc"
    and r: "get_taskhash env (fn_from_tid t) task (map tid_key (deps g t)) dc (h_siggen h) = Inr (s, hash)"
    using 2(3) c(2) hashing_deps [OF assms(1) 2(1)] by (auto simp: res_simps)
  have old: "cached_base dcs g sg0" "same_base sg0 (h_siggen h)" using assms(2) by (simp_all add: base_kept_def)
  have "same_base sg0 s"
  proof (rule get_taskhash_effect [OF r], goal_cases)
    case (1 base recipename ds' checksums cache)
    have "dget (sg_basehash sg0) (tid_key t) = Some base"
      using old(1) hashing_todeal [OF assms(1,3)] c0 dc 1(1) [folded c(1)] unfolding cached_base_def by blast
    then show ?case using old(2) 1(7,14-17) by (simp add: same_base_def c(1))
  qed
  then show ?thesis using assms(2) 2(5) by (simp add: base_kept_def)
qed

interpretation bk: hashing_client g "call_siggen (get_taskhash env) dcs" "base_kept dcs g sg0" for g env dcs sg0
  using base_kept_step by unfold_locales

lemma based_same: "based md5 fn task sg0 \<Longrightarrow> same_base sg0 sg \<Longrightarrow> based md5 fn task sg"
  by (simp add: based_def same_base_def)


section \<open>The hashes do not depend on the order of the work\<close>

definition twl_kept :: "string graph \<Rightarrow> (string \<Rightarrow> bool) option \<Rightarrow> (string, siggen) hashing \<Rightarrow> bool" where
  "twl_kept g twl h \<longleftrightarrow> tid_graph g \<and> sg_twl (h_siggen h) = twl"

lemma twl_kept_step:
  assumes "hashing_ok g h" "twl_kept g twl h" "t \<in> set (h_todeal h)"
    "hash_step (call_siggen (get_taskhash env) dcs) t h = Inr h'"
  shows "twl_kept g twl h'"
  using assms(4)
proof (cases rule: hash_stepE)
  case 1
  then show ?thesis using assms(2) by simp
next
  case (2 e s hash)
  have "tid_graph g" using assms(2) by (simp add: twl_kept_def)
  then obtain mc task where c: "\<And>f dcs (s :: siggen). call_siggen f dcs t (deps g t) s =
       rbind (dlookup dcs mc) (\<lambda>dc. f (fn_from_tid t) task (map tid_key (deps g t)) dc s)"
    by (rule todeal_call [OF _ assms(1,3)]) blast
  obtain dc where r: "get_taskhash env (fn_from_tid t) task (map tid_key (deps g t)) dc (h_siggen h) = Inr (s, hash)"
    using 2(3) c hashing_deps [OF assms(1) 2(1)] by (auto simp: res_simps)
  have "sg_twl s = sg_twl (h_siggen h)" by (rule get_taskhash_effect [OF r])
  then show ?thesis using assms(2) 2(5) by (simp add: twl_kept_def)
qed

interpretation tk: hashing_client g "call_siggen (get_taskhash env) dcs" "twl_kept g twl" for g env dcs twl
  using twl_kept_step by unfold_locales

lemma hash_run_twl:
  assumes "hash_run env dcs g sg h"
  shows "sg_twl (h_siggen h) = sg_twl sg"
proof -
  let ?h = "\<lparr>h_entries = g, h_dealt = [], h_todeal = dkeys g, h_siggen = sg\<rparr>"
  have wf: "graph_wf g" "tid_graph g" using assms by (simp_all add: hash_run_def tid_graph_def)
  then have "twl_kept g (sg_twl sg) ?h" by (simp add: twl_kept_def)
  from tk.loop [OF hashing_init [OF wf(1)] this, of env dcs "length g"] assms
  show ?thesis by (auto simp: hash_run_def twl_kept_def)
qed

text \<open>Two generators that agree on the dependencies of a task give it the same hash.\<close>

lemma signed_unique:
  assumes "signed env dc fn task ds sg" "signed env dc fn task ds2 sg2" "sort_deps ds = sort_deps ds2" "sg_twl sg = sg_twl sg2"
    "\<And>d. d \<in> set ds \<Longrightarrow> hash_of sg d = hash_of sg2 d"
  shows "dget (sg_taskhash sg) (sigkey fn task) = dget (sg_taskhash sg2) (sigkey fn task)"
proof -
  obtain base recipename ds' checksums where s:
    "dget (c_basetaskhash dc) (sigkey fn task) = Some base" "dget (c_pkg_fn dc) fn = Some recipename"
    "sort_deps ds = Inr ds'" "plain_task_checksums env dc fn task = Inr checksums"
    "dget (sg_taskhash sg) (sigkey fn task) =
       Some (se_md5 env (sig_text env dc fn task base (map (hash_of sg) (filter (keeps_dep sg dc recipename) ds')) checksums))"
    using assms(1) unfolding signed_def by blast
  have "dget (sg_taskhash sg2) (sigkey fn task) =
      Some (se_md5 env (sig_text env dc fn task base (map (hash_of sg2) (filter (keeps_dep sg2 dc recipename) ds')) checksums))"
    using assms(2) s(1-4) assms(3) unfolding signed_def by (auto simp del: map_eq_conv)
  moreover have "map (hash_of sg) (filter (keeps_dep sg dc recipename) ds') = map (hash_of sg2) (filter (keeps_dep sg dc recipename) ds')"
    using assms(5) sort_deps_set [OF s(3)] by (intro map_cong) auto
  ultimately show ?thesis using s(5) keeps_dep_twl [OF assms(4), of dc recipename] by (simp del: map_eq_conv)
qed


section \<open>A recipe with two tasks\<close>

text \<open>In place of MD5 a function whose values have length one; \<open>base\<close> is the base hash of the task \<open>do_x\<close>.\<close>

definition last_env :: sigenv where
  "last_env = \<lparr>se_md5 = (\<lambda>s. if s = [] then ''-'' else [last s]), se_fs = example_fs, se_taint = (\<lambda>_. None), se_uuid = (\<lambda>_. ''u'')\<rparr>"

definition pair_dcs :: "string \<Rightarrow> mcdc" where
  "pair_dcs base = [([], init_cacheData\<lparr>
     c_basetaskhash := [(''/r/a.bb.do_x'', base), (''/r/a.bb.do_y'', ''c'')], c_pkg_fn := [(''/r/a.bb'', ''a'')],
     c_file_checksums := [(''/r/a.bb'', [])], c_stamp := [(''/r/a.bb'', ''st'')],
     c_task_deps := [(''/r/a.bb'', \<lparr>td_tasks = [''do_x'', ''do_y''], td_parents = [], td_flags = []\<rparr>)]\<rparr>)]"

definition pair_graph :: "string graph" where
  "pair_graph = [(''/r/a.bb:do_y'', \<lparr>rt_depends = [''/r/a.bb:do_x''], rt_revdeps = [], rt_hash = None, rt_weight = 1\<rparr>),
     (''/r/a.bb:do_x'', \<lparr>rt_depends = [], rt_revdeps = [''/r/a.bb:do_y''], rt_hash = None, rt_weight = 1\<rparr>)]"

definition pair_graph_turned :: "string graph" where
  "pair_graph_turned = rev pair_graph"

definition pair_sg :: "string \<Rightarrow> siggen" where
  "pair_sg base = example_based\<lparr>sg_basehash := [(''/r/a.bb.do_x'', base), (''/r/a.bb.do_y'', ''c'')]\<rparr>"

definition pair_run :: "string graph \<Rightarrow> string \<Rightarrow> (string, siggen) hashing res" where
  "pair_run g base = hash_loop (call_siggen (get_taskhash last_env) (pair_dcs base)) (length g)
     \<lparr>h_entries = g, h_dealt = [], h_todeal = dkeys g, h_siggen = pair_sg base\<rparr>"

lemma pair_keys: "set (dkeys pair_graph) = {''/r/a.bb:do_y'', ''/r/a.bb:do_x''}" "set (dkeys pair_graph_turned) = {''/r/a.bb:do_y'', ''/r/a.bb:do_x''}"
  by (auto simp: pair_graph_def pair_graph_turned_def)

lemma pair_deps: "deps pair_graph_turned t = deps pair_graph t" "deps pair_graph ''/r/a.bb:do_y'' = [''/r/a.bb:do_x'']"
  "deps pair_graph ''/r/a.bb:do_x'' = []"
  by (auto simp: pair_graph_def pair_graph_turned_def deps_def)

lemma pair_good: "tid_graph pair_graph" "tid_graph pair_graph_turned"
proof -
  have "good_tid ''/r/a.bb:do_y''" "good_tid ''/r/a.bb:do_x''"
    unfolding good_tid_def by (rule exI [of _ "[]"], rule exI [of _ "''/r/a.bb''"], rule exI [of _ "''do_y''"], code_simp)
      (rule exI [of _ "[]"], rule exI [of _ "''/r/a.bb''"], rule exI [of _ "''do_x''"], code_simp)
  moreover have "graph_wf pair_graph" "graph_wf pair_graph_turned"
    by (auto simp: graph_wf_def dwf_def pair_graph_def pair_graph_turned_def deps_def revs_def)
  ultimately show "tid_graph pair_graph" "tid_graph pair_graph_turned"
    by (simp_all add: tid_graph_def pair_keys)
qed

lemma pair_acyclic: "acyclic (dep_edges pair_graph)"
proof -
  have "dep_edges pair_graph = {(''/r/a.bb:do_y'', ''/r/a.bb:do_x'')}"
    by (auto simp: dep_edges_def pair_keys pair_deps)
  then show ?thesis by (simp add: acyclic_def trancl_insert)
qed

lemma pair_honest: "honest (se_fs last_env) (sg_checksums (pair_sg base))" "dget (sg_taints (pair_sg base)) k = None"
  by (simp_all add: pair_sg_def honest_def truthful_def example_based_def example_sg_def siggen_init_def Let_def)

text \<open>A run of the example, from its evaluation.\<close>

lemma pair_hash_run:
  "tid_graph g \<Longrightarrow> pair_run g base = Inr h \<Longrightarrow> hash_run last_env (pair_dcs base) g (pair_sg base) h"
  using pair_honest by (simp add: hash_run_def pair_run_def)

lemma pair_runs:
  "\<exists>h. pair_run pair_graph ''a'' = Inr h \<and> final_hash h ''/r/a.bb:do_y'' = Some ''a''"
  "\<exists>h. pair_run pair_graph_turned ''a'' = Inr h"
proof -
  have "case pair_run pair_graph ''a'' of Inl e \<Rightarrow> False | Inr h \<Rightarrow> final_hash h ''/r/a.bb:do_y'' = Some ''a''" by code_simp
  then show "\<exists>h. pair_run pair_graph ''a'' = Inr h \<and> final_hash h ''/r/a.bb:do_y'' = Some ''a''" by (auto split: sum.splits)
  have "case pair_run pair_graph_turned ''a'' of Inl e \<Rightarrow> False | Inr h \<Rightarrow> True" by code_simp
  then show "\<exists>h. pair_run pair_graph_turned ''a'' = Inr h" by (auto split: sum.splits)
qed

lemma hashes_in_order_witness:
  "tid_graph pair_graph \<and> acyclic (dep_edges pair_graph) \<and>
   hash_loop (call_siggen (get_taskhash last_env) (pair_dcs ''a'')) (length pair_graph)
     \<lparr>h_entries = pair_graph, h_dealt = [], h_todeal = dkeys pair_graph, h_siggen = pair_sg ''a''\<rparr> \<notin> {Inl Fatal, Inl OutOfFuel}"
  using hashes_in_order [OF pair_good(1) pair_acyclic] pair_good(1) pair_acyclic by blast



text \<open>The base hash of \<open>do_x\<close> is another one, and so are the hashes of both tasks.\<close>

lemma pair_texts:
  "case pair_run pair_graph ''a'' of Inl e \<Rightarrow> False
   | Inr h1 \<Rightarrow> (case pair_run pair_graph ''b'' of Inl e \<Rightarrow> False
     | Inr h2 \<Rightarrow>
         (\<forall>t \<in> {''/r/a.bb:do_y'', ''/r/a.bb:do_x''}.
            length (dgetd (sg_basehash (h_siggen h1)) (tid_key t) []) = 1 \<and>
            length (dgetd (sg_basehash (h_siggen h2)) (tid_key t) []) = 1 \<and>
            dget (sg_runtaskdeps (h_siggen h1)) (tid_key t) = dget (sg_runtaskdeps (h_siggen h2)) (tid_key t) \<and>
            se_md5 last_env (task_text last_env (pair_dcs ''a'') (h_siggen h1) t) \<noteq>
            se_md5 last_env (task_text last_env (pair_dcs ''b'') (h_siggen h2) t)) \<and>
         tid_key ''/r/a.bb:do_x'' \<in> set (dgetd (sg_runtaskdeps (h_siggen h1)) (tid_key ''/r/a.bb:do_y'') []) \<and>
         dgetd (sg_basehash (h_siggen h1)) (tid_key ''/r/a.bb:do_x'') [] \<noteq>
         dgetd (sg_basehash (h_siggen h2)) (tid_key ''/r/a.bb:do_x'') [])"
  by code_simp

lemma hash_change_propagates_witness:
  "\<exists>h1 h2. hash_run last_env (pair_dcs ''a'') pair_graph (pair_sg ''a'') h1 \<and>
     hash_run last_env (pair_dcs ''b'') pair_graph (pair_sg ''b'') h2 \<and>
     (''/r/a.bb:do_y'', ''/r/a.bb:do_x'') \<in> (counted_deps pair_graph h1)\<^sup>* \<and>
     final_hash h1 ''/r/a.bb:do_y'' \<noteq> final_hash h2 ''/r/a.bb:do_y''"
proof -
  obtain h1 h2 where r: "pair_run pair_graph ''a'' = Inr h1" "pair_run pair_graph ''b'' = Inr h2"
    using pair_texts by (auto split: sum.splits)
  note h = pair_hash_run [OF pair_good(1) r(1)] pair_hash_run [OF pair_good(1) r(2)]
  have e: "\<forall>t \<in> set (dkeys pair_graph).
      length (dgetd (sg_basehash (h_siggen h1)) (tid_key t) []) = 1 \<and> length (dgetd (sg_basehash (h_siggen h2)) (tid_key t) []) = 1 \<and>
      dget (sg_runtaskdeps (h_siggen h1)) (tid_key t) = dget (sg_runtaskdeps (h_siggen h2)) (tid_key t) \<and>
      se_md5 last_env (task_text last_env (pair_dcs ''a'') (h_siggen h1) t) \<noteq>
      se_md5 last_env (task_text last_env (pair_dcs ''b'') (h_siggen h2) t)"
    "tid_key ''/r/a.bb:do_x'' \<in> set (dgetd (sg_runtaskdeps (h_siggen h1)) (tid_key ''/r/a.bb:do_y'') [])"
    "dgetd (sg_basehash (h_siggen h1)) (tid_key ''/r/a.bb:do_x'') [] \<noteq>
     dgetd (sg_basehash (h_siggen h2)) (tid_key ''/r/a.bb:do_x'') []"
    using pair_texts r unfolding pair_keys by simp_all
  have "(''/r/a.bb:do_y'', ''/r/a.bb:do_x'') \<in> counted_deps pair_graph h1"
    using e(2) by (simp add: counted_deps_def pair_keys pair_deps)
  then have c: "(''/r/a.bb:do_y'', ''/r/a.bb:do_x'') \<in> (counted_deps pair_graph h1)\<^sup>*" by blast
  have len: "length (se_md5 last_env s) = 1" for s by (simp add: last_env_def)
  have "final_hash h1 ''/r/a.bb:do_y'' \<noteq> final_hash h2 ''/r/a.bb:do_y''"
    by (rule hash_change_propagates [OF h refl refl len _ _ _ c _ e(3)]) (use e(1) in \<open>auto simp: pair_keys\<close>)
  then show ?thesis using h c by blast
qed

end
