(* ===== verification/TaskDataRuns.thy ===== *)
theory TaskDataRuns
  imports TaskData
begin

text \<open>
  The loop of \<open>add_unresolved\<close> comes to an end.  Every round that resolves something either adds the
  tasks of a new recipe or settles a target, and both can happen only finitely often.

  The locale \<open>preorder_run\<close> collects what is needed of a relation between the states before and after
  a command; it is interpreted for \<open>wide\<close>, which every operation keeps, and for \<open>grows\<close>, which says
  in addition that without a new recipe no target becomes known.
\<close>

section \<open>Nothing below the loop runs out of fuel\<close>

definition fueled :: "'a res \<Rightarrow> bool" where
  "fueled m \<longleftrightarrow> m \<noteq> Inl OutOfFuel"

named_theorems fueled_intros

lemma fueled_simps [simp]: "fueled (Inr x)" "fueled (Inl e) = (e \<noteq> OutOfFuel)" "fueled (dlookup d k)"
  by (auto simp: fueled_def)

lemma fueled_rbind [fueled_intros]: "fueled m \<Longrightarrow> (\<And>x. m = Inr x \<Longrightarrow> fueled (f x)) \<Longrightarrow> fueled (rbind m f)"
  by (cases m) auto

lemma fueled_rfold [fueled_intros]: "(\<And>x s. fueled (f x s)) \<Longrightarrow> fueled (rfold f xs s)"
  by (induction xs arbitrary: s) (auto intro: fueled_intros)

lemma fueled_rmap [fueled_intros]: "(\<And>x. fueled (f x)) \<Longrightarrow> fueled (rmap f xs)"
  by (induction xs) (auto intro!: fueled_intros)

lemma fueled_rany [fueled_intros]: "(\<And>x. fueled (f x)) \<Longrightarrow> fueled (rany f xs)"
  by (induction xs) (auto intro!: fueled_intros)

lemma fueled_explode_version: "fueled (explode_version s)"
proof (induction s rule: explode_version.induct)
  case (1 s)
  have tail: "fueled (match_tail r)" for r by (simp add: match_tail_def Let_def)
  show ?case
    by (subst explode_version.simps) (use 1 tail in \<open>auto intro!: fueled_intros split: list.split\<close>)
qed

lemma fueled_vval_less: "fueled (vval_less a b)"
  by (cases "(a, b)" rule: vval_less.cases) auto

lemma fueled_vercmp_loop: "fueled (vercmp_loop va vb)"
proof (induction va vb rule: vercmp_loop.induct)
  case (1 va vb)
  show ?case
    by (subst vercmp_loop.simps) (use 1 fueled_vval_less in \<open>auto intro!: fueled_intros split: prod.split\<close>)
qed

lemma fueled_vercmp: "fueled (vercmp a b)"
proof -
  have int: "fueled (epoch_int e)" for e by (cases e) (auto simp: py_int_def split: list.split)
  have part: "fueled (vercmp_part u v)" for u v
    unfolding vercmp_part_def by (intro fueled_intros fueled_explode_version fueled_vercmp_loop)
  show ?thesis by (cases "(a, b)" rule: vercmp.cases) (auto intro!: fueled_intros int part)
qed

lemma fueled_sortPriorities: "fueled (sortPriorities pn c pkg_pn)"
  unfolding sortPriorities_def collate_priority_def by (intro fueled_intros) auto

lemma fueled_findPreferredProvider: "fueled (findPreferredProvider pn cfg c pkg_pn)"
proof -
  have "fueled (first_match c want fs)" for want fs
    by (induction c want fs rule: first_match.induct) (auto intro!: fueled_intros)
  then show ?thesis by (auto simp: findPreferredProvider_def split: option.split)
qed

lemma fueled_findLatestProvider: "fueled (findLatestProvider c file_set)"
  unfolding findLatestProvider_def latest_step_def
  by (auto intro!: fueled_intros fueled_vercmp split: option.split)

lemma fueled_filterProviders0: "fueled (filterProviders0 ps item cfg c)"
  unfolding filterProviders0_def Let_def collate_pn_def filter_preferred_def filter_latest_def prefer_same_name_def first_of_def
  by (auto intro!: fueled_intros fueled_sortPriorities fueled_findPreferredProvider fueled_findLatestProvider split: list.split)

lemma fueled_select_pn: "fueled (select_pn c want ps el)"
  by (induction ps) (auto intro!: fueled_intros)

lemma fueled_filterProviders: "fueled (filterProviders ps item cfg c)"
  unfolding filterProviders_def Let_def
  by (auto intro!: fueled_intros fueled_filterProviders0 fueled_select_pn split: option.split)

lemma fueled_infer_preferred: "fueled (infer_preferred cfg c pns i xs shared el pref)"
proof (induction cfg c pns i xs shared el pref rule: infer_preferred.induct)
  case (1 cfg c pns i xs shared el pref)
  show ?case
    by (subst infer_preferred.simps) (use 1 in \<open>auto intro!: fueled_intros split: option.split\<close>)
qed

lemma fueled_filterProvidersRunTime: "fueled (filterProvidersRunTime ps item cfg c)"
  unfolding filterProvidersRunTime_def
  by (auto intro!: fueled_intros fueled_filterProviders0 fueled_select_pn fueled_infer_preferred split: option.split)

lemma fueled_getRuntimeProviders: "fueled (getRuntimeProviders re_match c item)"
proof -
  have "fueled (dynamic_providers re_match table item ps acc)" for table ps acc
    by (induction ps arbitrary: acc) (auto split: option.split bool.split)
  then show ?thesis by (simp add: getRuntimeProviders_def Let_def)
qed

lemma fueled_re_match_strings: "fueled (re_match_strings re_match target strings)"
  unfolding re_match_strings_def by (auto intro!: fueled_intros split: option.split)

lemma fueled_unresolved_of: "fueled (unresolved_of re_match ignored failed d)"
  by (induction d) (auto intro!: fueled_intros fueled_re_match_strings)

lemma fueled_buildWorldTargetList: "fueled (buildWorldTargetList task c)"
proof -
  have sole: "fueled (sole_provider c pn pfs)" for c pn pfs by (induction pfs) (auto intro!: fueled_intros)
  have ends: "fueled (terminal_provides c pn ps t)" for c pn ps t
    by (induction ps arbitrary: t) (auto intro!: fueled_intros sole)
  show ?thesis
    unfolding buildWorldTargetList_def world_step_def by (auto intro!: fueled_intros ends split: option.split)
qed

section \<open>Relations that commands respect\<close>

text \<open>\<open>keeps\<close> speaks of runs that have enough fuel, \<open>tame\<close> also says that there is enough.\<close>

definition keeps :: "('s \<Rightarrow> 's \<Rightarrow> bool) \<Rightarrow> 's \<Rightarrow> 's cmd \<Rightarrow> bool" where
  "keeps R s m \<longleftrightarrow> (snd m \<noteq> Some OutOfFuel \<longrightarrow> R s (fst m))"

definition tame :: "('s \<Rightarrow> 's \<Rightarrow> bool) \<Rightarrow> 's \<Rightarrow> 's cmd \<Rightarrow> bool" where
  "tame R s m \<longleftrightarrow> snd m \<noteq> Some OutOfFuel \<and> R s (fst m)"

lemma keeps_simps [simp]: "keeps R s (t, None) = R s t" "keeps R s (t, Some e) = (e = OutOfFuel \<or> R s t)"
  by (auto simp: keeps_def)

lemma tame_simps [simp]: "tame R s (t, None) = R s t" "tame R s (t, Some e) = (e \<noteq> OutOfFuel \<and> R s t)"
  by (auto simp: tame_def)

locale preorder_run =
  fixes R :: "'s \<Rightarrow> 's \<Rightarrow> bool"
  assumes refl: "R s s"
    and trans: "R s t \<Longrightarrow> R t u \<Longrightarrow> R s u"
begin

lemma keeps_cseq: "keeps R s m \<Longrightarrow> (\<And>u. keeps R u (f u)) \<Longrightarrow> keeps R s (cseq m f)"
  by (cases m) (auto simp: keeps_def cseq_def split: option.split intro: trans)

lemma keeps_cfold: "(\<And>x u. keeps R u (f x u)) \<Longrightarrow> keeps R s (cfold f xs s)"
  by (induction xs arbitrary: s) (auto simp: refl intro!: keeps_cseq)

lemma tame_trans: "R s t \<Longrightarrow> tame R t m \<Longrightarrow> tame R s m"
  by (auto simp: tame_def intro: trans)

lemma tame_cseq: "tame R s m \<Longrightarrow> (\<And>u. R s u \<Longrightarrow> tame R u (f u)) \<Longrightarrow> tame R s (cseq m f)"
  by (cases m) (auto simp: cseq_def split: option.split intro: tame_trans)

lemma tame_cfold: "(\<And>x u. x \<in> set xs \<Longrightarrow> R s u \<Longrightarrow> tame R u (f x u)) \<Longrightarrow> tame R s (cfold f xs s)"
proof (induction xs arbitrary: s)
  case Nil
  then show ?case by (simp add: refl)
next
  case (Cons x xs)
  then show ?case by (auto intro!: tame_cseq simp: refl intro: trans)
qed

lemma tame_cget: "fueled m \<Longrightarrow> R s u \<Longrightarrow> (\<And>x. m = Inr x \<Longrightarrow> tame R s (k x)) \<Longrightarrow> tame R s (cget m u k)"
  by (cases m) auto

end

section \<open>Failures record what they take away\<close>

text \<open>Also when an exception cuts the propagation short: a target that loses its last provider is recorded at once.\<close>

definition tables_wf :: "taskdata \<Rightarrow> bool" where
  "tables_wf td \<longleftrightarrow> dwf (td_build_targets td) \<and> dwf (td_run_targets td)"

definition recorded :: "taskdata \<Rightarrow> taskdata \<Rightarrow> bool" where
  "recorded td td' \<longleftrightarrow> shrinks td td' \<and> losses_recorded td td' \<and> (tables_wf td \<longrightarrow> tables_wf td')"

interpretation rc: preorder_run recorded
proof
  show "recorded s s" for s by (simp add: recorded_def losses_recorded_def)
  show "recorded s u" if "recorded s t" "recorded t u" for s t u
    using that shrinks_trans [of s t u] unfolding recorded_def losses_recorded_def
    by (auto simp: shrinks_def subset_iff)
qed

lemma recorded_mark [simp]:
  "recorded td (td\<lparr>td_failed_fns := td_failed_fns td @ [x]\<rparr>)"
  "recorded td (td\<lparr>td_failed_deps := td_failed_deps td @ [x]\<rparr>)"
  "recorded td (td\<lparr>td_failed_rdeps := td_failed_rdeps td @ [x]\<rparr>)"
  by (auto simp: recorded_def losses_recorded_def tables_wf_def)

lemma drop_recorded:
  assumes "\<And>t u. keeps recorded u (remove_buildtarget n t u) \<and>
      (snd (remove_buildtarget n t u) \<noteq> Some OutOfFuel \<longrightarrow> t \<in> set (td_failed_deps (fst (remove_buildtarget n t u))))"
    and "\<And>t u. keeps recorded u (remove_runtarget n t u) \<and>
      (snd (remove_runtarget n t u) \<noteq> Some OutOfFuel \<longrightarrow> t \<in> set (td_failed_rdeps (fst (remove_runtarget n t u))))"
  shows "keeps recorded u (drop_build n fn t u)" "keeps recorded u (drop_run n fn t u)"
proof -
  show "keeps recorded u (drop_build n fn t u)"
  proof (cases rule: drop_build_cases [where u = u and t = t and n = n and fn = fn])
    case (emptied u')
    show ?thesis
      unfolding keeps_def emptied(5)
    proof
      assume nf: "snd (remove_buildtarget n t u') \<noteq> Some OutOfFuel"
      let ?v = "fst (remove_buildtarget n t u')"
      have v: "recorded u' ?v" "t \<in> set (td_failed_deps ?v)" using assms(1) [of u' t] nf by (auto simp: keeps_def)
      have "built_by u' x = built_by u x" if "x \<noteq> t" for x using that emptied(1) by simp
      moreover have "run_by u' x = run_by u x" for x using emptied(1) by simp
      ultimately have "losses_recorded u ?v" using v unfolding recorded_def losses_recorded_def by metis
      moreover have "tables_wf u \<longrightarrow> tables_wf u'" using emptied(1) by (auto simp: tables_wf_def)
      ultimately show "recorded u ?v" using v(1) emptied(3) shrinks_trans by (auto simp: recorded_def)
    qed
  next
    case (kept u')
    have "losses_recorded u u'" using kept(1,4) by (auto simp: losses_recorded_def)
    moreover have "tables_wf u \<longrightarrow> tables_wf u'" using kept(1) by (auto simp: tables_wf_def)
    ultimately show ?thesis using kept by (simp add: recorded_def)
  qed (simp add: rc.refl)
  show "keeps recorded u (drop_run n fn t u)"
  proof (cases rule: drop_run_cases [where u = u and t = t and n = n and fn = fn])
    case (emptied u')
    show ?thesis
      unfolding keeps_def emptied(5)
    proof
      assume nf: "snd (remove_runtarget n t u') \<noteq> Some OutOfFuel"
      let ?v = "fst (remove_runtarget n t u')"
      have v: "recorded u' ?v" "t \<in> set (td_failed_rdeps ?v)" using assms(2) [of u' t] nf by (auto simp: keeps_def)
      have "run_by u' x = run_by u x" if "x \<noteq> t" for x using that emptied(1) by simp
      moreover have "built_by u' x = built_by u x" for x using emptied(1) by simp
      ultimately have "losses_recorded u ?v" using v unfolding recorded_def losses_recorded_def by metis
      moreover have "tables_wf u \<longrightarrow> tables_wf u'" using emptied(1) by (auto simp: tables_wf_def)
      ultimately show "recorded u ?v" using v(1) emptied(3) shrinks_trans by (auto simp: recorded_def)
    qed
  next
    case (kept u')
    have "losses_recorded u u'" using kept(1,4) by (auto simp: losses_recorded_def)
    moreover have "tables_wf u \<longrightarrow> tables_wf u'" using kept(1) by (auto simp: tables_wf_def)
    ultimately show ?thesis using kept by (simp add: recorded_def)
  qed (simp add: rc.refl)
qed

lemma fail_recorded:
  "keeps recorded td (fail_fn n fn td) \<and>
   (keeps recorded td (remove_buildtarget n t td) \<and>
     (snd (remove_buildtarget n t td) \<noteq> Some OutOfFuel \<longrightarrow> t \<in> set (td_failed_deps (fst (remove_buildtarget n t td))))) \<and>
   (keeps recorded td (remove_runtarget n t td) \<and>
     (snd (remove_runtarget n t td) \<noteq> Some OutOfFuel \<longrightarrow> t \<in> set (td_failed_rdeps (fst (remove_runtarget n t td)))))"
proof (induction n arbitrary: td fn t)
  case 0
  show ?case by simp
next
  case (Suc n)
  have trans': "keeps recorded td m" if "recorded td u" "keeps recorded u m" for td u m
    using that rc.trans by (auto simp: keeps_def)
  have d: "keeps recorded u (drop_build n fn t u)" "keeps recorded u (drop_run n fn t u)" for fn t u
    using drop_recorded [of n] Suc.IH by auto
  have f: "keeps recorded u (fail_fn n fn u)" for fn u using Suc.IH by blast
  have "keeps recorded td (cfold (drop_build n fn) xs (td\<lparr>td_failed_fns := td_failed_fns td @ [fn]\<rparr>))" for xs
    by (rule trans' [OF recorded_mark(1) [of td fn]]) (intro rc.keeps_cfold d)
  then have "keeps recorded td (fail_fn (Suc n) fn td)"
    unfolding fail_fn_Suc using d(2) by (simp add: rc.refl rc.keeps_cseq rc.keeps_cfold)
  moreover have b: "keeps recorded (td\<lparr>td_failed_deps := td_failed_deps td @ [t]\<rparr>) (remove_buildtarget (Suc n) t td)"
    unfolding remove_buildtarget.simps using f by (auto simp: rc.refl intro!: rc.keeps_cseq rc.keeps_cfold)
  moreover have r: "keeps recorded (td\<lparr>td_failed_rdeps := td_failed_rdeps td @ [t]\<rparr>) (remove_runtarget (Suc n) t td)"
    unfolding remove_runtarget.simps using f by (auto intro!: rc.keeps_cseq rc.keeps_cfold)
  moreover have "t \<in> set (td_failed_deps v)" if "recorded (td\<lparr>td_failed_deps := td_failed_deps td @ [t]\<rparr>) v" for v
    using that by (simp add: recorded_def shrinks_def)
  moreover have "t \<in> set (td_failed_rdeps v)" if "recorded (td\<lparr>td_failed_rdeps := td_failed_rdeps td @ [t]\<rparr>) v" for v
    using that by (simp add: recorded_def shrinks_def)
  ultimately show ?case
    using trans' [OF recorded_mark(2) b] trans' [OF recorded_mark(3) r] unfolding keeps_def by blast
qed

lemma fail_tame:
  "tame recorded td (fail_fn (fail_fuel td) fn td)"
  "tame recorded td (remove_buildtarget (fail_fuel td) t td)"
  "t \<in> set (td_failed_deps (fst (remove_buildtarget (fail_fuel td) t td)))"
  "tame recorded td (remove_runtarget (fail_fuel td) t td)"
  "t \<in> set (td_failed_rdeps (fst (remove_runtarget (fail_fuel td) t td)))"
  using fail_recorded [of td "fail_fuel td" fn t] fail_fuel_ok [of td "fail_fuel td" fn t] alive_fuel [of td]
  by (auto simp: tame_def keeps_def)

section \<open>What a round changes\<close>

text \<open>A target is settled when it has failed or has a provider.\<close>

definition build_settled :: "taskdata \<Rightarrow> string \<Rightarrow> bool" where
  "build_settled td t \<longleftrightarrow> t \<in> set (td_failed_deps td) \<or> built_by td t \<noteq> {}"

definition run_settled :: "taskdata \<Rightarrow> string \<Rightarrow> bool" where
  "run_settled td t \<longleftrightarrow> t \<in> set (td_failed_rdeps td) \<or> run_by td t \<noteq> {}"

abbreviation build_keys :: "taskdata \<Rightarrow> string set" where
  "build_keys td \<equiv> set (dkeys (td_build_targets td))"

abbreviation run_keys :: "taskdata \<Rightarrow> string set" where
  "run_keys td \<equiv> set (dkeys (td_run_targets td))"

definition touched :: "taskdata \<Rightarrow> taskdata \<Rightarrow> bool" where
  "touched td td' \<longleftrightarrow> build_keys td \<subseteq> build_keys td' \<and> run_keys td \<subseteq> run_keys td' \<and>
     (\<forall>t. build_settled td t \<longrightarrow> build_settled td' t) \<and> (\<forall>t. run_settled td t \<longrightarrow> run_settled td' t) \<and>
     set (td_seenfns td) \<subseteq> set (td_seenfns td') \<and> (tables_wf td \<longrightarrow> tables_wf td')"

definition wide :: "tstate \<Rightarrow> tstate \<Rightarrow> bool" where
  "wide s s' \<longleftrightarrow> touched (fst s) (fst s') \<and> c_task_deps (snd s') = c_task_deps (snd s) \<and>
     set (td_seenfns (fst s')) \<subseteq> set (td_seenfns (fst s)) \<union> set (dkeys (c_task_deps (snd s)))"

definition grows :: "tstate \<Rightarrow> tstate \<Rightarrow> bool" where
  "grows s s' \<longleftrightarrow> wide s s' \<and>
     (set (td_seenfns (fst s')) = set (td_seenfns (fst s)) \<longrightarrow>
        build_keys (fst s') = build_keys (fst s) \<and> run_keys (fst s') = run_keys (fst s) \<and>
        c_ignored_dependencies (snd s') = c_ignored_dependencies (snd s))"

interpretation wd: preorder_run wide
  by unfold_locales (auto simp: wide_def touched_def)

interpretation gr: preorder_run grows
proof
  show "grows s s" for s by (simp add: grows_def wd.refl)
  show "grows s u" if "grows s t" "grows t u" for s t u
  proof -
    have w: "wide s t" "wide t u" using that by (simp_all add: grows_def)
    have eq: "set (td_seenfns (fst t)) = set (td_seenfns (fst s))"
      if "set (td_seenfns (fst u)) = set (td_seenfns (fst s))"
      using that w unfolding wide_def touched_def by blast
    show ?thesis
      unfolding grows_def
    proof (intro conjI impI)
      assume "set (td_seenfns (fst u)) = set (td_seenfns (fst s))"
      with eq this that show "build_keys (fst u) = build_keys (fst s)" "run_keys (fst u) = run_keys (fst s)"
        "c_ignored_dependencies (snd u) = c_ignored_dependencies (snd s)"
        unfolding grows_def by simp_all
    qed (rule wd.trans [OF w])
  qed
qed

lemma recorded_grows: "recorded td td' \<Longrightarrow> grows (td, c) (td', c)"
  by (auto simp: recorded_def shrinks_def fail_frame_def losses_recorded_def grows_def wide_def touched_def
      build_settled_def run_settled_def)

lemma tame_lift_recorded: "tame recorded (fst s) (f (fst s)) \<Longrightarrow> tame grows s (lift_td f s)"
  using recorded_grows [of "fst s" "fst (f (fst s))" "snd s"] by (auto simp: lift_td_def tame_def case_prod_beta)

section \<open>Adding the tasks of a recipe\<close>

text \<open>Within \<open>add_tasks\<close> no recipe is added.\<close>

definition inner :: "taskdata \<Rightarrow> taskdata \<Rightarrow> bool" where
  "inner td td' \<longleftrightarrow> touched td td' \<and> td_seenfns td' = td_seenfns td"

interpretation inn: preorder_run inner
  by unfold_locales (auto simp: inner_def touched_def)

lemma tame_lift_inner: "tame inner (fst s) (f (fst s)) \<Longrightarrow> tame wide s (lift_td f s)"
  by (auto simp: lift_td_def tame_def case_prod_beta inner_def wide_def)

lemma recorded_inner: "recorded td td' \<Longrightarrow> inner td td'"
  by (auto simp: recorded_def shrinks_def fail_frame_def losses_recorded_def inner_def touched_def
      build_settled_def run_settled_def)

lemma dwf_seen_target [simp]: "dwf d \<Longrightarrow> dwf (seen_target name d)"
  by (simp add: seen_target_def)

lemma keys_seen_target [simp]: "set (dkeys (seen_target name d)) = insert name (set (dkeys d))"
  by (auto simp: seen_target_def)

lemma inner_upd [simp]:
  "inner td (seen_build_target name td)"
  "inner td (seen_run_target name td)"
  "inner td (set_entry tid f td)"
  "inner td (td\<lparr>td_taskentries := e\<rparr>)"
  "inner td (add_depids fn c td)"
  "inner td (add_rdepids fn c td)"
  by (auto simp: inner_def touched_def build_settled_def run_settled_def seen_build_target_def seen_run_target_def
      set_entry_def add_depids_def add_rdepids_def Let_def tables_wf_def)

lemma intertask_loop_inner:
  assumes "\<And>d u. inner u (seen d u)"
  shows "inner td (fst (intertask_loop seen ds ids td)) \<and> fueled (snd (intertask_loop seen ds ids td))"
proof (induction ds arbitrary: ids td)
  case Nil
  then show ?case by (simp add: inn.refl)
next
  case (Cons d ds)
  have "e \<noteq> OutOfFuel" if "intertask_dep d = Inl e" for e using that by (auto simp: intertask_dep_def split: if_splits)
  moreover have "inner td (fst (intertask_loop seen ds i (seen x td)))" for i x
    using inn.trans [OF assms [of td x]] Cons.IH by blast
  ultimately show ?case using Cons.IH by (auto simp: inn.refl split: sum.split)
qed

lemma add_intertask_inner:
  assumes "\<And>d u. inner u (seen d u)"
  shows "tame inner td (add_intertask task_deps flag task seen upd tid td)"
proof (cases "task_flag task_deps flag task")
  case None
  then show ?thesis by (simp add: add_intertask_def inn.refl)
next
  case (Some ds)
  then show ?thesis
    using intertask_loop_inner [of seen td "split_ws ds" "[]", OF assms] inn.trans [OF _ inner_upd(3)]
    by (auto simp: add_intertask_def split: prod.split sum.split)
qed

lemma add_task_inner: "tame inner td (add_task fn task_deps task td)"
proof -
  let ?td = "td\<lparr>td_taskentries := dset (fn @ [colon] @ task) new_taskentry (td_taskentries td)\<rparr>"
  have "tame inner ?td (add_task fn task_deps task td)"
    unfolding add_task_def Let_def
    by (rule inn.tame_cget, simp, rule inn.refl, rule inn.tame_trans [OF inner_upd(3)], rule inn.tame_cseq)
      (rule add_intertask_inner, simp)+
  then show ?thesis using inn.tame_trans [OF inner_upd(4)] by blast
qed

lemma touch_deps_inner:
  assumes "\<And>d u. inner u (seen d u)"
  shows "tame inner td (fst (touch_deps seen failed fn ds td))"
proof (induction ds arbitrary: td)
  case Nil
  then show ?case by (simp add: inn.refl)
next
  case (Cons d ds)
  have "tame inner u (fail_fn (fail_fuel u) fn u)" for u
    using fail_tame(1) [of u fn] recorded_inner by (auto simp: tame_def)
  then show ?case using inn.tame_trans [OF assms [of td d]] Cons.IH by (auto simp: Let_def)
qed

lemma touch_all_inner: "tame inner td (touch_all fn td)"
proof -
  have "tame inner td (fst (touch_deps seen_build_target td_failed_deps fn (dgetd (td_depids td) fn []) td))"
    by (rule touch_deps_inner) simp
  moreover have "tame inner u (fst (touch_deps seen_run_target td_failed_rdeps fn (dgetd (td_rdepids u) fn []) u))" for u
    by (rule touch_deps_inner) simp
  ultimately show ?thesis
    unfolding touch_all_def by (auto split: prod.split bool.split intro!: inn.tame_cseq)
qed

text \<open>
  The code of \<open>calculate_extra_depends\<close> is given the dependencies of the recipe and the names of the
  targets of the world build; the tasks of the recipes are out of its reach.
\<close>

definition extra_ok :: "(string \<Rightarrow> string \<Rightarrow> cachedata \<Rightarrow> cachedata res) \<Rightarrow> bool" where
  "extra_ok extra \<longleftrightarrow> (\<forall>func fn c. fueled (extra func fn c) \<and>
     (\<forall>c'. extra func fn c = Inr c' \<longrightarrow> c_task_deps c' = c_task_deps c))"

lemma buildWorldTargetList_task_deps:
  assumes "buildWorldTargetList task c = Inr c'"
  shows "c_task_deps c' = c_task_deps c"
proof (cases "c_world_target c = []")
  case True
  then have "rfold (world_step task) (c_possible_world c) c = Inr c'" using assms by (simp add: buildWorldTargetList_def)
  then show ?thesis
  proof (rule rfold_inv [where P = "\<lambda>d. c_task_deps d = c_task_deps c"])
    show "c_task_deps v = c_task_deps c" if "c_task_deps u = c_task_deps c" "world_step task f u = Inr v" for f u v
      using that by (auto simp: world_step_def res_simps split: if_splits)
  qed simp
qed (use assms in \<open>simp add: buildWorldTargetList_def\<close>)

lemma wide_cache [simp]: "wide s (fst s, c) = (c_task_deps c = c_task_deps (snd s))"
  by (auto simp: wide_def touched_def)

lemma add_extra_deps_wide:
  assumes "extra_ok extra"
  shows "tame wide s (add_extra_deps extra fn s)"
proof (cases "dgetd (c_extradepsfunc (snd s)) fn [] = []")
  case True
  then show ?thesis by (simp add: add_extra_deps_def wd.refl)
next
  case False
  let ?func = "dgetd (c_extradepsfunc (snd s)) fn []"
  have ex: "fueled (extra f x c)" "extra f x c = Inr c' \<Longrightarrow> c_task_deps c' = c_task_deps c" for f x c c'
    using assms unfolding extra_ok_def by blast+
  have "tame wide s (cget (buildWorldTargetList None (snd s)) s (\<lambda>c.
              cget (dlookup (c_pkg_fn c) fn) (fst s, c) (\<lambda>pn.
              cget (extra ?func fn c) (fst s, c) (\<lambda>c. ((fst s, c), None)))))"
  proof (rule wd.tame_cget [OF fueled_buildWorldTargetList wd.refl])
    fix c assume "buildWorldTargetList None (snd s) = Inr c"
    then have c: "c_task_deps c = c_task_deps (snd s)" by (rule buildWorldTargetList_task_deps)
    show "tame wide s (cget (dlookup (c_pkg_fn c) fn) (fst s, c) (\<lambda>pn.
              cget (extra ?func fn c) (fst s, c) (\<lambda>c. ((fst s, c), None))))"
      using c ex by (intro wd.tame_cget) simp_all
  qed
  then show ?thesis using False by (simp add: add_extra_deps_def)
qed

lemma add_tasks_grows:
  assumes "extra_ok extra"
  shows "tame grows s (add_tasks extra fn s)"
proof -
  let ?s = "on_td (\<lambda>td. td\<lparr>td_seenfns := td_seenfns td @ [fn]\<rparr>) s"
  have new: "tame grows s (cseq (add_extra_deps extra fn ?s) (\<lambda>s.
            cseq (lift_td (cfold (add_task fn td) (td_tasks td)) s) (\<lambda>s.
              lift_td (\<lambda>td. touch_all fn (add_rdepids fn (snd s) (add_depids fn (snd s) td))) s)))" (is "tame grows s ?m")
    if fn: "fn \<in> set (dkeys (c_task_deps (snd s)))" "fn \<notin> set (td_seenfns (fst s))" for td
  proof -
    have "tame inner u (cfold (add_task fn td) ts u)" for ts u
      by (intro inn.tame_cfold add_task_inner)
    moreover have "tame inner u (touch_all fn (add_rdepids fn c (add_depids fn c u)))" for u c
      by (rule inn.tame_trans [OF inner_upd(5)], rule inn.tame_trans [OF inner_upd(6)], rule touch_all_inner)
    ultimately have m: "tame wide ?s ?m"
      by (intro wd.tame_cseq add_extra_deps_wide assms tame_lift_inner)
    have "wide s ?s" using fn by (auto simp: wide_def touched_def on_td_def build_settled_def run_settled_def tables_wf_def)
    then have "wide s (fst ?m)" using m wd.trans unfolding tame_def by blast
    moreover have "fn \<in> set (td_seenfns (fst (fst ?m)))"
      using m by (auto simp: tame_def wide_def touched_def on_td_def)
    ultimately show ?thesis using m fn(2) unfolding tame_def grows_def by blast
  qed
  show ?thesis
    unfolding add_tasks_def
  proof (rule gr.tame_cget)
    fix td assume "dlookup (c_task_deps (snd s)) fn = Inr td"
    then have "fn \<in> set (dkeys (c_task_deps (snd s)))" by (auto dest: dget_SomeD)
    with new [of td] show "tame grows s (if fn \<in> set (td_failed_fns (fst s)) then (s, Some Fatal)
       else if fn \<in> set (td_seenfns (fst s)) then (s, None)
       else cseq (add_extra_deps extra fn ?s) (\<lambda>s.
            cseq (lift_td (cfold (add_task fn td) (td_tasks td)) s) (\<lambda>s.
              lift_td (\<lambda>td. touch_all fn (add_rdepids fn (snd s) (add_depids fn (snd s) td))) s)))"
      by (simp add: gr.refl)
  qed (simp_all add: gr.refl)
qed

section \<open>Adding providers\<close>

text \<open>A command that settles a target unless it raises; \<open>ig\<close> says that the target is to be ignored.\<close>

definition settles :: "bool \<Rightarrow> (taskdata \<Rightarrow> bool) \<Rightarrow> tstate \<Rightarrow> tstate cmd \<Rightarrow> bool" where
  "settles ig S s m \<longleftrightarrow> tame grows s m \<and> (snd m = None \<longrightarrow> ig \<or> S (fst (fst m)))"

lemma settles_simps [simp]:
  "settles ig S s (u, Some e) \<longleftrightarrow> e \<noteq> OutOfFuel \<and> grows s u"
  "settles ig S s (u, None) \<longleftrightarrow> grows s u \<and> (ig \<or> S (fst u))"
  by (auto simp: settles_def)

lemma settles_cget:
  "fueled m \<Longrightarrow> grows s u \<Longrightarrow> (\<And>x. m = Inr x \<Longrightarrow> settles ig S s (k x)) \<Longrightarrow> settles ig S s (cget m u k)"
  by (cases m) auto

lemma grows_cache [simp]:
  "grows s (fst s, c) \<longleftrightarrow> c_task_deps c = c_task_deps (snd s) \<and> c_ignored_dependencies c = c_ignored_dependencies (snd s)"
  by (auto simp: grows_def)

lemma grows_consider [simp]: "grows s (on_td (consider_msg item) s)"
  by (auto simp: grows_def wide_def touched_def on_td_def consider_msg_def build_settled_def run_settled_def tables_wf_def)

text \<open>What build and runtime targets have in common: their keys, when they are settled, and how a provider is added.\<close>

definition target_kind ::
  "(taskdata \<Rightarrow> string set) \<Rightarrow> (taskdata \<Rightarrow> string \<Rightarrow> bool) \<Rightarrow> (string \<Rightarrow> string \<Rightarrow> taskdata \<Rightarrow> taskdata) \<Rightarrow> bool" where
  "target_kind K S add_target \<longleftrightarrow>
     (\<forall>s s' t. grows s s' \<longrightarrow> K (fst s) \<subseteq> K (fst s') \<and> (S (fst s) t \<longrightarrow> S (fst s') t)) \<and>
     (\<forall>fn t s. t \<in> K (fst s) \<longrightarrow> grows s (on_td (add_target fn t) s) \<and> S (add_target fn t (fst s)) t)"

lemma sadd_not_Nil [simp]: "sadd x xs \<noteq> []"
  by (auto simp: sadd_def)

lemma target_kinds:
  "target_kind build_keys build_settled add_build_target"
  "target_kind run_keys run_settled add_runtime_target"
  by (auto simp: target_kind_def grows_def wide_def touched_def on_td_def add_build_target_def add_runtime_target_def
      dappend_new_def build_settled_def run_settled_def tables_wf_def)

lemma target_kindD:
  assumes "target_kind K S add_target"
  shows "grows s s' \<Longrightarrow> t \<in> K (fst s) \<Longrightarrow> t \<in> K (fst s')" "grows s s' \<Longrightarrow> S (fst s) t \<Longrightarrow> S (fst s') t"
    "t \<in> K (fst s) \<Longrightarrow> grows s (on_td (add_target fn t) s)" "t \<in> K (fst s) \<Longrightarrow> S (fst (on_td (add_target fn t) s)) t"
  using assms unfolding target_kind_def on_td_def fst_conv by blast+

lemma add_all_settles:
  assumes extra: "extra_ok extra" and kind: "target_kind K S add_target" and item: "item \<in> K (fst s)"
    and el: "el \<noteq> []" "hd el \<notin> set (td_failed_fns (fst s))"
  shows "settles ig (\<lambda>td. S td item) s (cfold (add_provided extra add_target item) el s)"
proof -
  note k = target_kindD [OF kind]
  have add: "tame grows u (add_provided extra add_target item fn u)" if "item \<in> K (fst u)" for fn u
    using gr.tame_trans [OF k(3) [OF that] add_tasks_grows [OF extra]] by (simp add: add_provided_def gr.refl)
  have all: "tame grows u (cfold (add_provided extra add_target item) fns u)" if "item \<in> K (fst u)" for fns u
    using gr.tame_cfold [of fns u "add_provided extra add_target item"] add k(1) that by blast
  obtain fn fns where fns: "el = fn # fns" using el(1) by (cases el) auto
  let ?m = "add_provided extra add_target item fn s"
  have m: "tame grows s ?m" using add item by blast
  have "tame grows (on_td (add_target fn item) s) ?m"
    using el(2) fns add_tasks_grows [OF extra] by (simp add: add_provided_def)
  then have "grows (on_td (add_target fn item) s) (fst ?m)" by (simp add: tame_def)
  then have S: "S (fst (fst ?m)) item" by (rule k(2) [OF _ k(4) [OF item]])
  have rest: "tame grows (fst ?m) (cfold (add_provided extra add_target item) fns (fst ?m))"
    using all k(1) [OF _ item] m by (auto simp: tame_def)
  then have "grows (fst ?m) (fst (cfold (add_provided extra add_target item) fns (fst ?m)))" by (simp add: tame_def)
  from k(2) [OF this S] have "S (fst (fst (cfold (add_provided extra add_target item) el s))) item"
    using S unfolding fns by (simp add: cseq_def split: option.split)
  then show ?thesis using all [OF item] by (auto simp: settles_def)
qed

lemma filterProviders_cache:
  "filterProviders ps item cfg c = Inr (el, found, c') \<Longrightarrow> c_task_deps c' = c_task_deps c"
  by (auto simp: filterProviders_def Let_def res_simps split: option.splits)

lemma have_target_settled:
  "have_build_target td t \<Longrightarrow> build_settled td t" "have_runtime_target td t \<Longrightarrow> run_settled td t"
  by (auto simp: have_build_target_def have_runtime_target_def build_settled_def run_settled_def)

lemma eligible_settles:
  assumes extra: "extra_ok extra" and item: "item \<in> build_keys (fst s)" and u: "grows s u"
  shows "settles ig (\<lambda>td. build_settled td item) s
    (let el = filter (\<lambda>p. p \<notin> set (td_failed_fns (fst u))) el
     in if el = [] then (u, Some (NoProvider item))
        else let s = (if length el > 1 \<and> \<not> found then on_td (consider_msg item) u else u)
             in cfold (add_provided extra add_build_target item) el s)"
proof (cases "filter (\<lambda>p. p \<notin> set (td_failed_fns (fst u))) el = []")
  case True
  then show ?thesis using u by simp
next
  case False
  let ?el = "filter (\<lambda>p. p \<notin> set (td_failed_fns (fst u))) el"
  have hd: "hd ?el \<notin> set (td_failed_fns (fst u))" using hd_in_set [OF False] by simp
  have "settles ig (\<lambda>td. build_settled td item) s (cfold (add_provided extra add_build_target item) ?el v)"
    if "v = u \<or> v = on_td (consider_msg item) u" for v
  proof -
    have v: "grows s v" "td_failed_fns (fst v) = td_failed_fns (fst u)"
      using that u gr.trans [OF u grows_consider] by (auto simp: on_td_def consider_msg_def)
    have "settles ig (\<lambda>td. build_settled td item) v (cfold (add_provided extra add_build_target item) ?el v)"
      using add_all_settles [OF extra target_kinds(1)] target_kindD(1) [OF target_kinds(1) v(1) item] False hd v(2) by simp
    then show ?thesis using gr.tame_trans [OF v(1)] by (auto simp: settles_def)
  qed
  then show ?thesis using False by (simp add: Let_def)
qed

lemma add_provider_internal_settles:
  assumes extra: "extra_ok extra" and item: "item \<in> build_keys (fst s)"
  shows "settles (re_match_strings re_match item (c_ignored_dependencies (snd s)) = Inr True) (\<lambda>td. build_settled td item) s
    (add_provider_internal re_match extra cfg item s)"
  unfolding add_provider_internal_def
proof (rule settles_cget [OF fueled_re_match_strings gr.refl])
  let ?ig = "re_match_strings re_match item (c_ignored_dependencies (snd s)) = Inr True"
  let ?some = "\<lambda>all_p. if have_build_target (fst s) item then (s, None)
           else let s = (fst s, (snd s)\<lparr>c_providers := dset item (py_sorted all_p) (c_providers (snd s))\<rparr>)
             in cget (filterProviders all_p item cfg (snd s)) s (\<lambda>(eligible, foundUnique, c).
                  let s = (fst s, c)
                  in (case eligible of
                        None \<Rightarrow> (s, Some TypeError)
                      | Some el \<Rightarrow>
                          let el = filter (\<lambda>p. p \<notin> set (td_failed_fns (fst s))) el
                          in if el = [] then (s, Some (NoProvider item))
                             else let s = (if length el > 1 \<and> \<not> foundUnique then on_td (consider_msg item) s else s)
                                  in cfold (add_provided extra add_build_target item) el s))"
  fix ignored assume ig: "re_match_strings re_match item (c_ignored_dependencies (snd s)) = Inr ignored"
  have none: "settles ?ig (\<lambda>td. build_settled td item) s
      (cget (getRuntimeProviders re_match (snd s) item) s (\<lambda>all_p.
       cget (rmap (dlookup (c_pkg_fn (snd s))) all_p) s (\<lambda>_. (s, Some (NoProvider item)))))"
    by (intro settles_cget fueled_getRuntimeProviders fueled_rmap) (simp_all add: gr.refl)
  have some: "settles ?ig (\<lambda>td. build_settled td item) s (?some all_p)" for all_p
  proof (cases "have_build_target (fst s) item")
    case True
    then show ?thesis by (simp add: gr.refl have_target_settled)
  next
    case False
    let ?s = "(fst s, (snd s)\<lparr>c_providers := dset item (py_sorted all_p) (c_providers (snd s))\<rparr>)"
    have "settles ?ig (\<lambda>td. build_settled td item) s (cget (filterProviders all_p item cfg (snd ?s)) ?s (\<lambda>(eligible, foundUnique, c).
                  let s = (fst ?s, c)
                  in (case eligible of
                        None \<Rightarrow> (s, Some TypeError)
                      | Some el \<Rightarrow>
                          let el = filter (\<lambda>p. p \<notin> set (td_failed_fns (fst s))) el
                          in if el = [] then (s, Some (NoProvider item))
                             else let s = (if length el > 1 \<and> \<not> foundUnique then on_td (consider_msg item) s else s)
                                  in cfold (add_provided extra add_build_target item) el s)))"
    proof (rule settles_cget [OF fueled_filterProviders])
      fix x assume x: "filterProviders all_p item cfg (snd ?s) = Inr x"
      obtain eligible found c where xs: "x = (eligible, found, c)" by (cases x)
      have c: "grows s (fst s, c)" using filterProviders_cache filterProviders_ignored x xs by fastforce
      show "settles ?ig (\<lambda>td. build_settled td item) s (case x of (eligible, foundUnique, c) \<Rightarrow>
                  let s = (fst ?s, c)
                  in (case eligible of
                        None \<Rightarrow> (s, Some TypeError)
                      | Some el \<Rightarrow>
                          let el = filter (\<lambda>p. p \<notin> set (td_failed_fns (fst s))) el
                          in if el = [] then (s, Some (NoProvider item))
                             else let s = (if length el > 1 \<and> \<not> foundUnique then on_td (consider_msg item) s else s)
                                  in cfold (add_provided extra add_build_target item) el s))"
        using eligible_settles [OF extra item c] c by (cases eligible) (simp_all add: xs Let_def)
    qed simp
    then show ?thesis using False unfolding Let_def by simp
  qed
  show "settles ?ig (\<lambda>td. build_settled td item) s
      (if ignored then (s, None)
       else case dget (c_providers (snd s)) item of
         None \<Rightarrow>
           cget (getRuntimeProviders re_match (snd s) item) s (\<lambda>all_p.
           cget (rmap (dlookup (c_pkg_fn (snd s))) all_p) s (\<lambda>_. (s, Some (NoProvider item))))
       | Some all_p \<Rightarrow> ?some all_p)"
  proof (cases ignored)
    case True
    then show ?thesis using ig by (simp add: gr.refl)
  next
    case False
    show ?thesis unfolding if_not_P [OF False] using none some by (cases "dget (c_providers (snd s)) item") simp_all
  qed
qed

lemma add_rprovider_settles:
  assumes extra: "extra_ok extra" and item: "item \<in> run_keys (fst s)"
  shows "settles (re_match_strings re_match item (c_ignored_dependencies (snd s)) = Inr True) (\<lambda>td. run_settled td item) s
    (add_rprovider re_match extra cfg item s)"
proof -
  let ?settles = "settles (re_match_strings re_match item (c_ignored_dependencies (snd s)) = Inr True) (\<lambda>td. run_settled td item) s"
  have choose: "?settles (let el = filter (\<lambda>p. p \<notin> set (td_failed_fns (fst s))) el
      in if el = [] then (s, Some (NoRProvider item))
         else let s = (if length el > 1 \<and> n = 0 then on_td (consider_msg item) s else s)
              in if n > 1 then (on_td (consider_msg item) s, Some (MultipleRProvider item))
                 else cfold (add_provided extra add_runtime_target item) el s)" for el and n :: nat
  proof (cases "filter (\<lambda>p. p \<notin> set (td_failed_fns (fst s))) el = []")
    case True
    then show ?thesis by (simp add: gr.refl)
  next
    case False
    let ?el = "filter (\<lambda>p. p \<notin> set (td_failed_fns (fst s))) el"
    have hd: "hd ?el \<notin> set (td_failed_fns (fst s))" using hd_in_set [OF False] by simp
    have "?settles (if n > 1 then (on_td (consider_msg item) v, Some (MultipleRProvider item))
        else cfold (add_provided extra add_runtime_target item) ?el v)" if "v = s \<or> v = on_td (consider_msg item) s" for v
    proof -
      have v: "grows s v" using that gr.refl grows_consider by blast
      have same: "td_failed_fns (fst v) = td_failed_fns (fst s)" using that by (auto simp: on_td_def consider_msg_def)
      have "settles ig (\<lambda>td. run_settled td item) v (cfold (add_provided extra add_runtime_target item) ?el v)" for ig
        using add_all_settles [OF extra target_kinds(2)] target_kindD(1) [OF target_kinds(2) v item] False hd same by simp
      then show ?thesis using gr.tame_trans [OF v] gr.trans [OF v grows_consider] by (auto simp: settles_def)
    qed
    then show ?thesis using False by (simp add: Let_def)
  qed
  show ?thesis
    unfolding add_rprovider_def
  proof (intro settles_cget [OF fueled_re_match_strings gr.refl], split if_split, intro conjI impI, simp add: gr.refl,
      blast dest: have_target_settled, intro settles_cget [OF fueled_getRuntimeProviders gr.refl], split if_split,
      intro conjI impI, simp add: gr.refl, intro settles_cget [OF fueled_filterProvidersRunTime gr.refl])
    fix x :: "string list \<times> nat"
    show "?settles (case x of (eligible, numberPreferred) \<Rightarrow>
           let el = filter (\<lambda>p. p \<notin> set (td_failed_fns (fst s))) eligible
           in if el = [] then (s, Some (NoRProvider item))
              else let s = (if length el > 1 \<and> numberPreferred = 0 then on_td (consider_msg item) s else s)
                   in if numberPreferred > 1 then (on_td (consider_msg item) s, Some (MultipleRProvider item))
                      else cfold (add_provided extra add_runtime_target item) el s)"
      using choose by (cases x) simp
  qed
qed

section \<open>Rounds\<close>

text \<open>One step of a round: it is counted only if it settles its target or finds it ignored.\<close>

definition counted ::
  "(string \<Rightarrow> string \<Rightarrow> bool option) \<Rightarrow> (taskdata \<Rightarrow> string \<Rightarrow> bool) \<Rightarrow> string \<Rightarrow> tstate \<times> nat \<Rightarrow> (tstate \<times> nat) cmd \<Rightarrow> bool" where
  "counted re_match S t sn m \<longleftrightarrow> snd m \<noteq> Some OutOfFuel \<and> grows (fst sn) (fst (fst m)) \<and>
     (snd (fst m) \<noteq> snd sn \<longrightarrow>
        re_match_strings re_match t (c_ignored_dependencies (snd (fst sn))) = Inr True \<or> S (fst (fst (fst m))) t)"

lemma lift_remove_tame:
  "tame grows u (lift_td (\<lambda>td. remove_buildtarget (fail_fuel td) t td) u)"
  "tame grows u (lift_td (\<lambda>td. remove_runtarget (fail_fuel td) t td) u)"
  by (auto intro: tame_lift_recorded fail_tame)

lemma resolve_build_counted:
  assumes "extra_ok extra" "t \<in> build_keys (fst (fst sn))"
  shows "counted re_match build_settled t sn (resolve_build re_match extra cfg t sn)"
proof -
  obtain u e where m: "add_provider_internal re_match extra cfg t (fst sn) = (u, e)"
    by (cases "add_provider_internal re_match extra cfg t (fst sn)")
  note settles = add_provider_internal_settles [OF assms, of re_match cfg, unfolded m]
  show ?thesis
  proof (cases e)
    case None
    then show ?thesis using settles m by (simp add: counted_def resolve_build_def)
  next
    case (Some x)
    have u: "x \<noteq> OutOfFuel" "grows (fst sn) u" using settles Some by simp_all
    have "grows (fst sn) (fst (lift_td (\<lambda>td. remove_buildtarget (fail_fuel td) t td) u)) \<and>
        snd (lift_td (\<lambda>td. remove_buildtarget (fail_fuel td) t td) u) \<noteq> Some OutOfFuel"
      using gr.tame_trans [OF u(2) lift_remove_tame(1)] by (simp add: tame_def)
    then show ?thesis
      using m u Some by (cases x) (auto simp: counted_def resolve_build_def split: prod.split)
  qed
qed

lemma resolve_run_counted:
  assumes "extra_ok extra" "t \<in> run_keys (fst (fst sn))"
  shows "counted re_match run_settled t sn (resolve_run re_match extra cfg t sn)"
proof -
  obtain u e where m: "add_rprovider re_match extra cfg t (fst sn) = (u, e)"
    by (cases "add_rprovider re_match extra cfg t (fst sn)")
  note settles = add_rprovider_settles [OF assms, of re_match cfg, unfolded m]
  show ?thesis
  proof (cases e)
    case None
    then show ?thesis using settles m by (simp add: counted_def resolve_run_def)
  next
    case (Some x)
    have u: "x \<noteq> OutOfFuel" "grows (fst sn) u" using settles Some by simp_all
    have "grows (fst sn) (fst (lift_td (\<lambda>td. remove_runtarget (fail_fuel td) t td) u)) \<and>
        snd (lift_td (\<lambda>td. remove_runtarget (fail_fuel td) t td) u) \<noteq> Some OutOfFuel"
      using gr.tame_trans [OF u(2) lift_remove_tame(2)] by (simp add: tame_def)
    then show ?thesis
      using m u Some by (cases x) (auto simp: counted_def resolve_run_def split: prod.split)
  qed
qed

lemma fold_counted:
  assumes kind: "target_kind K S add_target"
    and step: "\<And>t sn. t \<in> K (fst (fst sn)) \<Longrightarrow> counted re_match S t sn (f t sn)"
  shows "set ts \<subseteq> K (fst (fst sn)) \<Longrightarrow>
    snd (cfold f ts sn) \<noteq> Some OutOfFuel \<and> grows (fst sn) (fst (fst (cfold f ts sn))) \<and>
    (snd (fst (cfold f ts sn)) \<noteq> snd sn \<longrightarrow>
      (\<forall>t \<in> set ts. re_match_strings re_match t (c_ignored_dependencies (snd (fst sn))) \<noteq> Inr True) \<longrightarrow>
      set (td_seenfns (fst (fst (fst (cfold f ts sn))))) \<noteq> set (td_seenfns (fst (fst sn))) \<or>
      (\<exists>t \<in> set ts. S (fst (fst (fst (cfold f ts sn)))) t))"
proof (induction ts arbitrary: sn)
  case Nil
  then show ?case by (simp add: gr.refl)
next
  case (Cons t ts)
  obtain s n where sn: "sn = (s, n)" by (cases sn)
  obtain s1 n1 e where m: "f t sn = ((s1, n1), e)" by (cases "f t sn") auto
  have c: "e \<noteq> Some OutOfFuel" "grows s s1"
    "n1 \<noteq> n \<Longrightarrow> re_match_strings re_match t (c_ignored_dependencies (snd s)) = Inr True \<or> S (fst s1) t"
    using step [of t sn] Cons.prems m sn by (auto simp: counted_def)
  show ?case
  proof (cases e)
    case (Some x)
    then show ?thesis using c m sn by auto
  next
    case None
    let ?v = "fst (fst (cfold f ts (s1, n1)))" and ?n = "snd (fst (cfold f ts (s1, n1)))"
    have "set ts \<subseteq> K (fst s1)" using Cons.prems target_kindD(1) [OF kind c(2)] sn by auto
    from Cons.IH [of "(s1, n1)"] this
    have v: "snd (cfold f ts (s1, n1)) \<noteq> Some OutOfFuel" "grows s1 ?v"
      "?n \<noteq> n1 \<Longrightarrow> \<forall>t \<in> set ts. re_match_strings re_match t (c_ignored_dependencies (snd s1)) \<noteq> Inr True \<Longrightarrow>
        set (td_seenfns (fst ?v)) \<noteq> set (td_seenfns (fst s1)) \<or> (\<exists>t \<in> set ts. S (fst ?v) t)"
      by simp_all
    have eq: "cfold f (t # ts) sn = cfold f ts (s1, n1)" using m None by simp
    have "set (td_seenfns (fst ?v)) \<noteq> set (td_seenfns (fst s)) \<or> (\<exists>t \<in> set (t # ts). S (fst ?v) t)"
      if n: "?n \<noteq> n" and ni: "\<forall>t \<in> set (t # ts). re_match_strings re_match t (c_ignored_dependencies (snd s)) \<noteq> Inr True"
    proof (rule disjCI)
      assume "\<not> (\<exists>t \<in> set (t # ts). S (fst ?v) t)"
      then have nS: "\<not> S (fst ?v) t" "\<forall>t \<in> set ts. \<not> S (fst ?v) t" by auto
      have "n1 = n" using c(3) ni target_kindD(2) [OF kind v(2)] nS(1) by auto
      then have n1: "?n \<noteq> n1" using n by simp
      show "set (td_seenfns (fst ?v)) \<noteq> set (td_seenfns (fst s))"
      proof
        assume seen: "set (td_seenfns (fst ?v)) = set (td_seenfns (fst s))"
        then have seen1: "set (td_seenfns (fst s1)) = set (td_seenfns (fst s))"
          using c(2) v(2) unfolding grows_def wide_def touched_def by blast
        then have "c_ignored_dependencies (snd s1) = c_ignored_dependencies (snd s)" using c(2) by (simp add: grows_def)
        then show False using v(3) [OF n1] ni nS(2) seen seen1 by auto
      qed
    qed
    then show ?thesis using v(1) gr.trans [OF c(2) v(2)] eq sn by simp
  qed
qed

lemma unresolved_of_mem:
  "unresolved_of re_match ignored failed d = Inr us \<Longrightarrow> t \<in> set us \<Longrightarrow>
    \<exists>fns. (t, fns) \<in> set d \<and> fns = [] \<and> t \<notin> set failed \<and> re_match_strings re_match t ignored \<noteq> Inr True"
  by (induction d arbitrary: us) (auto simp: res_simps split: if_splits)

text \<open>The tables have one entry for each key.\<close>

lemma unresolved_unsettled:
  assumes "unresolved_of re_match ignored failed d = Inr us" "t \<in> set us" "dwf d"
  shows "t \<in> set (dkeys d) \<and> lists_of d t = {} \<and> t \<notin> set failed \<and> re_match_strings re_match t ignored \<noteq> Inr True"
proof -
  from unresolved_of_mem [OF assms(1,2)] have t: "(t, []) \<in> set d" "t \<notin> set failed"
    "re_match_strings re_match t ignored \<noteq> Inr True" by auto
  then have "dget d t = Some []" using assms(3) by (simp add: dwf_dget)
  then show ?thesis using t by (auto simp: dgetd_def dest: dget_SomeD)
qed

definition open_targets :: "taskdata \<Rightarrow> nat" where
  "open_targets td = card {t \<in> build_keys td. \<not> build_settled td t} + card {t \<in> run_keys td. \<not> run_settled td t}"

definition new_recipes :: "tstate \<Rightarrow> nat" where
  "new_recipes s = card (set (dkeys (c_task_deps (snd s))) - set (td_seenfns (fst s)))"

lemma card_less:
  "finite A \<Longrightarrow> B \<subseteq> A \<Longrightarrow> t \<in> A \<Longrightarrow> t \<notin> B \<Longrightarrow> card B < card A"
  by (rule psubset_card_mono) auto

lemma grows_seen:
  assumes "grows s t" "grows t u" "set (td_seenfns (fst u)) = set (td_seenfns (fst s))"
  shows "set (td_seenfns (fst t)) = set (td_seenfns (fst s))" "set (td_seenfns (fst u)) = set (td_seenfns (fst t))"
proof -
  have "set (td_seenfns (fst s)) \<subseteq> set (td_seenfns (fst t))" "set (td_seenfns (fst t)) \<subseteq> set (td_seenfns (fst u))"
    using assms(1,2) by (simp_all add: grows_def wide_def touched_def)
  then show "set (td_seenfns (fst t)) = set (td_seenfns (fst s))" "set (td_seenfns (fst u)) = set (td_seenfns (fst t))"
    using assms(3) by auto
qed

text \<open>A round ends; one that counts something adds a recipe or settles a target.\<close>

lemma round_progress:
  assumes extra: "extra_ok extra" and wf: "tables_wf (fst s)"
    and run: "resolve_round re_match extra cfg s = ((s', added), e)"
  shows "e \<noteq> Some OutOfFuel" "grows s s'"
    "added \<noteq> 0 \<Longrightarrow> (s', s) \<in> measures [new_recipes, \<lambda>s. open_targets (fst s)]"
proof -
  let ?B = "get_unresolved_build_targets re_match (snd s) (fst s)"
  have fueled: "fueled (get_unresolved_build_targets re_match c td)" "fueled (get_unresolved_run_targets re_match c td)" for c td
    by (simp_all add: get_unresolved_build_targets_def get_unresolved_run_targets_def fueled_unresolved_of)
  have all: "e \<noteq> Some OutOfFuel \<and> grows s s' \<and> (added \<noteq> 0 \<longrightarrow>
      set (td_seenfns (fst s')) \<noteq> set (td_seenfns (fst s)) \<or>
      (\<exists>t \<in> build_keys (fst s). \<not> build_settled (fst s) t \<and> build_settled (fst s') t) \<or>
      (\<exists>t \<in> run_keys (fst s'). \<not> run_settled (fst s) t \<and> run_settled (fst s') t))"
  proof (cases ?B)
    case (Inl x)
    then show ?thesis using run fueled(1) [of "snd s" "fst s"] by (auto simp: resolve_round_def gr.refl)
  next
    case (Inr build)
    have b: "t \<in> build_keys (fst s) \<and> \<not> build_settled (fst s) t \<and>
        re_match_strings re_match t (c_ignored_dependencies (snd s)) \<noteq> Inr True" if "t \<in> set build" for t
      using unresolved_unsettled [OF Inr [unfolded get_unresolved_build_targets_def] that] wf
      by (simp add: tables_wf_def build_settled_def)
    obtain s1 n1 e1 where m1: "cfold (resolve_build re_match extra cfg) build (s, 0) = ((s1, n1), e1)"
      by (cases "cfold (resolve_build re_match extra cfg) build (s, 0)") auto
    have 1: "e1 \<noteq> Some OutOfFuel" "grows s s1" "n1 \<noteq> 0 \<Longrightarrow>
        set (td_seenfns (fst s1)) \<noteq> set (td_seenfns (fst s)) \<or> (\<exists>t \<in> set build. build_settled (fst s1) t)"
      using fold_counted [OF target_kinds(1), of re_match "resolve_build re_match extra cfg" build "(s, 0)", OF resolve_build_counted [OF extra]] b m1 by auto
    have p1: "set (td_seenfns (fst s')) \<noteq> set (td_seenfns (fst s)) \<or>
      (\<exists>t \<in> build_keys (fst s). \<not> build_settled (fst s) t \<and> build_settled (fst s') t)" if "n1 \<noteq> 0" "grows s1 s'"
    proof (cases "\<exists>t \<in> set build. build_settled (fst s1) t")
      case True
      then show ?thesis using b target_kindD(2) [OF target_kinds(1) that(2)] by blast
    next
      case False
      then show ?thesis using 1(3) [OF that(1)] grows_seen(1) [OF 1(2) that(2)] by blast
    qed
    show ?thesis
    proof (cases e1)
      case (Some x)
      then have "s' = s1" "e = e1" "added = n1" using run Inr m1 by (simp_all add: resolve_round_def)
      then show ?thesis using 1 p1 gr.refl by auto
    next
      case e1: None
      show ?thesis
      proof (cases "get_unresolved_run_targets re_match (snd s1) (fst s1)")
        case (Inl x)
        then have "s' = s1" "e = Some x" "added = n1" using run Inr m1 e1 by (simp_all add: resolve_round_def)
        then show ?thesis using 1 p1 gr.refl fueled(2) [of "snd s1" "fst s1"] Inl by auto
      next
        case run': (Inr targets)
        have m2: "cfold (resolve_run re_match extra cfg) targets (s1, n1) = ((s', added), e)"
          using run Inr m1 e1 run' by (simp add: resolve_round_def)
        have wf1: "tables_wf (fst s1)" using wf 1(2) by (simp add: grows_def wide_def touched_def)
        have r: "t \<in> run_keys (fst s1) \<and> \<not> run_settled (fst s1) t \<and>
            re_match_strings re_match t (c_ignored_dependencies (snd s1)) \<noteq> Inr True" if "t \<in> set targets" for t
          using unresolved_unsettled [OF run' [unfolded get_unresolved_run_targets_def] that] wf1
          by (simp add: tables_wf_def run_settled_def)
        have 2: "e \<noteq> Some OutOfFuel" "grows s1 s'" "added \<noteq> n1 \<Longrightarrow>
            set (td_seenfns (fst s')) \<noteq> set (td_seenfns (fst s1)) \<or> (\<exists>t \<in> set targets. run_settled (fst s') t)"
          using fold_counted [OF target_kinds(2), of re_match "resolve_run re_match extra cfg" targets "(s1, n1)", OF resolve_run_counted [OF extra]] r m2 by auto
        have "set (td_seenfns (fst s')) \<noteq> set (td_seenfns (fst s)) \<or>
            (\<exists>t \<in> run_keys (fst s'). \<not> run_settled (fst s) t \<and> run_settled (fst s') t)" if "added \<noteq> n1"
        proof (cases "\<exists>t \<in> set targets. run_settled (fst s') t")
          case True
          then show ?thesis using r target_kindD(1) [OF target_kinds(2) 2(2)] target_kindD(2) [OF target_kinds(2) 1(2)] by blast
        next
          case False
          then show ?thesis using 2(3) [OF that] grows_seen(2) [OF 1(2) 2(2)] by blast
        qed
        then show ?thesis using 2(1,2) p1 gr.trans [OF 1(2) 2(2)] by auto
      qed
    qed
  qed
  then show "e \<noteq> Some OutOfFuel" "grows s s'" by blast+
  assume "added \<noteq> 0"
  have g: "grows s s'" using all by blast
  then have w: "set (td_seenfns (fst s)) \<subseteq> set (td_seenfns (fst s'))"
    "set (td_seenfns (fst s')) \<subseteq> set (td_seenfns (fst s)) \<union> set (dkeys (c_task_deps (snd s)))"
    "c_task_deps (snd s') = c_task_deps (snd s)"
    by (simp_all add: grows_def wide_def touched_def)
  show "(s', s) \<in> measures [new_recipes, \<lambda>s. open_targets (fst s)]"
  proof (cases "set (td_seenfns (fst s')) = set (td_seenfns (fst s))")
    case False
    then obtain f where "f \<in> set (td_seenfns (fst s'))" "f \<notin> set (td_seenfns (fst s))" using w by blast
    then have "new_recipes s' < new_recipes s"
      unfolding new_recipes_def using w by (intro card_less [of _ _ f]) auto
    then show ?thesis by simp
  next
    case True
    then have eq: "build_keys (fst s') = build_keys (fst s)" "run_keys (fst s') = run_keys (fst s)" "new_recipes s' = new_recipes s"
      using g w(3) by (simp_all add: grows_def new_recipes_def)
    let ?b = "\<lambda>s. {t \<in> build_keys (fst s). \<not> build_settled (fst s) t}"
    let ?r = "\<lambda>s. {t \<in> run_keys (fst s). \<not> run_settled (fst s) t}"
    have sub: "?b s' \<subseteq> ?b s" "?r s' \<subseteq> ?r s"
      using eq target_kindD(2) [OF target_kinds(1) g] target_kindD(2) [OF target_kinds(2) g] by auto
    have "(\<exists>t. t \<in> ?b s \<and> t \<notin> ?b s') \<or> (\<exists>t. t \<in> ?r s \<and> t \<notin> ?r s')"
      using all \<open>added \<noteq> 0\<close> True eq by auto
    then have "card (?b s') < card (?b s) \<or> card (?r s') < card (?r s)"
      using sub card_less [of "?b s" "?b s'"] card_less [of "?r s" "?r s'"] by auto
    moreover have "card (?b s') \<le> card (?b s)" "card (?r s') \<le> card (?r s)" using sub by (auto intro: card_mono)
    ultimately show ?thesis using eq(3) by (auto simp: open_targets_def)
  qed
qed

section \<open>The loop ends\<close>

lemma add_unresolved_ends:
  assumes "extra_ok extra"
  shows "tables_wf (fst s) \<Longrightarrow>
    \<exists>fuel r. snd r \<noteq> Some OutOfFuel \<and> (\<forall>k \<ge> fuel. add_unresolved re_match extra cfg k s = r)"
proof (induction s rule: wf_induct_rule [OF wf_measures [of "[new_recipes, \<lambda>s. open_targets (fst s)]"]])
  case (1 s)
  obtain s' added e where run: "resolve_round re_match extra cfg s = ((s', added), e)"
    by (cases "resolve_round re_match extra cfg s") auto
  note progress = round_progress [OF assms "1.prems" run]
  have step: "add_unresolved re_match extra cfg (Suc k) s =
      (case e of Some x \<Rightarrow> (s', Some x) | None \<Rightarrow> if added = 0 then (s', None) else add_unresolved re_match extra cfg k s')" for k
    using run by (simp split: option.split)
  show ?case
  proof (cases "e = None \<and> added \<noteq> 0")
    case True
    have "tables_wf (fst s')" using progress(2) "1.prems" by (simp add: grows_def wide_def touched_def)
    then obtain fuel r where r: "snd r \<noteq> Some OutOfFuel" "\<forall>k \<ge> fuel. add_unresolved re_match extra cfg k s' = r"
      using "1.IH" [OF progress(3)] True by blast
    have "add_unresolved re_match extra cfg k s = r" if k: "k \<ge> Suc fuel" for k
    proof -
      obtain j where "k = Suc j" "j \<ge> fuel" using k by (cases k) auto
      then show ?thesis using step [of j] r(2) True by (simp del: add_unresolved.simps)
    qed
    then show ?thesis using r(1) by blast
  next
    case False
    then have r: "add_unresolved re_match extra cfg (Suc k) s = (s', e)" for k
      using step by (cases e) (auto simp del: add_unresolved.simps)
    have "add_unresolved re_match extra cfg k s = (s', e)" if k: "k \<ge> 1" for k
      using k r [of "k - 1"] by (simp del: add_unresolved.simps)
    then show ?thesis using progress(1) by (intro exI [of _ 1] exI [of _ "(s', e)"]) simp
  qed
qed

text \<open>
  C35.  The loop of \<open>add_unresolved\<close> always comes to an end, whatever the mode and the exceptions on the way:
  from some number of rounds on the result is the same, and it is the one of a run that was not cut
  short.  The only hypothesis on the code in the metadata is that it leaves the tasks of the recipes alone.
\<close>
theorem add_unresolved_terminates:
  assumes "extra_ok extra" "dwf (td_build_targets td)" "dwf (td_run_targets td)"
  shows "\<exists>fuel td' c' e. e \<noteq> Some OutOfFuel \<and>
    (\<forall>k \<ge> fuel. add_unresolved re_match extra cfg k (td, c) = ((td', c'), e))"
proof -
  have "tables_wf (fst (td, c))" using assms(2,3) by (simp add: tables_wf_def)
  from add_unresolved_ends [OF assms(1) this] obtain fuel r where
    r: "snd r \<noteq> Some OutOfFuel" "\<forall>k \<ge> fuel. add_unresolved re_match extra cfg k (td, c) = r" by blast
  obtain td' c' e where "r = ((td', c'), e)" by (cases r) auto
  then show ?thesis using r by (intro exI [of _ fuel] exI [of _ td'] exI [of _ c'] exI [of _ e]) simp
qed

text \<open>Once the loop has ended, more rounds change nothing.\<close>

lemma add_unresolved_more:
  "add_unresolved re_match extra cfg k s = r \<Longrightarrow> snd r \<noteq> Some OutOfFuel \<Longrightarrow> k \<le> k' \<Longrightarrow>
    add_unresolved re_match extra cfg k' s = r"
proof (induction k arbitrary: s k')
  case 0
  then show ?case by auto
next
  case (Suc k)
  obtain j where j: "k' = Suc j" "k \<le> j" using Suc.prems(3) by (cases k') auto
  show ?case using Suc.prems(1,2) Suc.IH [OF _ _ j(2)] unfolding j(1) by (auto split: prod.splits option.splits if_splits)
qed

theorem add_unresolved_terminates_witness:
  "\<exists>fuel td' c'. (\<forall>k \<ge> fuel. add_unresolved (\<lambda>_ _. Some False) (\<lambda>_ _ c. Inr c) (\<lambda>_. None) k (example_request, example_recipes) =
      ((td', c'), None)) \<and>
    dget (td_build_targets td') ''zlib'' = Some [''zlib.bb''] \<and> td_failed_deps td' = [''nope'']"
proof -
  let ?run = "\<lambda>k. add_unresolved (\<lambda>_ _. Some False) (\<lambda>_ _ c. Inr c) (\<lambda>_. None) k (example_request, example_recipes)"
  let ?td = "example_request\<lparr>td_build_targets := [(''zlib'', [''zlib.bb'']), (''nope'', [])], td_seenfns := [''zlib.bb''],
     td_depids := [(''zlib.bb'', [])], td_rdepids := [(''zlib.bb'', [])], td_failed_deps := [''nope'']\<rparr>"
  have three: "?run 3 = ((?td, example_recipes), None)" by code_simp
  have "extra_ok (\<lambda>_ _ c. Inr c)" by (simp add: extra_ok_def)
  moreover have "dwf (td_build_targets example_request)" "dwf (td_run_targets example_request)"
    by (simp_all add: example_request_def new_taskdata_def dwf_def)
  ultimately obtain fuel td' c' e where k: "\<forall>k \<ge> fuel. ?run k = ((td', c'), e)"
    using add_unresolved_terminates [of "\<lambda>_ _ c. Inr c" example_request "\<lambda>_ _. Some False" "\<lambda>_. None" example_recipes] by blast
  have "?run (max fuel 3) = ((?td, example_recipes), None)" by (rule add_unresolved_more [OF three]) simp_all
  then have "((td', c'), e) = ((?td, example_recipes), None)" using k by (metis max.cobounded1)
  then show ?thesis using k by (intro exI [of _ fuel] exI [of _ td'] exI [of _ c']) simp
qed

end
